(* ===== verification/Prelude.thy ===== *)
theory Prelude
  imports Main "HOL-Library.Word" "HOL-Library.Multiset"
begin

text \<open>
  What every component of the development shares: the names of the C integer types, the ways a
  run of the program can end without returning, the collections of rewrite rules the component
  proofs use, and generic lemmas on words and lists.
\<close>

unbundle bit_operations_syntax

section \<open>Types and outcomes\<close>

type_synonym u8 = "8 word"
type_synonym u16 = "16 word"
type_synonym u32 = "32 word"
type_synonym u64 = "64 word"

text \<open>A thread, and an address of the C heap.\<close>

type_synonym tid = nat
type_synonym addr = nat

text \<open>
  The runtime has no exceptions: it returns, or it ends the process through one of its panic
  functions (iron\_panic.c) or through \<^verbatim>\<open>iron_oom_abort\<close> (iron\_oom.c). A
  modelled operation returns \<^theory_text>\<open>Inl\<close> of the way the process ended, or
  \<^theory_text>\<open>Inr\<close> of its result.
\<close>

datatype trap =
    Oom_Abort string
  | Panic_Receiver_Pinned u64
  | Panic_List_Pinned
  | Panic_Recv_Pinned
  | Panic_Stale_Gen u64
  | Panic_Stale_Stack u64
  | Panic_Stale_Pointer
  | Panic_Arena_Oom
  | Panic_Arena_Stale_Save
  | Panic_View_Range
  | Panic_Div_By_Zero
  | Panic_Negative_Shift int
  | Panic_Index_Oob int int

type_synonym 'a run = "trap + 'a"

text \<open>
  The allocator of the C library, as far as the code looks at it: whether a request of so many
  bytes is granted.
\<close>

type_synonym malloc_ok = "nat \<Rightarrow> bool"

named_theorems gen_simps \<open>generation words: fields of a generation\<close>
named_theorems step_simps \<open>one-step behaviour of the operations of a component\<close>

section \<open>Words\<close>

lemma word_eqI_bits:
  fixes a b :: "'a::len word"
  assumes "\<And>n. n < LENGTH('a) \<Longrightarrow> bit a n = bit b n"
  shows "a = b"
  using assms by (rule bit_word_eqI)

lemma bit_below_power:
  fixes w :: "'a::len word"
  assumes "w < 2 ^ k" and "k < LENGTH('a)" and "k \<le> n"
  shows "\<not> bit w n"
proof -
  have "w < push_bit k 1"
    using assms(1) by (simp add: push_bit_eq_mult)
  then have "take_bit k w = w"
    using assms(1,2) by (simp add: less_mask_eq take_bit_eq_mask)
  then have "bit w n = bit (take_bit k w) n" by simp
  with assms(3) show ?thesis by (simp add: bit_take_bit_iff)
qed

lemma take_bit_below_power:
  fixes w :: "'a::len word"
  assumes "w < 2 ^ k" and "k < LENGTH('a)"
  shows "take_bit k w = w"
  using assms by (simp add: less_mask_eq take_bit_eq_mask)

lemma and_mask_below:
  fixes w :: "'a::len word"
  assumes "k < LENGTH('a)"
  shows "w AND mask k < 2 ^ k"
  using assms by (simp add: and_mask_less')

lemma unat_of_nat_small: "n < 2 ^ LENGTH('a) \<Longrightarrow> unat (of_nat n :: 'a::len word) = n"
  by (simp add: unsigned_of_nat take_bit_nat_eq_self)

lemma nat_bit_high: "n < 2 ^ k \<Longrightarrow> k \<le> m \<Longrightarrow> \<not> bit (n::nat) m"
  by (metis bit_take_bit_iff leD take_bit_nat_eq_self)

section \<open>Results\<close>

lemma map_sum_Inr_iff: "map_sum f g x = Inr y \<longleftrightarrow> (\<exists>z. x = Inr z \<and> y = g z)"
  by (cases x) auto

section \<open>Lists\<close>

lemma distinct_swap_remove:
  assumes "distinct xs" and "i < length xs"
  shows "distinct (butlast (xs[i := last xs]))"
proof (cases "i = length xs - 1")
  case True
  with assms show ?thesis
    by (cases xs rule: rev_cases) (auto simp: list_update_append)
next
  case False
  with assms show ?thesis
    by (cases xs rule: rev_cases)
      (auto simp: list_update_append butlast_append distinct_list_update split: if_splits)
qed

section \<open>Characters and decimal numbers\<close>

text \<open>A C string is the list of its bytes before the terminating zero byte.\<close>

abbreviation NUL :: char where "NUL \<equiv> CHR 0x00"
abbreviation TAB :: char where "TAB \<equiv> CHR 0x09"
abbreviation NL :: char where "NL \<equiv> CHR 0x0A"
abbreviation CR :: char where "CR \<equiv> CHR 0x0D"
abbreviation QUOTE :: char where "QUOTE \<equiv> CHR 0x22"

definition code :: "char \<Rightarrow> nat" where
  "code c = of_char c"

lemma code_less: "code c < 256"
  by (simp add: code_def)

lemma code_inject [simp]: "code a = code b \<longleftrightarrow> a = b"
  by (simp add: code_def)

definition chr_of :: "nat \<Rightarrow> char" where
  "chr_of n = char_of n"

text \<open>The UTF-8 encoding of a code point, by its arithmetic.\<close>

definition utf8 :: "nat \<Rightarrow> string" where
  "utf8 cp =
     (if cp < 0x80 then [chr_of cp]
      else if cp < 0x800 then [chr_of (192 + cp div 64), chr_of (128 + cp mod 64)]
      else if cp < 0x10000 then
        [chr_of (224 + cp div 4096), chr_of (128 + cp div 64 mod 64), chr_of (128 + cp mod 64)]
      else [chr_of (240 + cp div 262144), chr_of (128 + cp div 4096 mod 64), chr_of (128 + cp div 64 mod 64),
            chr_of (128 + cp mod 64)])"

text \<open>The character classes of the C library in the C locale.\<close>

definition isdigit :: "char \<Rightarrow> bool" where
  "isdigit c \<longleftrightarrow> 48 \<le> code c \<and> code c \<le> 57"

definition isalpha :: "char \<Rightarrow> bool" where
  "isalpha c \<longleftrightarrow> (65 \<le> code c \<and> code c \<le> 90) \<or> (97 \<le> code c \<and> code c \<le> 122)"

definition isalnum :: "char \<Rightarrow> bool" where
  "isalnum c \<longleftrightarrow> isalpha c \<or> isdigit c"

text \<open>The decimal digits of a number, as \<^verbatim>\<open>%u\<close> and \<^verbatim>\<open>%lu\<close> print them.\<close>

definition digit_char :: "nat \<Rightarrow> char" where
  "digit_char d = char_of (48 + d)"

fun dec :: "nat \<Rightarrow> string" where
  "dec n = (if n < 10 then [digit_char n] else dec (n div 10) @ [digit_char (n mod 10)])"

declare dec.simps [simp del]

lemma code_digit [simp]: "d < 10 \<Longrightarrow> code (digit_char d) = 48 + d"
  by (simp add: code_def digit_char_def)

lemma isdigit_digit [simp]: "d < 10 \<Longrightarrow> isdigit (digit_char d)"
  by (simp add: isdigit_def)

definition dec_value :: "string \<Rightarrow> nat" where
  "dec_value s = foldl (\<lambda>a c. a * 10 + (code c - 48)) 0 s"

lemma dec_value_dec [simp]: "dec_value (dec n) = n"
proof (induction n rule: dec.induct)
  case (1 n)
  then show ?case by (subst dec.simps) (simp add: dec_value_def)
qed

lemma dec_digits: "list_all isdigit (dec n)"
proof (induction n rule: dec.induct)
  case (1 n)
  then show ?case by (subst dec.simps) simp
qed

lemma dec_nonempty [simp]: "dec n \<noteq> []"
  by (subst dec.simps) simp

section \<open>Runs of a component\<close>

text \<open>
  The runs of a labelled step relation from a first state: the events so far, the latest one
  first, and the state they lead to.
\<close>

inductive runs :: "('s \<Rightarrow> 'e \<Rightarrow> 's \<Rightarrow> bool) \<Rightarrow> 's \<Rightarrow> 'e list \<Rightarrow> 's \<Rightarrow> bool"
  for step :: "'s \<Rightarrow> 'e \<Rightarrow> 's \<Rightarrow> bool" and init :: 's where
  runs_init: "runs step init [] init"
| runs_step: "runs step init es s \<Longrightarrow> step s e t \<Longrightarrow> runs step init (e # es) t"

lemma runs_single: "step init e t \<Longrightarrow> runs step init [e] t"
  by (rule runs_step [OF runs_init])

lemma runs_invariant:
  assumes "runs step init es s" and "P init"
    and "\<And>s e t. P s \<Longrightarrow> step s e t \<Longrightarrow> P t"
  shows "P s"
  using assms(1) by (induction rule: runs.induct) (use assms(2,3) in blast)+

section \<open>Generations\<close>

text \<open>What happens to a generation in one step of a component that hands generations out.\<close>

datatype 'g gen_event = Issued 'g | Ended "'g set" | Silent

fun issued :: "'g gen_event list \<Rightarrow> 'g list" where
  "issued [] = []"
| "issued (Issued g # es) = g # issued es"
| "issued (_ # es) = issued es"

fun ended :: "'g gen_event list \<Rightarrow> 'g set" where
  "ended [] = {}"
| "ended (Ended A # es) = A \<union> ended es"
| "ended (_ # es) = ended es"

lemma set_issued: "set (issued es) = {g. Issued g \<in> set es}"
  by (induction es rule: issued.induct) auto

text \<open>
  The contract of a store of generations. \<open>alive\<close> is what the checks of the program
  accept, \<open>spent\<close> says that a generation can no longer be handed out.
\<close>

locale generations =
  fixes init :: 's
    and step :: "'s \<Rightarrow> 'g gen_event \<Rightarrow> 's \<Rightarrow> bool"
    and inv :: "'s \<Rightarrow> bool"
    and alive :: "'s \<Rightarrow> 'g \<Rightarrow> bool"
    and spent :: "'s \<Rightarrow> 'g \<Rightarrow> bool"
  assumes init_inv: "inv init"
    and init_alive: "\<not> alive init g"
    and step_inv: "inv s \<Longrightarrow> step s e t \<Longrightarrow> inv t"
    and step_alive: "inv s \<Longrightarrow> step s e t \<Longrightarrow> alive t g \<longleftrightarrow> (alive s g \<or> e = Issued g) \<and> g \<notin> ended [e]"
    and step_ended: "inv s \<Longrightarrow> step s (Ended A) t \<Longrightarrow> g \<in> A \<Longrightarrow> alive s g"
    and alive_spent: "inv s \<Longrightarrow> alive s g \<Longrightarrow> spent s g"
    and spent_mono: "inv s \<Longrightarrow> step s e t \<Longrightarrow> spent s g \<Longrightarrow> spent t g"
    and issued_fresh: "inv s \<Longrightarrow> step s (Issued g) t \<Longrightarrow> \<not> spent s g"
begin

lemma runs_inv: "runs step init es s \<Longrightarrow> inv s"
  by (erule runs_invariant) (use init_inv step_inv in blast)+

lemma runs_issued_spent: "runs step init es s \<Longrightarrow> Issued g \<in> set es \<Longrightarrow> spent s g"
proof (induction rule: runs.induct)
  case (runs_step es s e t)
  note inv = runs_inv [OF runs_step.hyps(1)]
  show ?case
  proof (cases "Issued g \<in> set es")
    case False
    with runs_step.prems have "e = Issued g" by auto
    with step_alive [OF inv runs_step.hyps(2), of g] have "alive t g" by simp
    with step_inv [OF inv runs_step.hyps(2)] show ?thesis by (rule alive_spent)
  qed (use runs_step spent_mono [OF inv] in blast)
qed simp

lemma runs_issued_distinct: "runs step init es s \<Longrightarrow> distinct (issued es)"
proof (induction rule: runs.induct)
  case (runs_step es s e t)
  show ?case
  proof (cases e)
    case (Issued g)
    with runs_step issued_fresh [OF runs_inv [OF runs_step.hyps(1)]] have "\<not> spent s g" by blast
    with runs_issued_spent [OF runs_step.hyps(1)] Issued runs_step.IH show ?thesis
      by (auto simp: set_issued)
  qed (use runs_step.IH in simp_all)
qed simp

lemma runs_ended_issued: "runs step init es s \<Longrightarrow> alive s g \<or> g \<in> ended es \<Longrightarrow> Issued g \<in> set es"
proof (induction rule: runs.induct)
  case runs_init
  then show ?case using init_alive by simp
next
  case (runs_step es s e t)
  note inv = runs_inv [OF runs_step.hyps(1)]
  from runs_step.prems runs_step.IH step_alive [OF inv runs_step.hyps(2), of g]
    step_ended [OF inv, of _ t g] runs_step.hyps(2)
  show ?case by (cases e) auto
qed

text \<open>The alive generations are exactly those handed out and not ended.\<close>

lemma runs_alive: "runs step init es s \<Longrightarrow> alive s g \<longleftrightarrow> Issued g \<in> set es \<and> g \<notin> ended es"
proof (induction rule: runs.induct)
  case runs_init
  then show ?case using init_alive by simp
next
  case (runs_step es s e t)
  note inv = runs_inv [OF runs_step.hyps(1)]
  have "e \<noteq> Issued g" if "g \<in> ended es"
    using runs_ended_issued [OF runs_step.hyps(1), of g] that
      runs_issued_spent [OF runs_step.hyps(1), of g] issued_fresh [OF inv] runs_step.hyps(2) by blast
  with runs_step.IH step_alive [OF inv runs_step.hyps(2), of g] show ?case by (cases e) auto
qed

end

text \<open>Worklists mark what they visit; the measure of a search is what is not marked yet.\<close>

definition unmarked :: "bool list \<Rightarrow> nat" where
  "unmarked r = length (filter Not r)"

lemma unmarked_update: "k < length r \<Longrightarrow> \<not> r ! k \<Longrightarrow> Suc (unmarked (r[k := True])) = unmarked r"
  by (induction r arbitrary: k) (auto simp: unmarked_def nth_Cons split: nat.splits)

end
