(* ===== verification/Gen_Table.thy ===== *)
theory Gen_Table
  imports Prelude
begin

text \<open>
  The generation table of the runtime (src/runtime/iron\_heap\_track.c, with the word layout and
  the inline check of src/runtime/iron\_runtime.h). A checked pointer carries a generation; the
  table says which generations are live. This theory models the table, its free-slot caches and
  the receiver pins, and proves that a generation that ended never becomes live again.
\<close>

section \<open>The layout of a generation\<close>

definition IRON_GEN_SLOT_TAG :: u64 where
  "IRON_GEN_SLOT_TAG = push_bit 62 1"

definition IRON_GEN_ARENA_BIT :: u64 where
  "IRON_GEN_ARENA_BIT = push_bit 61 1"

definition IRON_STACK_TAG :: u64 where
  "IRON_STACK_TAG = push_bit 63 1"

definition IRON_GEN_SEQ_MASK :: u64 where
  "IRON_GEN_SEQ_MASK = mask 31"

definition IRON_GEN_SLOT_OF :: "u64 \<Rightarrow> u32" where
  "IRON_GEN_SLOT_OF g = ucast (drop_bit 31 g AND mask 30)"

definition IRON_GEN_TCACHE :: nat where
  "IRON_GEN_TCACHE = 64"

text \<open>The word \<^verbatim>\<open>iron_gen_new\<close> builds from a slot and a sequence number.\<close>

definition gen_word :: "bool \<Rightarrow> u32 \<Rightarrow> u64 \<Rightarrow> u64" where
  "gen_word arena s seq =
     IRON_GEN_SLOT_TAG OR (if arena then IRON_GEN_ARENA_BIT else 0) OR
     push_bit 31 (ucast s) OR seq"

text \<open>The test at the head of \<^verbatim>\<open>iron_gen_end\<close>, \<^verbatim>\<open>iron_gen_pin\<close> and \<^verbatim>\<open>iron_gen_unpin\<close>.\<close>

definition gen_slot_form :: "u64 \<Rightarrow> bool" where
  "gen_slot_form g \<longleftrightarrow> g AND IRON_GEN_SLOT_TAG \<noteq> 0 \<and> g AND IRON_STACK_TAG = 0"

lemma bit_push_bit_1:
  "bit (push_bit k (1::'a::len word)) n \<longleftrightarrow> n = k \<and> k < LENGTH('a)"
  by (auto simp: bit_exp_iff)

lemma gen_layout_bits [gen_simps]:
  "bit IRON_GEN_SLOT_TAG n \<longleftrightarrow> n = 62"
  "bit IRON_GEN_ARENA_BIT n \<longleftrightarrow> n = 61"
  "bit IRON_STACK_TAG n \<longleftrightarrow> n = 63"
  "bit IRON_GEN_SEQ_MASK n \<longleftrightarrow> n < 31"
  by (auto simp only: IRON_GEN_SLOT_TAG_def IRON_GEN_ARENA_BIT_def IRON_STACK_TAG_def
        IRON_GEN_SEQ_MASK_def bit_push_bit_1 bit_mask_iff possible_bit_word) auto

lemma bit_slot_of [gen_simps]: "bit (IRON_GEN_SLOT_OF g) n \<longleftrightarrow> n < 30 \<and> bit g (31 + n)"
  by (auto simp: IRON_GEN_SLOT_OF_def bit_simps)

lemma bit_gen_word [gen_simps]:
  "bit (gen_word arena s seq) n \<longleftrightarrow>
     n = 62 \<or> arena \<and> n = 61 \<or> 31 \<le> n \<and> n < 64 \<and> bit s (n - 31) \<or> bit seq n"
  by (auto simp: gen_word_def gen_layout_bits bit_simps)

lemma gen_slot_form_bits: "gen_slot_form g \<longleftrightarrow> bit g 62 \<and> \<not> bit g 63"
proof -
  have tag: "g AND w = 0 \<longleftrightarrow> \<not> bit g k" if w: "\<And>n. bit w n \<longleftrightarrow> n = k" for w :: u64 and k
  proof
    assume "g AND w = 0"
    then have "\<not> bit (g AND w) k" by simp
    with w show "\<not> bit g k" by (simp add: bit_and_iff)
  next
    assume "\<not> bit g k"
    with w show "g AND w = 0" by (auto intro: word_eqI_bits simp: bit_and_iff)
  qed
  show ?thesis
    by (simp add: gen_slot_form_def tag [OF gen_layout_bits(1)] tag [OF gen_layout_bits(3)])
qed

lemma gen_word_slot [gen_simps]:
  assumes "s < 2 ^ 30" and "seq < 2 ^ 31"
  shows "IRON_GEN_SLOT_OF (gen_word arena s seq) = s"
proof (rule word_eqI_bits)
  fix n :: nat
  have "30 \<le> n \<Longrightarrow> \<not> bit s n" and "\<not> bit seq (31 + n)"
    using bit_below_power [OF assms(1)] bit_below_power [OF assms(2)] by simp_all
  then show "bit (IRON_GEN_SLOT_OF (gen_word arena s seq)) n = bit s n"
    by (auto simp: bit_slot_of bit_gen_word not_le [symmetric])
qed

lemma gen_word_seq [gen_simps]:
  assumes "seq < 2 ^ 31"
  shows "gen_word arena s seq AND IRON_GEN_SEQ_MASK = seq"
proof (rule word_eqI_bits)
  fix n :: nat
  have "31 \<le> n \<Longrightarrow> \<not> bit seq n"
    using bit_below_power [OF assms] by simp
  then show "bit (gen_word arena s seq AND IRON_GEN_SEQ_MASK) n = bit seq n"
    by (auto simp: bit_gen_word gen_layout_bits bit_simps not_le [symmetric])
qed

lemma gen_word_slot_form [gen_simps]:
  assumes "s < 2 ^ 30" and "seq < 2 ^ 31"
  shows "gen_slot_form (gen_word arena s seq)"
  using bit_below_power [OF assms(1), of 32] bit_below_power [OF assms(2), of 63]
  by (auto simp: gen_slot_form_bits bit_gen_word)

text \<open>Ending a generation only sets the tag bit: slot and sequence number stay.\<close>

lemma dead_seq [gen_simps]: "(g OR IRON_STACK_TAG) AND IRON_GEN_SEQ_MASK = g AND IRON_GEN_SEQ_MASK"
  by (rule word_eqI_bits) (auto simp: gen_layout_bits bit_simps)

lemma dead_not_slot_form [gen_simps]: "\<not> gen_slot_form (g OR IRON_STACK_TAG)"
  by (simp add: gen_slot_form_bits gen_layout_bits bit_simps)

section \<open>The table and its free slots\<close>

text \<open>
  \<open>gen_chunks\<close> is the two-level table: chunks are allocated on first use and never freed.
  \<open>t_gen_free\<close> is the thread-local cache \<^verbatim>\<open>t_gen_free\<close> of each thread and
  \<open>s_gen_free\<close> the global stack; both lists have the top of the C array (the last used
  element) at their head. The pins are in array order.
\<close>

record gen_state =
  gen_chunks :: "u32 \<Rightarrow> (u32 \<Rightarrow> u64) option"
  t_gen_free :: "tid \<Rightarrow> u32 list"
  s_gen_free :: "u32 list"
  s_gen_cap :: nat
  s_gen_fresh :: u32
  s_gpins :: "u64 list"
  s_gpincap :: nat
  gen_pin_count :: u64

definition gen_init :: gen_state where
  "gen_init = \<lparr>gen_chunks = (\<lambda>_. None), t_gen_free = (\<lambda>_. []), s_gen_free = [], s_gen_cap = 0,
     s_gen_fresh = 1, s_gpins = [], s_gpincap = 0, gen_pin_count = 0\<rparr>"

definition chunk_of :: "u32 \<Rightarrow> u32" where
  "chunk_of s = drop_bit 16 s"

definition chunk_off :: "u32 \<Rightarrow> u32" where
  "chunk_off s = s AND mask 16"

lemma chunk_inj: "chunk_of s = chunk_of s' \<Longrightarrow> chunk_off s = chunk_off s' \<Longrightarrow> s = s'"
proof (rule word_eqI_bits)
  fix n :: nat
  assume h: "chunk_of s = chunk_of s'" "chunk_off s = chunk_off s'" and n: "n < LENGTH(32)"
  show "bit s n = bit s' n"
  proof (cases "n < 16")
    case True
    have "bit (chunk_off s) n = bit (chunk_off s') n" using h(2) by simp
    with True n show ?thesis by (simp add: chunk_off_def bit_simps)
  next
    case False
    have "bit (chunk_of s) (n - 16) = bit (chunk_of s') (n - 16)" using h(1) by simp
    with False n show ?thesis by (simp add: chunk_of_def bit_simps)
  qed
qed

text \<open>The entry of a slot; absent while its chunk has not been allocated.\<close>

definition gen_at :: "gen_state \<Rightarrow> u32 \<Rightarrow> u64 option" where
  "gen_at st s = map_option (\<lambda>c. c (chunk_off s)) (gen_chunks st (chunk_of s))"

definition gen_store :: "u32 \<Rightarrow> u64 \<Rightarrow> gen_state \<Rightarrow> gen_state" where
  "gen_store s v st = (case gen_chunks st (chunk_of s) of
     None \<Rightarrow> st
   | Some c \<Rightarrow> st\<lparr>gen_chunks := (gen_chunks st)(chunk_of s \<mapsto> c(chunk_off s := v))\<rparr>)"

definition gen_entry :: "malloc_ok \<Rightarrow> u32 \<Rightarrow> gen_state \<Rightarrow> gen_state run" where
  "gen_entry ok slot st = (case gen_chunks st (chunk_of slot) of
     Some _ \<Rightarrow> Inr st
   | None \<Rightarrow>
       if \<not> ok (2 ^ 16 * 8) then Inl (Oom_Abort ''generation table'')
       else let c = (if chunk_of slot = 0 then (\<lambda>_. 0)(0 := IRON_STACK_TAG) else (\<lambda>_. 0))
            in Inr (st\<lparr>gen_chunks := (gen_chunks st)(chunk_of slot \<mapsto> c)\<rparr>))"

text \<open>The loop of \<^verbatim>\<open>gen_take_slot\<close> that refills half of the thread's cache.\<close>

fun gen_refill :: "u32 list \<Rightarrow> u32 list \<Rightarrow> u32 list \<times> u32 list" where
  "gen_refill t [] = (t, [])"
| "gen_refill t (x # s) =
     (if length t < IRON_GEN_TCACHE div 2 then gen_refill (x # t) s else (t, x # s))"

definition gen_take_slot :: "tid \<Rightarrow> gen_state \<Rightarrow> (u32 \<times> gen_state) run" where
  "gen_take_slot i st = (case t_gen_free st i of
     x # xs \<Rightarrow> Inr (x, st\<lparr>t_gen_free := (t_gen_free st)(i := xs)\<rparr>)
   | [] \<Rightarrow>
     (case gen_refill [] (s_gen_free st) of
        (x # xs, s) \<Rightarrow> Inr (x, st\<lparr>t_gen_free := (t_gen_free st)(i := xs), s_gen_free := s\<rparr>)
      | ([], s) \<Rightarrow>
          let f = s_gen_fresh st in
          if f \<ge> push_bit 30 1
          then Inl (Oom_Abort ''generation table: too many live allocations'')
          else Inr (f, st\<lparr>s_gen_free := s, s_gen_fresh := f + 1\<rparr>)))"

text \<open>The loop of \<^verbatim>\<open>gen_give_slot\<close> that spills half of a full cache.\<close>

fun gen_spill :: "u32 list \<Rightarrow> u32 list \<Rightarrow> u32 list \<times> u32 list" where
  "gen_spill [] s = ([], s)"
| "gen_spill (x # t) s =
     (if length (x # t) > IRON_GEN_TCACHE div 2 then gen_spill t (x # s) else (x # t, s))"

definition gen_give_slot :: "malloc_ok \<Rightarrow> tid \<Rightarrow> u32 \<Rightarrow> gen_state \<Rightarrow> gen_state run" where
  "gen_give_slot ok i s st =
     (let t = t_gen_free st i in
      if length t = IRON_GEN_TCACHE then
        let grow = length (s_gen_free st) + IRON_GEN_TCACHE div 2 > s_gen_cap st;
            cap = (if s_gen_cap st = 0 then 1024 else s_gen_cap st * 2) in
        if grow \<and> \<not> ok (cap * 4) then Inl (Oom_Abort ''generation table'')
        else let (t', g') = gen_spill t (s_gen_free st) in
             Inr (st\<lparr>t_gen_free := (t_gen_free st)(i := s # t'), s_gen_free := g',
                      s_gen_cap := (if grow then cap else s_gen_cap st)\<rparr>)
      else Inr (st\<lparr>t_gen_free := (t_gen_free st)(i := s # t)\<rparr>))"

text \<open>How many slots \<^verbatim>\<open>gen_take_slot\<close> can still hand out to a thread.\<close>

definition gen_supply :: "tid \<Rightarrow> gen_state \<Rightarrow> nat" where
  "gen_supply i st =
     length (t_gen_free st i) + length (s_gen_free st) + (2 ^ 30 - unat (s_gen_fresh st))"

lemma gen_refill_length:
  "gen_refill t s = (t', s') \<Longrightarrow> length t' + length s' = length t + length s"
  by (induction t s rule: gen_refill.induct) (auto split: if_splits)

lemma gen_refill_mset:
  "gen_refill t s = (t', s') \<Longrightarrow> mset t' + mset s' = mset t + mset s"
  by (induction t s rule: gen_refill.induct) (auto split: if_splits)

lemma gen_refill_Nil: "gen_refill t s = ([], s') \<Longrightarrow> t = [] \<and> s = [] \<and> s' = []"
  by (induction t s rule: gen_refill.induct) (auto simp: IRON_GEN_TCACHE_def split: if_splits)

lemma gen_spill_mset:
  "gen_spill t s = (t', s') \<Longrightarrow> mset t' + mset s' = mset t + mset s"
  by (induction t s rule: gen_spill.induct) (auto split: if_splits)

lemma push_bit_30: "push_bit 30 (1::u32) = 2 ^ 30"
  by simp

lemma unat_Suc_fresh:
  fixes f :: u32
  assumes "f < 2 ^ 30"
  shows "unat (f + 1) = Suc (unat f)" and "unat f < 2 ^ 30"
proof -
  show b: "unat f < 2 ^ 30" using assms by (simp add: word_less_nat_alt)
  then show "unat (f + 1) = Suc (unat f)"
    by (simp add: unat_word_ariths)
qed

lemma gen_take_slot_supply:
  assumes "gen_take_slot i st = Inr (s, st')"
  shows "gen_supply i st' < gen_supply i st"
proof (cases "t_gen_free st i")
  case (Cons x xs)
  with assms show ?thesis
    by (auto simp: gen_take_slot_def gen_supply_def)
next
  case Nil
  obtain t g where r: "gen_refill [] (s_gen_free st) = (t, g)"
    by (cases "gen_refill [] (s_gen_free st)")
  show ?thesis
  proof (cases t)
    case (Cons x xs)
    with assms Nil r gen_refill_length [OF r] show ?thesis
      by (auto simp: gen_take_slot_def gen_supply_def)
  next
    case t: Nil
    with assms Nil r gen_refill_Nil [of "[]" "s_gen_free st" g]
    have f: "s_gen_fresh st < 2 ^ 30" and "st' = st\<lparr>s_gen_free := g, s_gen_fresh := s_gen_fresh st + 1\<rparr>"
      "s_gen_free st = []" "g = []"
      by (auto simp: gen_take_slot_def Let_def not_le split: if_splits)
    with Nil unat_Suc_fresh [OF f] show ?thesis
      by (simp add: gen_supply_def)
  qed
qed

lemma gen_entry_supply: "gen_entry ok s st = Inr st' \<Longrightarrow> gen_supply i st' = gen_supply i st"
  by (auto simp: gen_entry_def gen_supply_def Let_def split: option.splits if_splits)


section \<open>New generations, ended generations, pins\<close>

function iron_gen_new :: "malloc_ok \<Rightarrow> tid \<Rightarrow> bool \<Rightarrow> gen_state \<Rightarrow> (u64 \<times> gen_state) run" where
  "iron_gen_new ok i arena st = (case gen_take_slot i st of
     Inl e \<Rightarrow> Inl e
   | Inr (s, st1) \<Rightarrow>
     (case gen_entry ok s st1 of
        Inl e \<Rightarrow> Inl e
      | Inr st2 \<Rightarrow>
          let seq = (the (gen_at st2 s) AND IRON_GEN_SEQ_MASK) + 1 in
          if seq > IRON_GEN_SEQ_MASK then iron_gen_new ok i arena st2
          else let g = gen_word arena s seq in Inr (g, gen_store s g st2)))"
  by pat_completeness auto
termination
  by (relation "measure (\<lambda>(ok, i, arena, st). gen_supply i st)")
    (auto dest: gen_take_slot_supply simp: gen_entry_supply)

declare iron_gen_new.simps [simp del]

definition iron_gen_live :: "gen_state \<Rightarrow> u64 \<Rightarrow> bool" where
  "iron_gen_live st g \<longleftrightarrow> gen_at st (IRON_GEN_SLOT_OF g) = Some g"

definition iron_gen_pin :: "malloc_ok \<Rightarrow> u64 \<Rightarrow> gen_state \<Rightarrow> gen_state run" where
  "iron_gen_pin ok g st =
     (if \<not> gen_slot_form g then Inr st
      else let grow = (length (s_gpins st) = s_gpincap st);
               cap = (if s_gpincap st = 0 then 16 else s_gpincap st * 2) in
        if grow \<and> \<not> ok (cap * 8) then Inl (Oom_Abort ''receiver pins'')
        else Inr (st\<lparr>s_gpins := s_gpins st @ [g],
                     s_gpincap := (if grow then cap else s_gpincap st),
                     gen_pin_count := gen_pin_count st + 1\<rparr>))"

text \<open>The search of \<^verbatim>\<open>iron_gen_unpin\<close> runs down from the last pin: the index found, if any.\<close>

fun unpin_scan :: "u64 list \<Rightarrow> u64 \<Rightarrow> nat \<Rightarrow> nat option" where
  "unpin_scan pins g 0 = None"
| "unpin_scan pins g (Suc i) = (if pins ! i \<noteq> g then unpin_scan pins g i else Some i)"

definition iron_gen_unpin :: "u64 \<Rightarrow> gen_state \<Rightarrow> gen_state" where
  "iron_gen_unpin g st =
     (if \<not> gen_slot_form g then st
      else (case unpin_scan (s_gpins st) g (length (s_gpins st)) of
              None \<Rightarrow> st
            | Some i \<Rightarrow> st\<lparr>s_gpins := butlast ((s_gpins st)[i := last (s_gpins st)]),
                         gen_pin_count := gen_pin_count st - 1\<rparr>))"

definition gen_is_pinned :: "gen_state \<Rightarrow> u64 \<Rightarrow> bool" where
  "gen_is_pinned st g \<longleftrightarrow> List.member (s_gpins st) g"

definition iron_gen_end :: "malloc_ok \<Rightarrow> tid \<Rightarrow> u64 \<Rightarrow> gen_state \<Rightarrow> (bool \<times> gen_state) run" where
  "iron_gen_end ok i g st =
     (if \<not> gen_slot_form g then Inr (False, st)
      else if gen_pin_count st \<noteq> 0 \<and> gen_is_pinned st g \<and> iron_gen_live st g
      then Inl (Panic_Receiver_Pinned g)
      else let s = IRON_GEN_SLOT_OF g in
        if s = 0 then Inr (False, st)
        else (case gen_at st s of
                None \<Rightarrow> Inr (False, st)
              | Some v \<Rightarrow>
                  if v \<noteq> g then Inr (False, st)
                  else let st1 = gen_store s (g OR IRON_STACK_TAG) st in
                    if g AND IRON_GEN_SEQ_MASK < IRON_GEN_SEQ_MASK
                    then map_sum id (\<lambda>st2. (True, st2)) (gen_give_slot ok i s st1)
                    else Inr (True, st1)))"

text \<open>The loop of \<^verbatim>\<open>iron_gen_thread_exit\<close> that doubles the capacity of the free stack until \<open>n\<close> fit.\<close>

function cap_double :: "nat \<Rightarrow> nat \<Rightarrow> nat" where
  "cap_double cap n = (if 0 < cap \<and> cap < n then cap_double (cap * 2) n else cap)"
  by pat_completeness auto
termination
  by (relation "measure (\<lambda>(cap, n). n - cap)") auto

declare cap_double.simps [simp del]

definition thread_exit_cap :: "nat \<Rightarrow> nat \<Rightarrow> nat" where
  "thread_exit_cap cap n = cap_double (if cap = 0 then 1024 else cap * 2) n"

definition iron_gen_thread_exit :: "malloc_ok \<Rightarrow> tid \<Rightarrow> gen_state \<Rightarrow> gen_state" where
  "iron_gen_thread_exit ok i st =
     (let t = t_gen_free st i; n = length (s_gen_free st) + length t in
      if t = [] then st
      else if n > s_gen_cap st \<and> \<not> ok (thread_exit_cap (s_gen_cap st) n * 4) then st
      else st\<lparr>t_gen_free := (t_gen_free st)(i := []),
              s_gen_free := rev t @ s_gen_free st,
              s_gen_cap := (if n > s_gen_cap st then thread_exit_cap (s_gen_cap st) n
                            else s_gen_cap st)\<rparr>)"

section \<open>The invariant of the table\<close>

text \<open>
  A slot is free when some cache or the global stack holds it. Free slots are held once, were
  issued before and hold a dead entry whose sequence number is not exhausted; a slot never issued
  has an untouched entry; every used entry names its own slot.
\<close>

definition gen_seq :: "gen_state \<Rightarrow> u32 \<Rightarrow> u64" where
  "gen_seq st s = (case gen_at st s of None \<Rightarrow> 0 | Some v \<Rightarrow> v AND IRON_GEN_SEQ_MASK)"

definition gen_free_once :: "gen_state \<Rightarrow> bool" where
  "gen_free_once st \<longleftrightarrow>
     distinct (s_gen_free st) \<and> (\<forall>i. distinct (t_gen_free st i)) \<and>
     (\<forall>i. set (t_gen_free st i) \<inter> set (s_gen_free st) = {}) \<and>
     (\<forall>i j. i \<noteq> j \<longrightarrow> set (t_gen_free st i) \<inter> set (t_gen_free st j) = {})"

definition gen_free_slots :: "gen_state \<Rightarrow> u32 set" where
  "gen_free_slots st = set (s_gen_free st) \<union> (\<Union>i. set (t_gen_free st i))"

definition free_slot_ok :: "gen_state \<Rightarrow> u32 \<Rightarrow> bool" where
  "free_slot_ok st s \<longleftrightarrow> 0 < s \<and> s < s_gen_fresh st \<and>
     (\<exists>v. gen_at st s = Some v \<and> bit v 63 \<and> v AND IRON_GEN_SEQ_MASK < IRON_GEN_SEQ_MASK)"

definition entry_ok :: "gen_state \<Rightarrow> u32 \<Rightarrow> u64 \<Rightarrow> bool" where
  "entry_ok st s v \<longleftrightarrow>
     (if s = 0 then v = IRON_STACK_TAG
      else if s < s_gen_fresh st then IRON_GEN_SLOT_OF v = s else v = 0)"

definition gen_inv :: "gen_state \<Rightarrow> bool" where
  "gen_inv st \<longleftrightarrow>
     1 \<le> s_gen_fresh st \<and> s_gen_fresh st \<le> 2 ^ 30 \<and> gen_free_once st \<and>
     (\<forall>s\<in>gen_free_slots st. free_slot_ok st s) \<and>
     (\<forall>s v. gen_at st s = Some v \<longrightarrow> entry_ok st s v) \<and>
     (\<forall>s. 0 < s \<and> s < s_gen_fresh st \<longrightarrow> gen_at st s \<noteq> None) \<and>
     gen_pin_count st = of_nat (length (s_gpins st))"

text \<open>A generation is alive when it has the slot form and the check accepts it.\<close>

definition gen_alive :: "gen_state \<Rightarrow> u64 \<Rightarrow> bool" where
  "gen_alive st g \<longleftrightarrow> gen_slot_form g \<and> iron_gen_live st g"

text \<open>A generation is spent when its slot has reached its sequence number.\<close>

definition gen_spent :: "gen_state \<Rightarrow> u64 \<Rightarrow> bool" where
  "gen_spent st g \<longleftrightarrow> g AND IRON_GEN_SEQ_MASK \<le> gen_seq st (IRON_GEN_SLOT_OF g)"

lemma gen_alive_spent: "gen_alive st g \<Longrightarrow> gen_spent st g"
  by (simp add: gen_alive_def gen_spent_def iron_gen_live_def gen_seq_def)

lemma gen_at_store [simp]:
  "gen_at (gen_store s v st) s' =
     (if s = s' then map_option (\<lambda>_. v) (gen_at st s) else gen_at st s')"
proof (cases "s = s'")
  case True
  then show ?thesis by (simp add: gen_at_def gen_store_def split: option.split)
next
  case False
  then have "chunk_of s' \<noteq> chunk_of s \<or> chunk_off s' \<noteq> chunk_off s"
    using chunk_inj by blast
  with False show ?thesis
    by (cases "gen_chunks st (chunk_of s)"; cases "chunk_of s' = chunk_of s")
      (simp_all add: gen_at_def gen_store_def)
qed

lemma gen_store_fields [simp]:
  "t_gen_free (gen_store s v st) = t_gen_free st" "s_gen_free (gen_store s v st) = s_gen_free st"
  "s_gen_cap (gen_store s v st) = s_gen_cap st" "s_gen_fresh (gen_store s v st) = s_gen_fresh st"
  "s_gpins (gen_store s v st) = s_gpins st" "s_gpincap (gen_store s v st) = s_gpincap st"
  "gen_pin_count (gen_store s v st) = gen_pin_count st"
  by (simp_all add: gen_store_def split: option.splits)

lemma gen_at_cong:
  "gen_chunks st' = gen_chunks st \<Longrightarrow> gen_at st' s = gen_at st s"
  by (simp add: gen_at_def)

lemma chunk_of_0: "chunk_of s = 0 \<Longrightarrow> chunk_off s = 0 \<Longrightarrow> s = 0"
  using chunk_inj [of s 0] by (simp add: chunk_of_def chunk_off_def)

lemma chunk_0 [simp]: "chunk_of 0 = 0" "chunk_off 0 = 0"
  by (simp_all add: chunk_of_def chunk_off_def)

text \<open>Allocating a chunk adds untouched entries only.\<close>

lemma gen_entry_at:
  assumes "gen_entry ok s st = Inr st'"
  shows "gen_at st' s' = (case gen_at st s' of Some v \<Rightarrow> Some v
      | None \<Rightarrow> if chunk_of s' = chunk_of s then Some (if s' = 0 then IRON_STACK_TAG else 0) else None)"
  using assms chunk_of_0 [of s']
  by (auto simp: gen_entry_def gen_at_def Let_def split: option.splits if_splits)

lemma gen_entry_fields:
  assumes "gen_entry ok s st = Inr st'"
  shows "t_gen_free st' = t_gen_free st" "s_gen_free st' = s_gen_free st"
    "s_gen_cap st' = s_gen_cap st" "s_gen_fresh st' = s_gen_fresh st"
    "s_gpins st' = s_gpins st" "s_gpincap st' = s_gpincap st"
    "gen_pin_count st' = gen_pin_count st"
  using assms by (auto simp: gen_entry_def Let_def split: option.splits if_splits)

lemma stack_tag_seq [simp]: "IRON_STACK_TAG AND IRON_GEN_SEQ_MASK = 0"
  by (rule word_eqI_bits) (auto simp: gen_layout_bits bit_simps)

lemma gen_entry_seq:
  "gen_entry ok s st = Inr st' \<Longrightarrow> gen_seq st' s' = gen_seq st s'"
  by (auto simp: gen_seq_def gen_entry_at split: option.splits if_splits)

lemma gen_entry_materialised: "gen_entry ok s st = Inr st' \<Longrightarrow> gen_at st' s \<noteq> None"
  by (auto simp: gen_entry_at split: option.splits)

lemma gen_entry_alive:
  assumes "gen_entry ok s st = Inr st'"
  shows "gen_alive st' g \<longleftrightarrow> gen_alive st g"
proof -
  have "g \<noteq> IRON_STACK_TAG \<and> g \<noteq> 0" if "gen_slot_form g"
    using that by (auto simp: gen_slot_form_bits gen_layout_bits)
  then show ?thesis
    by (auto simp: gen_alive_def iron_gen_live_def gen_entry_at [OF assms] split: option.splits)
qed

text \<open>The free slots seen from one thread: its cache and the global stack, and the other caches.\<close>

definition gen_others :: "gen_state \<Rightarrow> tid \<Rightarrow> u32 set" where
  "gen_others st i = (\<Union>j\<in>-{i}. set (t_gen_free st j))"

lemma gen_free_slots_split:
  "gen_free_slots st = set (t_gen_free st i @ s_gen_free st) \<union> gen_others st i"
  unfolding gen_free_slots_def gen_others_def by (cases "i \<in> UNIV") auto

lemma gen_free_once_split:
  assumes "gen_free_once st"
  shows "distinct (t_gen_free st i @ s_gen_free st)"
    and "set (t_gen_free st i @ s_gen_free st) \<inter> gen_others st i = {}"
  using assms by (auto simp: gen_free_once_def gen_others_def) blast+

lemma gen_free_updI:
  assumes "gen_free_once st" and "t_gen_free st' = (t_gen_free st)(i := xs)" and "s_gen_free st' = g"
    and "distinct (xs @ g)" and "set (xs @ g) \<inter> gen_others st i = {}"
  shows "gen_free_once st'" and "gen_free_slots st' = set (xs @ g) \<union> gen_others st i"
proof -
  have o: "set xs \<inter> set (t_gen_free st j) = {}" "set g \<inter> set (t_gen_free st j) = {}" if "j \<noteq> i" for j
    using assms(5) that by (auto simp: gen_others_def)
  have d: "distinct (t_gen_free st j)" for j
    using assms(1) by (simp add: gen_free_once_def)
  have p: "set (t_gen_free st j) \<inter> set (t_gen_free st k) = {}" if "j \<noteq> k" for j k
    using assms(1) that by (simp add: gen_free_once_def)
  show "gen_free_once st'"
    unfolding gen_free_once_def assms(2,3)
    using assms(4) o d p by (simp add: Int_commute)
  show "gen_free_slots st' = set (xs @ g) \<union> gen_others st i"
    using assms(2,3) by (simp add: gen_free_slots_split [of st' i] gen_others_def)
qed

text \<open>
  What taking a slot does: it comes out of the free slots, or it is the next fresh one; nothing
  else changes.
\<close>

lemma gen_take_slot_cases:
  assumes "gen_take_slot i st = Inr (s, st1)"
  obtains (free) xs g where "mset (s # xs @ g) = mset (t_gen_free st i @ s_gen_free st)"
      "st1 = st\<lparr>t_gen_free := (t_gen_free st)(i := xs), s_gen_free := g\<rparr>"
  | (fresh) "s = s_gen_fresh st" "s < 2 ^ 30" "st1 = st\<lparr>s_gen_fresh := s + 1\<rparr>"
proof (cases "t_gen_free st i")
  case (Cons x xs)
  with assms show thesis
    by (intro free [of xs "s_gen_free st"]) (auto simp: gen_take_slot_def)
next
  case Nil
  obtain t g where r: "gen_refill [] (s_gen_free st) = (t, g)"
    by (cases "gen_refill [] (s_gen_free st)")
  show thesis
  proof (cases t)
    case (Cons x xs)
    with assms Nil r gen_refill_mset [OF r] show thesis
      by (intro free [of xs g]) (auto simp: gen_take_slot_def)
  next
    case t: Nil
    then have "g = s_gen_free st"
      using gen_refill_Nil [of "[]" "s_gen_free st" g] r by simp
    with assms Nil r t show thesis
      by (intro fresh) (auto simp: gen_take_slot_def Let_def not_le split: if_splits)
  qed
qed

lemma gen_take_slot_frame:
  assumes "gen_take_slot i st = Inr (s, st1)"
  shows "gen_chunks st1 = gen_chunks st" "s_gpins st1 = s_gpins st"
    "s_gpincap st1 = s_gpincap st" "gen_pin_count st1 = gen_pin_count st"
  using assms by (auto elim: gen_take_slot_cases)

lemma gen_take_slot_free:
  assumes inv: "gen_inv st" and take: "gen_take_slot i st = Inr (s, st1)"
  shows "gen_free_once st1 \<and> gen_free_slots st1 = gen_free_slots st - {s}"
proof -
  have once: "gen_free_once st" and lt: "\<And>x. x \<in> gen_free_slots st \<Longrightarrow> x < s_gen_fresh st"
    using inv by (auto simp: gen_inv_def free_slot_ok_def)
  note sp = gen_free_once_split [OF once, of i]
  from take show ?thesis
  proof (cases rule: gen_take_slot_cases)
    case (free xs g)
    have "distinct (s # xs @ g)"
      using sp(1) free(1) by (metis mset_eq_imp_distinct_iff)
    moreover have "set (s # xs @ g) = set (t_gen_free st i @ s_gen_free st)"
      using free(1) by (metis set_mset_mset)
    ultimately show ?thesis
      using gen_free_updI [OF once, of st1 i xs g] free(2) sp(2)
      by (auto simp: gen_free_slots_split [of st i])
  next
    case fresh
    with once lt [of s] show ?thesis
      by (auto simp: gen_free_once_def gen_free_slots_def)
  qed
qed

lemma gen_take_slot_slot:
  assumes inv: "gen_inv st" and take: "gen_take_slot i st = Inr (s, st1)"
  shows "(s \<in> gen_free_slots st \<and> s_gen_fresh st1 = s_gen_fresh st) \<or>
     (s = s_gen_fresh st \<and> s < 2 ^ 30 \<and> s_gen_fresh st1 = s + 1)"
  using take
proof (cases rule: gen_take_slot_cases)
  case (free xs g)
  have "s \<in> set (t_gen_free st i @ s_gen_free st)"
    using free(1) by (metis list.set_intros(1) set_mset_mset)
  with free(2) show ?thesis by (auto simp: gen_free_slots_split [of st i])
qed auto

section \<open>Laws of the operations\<close>

lemma gen_seq_mask: "IRON_GEN_SEQ_MASK < 2 ^ 31"
  by (simp add: IRON_GEN_SEQ_MASK_def mask_eq_exp_minus_1)

lemma gen_taken_slot:
  assumes inv: "gen_inv st" and take: "gen_take_slot i st = Inr (s, st1)"
  shows "0 < s" "s < 2 ^ 30" "s < s_gen_fresh st1" "s_gen_fresh st \<le> s_gen_fresh st1"
    "s_gen_fresh st1 \<le> 2 ^ 30" "gen_seq st s < IRON_GEN_SEQ_MASK"
    "gen_at st s = Some v \<Longrightarrow> v = 0 \<or> bit v 63"
    "\<And>x. x < s_gen_fresh st1 \<Longrightarrow> x \<noteq> s \<Longrightarrow> x < s_gen_fresh st"
proof -
  have f: "1 \<le> s_gen_fresh st" "s_gen_fresh st \<le> 2 ^ 30"
    and e: "\<And>s v. gen_at st s = Some v \<Longrightarrow> entry_ok st s v"
    and fr: "\<And>s. s \<in> gen_free_slots st \<Longrightarrow> free_slot_ok st s"
    using inv by (auto simp: gen_inv_def)
  have M: "(0::u64) < IRON_GEN_SEQ_MASK"
    by (simp add: IRON_GEN_SEQ_MASK_def mask_eq_exp_minus_1)
  have main: "0 < s \<and> s < 2 ^ 30 \<and> s < s_gen_fresh st1 \<and> s_gen_fresh st \<le> s_gen_fresh st1 \<and>
    s_gen_fresh st1 \<le> 2 ^ 30 \<and> gen_seq st s < IRON_GEN_SEQ_MASK \<and>
    (\<forall>v. gen_at st s = Some v \<longrightarrow> v = 0 \<or> bit v 63) \<and>
    (\<forall>x. x < s_gen_fresh st1 \<longrightarrow> x \<noteq> s \<longrightarrow> x < s_gen_fresh st)"
    using gen_take_slot_slot [OF inv take]
  proof (elim disjE conjE)
    assume "s \<in> gen_free_slots st" and eq: "s_gen_fresh st1 = s_gen_fresh st"
    then have "free_slot_ok st s" using fr by simp
    with eq f show ?thesis
      by (auto simp: free_slot_ok_def gen_seq_def)
  next
    assume s: "s = s_gen_fresh st" "s < 2 ^ 30" and eq: "s_gen_fresh st1 = s + 1"
    have pos: "0 < s" using f(1) s(1) by (metis less_le_trans word_gt_0 zero_neq_one)
    have v: "v = 0" if "gen_at st s = Some v" for v
      using e [OF that] pos s(1) by (auto simp: entry_ok_def)
    have n: "unat (s + 1) = Suc (unat s)" "unat s < 2 ^ 30"
      using unat_Suc_fresh [OF s(2)] by auto
    have "s < s + 1" "s + 1 \<le> 2 ^ 30"
      using n by (simp_all add: word_less_nat_alt word_le_nat_alt)
    moreover have "x < s" if "x < s + 1" "x \<noteq> s" for x
      using that n(1) by (metis less_SucE unsigned_word_eqI word_less_nat_alt)
    ultimately show ?thesis
      using pos s eq v M by (auto simp: gen_seq_def split: option.splits)
  qed
  show "0 < s" "s < 2 ^ 30" "s < s_gen_fresh st1" "s_gen_fresh st \<le> s_gen_fresh st1"
    "s_gen_fresh st1 \<le> 2 ^ 30" "gen_seq st s < IRON_GEN_SEQ_MASK"
    "gen_at st s = Some v \<Longrightarrow> v = 0 \<or> bit v 63"
    "\<And>x. x < s_gen_fresh st1 \<Longrightarrow> x \<noteq> s \<Longrightarrow> x < s_gen_fresh st"
    using main by auto
qed

text \<open>
  Under the invariant the retry loop of \<^verbatim>\<open>iron_gen_new\<close> runs once: a free slot is never
  exhausted.
\<close>

lemma gen_new_cases:
  assumes inv: "gen_inv st" and new: "iron_gen_new ok i arena st = Inr (g, st')"
  obtains s st1 st2 where "gen_take_slot i st = Inr (s, st1)" "gen_entry ok s st1 = Inr st2"
    "g = gen_word arena s (gen_seq st s + 1)" "st' = gen_store s g st2"
    "gen_seq st s + 1 < 2 ^ 31" "gen_seq st s < gen_seq st s + 1"
proof -
  obtain s st1 where take: "gen_take_slot i st = Inr (s, st1)"
    using new by (subst (asm) iron_gen_new.simps) (auto split: sum.splits prod.splits)
  obtain st2 where ent: "gen_entry ok s st1 = Inr st2"
    using new take by (subst (asm) iron_gen_new.simps) (auto split: sum.splits)
  have at: "gen_at st1 s' = gen_at st s'" for s'
    by (rule gen_at_cong) (rule gen_take_slot_frame(1) [OF take])
  have "the (gen_at st2 s) AND IRON_GEN_SEQ_MASK = gen_seq st2 s"
    using gen_entry_materialised [OF ent] by (auto simp: gen_seq_def)
  also have "\<dots> = gen_seq st s"
    using gen_entry_seq [OF ent] at by (simp add: gen_seq_def)
  finally have seq: "the (gen_at st2 s) AND IRON_GEN_SEQ_MASK = gen_seq st s" .
  have lt: "gen_seq st s < IRON_GEN_SEQ_MASK" by (rule gen_taken_slot(6) [OF inv take])
  then have le: "gen_seq st s + 1 \<le> IRON_GEN_SEQ_MASK" by (rule inc_le)
  have "g = gen_word arena s (gen_seq st s + 1)" "st' = gen_store s g st2"
    using new take ent seq le
    by (subst (asm) iron_gen_new.simps; auto simp: Let_def not_less [symmetric])+
  moreover have "gen_seq st s + 1 < 2 ^ 31"
    using le gen_seq_mask by (rule le_less_trans)
  moreover have "gen_seq st s < gen_seq st s + 1"
    using lt by unat_arith
  ultimately show thesis using take ent that by blast
qed

lemma gen_new_at:
  assumes inv: "gen_inv st" and new: "iron_gen_new ok i arena st = Inr (g, st')"
  shows "gen_at st' (IRON_GEN_SLOT_OF g) = Some g"
    and "s' \<noteq> IRON_GEN_SLOT_OF g \<Longrightarrow> gen_seq st' s' = gen_seq st s'"
    and "gen_seq st' (IRON_GEN_SLOT_OF g) = gen_seq st (IRON_GEN_SLOT_OF g) + 1"
    and "gen_slot_form g"
    and "g AND IRON_GEN_SEQ_MASK = gen_seq st (IRON_GEN_SLOT_OF g) + 1"
    and "gen_seq st (IRON_GEN_SLOT_OF g) < gen_seq st (IRON_GEN_SLOT_OF g) + 1"
    and "gen_alive st' h \<longleftrightarrow> h = g \<or> gen_alive st h"
proof -
  from gen_new_cases [OF inv new] obtain s st1 st2 where
    take: "gen_take_slot i st = Inr (s, st1)" and ent: "gen_entry ok s st1 = Inr st2"
    and g: "g = gen_word arena s (gen_seq st s + 1)" and st': "st' = gen_store s g st2"
    and b: "gen_seq st s + 1 < 2 ^ 31" and lt: "gen_seq st s < gen_seq st s + 1" .
  note sl = gen_taken_slot [OF inv take]
  have slot: "IRON_GEN_SLOT_OF g = s" unfolding g by (rule gen_word_slot [OF sl(2) b])
  have seqg: "g AND IRON_GEN_SEQ_MASK = gen_seq st s + 1" unfolding g by (rule gen_word_seq [OF b])
  have form: "gen_slot_form g" unfolding g by (rule gen_word_slot_form [OF sl(2) b])
  have chunks: "gen_at st1 s' = gen_at st s'" for s'
    by (rule gen_at_cong) (rule gen_take_slot_frame(1) [OF take])
  have mat: "gen_at st2 s \<noteq> None" by (rule gen_entry_materialised [OF ent])
  show at: "gen_at st' (IRON_GEN_SLOT_OF g) = Some g"
    using mat by (auto simp: st' slot)
  show "gen_seq st' s' = gen_seq st s'" if "s' \<noteq> IRON_GEN_SLOT_OF g"
    using that gen_entry_seq [OF ent, of s'] chunks by (simp add: st' slot gen_seq_def)
  show "gen_seq st' (IRON_GEN_SLOT_OF g) = gen_seq st (IRON_GEN_SLOT_OF g) + 1"
    using at seqg slot by (simp add: gen_seq_def [of st'])
  show "gen_slot_form g" by (rule form)
  show "g AND IRON_GEN_SEQ_MASK = gen_seq st (IRON_GEN_SLOT_OF g) + 1"
    using seqg slot by simp
  show "gen_seq st (IRON_GEN_SLOT_OF g) < gen_seq st (IRON_GEN_SLOT_OF g) + 1"
    using lt slot by simp
  show "gen_alive st' h \<longleftrightarrow> h = g \<or> gen_alive st h"
  proof (cases "IRON_GEN_SLOT_OF h = s")
    case True
    have "\<not> gen_alive st h"
    proof
      assume al: "gen_alive st h"
      then have "gen_at st s = Some h" and "gen_slot_form h"
        using True by (auto simp: gen_alive_def iron_gen_live_def)
      with sl(7) [of h] show False by (auto simp: gen_slot_form_bits)
    qed
    with True at form slot show ?thesis
      by (auto simp: gen_alive_def iron_gen_live_def)
  next
    case False
    then have "gen_alive st' h \<longleftrightarrow> gen_alive st2 h"
      by (simp add: gen_alive_def iron_gen_live_def st')
    also have "\<dots> \<longleftrightarrow> gen_alive st1 h" by (rule gen_entry_alive [OF ent])
    also have "\<dots> \<longleftrightarrow> gen_alive st h" by (simp add: gen_alive_def iron_gen_live_def chunks)
    finally show ?thesis using False slot by auto
  qed
qed

lemma gen_new_not_spent:
  assumes inv: "gen_inv st" and new: "iron_gen_new ok i arena st = Inr (g, st')"
  shows "\<not> gen_spent st g"
  using gen_new_at(5,6) [OF inv new] by (simp add: gen_spent_def not_le)

lemma gen_new_spent_mono:
  assumes inv: "gen_inv st" and new: "iron_gen_new ok i arena st = Inr (g, st')"
    and "gen_spent st h"
  shows "gen_spent st' h"
proof (cases "IRON_GEN_SLOT_OF h = IRON_GEN_SLOT_OF g")
  case True
  with assms(3) gen_new_at(3,6) [OF inv new] show ?thesis
    by (simp add: gen_spent_def)
next
  case False
  with assms(3) gen_new_at(2) [OF inv new] show ?thesis by (simp add: gen_spent_def)
qed

text \<open>Giving a slot back adds it to the free slots.\<close>

lemma gen_give_slot_frame:
  assumes "gen_give_slot ok i s st = Inr st'"
  shows "gen_chunks st' = gen_chunks st" "s_gen_fresh st' = s_gen_fresh st"
    "s_gpins st' = s_gpins st" "s_gpincap st' = s_gpincap st" "gen_pin_count st' = gen_pin_count st"
  using assms by (auto simp: gen_give_slot_def Let_def split: if_splits prod.splits)

lemma gen_give_slot_cases:
  assumes "gen_give_slot ok i s st = Inr st'"
  obtains xs g where "mset (xs @ g) = mset (s # t_gen_free st i @ s_gen_free st)"
      "t_gen_free st' = (t_gen_free st)(i := xs)" "s_gen_free st' = g"
proof (cases "length (t_gen_free st i) = IRON_GEN_TCACHE")
  case True
  obtain t' g' where sp: "gen_spill (t_gen_free st i) (s_gen_free st) = (t', g')"
    by (cases "gen_spill (t_gen_free st i) (s_gen_free st)")
  with True assms have "t_gen_free st' = (t_gen_free st)(i := s # t')" "s_gen_free st' = g'"
    by (auto simp: gen_give_slot_def Let_def split: if_splits)
  with gen_spill_mset [OF sp] that [of "s # t'" g'] show thesis by simp
next
  case False
  with assms that [of "s # t_gen_free st i" "s_gen_free st"] show thesis
    by (auto simp: gen_give_slot_def Let_def)
qed

lemma gen_give_slot_free:
  assumes once: "gen_free_once st" and "s \<notin> gen_free_slots st"
    and give: "gen_give_slot ok i s st = Inr st'"
  shows "gen_free_once st' \<and> gen_free_slots st' = insert s (gen_free_slots st)"
  using give
proof (cases rule: gen_give_slot_cases)
  case (1 xs g)
  note sp = gen_free_once_split [OF once, of i]
  have "distinct (s # t_gen_free st i @ s_gen_free st)" and "s \<notin> gen_others st i"
    using sp(1) assms(2) by (auto simp: gen_free_slots_split [of st i])
  then have "distinct (xs @ g)"
    using 1(1) by (metis mset_eq_imp_distinct_iff)
  moreover have st: "set (xs @ g) = set (s # t_gen_free st i @ s_gen_free st)"
    using 1(1) by (metis set_mset_mset)
  ultimately show ?thesis
    using gen_free_updI [OF once 1(2,3)] sp(2) \<open>s \<notin> gen_others st i\<close>
    by (auto simp: gen_free_slots_split [of st i])
qed

text \<open>The outcomes of ending a generation.\<close>

lemma gen_end_False:
  assumes "iron_gen_end ok i g st = Inr (False, st')" and "gen_inv st"
  shows "st' = st \<and> \<not> gen_alive st g"
proof -
  have z: "gen_at st 0 = Some v \<Longrightarrow> v = IRON_STACK_TAG" for v
    using assms(2) by (auto simp: gen_inv_def entry_ok_def)
  have "g \<noteq> IRON_STACK_TAG" if "gen_slot_form g"
    using that by (auto simp: gen_slot_form_bits gen_layout_bits)
  with assms z [of g] show ?thesis
    by (auto simp: iron_gen_end_def gen_alive_def iron_gen_live_def Let_def
          map_sum_Inr_iff split: if_splits option.splits)
qed

lemma gen_end_True:
  assumes "iron_gen_end ok i g st = Inr (True, st')"
  obtains "gen_alive st g" "\<not> (gen_pin_count st \<noteq> 0 \<and> gen_is_pinned st g)" "IRON_GEN_SLOT_OF g \<noteq> 0"
    "gen_at st (IRON_GEN_SLOT_OF g) = Some g"
    "if g AND IRON_GEN_SEQ_MASK < IRON_GEN_SEQ_MASK
     then gen_give_slot ok i (IRON_GEN_SLOT_OF g)
            (gen_store (IRON_GEN_SLOT_OF g) (g OR IRON_STACK_TAG) st) = Inr st'
     else st' = gen_store (IRON_GEN_SLOT_OF g) (g OR IRON_STACK_TAG) st"
proof
  from assms show "gen_at st (IRON_GEN_SLOT_OF g) = Some g" "IRON_GEN_SLOT_OF g \<noteq> 0"
    "gen_alive st g" "\<not> (gen_pin_count st \<noteq> 0 \<and> gen_is_pinned st g)"
    by (auto simp: iron_gen_end_def gen_alive_def iron_gen_live_def Let_def
          split: if_splits option.splits)
  from assms show "if g AND IRON_GEN_SEQ_MASK < IRON_GEN_SEQ_MASK
     then gen_give_slot ok i (IRON_GEN_SLOT_OF g)
            (gen_store (IRON_GEN_SLOT_OF g) (g OR IRON_STACK_TAG) st) = Inr st'
     else st' = gen_store (IRON_GEN_SLOT_OF g) (g OR IRON_STACK_TAG) st"
    by (auto simp: iron_gen_end_def Let_def map_sum_Inr_iff split: if_splits option.splits)
qed

lemma gen_end_at:
  assumes "iron_gen_end ok i g st = Inr (True, st')"
  shows "gen_at st' s = (if s = IRON_GEN_SLOT_OF g then Some (g OR IRON_STACK_TAG) else gen_at st s)"
  using assms
proof (cases rule: gen_end_True)
  case 1
  let ?st = "gen_store (IRON_GEN_SLOT_OF g) (g OR IRON_STACK_TAG) st"
  have "gen_chunks st' = gen_chunks ?st"
    using 1(5) by (auto split: if_splits dest: gen_give_slot_frame(1))
  then have "gen_at st' s = gen_at ?st s" by (rule gen_at_cong)
  with 1(4) show ?thesis by auto
qed

lemma gen_end_alive:
  assumes "iron_gen_end ok i g st = Inr (True, st')"
  shows "gen_alive st' h \<longleftrightarrow> gen_alive st h \<and> h \<noteq> g"
  using assms
proof (cases rule: gen_end_True)
  case 1
  have "\<not> gen_slot_form h" if "h = g OR IRON_STACK_TAG"
    using that by (simp add: dead_not_slot_form)
  with 1(4) gen_end_at [OF assms] show ?thesis
    by (auto simp: gen_alive_def iron_gen_live_def)
qed

lemma gen_end_seq:
  assumes "iron_gen_end ok i g st = Inr (True, st')"
  shows "gen_seq st' s = gen_seq st s"
  using assms by (cases rule: gen_end_True) (simp add: gen_seq_def gen_end_at [OF assms] dead_seq)

section \<open>Every operation keeps the invariant\<close>

lemma gen_free_cong:
  assumes "t_gen_free st' = t_gen_free st" and "s_gen_free st' = s_gen_free st"
  shows "gen_free_once st' \<longleftrightarrow> gen_free_once st" and "gen_free_slots st' = gen_free_slots st"
  using assms by (auto simp: gen_free_once_def gen_free_slots_def)

lemma gen_invD:
  assumes "gen_inv st"
  shows "1 \<le> s_gen_fresh st" "s_gen_fresh st \<le> 2 ^ 30" "gen_free_once st"
    "s \<in> gen_free_slots st \<Longrightarrow> free_slot_ok st s"
    "gen_at st s = Some v \<Longrightarrow> entry_ok st s v"
    "0 < s \<Longrightarrow> s < s_gen_fresh st \<Longrightarrow> gen_at st s \<noteq> None"
    "gen_pin_count st = of_nat (length (s_gpins st))"
  using assms by (auto simp: gen_inv_def)

lemma gen_init_inv: "gen_inv gen_init"
  by (simp add: gen_inv_def gen_init_def gen_free_once_def gen_free_slots_def gen_at_def word_gt_0)

lemma gen_new_inv:
  assumes inv: "gen_inv st" and new: "iron_gen_new ok i arena st = Inr (g, st')"
  shows "gen_inv st'"
proof -
  from gen_new_cases [OF inv new] obtain s st1 st2 where
    take: "gen_take_slot i st = Inr (s, st1)" and ent: "gen_entry ok s st1 = Inr st2"
    and g: "g = gen_word arena s (gen_seq st s + 1)" and st': "st' = gen_store s g st2"
    and b: "gen_seq st s + 1 < 2 ^ 31" .
  note sl = gen_taken_slot [OF inv take] and d = gen_invD [OF inv]
  note f = gen_entry_fields [OF ent] and fr = gen_take_slot_frame [OF take]
  have slot: "IRON_GEN_SLOT_OF g = s" unfolding g by (rule gen_word_slot [OF sl(2) b])
  have at1: "gen_at st1 x = gen_at st x" for x by (rule gen_at_cong) (rule fr(1))
  have at: "gen_at st' x = (if x = s then Some g else case gen_at st x of Some v \<Rightarrow> Some v
      | None \<Rightarrow> if chunk_of x = chunk_of s then Some (if x = 0 then IRON_STACK_TAG else 0) else None)" for x
    using gen_entry_materialised [OF ent] by (auto simp: st' gen_entry_at [OF ent] at1 split: option.split)
  have fresh: "s_gen_fresh st' = s_gen_fresh st1" by (simp add: st' f)
  have once: "gen_free_once st'" and slots: "gen_free_slots st' = gen_free_slots st - {s}"
    using gen_take_slot_free [OF inv take] gen_free_cong [of st' st1] by (simp_all add: st' f)
  have free: "free_slot_ok st' x" if "x \<in> gen_free_slots st'" for x
    using that d(4) [of x] sl(4) by (auto simp: slots free_slot_ok_def at fresh)
  have entry: "entry_ok st' x v" if "gen_at st' x = Some v" for x v
  proof (cases "x = s")
    case True
    with that sl(1,3) slot show ?thesis by (auto simp: at entry_ok_def fresh word_gt_0)
  next
    case False
    show ?thesis
    proof (cases "gen_at st x")
      case None
      with that False d(6) [of x] sl(8) [of x] show ?thesis
        by (auto simp: at entry_ok_def fresh word_gt_0 split: if_splits)
    next
      case (Some w)
      with that False d(5) [of x w] sl(4) sl(8) [of x] show ?thesis
        by (auto simp: at entry_ok_def fresh split: if_splits)
    qed
  qed
  have mat: "gen_at st' x \<noteq> None" if "0 < x" "x < s_gen_fresh st'" for x
  proof (cases "x = s")
    case False
    with that sl(8) [of x] have "x < s_gen_fresh st" by (simp add: fresh)
    with False that d(6) [of x] show ?thesis by (auto simp: at)
  qed (simp add: at)
  show ?thesis
    unfolding gen_inv_def
    using d(1,7) sl(4,5) once free entry mat
    by (auto simp: fresh st' f fr intro: order_trans)
qed

lemma gen_store_dead_inv:
  assumes inv: "gen_inv st" and at: "gen_at st s = Some g" and "s \<noteq> 0" and "gen_slot_form g"
    and slot: "IRON_GEN_SLOT_OF g = s"
  shows "gen_inv (gen_store s (g OR IRON_STACK_TAG) st)" and "s \<notin> gen_free_slots st"
proof -
  note d = gen_invD [OF inv]
  have nf: "\<not> bit g 63" and "g \<noteq> 0" using assms(4) by (auto simp: gen_slot_form_bits)
  show notfree: "s \<notin> gen_free_slots st"
    using d(4) [of s] at nf by (auto simp: free_slot_ok_def)
  have lt: "s < s_gen_fresh st"
    using d(5) [OF at] \<open>g \<noteq> 0\<close> assms(3) by (auto simp: entry_ok_def split: if_splits)
  have slot': "IRON_GEN_SLOT_OF (g OR IRON_STACK_TAG) = s"
    unfolding slot [symmetric]
    by (rule word_eqI_bits) (auto simp: bit_slot_of gen_layout_bits bit_or_iff)
  let ?st = "gen_store s (g OR IRON_STACK_TAG) st"
  have "gen_free_once ?st" "gen_free_slots ?st = gen_free_slots st"
    using gen_free_cong [of ?st st] d(3) by simp_all
  moreover have "free_slot_ok ?st x" if "x \<in> gen_free_slots st" for x
    using d(4) [OF that] that notfree by (auto simp: free_slot_ok_def)
  moreover have "entry_ok ?st x v" if "gen_at ?st x = Some v" for x v
    using that d(5) [of x v] at lt slot' assms(3) by (auto simp: entry_ok_def split: if_splits)
  moreover have "gen_at ?st x \<noteq> None" if "0 < x" "x < s_gen_fresh st" for x
    using that d(6) [of x] by auto
  ultimately show "gen_inv ?st"
    using d(1,2,7) by (auto simp: gen_inv_def)
qed

lemma gen_give_slot_inv:
  assumes inv: "gen_inv st" and give: "gen_give_slot ok i s st = Inr st'"
    and "s \<notin> gen_free_slots st" and ok: "free_slot_ok st s"
  shows "gen_inv st'"
proof -
  note d = gen_invD [OF inv] and f = gen_give_slot_frame [OF give]
  have at: "gen_at st' x = gen_at st x" for x by (rule gen_at_cong) (rule f(1))
  have cong: "free_slot_ok st' x \<longleftrightarrow> free_slot_ok st x" "entry_ok st' x v \<longleftrightarrow> entry_ok st x v" for x v
    by (simp_all add: free_slot_ok_def entry_ok_def at f)
  show ?thesis
    unfolding gen_inv_def
    using gen_give_slot_free [OF d(3) assms(3) give] d ok by (auto simp: at f cong)
qed

lemma gen_end_inv:
  assumes inv: "gen_inv st" and e: "iron_gen_end ok i g st = Inr (b, st')"
  shows "gen_inv st'"
proof (cases b)
  case False
  with e gen_end_False [of ok i g st st'] inv show ?thesis by simp
next
  case True
  with e have e: "iron_gen_end ok i g st = Inr (True, st')" by simp
  then show ?thesis
  proof (cases rule: gen_end_True)
    case 1
    let ?s = "IRON_GEN_SLOT_OF g" and ?st = "gen_store (IRON_GEN_SLOT_OF g) (g OR IRON_STACK_TAG) st"
    have form: "gen_slot_form g" using 1(1) by (simp add: gen_alive_def)
    note dead = gen_store_dead_inv [OF inv 1(4) 1(3) form refl]
    have lt: "?s < s_gen_fresh st"
      using gen_invD(5) [OF inv 1(4)] form 1(3)
      by (auto simp: entry_ok_def gen_slot_form_bits split: if_splits)
    show ?thesis
    proof (cases "g AND IRON_GEN_SEQ_MASK < IRON_GEN_SEQ_MASK")
      case True
      have "free_slot_ok ?st ?s"
        using 1(3,4) lt True
        by (auto simp: free_slot_ok_def word_gt_0 dead_seq gen_layout_bits bit_simps)
      moreover have "?s \<notin> gen_free_slots ?st"
        using dead(2) gen_free_cong(2) [of ?st st] by simp
      ultimately show ?thesis
        using gen_give_slot_inv [OF dead(1)] 1(5) True by simp
    qed (use 1(5) dead(1) in simp)
  qed
qed

text \<open>Pins are outside of the table: only their number enters the invariant.\<close>

lemma gen_inv_pins:
  assumes "gen_inv st"
    and "st' = st\<lparr>s_gpins := ps, s_gpincap := c, gen_pin_count := of_nat (length ps)\<rparr>"
  shows "gen_inv st'" and "gen_at st' s = gen_at st s"
proof -
  have at: "gen_at st' s = gen_at st s" for s
    by (rule gen_at_cong) (simp add: assms(2))
  have fr: "gen_free_once st' \<longleftrightarrow> gen_free_once st" "gen_free_slots st' = gen_free_slots st"
    by (rule gen_free_cong; simp add: assms(2))+
  have cong: "free_slot_ok st' x \<longleftrightarrow> free_slot_ok st x" "entry_ok st' x v \<longleftrightarrow> entry_ok st x v" for x v
    by (simp_all add: free_slot_ok_def entry_ok_def at) (simp_all add: assms(2))
  have same: "s_gen_fresh st' = s_gen_fresh st" "gen_pin_count st' = of_nat (length (s_gpins st'))"
    by (simp_all add: assms(2))
  show "gen_inv st'"
    using assms(1) unfolding gen_inv_def at fr cong same by simp
  show "gen_at st' s = gen_at st s" by (rule at)
qed

lemma gen_pin_inv:
  assumes "gen_inv st" and "iron_gen_pin ok g st = Inr st'"
  shows "gen_inv st'" and "gen_at st' s = gen_at st s"
proof -
  have "\<exists>ps c. st' = st\<lparr>s_gpins := ps, s_gpincap := c, gen_pin_count := of_nat (length ps)\<rparr>"
  proof (cases "gen_slot_form g")
    case True
    with assms(2) gen_invD(7) [OF assms(1)] show ?thesis
      by (intro exI [of _ "s_gpins st @ [g]"] exI [of _ "s_gpincap st'"])
        (auto simp: iron_gen_pin_def Let_def add.commute split: if_splits)
  next
    case False
    with assms(2) gen_invD(7) [OF assms(1)] show ?thesis
      by (intro exI [of _ "s_gpins st"] exI [of _ "s_gpincap st"]) (simp add: iron_gen_pin_def)
  qed
  then obtain ps c where "st' = st\<lparr>s_gpins := ps, s_gpincap := c, gen_pin_count := of_nat (length ps)\<rparr>"
    by blast
  from gen_inv_pins [OF assms(1) this] show "gen_inv st'" "gen_at st' s = gen_at st s" by simp_all
qed

lemma unpin_scan_bound: "unpin_scan pins g n = Some i \<Longrightarrow> i < n \<and> pins ! i = g"
  by (induction n) (auto split: if_splits)

lemma gen_unpin_inv:
  assumes "gen_inv st"
  shows "gen_inv (iron_gen_unpin g st)" and "gen_at (iron_gen_unpin g st) s = gen_at st s"
proof -
  have n: "gen_pin_count st = of_nat (length (s_gpins st))" using gen_invD(7) [OF assms] .
  have "\<exists>ps c. iron_gen_unpin g st =
      st\<lparr>s_gpins := ps, s_gpincap := c, gen_pin_count := of_nat (length ps)\<rparr>"
  proof (cases "gen_slot_form g \<and> unpin_scan (s_gpins st) g (length (s_gpins st)) \<noteq> None")
    case True
    then obtain i where i: "unpin_scan (s_gpins st) g (length (s_gpins st)) = Some i" by auto
    then have "0 < length (s_gpins st)" using unpin_scan_bound [OF i] by linarith
    then have "gen_pin_count st - 1 = of_nat (length (s_gpins st) - 1)"
      using n by (cases "length (s_gpins st)") simp_all
    with True i show ?thesis
      by (intro exI [of _ "butlast ((s_gpins st)[i := last (s_gpins st)])"] exI [of _ "s_gpincap st"])
        (simp add: iron_gen_unpin_def)
  next
    case False
    with n show ?thesis
      by (intro exI [of _ "s_gpins st"] exI [of _ "s_gpincap st"])
        (auto simp: iron_gen_unpin_def)
  qed
  then obtain ps c where "iron_gen_unpin g st =
      st\<lparr>s_gpins := ps, s_gpincap := c, gen_pin_count := of_nat (length ps)\<rparr>"
    by blast
  from gen_inv_pins [OF assms this]
  show "gen_inv (iron_gen_unpin g st)" "gen_at (iron_gen_unpin g st) s = gen_at st s" by simp_all
qed

lemma gen_exit_inv:
  assumes inv: "gen_inv st"
  shows "gen_inv (iron_gen_thread_exit ok i st)"
    and "gen_at (iron_gen_thread_exit ok i st) s = gen_at st s"
proof -
  let ?st = "iron_gen_thread_exit ok i st"
  note d = gen_invD [OF inv]
  show at: "gen_at ?st s = gen_at st s" for s
    by (simp add: iron_gen_thread_exit_def Let_def gen_at_def)
  have same: "s_gen_fresh ?st = s_gen_fresh st" "s_gpins ?st = s_gpins st"
    "gen_pin_count ?st = gen_pin_count st"
    by (simp_all add: iron_gen_thread_exit_def Let_def)
  have "gen_free_once ?st \<and> gen_free_slots ?st = gen_free_slots st"
  proof (cases "t_gen_free ?st = t_gen_free st \<and> s_gen_free ?st = s_gen_free st")
    case True
    then show ?thesis using gen_free_cong [of ?st st] d(3) by simp
  next
    case False
    then have "t_gen_free ?st = (t_gen_free st)(i := [])"
      and "s_gen_free ?st = rev (t_gen_free st i) @ s_gen_free st"
      by (auto simp: iron_gen_thread_exit_def Let_def split: if_splits)
    with gen_free_updI [OF d(3) this] gen_free_once_split [OF d(3), of i] show ?thesis
      by (simp add: gen_free_slots_split [of st i])
  qed
  moreover have "free_slot_ok ?st x \<longleftrightarrow> free_slot_ok st x" "entry_ok ?st x v \<longleftrightarrow> entry_ok st x v" for x v
    by (simp_all add: free_slot_ok_def entry_ok_def at same)
  ultimately show "gen_inv ?st"
    using d unfolding gen_inv_def by (auto simp: at same)
qed

section \<open>Runs of the table\<close>

text \<open>
  Every call a thread can make, in any order; a call that ends the process is no step. The
  operations of the C code are atomic here: \<^verbatim>\<open>iron_gen_end\<close> decides by one
  compare-and-swap, \<^verbatim>\<open>iron_gen_new\<close> owns the slot it took, and the free stack
  and the pins are under a mutex.
\<close>

inductive gen_step :: "gen_state \<Rightarrow> u64 gen_event \<Rightarrow> gen_state \<Rightarrow> bool" where
  step_new: "iron_gen_new ok i arena st = Inr (g, st') \<Longrightarrow> gen_step st (Issued g) st'"
| step_end: "iron_gen_end ok i g st = Inr (True, st') \<Longrightarrow> gen_step st (Ended {g}) st'"
| step_stale: "iron_gen_end ok i g st = Inr (False, st') \<Longrightarrow> gen_step st Silent st'"
| step_pin: "iron_gen_pin ok g st = Inr st' \<Longrightarrow> gen_step st Silent st'"
| step_unpin: "gen_step st Silent (iron_gen_unpin g st)"
| step_exit: "gen_step st Silent (iron_gen_thread_exit ok i st)"

inductive_cases gen_step_Issued: "gen_step st (Issued g) st'"
inductive_cases gen_step_Ended: "gen_step st (Ended A) st'"

lemma gen_alive_cong: "(\<And>s. gen_at st' s = gen_at st s) \<Longrightarrow> gen_alive st' g \<longleftrightarrow> gen_alive st g"
  by (simp add: gen_alive_def iron_gen_live_def)

lemma gen_spent_cong: "(\<And>s. gen_at st' s = gen_at st s) \<Longrightarrow> gen_spent st' g \<longleftrightarrow> gen_spent st g"
  by (simp add: gen_spent_def gen_seq_def)

text \<open>A silent step leaves the table itself as it is.\<close>

lemma gen_step_silent:
  assumes inv: "gen_inv st" and "gen_step st Silent st'"
  shows "gen_inv st' \<and> (\<forall>s. gen_at st' s = gen_at st s)"
  using assms(2)
proof cases
  case (step_stale ok i g)
  then show ?thesis using gen_end_False [OF step_stale inv] inv by simp
next
  case (step_pin ok g)
  then show ?thesis using gen_pin_inv [OF inv] by simp
next
  case (step_unpin g)
  then show ?thesis using gen_unpin_inv [OF inv] by simp
next
  case (step_exit ok i)
  then show ?thesis using gen_exit_inv [OF inv] by simp
qed

lemma gen_step_inv:
  assumes inv: "gen_inv st" and step: "gen_step st e st'"
  shows "gen_inv st'"
proof (cases e)
  case (Issued g)
  with step gen_new_inv [OF inv] show ?thesis by (auto elim!: gen_step_Issued)
next
  case (Ended g)
  with step gen_end_inv [OF inv] show ?thesis by (auto elim!: gen_step_Ended)
next
  case Silent
  with step gen_step_silent [OF inv] show ?thesis by simp
qed

interpretation gens: generations gen_init gen_step gen_inv gen_alive gen_spent
proof
  show "gen_inv gen_init" by (rule gen_init_inv)
  show "\<not> gen_alive gen_init g" for g
    by (simp add: gen_alive_def iron_gen_live_def gen_init_def gen_at_def)
next
  fix st e st' assume inv: "gen_inv st" and step: "gen_step st e st'"
  show "gen_inv st'" by (rule gen_step_inv [OF inv step])
  fix g
  show "gen_alive st' g \<longleftrightarrow> (gen_alive st g \<or> e = Issued g) \<and> g \<notin> ended [e]"
  proof (cases e)
    case (Issued h)
    with step gen_new_at(7) [OF inv] show ?thesis by (auto elim!: gen_step_Issued)
  next
    case (Ended h)
    with step gen_end_alive show ?thesis by (auto elim!: gen_step_Ended)
  next
    case Silent
    with step gen_step_silent [OF inv] gen_alive_cong [of st' st g] show ?thesis by simp
  qed
  show "gen_spent st' g" if "gen_spent st g"
  proof (cases e)
    case (Issued h)
    with step that gen_new_spent_mono [OF inv] show ?thesis by (auto elim!: gen_step_Issued)
  next
    case (Ended h)
    with step that gen_end_seq show ?thesis by (auto elim!: gen_step_Ended simp: gen_spent_def)
  next
    case Silent
    with step that gen_step_silent [OF inv] gen_spent_cong [of st' st g] show ?thesis by simp
  qed
next
  show "gen_step st (Ended A) st' \<Longrightarrow> g \<in> A \<Longrightarrow> gen_alive st g" for st A st' g
    by (auto elim!: gen_step_Ended elim: gen_end_True)
  show "gen_inv st \<Longrightarrow> gen_step st (Issued g) st' \<Longrightarrow> \<not> gen_spent st g" for st g st'
    by (auto elim!: gen_step_Issued dest: gen_new_not_spent)
  show "gen_alive st g \<Longrightarrow> gen_spent st g" for st g by (rule gen_alive_spent)
qed

section \<open>What the checks of the program rely on\<close>

lemma unpin_scan_None: "unpin_scan pins g n = None \<Longrightarrow> i < n \<Longrightarrow> pins ! i \<noteq> g"
  by (induction n) (auto split: if_splits simp: less_Suc_eq)

lemma mset_swap_remove:
  assumes "i < length xs"
  shows "mset (butlast (xs[i := last xs])) = mset xs - {#xs ! i#}"
proof -
  have "xs \<noteq> []" using assms by auto
  then have "mset (xs[i := last xs]) = add_mset (last xs) (mset xs - {#xs ! i#})"
    using assms by (simp add: mset_update)
  moreover have "mset (butlast ys) = mset ys - {#last ys#}" if "ys \<noteq> []" for ys :: "'a list"
    using that by (cases ys rule: rev_cases) simp_all
  moreover have "last (xs[i := last xs]) = last xs"
    using \<open>xs \<noteq> []\<close> by (simp add: last_list_update)
  ultimately show ?thesis using \<open>xs \<noteq> []\<close> by simp
qed

lemma gen_unpin_mset: "gen_slot_form g \<Longrightarrow> mset (s_gpins (iron_gen_unpin g st)) = mset (s_gpins st) - {#g#}"
proof (cases "unpin_scan (s_gpins st) g (length (s_gpins st))")
  case None
  then have "g \<notin> set (s_gpins st)"
    using unpin_scan_None [OF None] by (auto simp: in_set_conv_nth)
  with None show ?thesis by (simp add: iron_gen_unpin_def diff_single_trivial)
next
  case (Some i)
  assume "gen_slot_form g"
  with Some unpin_scan_bound [OF Some] mset_swap_remove [of i "s_gpins st"] show ?thesis
    by (simp add: iron_gen_unpin_def)
qed

lemma gen_live_0:
  assumes "gen_inv st"
  shows "\<not> iron_gen_live st 0"
proof -
  have "IRON_GEN_SLOT_OF 0 = 0" by (simp add: IRON_GEN_SLOT_OF_def)
  moreover have "IRON_STACK_TAG \<noteq> 0" by (simp add: IRON_STACK_TAG_def)
  ultimately show ?thesis
    using gen_invD(5) [OF assms, of 0 0] by (auto simp: iron_gen_live_def entry_ok_def)
qed

lemma gen_take_slot_returns:
  assumes "s_gen_fresh st < 2 ^ 30 \<or> t_gen_free st i \<noteq> [] \<or> s_gen_free st \<noteq> []"
  shows "\<exists>s st1. gen_take_slot i st = Inr (s, st1)"
proof (cases "t_gen_free st i")
  case Nil
  obtain t g where r: "gen_refill [] (s_gen_free st) = (t, g)"
    by (cases "gen_refill [] (s_gen_free st)")
  then show ?thesis
    using assms Nil gen_refill_Nil [of "[]" "s_gen_free st" g]
    by (cases t) (auto simp: gen_take_slot_def Let_def not_le)
qed (simp add: gen_take_slot_def)

lemma gen_entry_returns: "\<exists>st'. gen_entry (\<lambda>_. True) s st = Inr st'"
  by (auto simp: gen_entry_def Let_def split: option.split)

lemma gen_take_slot_seq: "gen_take_slot i st = Inr (s, st1) \<Longrightarrow> gen_seq st1 x = gen_seq st x"
  using gen_at_cong [OF gen_take_slot_frame(1)] by (simp add: gen_seq_def)

section \<open>A concrete run\<close>

text \<open>The first generation of a process, and the states after it was handed out and after it ended.\<close>

definition first_gen :: u64 where
  "first_gen = 0x4000000080000001"

definition gen_one :: gen_state where
  "gen_one = gen_init\<lparr>gen_chunks := [0 \<mapsto> (\<lambda>_. 0)(0 := IRON_STACK_TAG, 1 := first_gen)],
     s_gen_fresh := 2\<rparr>"

definition gen_one_ended :: gen_state where
  "gen_one_ended = gen_init\<lparr>gen_chunks := [0 \<mapsto> (\<lambda>_. 0)(0 := IRON_STACK_TAG, 1 := 0xC000000080000001)],
     s_gen_fresh := 2, t_gen_free := (\<lambda>_. [])(0 := [1])\<rparr>"

lemmas gen_eval = gen_init_def gen_entry_def gen_at_def gen_store_def chunk_of_def chunk_off_def
  IRON_GEN_SEQ_MASK_def mask_eq_exp_minus_1 gen_word_def IRON_GEN_SLOT_TAG_def IRON_STACK_TAG_def
  first_gen_def gen_one_def gen_one_ended_def IRON_GEN_SLOT_OF_def IRON_GEN_TCACHE_def
  gen_slot_form_def gen_is_pinned_def

lemma gen_one_new: "iron_gen_new (\<lambda>_. True) 0 False gen_init = Inr (first_gen, gen_one)"
  by (subst iron_gen_new.simps) (simp add: gen_eval gen_take_slot_def word_le_nat_alt)

lemma gen_one_end: "iron_gen_end (\<lambda>_. True) 0 first_gen gen_one = Inr (True, gen_one_ended)"
  by (simp add: gen_eval iron_gen_end_def gen_give_slot_def fun_upd_twist)

lemma gen_one_runs: "runs gen_step gen_init [Issued first_gen] gen_one"
  by (rule runs_step [OF runs_init]) (rule step_new [OF gen_one_new])

lemma gen_one_ended_runs: "runs gen_step gen_init [Ended {first_gen}, Issued first_gen] gen_one_ended"
  by (rule runs_step [OF gen_one_runs]) (rule step_end [OF gen_one_end])

section \<open>Properties of the table\<close>

text \<open>C1: after any sequence of calls of any threads, the liveness check accepts a generation exactly
  when it was handed out and has not been ended: a pointer into freed memory is always rejected, also
  when its slot has been reused, and a pointer into live memory never is.\<close>

theorem gen_live_exact:
  assumes "runs gen_step gen_init es st" and "gen_slot_form g"
  shows "iron_gen_live st g \<longleftrightarrow> Issued g \<in> set es \<and> g \<notin> ended es"
  using gens.runs_alive [OF assms(1), of g] assms(2) by (simp add: gen_alive_def)

theorem gen_live_exact_witness:
  "\<not> iron_gen_live gen_one_ended first_gen \<and> gen_slot_form first_gen"
  using gen_live_exact [OF gen_one_ended_runs, of first_gen] by (simp add: gen_eval)

text \<open>C2: no generation is ever handed out twice, whichever slots are reused in between.\<close>

theorem gen_issued_once:
  assumes "runs gen_step gen_init es st"
  shows "distinct (issued es)"
  by (rule gens.runs_issued_distinct [OF assms])

theorem gen_issued_once_witness: "distinct (issued [Ended {first_gen}, Issued first_gen])"
  by (rule gen_issued_once [OF gen_one_ended_runs])

text \<open>C3: ending a generation in a reachable state returns true exactly when the generation is
  live, so of several frees of one allocation one succeeds and every later one is reported and changes
  nothing; and a successful end takes away that generation and no other.\<close>

theorem gen_end_exact:
  assumes "runs gen_step gen_init es st" and "iron_gen_end ok i g st = Inr (b, st')"
  shows "(b \<longleftrightarrow> gen_slot_form g \<and> iron_gen_live st g) \<and> (\<not> b \<longrightarrow> st' = st) \<and>
    (\<forall>h. gen_slot_form h \<longrightarrow> (iron_gen_live st' h \<longleftrightarrow> iron_gen_live st h \<and> \<not> (b \<and> h = g)))"
proof (cases b)
  case True
  with assms(2) have e: "iron_gen_end ok i g st = Inr (True, st')" by simp
  then have "gen_alive st g" by (rule gen_end_True)
  with True gen_end_alive [OF e] show ?thesis unfolding gen_alive_def by metis
next
  case False
  with assms(2) gen_end_False [OF _ gens.runs_inv [OF assms(1)]] show ?thesis
    by (auto simp: gen_alive_def)
qed

theorem gen_end_exact_witness:
  "iron_gen_live gen_one first_gen \<and> \<not> iron_gen_live gen_one_ended first_gen"
  using gen_end_exact [OF gen_one_runs gen_one_end] by (simp add: gen_eval iron_gen_live_def)

text \<open>C4: while a generation is pinned (a receiver runs in a method of its object) ending it stops
  the process instead of freeing the object; pins nest, and unpinning takes away one pin of that
  generation and none of another. The pins are fewer than the 64-bit counter can count.\<close>

theorem gen_pinned_not_ended:
  assumes "runs gen_step gen_init es st" and "iron_gen_live st g" and "gen_slot_form g"
    and "g \<in> set (s_gpins st)" and "length (s_gpins st) < 2 ^ 64"
  shows "iron_gen_end ok i g st = Inl (Panic_Receiver_Pinned g) \<and>
    (iron_gen_pin ok g st = Inr st1 \<longrightarrow> mset (s_gpins st1) = add_mset g (mset (s_gpins st))) \<and>
    mset (s_gpins (iron_gen_unpin g st)) = mset (s_gpins st) - {#g#}"
proof -
  have "gen_pin_count st = of_nat (length (s_gpins st))"
    using gen_invD(7) [OF gens.runs_inv [OF assms(1)]] .
  moreover have "(of_nat (length (s_gpins st)) :: u64) \<noteq> 0"
    using assms(4,5) by (auto simp: of_nat_eq_0_iff word_unat_eq_iff unsigned_of_nat take_bit_nat_eq_self)
  ultimately have "iron_gen_end ok i g st = Inl (Panic_Receiver_Pinned g)"
    using assms(2-4) by (simp add: iron_gen_end_def gen_is_pinned_def)
  moreover have "mset (s_gpins st1) = add_mset g (mset (s_gpins st))" if "iron_gen_pin ok g st = Inr st1"
    using that assms(3) by (auto simp: iron_gen_pin_def Let_def split: if_splits)
  ultimately show ?thesis using gen_unpin_mset [OF assms(3)] by blast
qed

theorem gen_pinned_not_ended_witness:
  "iron_gen_end (\<lambda>_. True) 0 first_gen (gen_one\<lparr>s_gpins := [first_gen], s_gpincap := 16, gen_pin_count := 1\<rparr>) =
     Inl (Panic_Receiver_Pinned first_gen)"
proof -
  let ?st = "gen_one\<lparr>s_gpins := [first_gen], s_gpincap := 16, gen_pin_count := 1\<rparr>"
  have "iron_gen_pin (\<lambda>_. True) first_gen gen_one = Inr ?st"
    by (simp add: iron_gen_pin_def gen_eval)
  from gen_pinned_not_ended [OF runs_step [OF gen_one_runs step_pin [OF this]], of first_gen]
  show ?thesis by (simp add: gen_eval iron_gen_live_def)
qed

text \<open>C33: Handing out a generation always returns while memory and slots last: in every reachable state of the table, with an
  allocator that grants every request and a slot that is free for the thread, free for all or never used, the retry loop of
  iron\_gen\_new ends with a generation, and does not stop the process.\<close>

theorem gen_new_returns:
  assumes "runs gen_step gen_init es st"
    and "s_gen_fresh st < 2 ^ 30 \<or> t_gen_free st i \<noteq> [] \<or> s_gen_free st \<noteq> []"
  shows "\<exists>g st'. iron_gen_new (\<lambda>_. True) i arena st = Inr (g, st')"
proof -
  note inv = gens.runs_inv [OF assms(1)]
  obtain s st1 where take: "gen_take_slot i st = Inr (s, st1)"
    using gen_take_slot_returns [OF assms(2)] by blast
  obtain st2 where ent: "gen_entry (\<lambda>_. True) s st1 = Inr st2"
    using gen_entry_returns by blast
  have "\<not> (gen_seq st s + 1 > IRON_GEN_SEQ_MASK)"
    using gen_taken_slot(6) [OF inv take] by (simp add: not_less inc_le)
  moreover have "the (gen_at st2 s) AND IRON_GEN_SEQ_MASK = gen_seq st s"
    using gen_entry_seq [OF ent, of s] gen_entry_materialised [OF ent] gen_take_slot_seq [OF take, of s]
    by (auto simp: gen_seq_def)
  ultimately show ?thesis
    by (subst iron_gen_new.simps) (simp add: take ent Let_def)
qed

theorem gen_new_returns_witness: "\<exists>g st'. iron_gen_new (\<lambda>_. True) 0 True gen_one = Inr (g, st')"
  using gen_new_returns [OF gen_one_runs, of 0 True] by (simp add: gen_eval word_less_nat_alt)

end
