(* ===== verification/Pins.thy ===== *)
theory Pins
  imports Gen_Table
begin

text \<open>
  The address pins of the runtime (\<^verbatim>\<open>addr_pin\<close>, \<^verbatim>\<open>addr_unpin\<close>,
  \<^verbatim>\<open>addr_is_pinned\<close> and their callers in src/runtime/iron\_heap\_track.c, and the
  pin checks of src/runtime/iron\_runtime.h): the buffers of lists whose elements are borrowed and
  the storage of interface values a method runs on. A pin set, of addresses here and of generations
  in the generation table, behaves as a bag; the locale \<^theory_text>\<open>pin_bag\<close> states that
  contract and both implement it.
\<close>

section \<open>The contract of a set of pins\<close>

text \<open>
  The counters are 64 bits wide, so the contract of pinning holds while fewer than \<open>2 ^ 64 - 1\<close>
  pins are held.
\<close>

locale pin_bag =
  fixes inv :: "'s \<Rightarrow> bool"
    and bag :: "'s \<Rightarrow> 'k multiset"
    and valid :: "'k \<Rightarrow> bool"
    and pin :: "'k \<Rightarrow> 's \<Rightarrow> 's run"
    and unpin :: "'k \<Rightarrow> 's \<Rightarrow> 's"
    and pinned :: "'s \<Rightarrow> 'k \<Rightarrow> bool"
  assumes pin_law: "inv s \<Longrightarrow> valid k \<Longrightarrow> Suc (size (bag s)) < 2 ^ 64 \<Longrightarrow> pin k s = Inr t
      \<Longrightarrow> inv t \<and> bag t = add_mset k (bag s)"
    and unpin_law: "inv s \<Longrightarrow> valid k \<Longrightarrow> inv (unpin k s) \<and> bag (unpin k s) = bag s - {#k#}"
    and pinned_law: "inv s \<Longrightarrow> valid k \<Longrightarrow> pinned s k \<longleftrightarrow> k \<in># bag s"
begin

fun pin_all :: "'k list \<Rightarrow> 's \<Rightarrow> 's run" where
  "pin_all [] s = Inr s"
| "pin_all (k # ks) s = (case pin k s of Inl e \<Rightarrow> Inl e | Inr t \<Rightarrow> pin_all ks t)"

lemma pin_all_law:
  "inv s \<Longrightarrow> list_all valid ks \<Longrightarrow> size (bag s) + length ks < 2 ^ 64 \<Longrightarrow> pin_all ks s = Inr t
     \<Longrightarrow> inv t \<and> bag t = mset ks + bag s"
proof (induction ks arbitrary: s)
  case (Cons k ks)
  then obtain u where u: "pin k s = Inr u" "pin_all ks u = Inr t" by (auto split: sum.splits)
  with Cons.prems pin_law [of s k u] have "inv u" "bag u = add_mset k (bag s)" by auto
  with Cons.IH [of u] Cons.prems u(2) show ?case by simp
qed simp

lemma unpin_all_law:
  "inv s \<Longrightarrow> list_all valid ks \<Longrightarrow> inv (fold unpin ks s) \<and> bag (fold unpin ks s) = bag s - mset ks"
proof (induction ks arbitrary: s)
  case (Cons k ks)
  then have "inv (unpin k s)" "bag (unpin k s) = bag s - {#k#}" using unpin_law [of s k] by auto
  with Cons.IH [of "unpin k s"] Cons.prems show ?case by (simp add: diff_union_swap2)
qed simp

text \<open>Calls that pin and unpin in matching numbers, in whatever order they end, leave the pins as they were.\<close>

lemma balanced:
  assumes "inv s" and "list_all valid ks" and "size (bag s) + length ks < 2 ^ 64"
    and "pin_all ks s = Inr t" and "mset ks' = mset ks" and "valid k"
  shows "pinned (fold unpin ks' t) k = pinned s k"
proof -
  have "inv t" "bag t = mset ks + bag s" using pin_all_law [OF assms(1-4)] by auto
  moreover have "list_all valid ks'"
    using assms(2,5) by (metis list_all_iff set_mset_mset)
  ultimately have "inv (fold unpin ks' t)" "bag (fold unpin ks' t) = bag s"
    using unpin_all_law [of t ks'] assms(5) by auto
  with assms(1,6) show ?thesis by (simp add: pinned_law)
qed

end

section \<open>Generations as pins\<close>

lemma gen_pins_member: "gen_is_pinned st g \<longleftrightarrow> g \<in># mset (s_gpins st)"
  by (simp add: gen_is_pinned_def)

lemma gen_pin_mset:
  "gen_slot_form g \<Longrightarrow> iron_gen_pin ok g st = Inr st1 \<Longrightarrow> s_gpins st1 = s_gpins st @ [g]"
  by (auto simp: iron_gen_pin_def Let_def split: if_splits)

interpretation gen_pins: pin_bag gen_inv "\<lambda>st. mset (s_gpins st)" gen_slot_form
  "iron_gen_pin ok" iron_gen_unpin gen_is_pinned for ok
proof
  fix s g t
  assume inv: "gen_inv s" and g: "gen_slot_form g"
  show "gen_inv t \<and> mset (s_gpins t) = add_mset g (mset (s_gpins s))" if "iron_gen_pin ok g s = Inr t"
    using gen_pin_inv(1) [OF inv that] gen_pin_mset [OF g that] by simp
  show "gen_inv (iron_gen_unpin g s) \<and> mset (s_gpins (iron_gen_unpin g s)) = mset (s_gpins s) - {#g#}"
    using gen_unpin_inv(1) [OF inv] gen_unpin_mset [OF g] by simp
  show "gen_is_pinned s g \<longleftrightarrow> g \<in># mset (s_gpins s)" by (rule gen_pins_member)
qed

section \<open>Address pins\<close>

text \<open>An entry of \<^verbatim>\<open>s_pins\<close>; kind 0 is a list buffer, kind 1 a receiver.\<close>

record addr_pin_entry =
  pin_buf :: addr
  pin_cnt :: u64
  pin_kind :: nat

record pin_state =
  s_pins :: "addr_pin_entry list"
  s_pincap :: nat
  list_pin_count :: u64

definition pin_init :: pin_state where
  "pin_init = \<lparr>s_pins = [], s_pincap = 0, list_pin_count = 0\<rparr>"

definition pin_matches :: "addr \<Rightarrow> nat \<Rightarrow> addr_pin_entry \<Rightarrow> bool" where
  "pin_matches buf kind e \<longleftrightarrow> pin_buf e = buf \<and> pin_kind e = kind"

text \<open>The index the search loops stop at: the first matching entry, or the number of entries.\<close>

fun pin_index :: "addr \<Rightarrow> nat \<Rightarrow> addr_pin_entry list \<Rightarrow> nat" where
  "pin_index buf kind [] = 0"
| "pin_index buf kind (e # es) = (if pin_matches buf kind e then 0 else Suc (pin_index buf kind es))"

definition pin_bump :: "nat \<Rightarrow> pin_state \<Rightarrow> pin_state" where
  "pin_bump i st = st\<lparr>s_pins := (s_pins st)[i := (s_pins st ! i)\<lparr>pin_cnt := pin_cnt (s_pins st ! i) + 1\<rparr>],
     list_pin_count := list_pin_count st + 1\<rparr>"

definition addr_pin :: "malloc_ok \<Rightarrow> addr \<Rightarrow> nat \<Rightarrow> pin_state \<Rightarrow> pin_state run" where
  "addr_pin ok buf kind st =
     (let i = pin_index buf kind (s_pins st) in
      if i = length (s_pins st) then
        let grow = (length (s_pins st) = s_pincap st);
            cap = (if s_pincap st = 0 then 16 else s_pincap st * 2) in
        if grow \<and> \<not> ok (cap * 24) then Inl (Oom_Abort ''pins'')
        else Inr (pin_bump i (st\<lparr>s_pins := s_pins st @ [\<lparr>pin_buf = buf, pin_cnt = 0, pin_kind = kind\<rparr>],
                                s_pincap := (if grow then cap else s_pincap st)\<rparr>))
      else Inr (pin_bump i st))"

definition addr_unpin :: "addr \<Rightarrow> nat \<Rightarrow> pin_state \<Rightarrow> pin_state" where
  "addr_unpin buf kind st =
     (let i = pin_index buf kind (s_pins st) in
      if i = length (s_pins st) then st
      else let e = (s_pins st ! i)\<lparr>pin_cnt := pin_cnt (s_pins st ! i) - 1\<rparr>;
               es = (s_pins st)[i := e] in
        st\<lparr>s_pins := (if pin_cnt e = 0 then butlast (es[i := last es]) else es),
           list_pin_count := list_pin_count st - 1\<rparr>)"

definition addr_is_pinned :: "addr \<Rightarrow> nat \<Rightarrow> pin_state \<Rightarrow> bool" where
  "addr_is_pinned buf kind st \<longleftrightarrow> list_ex (pin_matches buf kind) (s_pins st)"

definition iron_list_iter_pin :: "malloc_ok \<Rightarrow> addr \<Rightarrow> pin_state \<Rightarrow> pin_state run" where
  "iron_list_iter_pin ok buf st = (if buf \<noteq> 0 then addr_pin ok buf 0 st else Inr st)"

definition iron_list_iter_unpin :: "addr \<Rightarrow> pin_state \<Rightarrow> pin_state" where
  "iron_list_iter_unpin buf st = (if buf \<noteq> 0 then addr_unpin buf 0 st else st)"

definition iron_recv_pin :: "malloc_ok \<Rightarrow> addr \<Rightarrow> pin_state \<Rightarrow> pin_state run" where
  "iron_recv_pin ok a st = (if a \<noteq> 0 then addr_pin ok a 1 st else Inr st)"

definition iron_recv_unpin :: "addr \<Rightarrow> pin_state \<Rightarrow> pin_state" where
  "iron_recv_unpin a st = (if a \<noteq> 0 then addr_unpin a 1 st else st)"

definition iron_list_is_pinned :: "addr \<Rightarrow> pin_state \<Rightarrow> bool" where
  "iron_list_is_pinned buf st = addr_is_pinned buf 0 st"

definition iron_recv_is_pinned :: "addr \<Rightarrow> pin_state \<Rightarrow> bool" where
  "iron_recv_is_pinned a st = addr_is_pinned a 1 st"

text \<open>The checks before a list buffer is moved or freed, and before an interface value is replaced.\<close>

definition IRON_LIST_PIN_CHECK :: "addr \<Rightarrow> pin_state \<Rightarrow> unit run" where
  "IRON_LIST_PIN_CHECK p st =
     (if p \<noteq> 0 \<and> list_pin_count st \<noteq> 0 \<and> iron_list_is_pinned p st
      then Inl Panic_List_Pinned else Inr ())"

definition IRON_RECV_PIN_CHECK :: "addr \<Rightarrow> pin_state \<Rightarrow> unit run" where
  "IRON_RECV_PIN_CHECK p st =
     (if list_pin_count st \<noteq> 0 \<and> iron_recv_is_pinned p st
      then Inl Panic_Recv_Pinned else Inr ())"

text \<open>Borrowing a list element: the buffer is pinned and the pointer gets a generation for the call.\<close>

definition iron_list_pin :: "malloc_ok \<Rightarrow> tid \<Rightarrow> addr \<Rightarrow> pin_state \<times> gen_state \<Rightarrow> (u64 \<times> pin_state \<times> gen_state) run" where
  "iron_list_pin ok i buf s = (case s of (ps, gs) \<Rightarrow>
     (case (if buf \<noteq> 0 then addr_pin ok buf 0 ps else Inr ps) of
        Inl e \<Rightarrow> Inl e
      | Inr ps' \<Rightarrow> map_sum id (\<lambda>(g, gs'). (g, ps', gs')) (iron_gen_new ok i False gs)))"

definition iron_list_unpin :: "malloc_ok \<Rightarrow> tid \<Rightarrow> addr \<Rightarrow> u64 \<Rightarrow> pin_state \<times> gen_state \<Rightarrow> (pin_state \<times> gen_state) run" where
  "iron_list_unpin ok i buf g s = (case s of (ps, gs) \<Rightarrow>
     map_sum id (\<lambda>(_, gs'). (if buf \<noteq> 0 then addr_unpin buf 0 ps else ps, gs')) (iron_gen_end ok i g gs))"

section \<open>Address pins are a bag\<close>

definition pin_key :: "addr_pin_entry \<Rightarrow> addr \<times> nat" where
  "pin_key e = (pin_buf e, pin_kind e)"

definition entry_bag :: "addr_pin_entry \<Rightarrow> (addr \<times> nat) multiset" where
  "entry_bag e = replicate_mset (unat (pin_cnt e)) (pin_key e)"

definition pin_abs :: "pin_state \<Rightarrow> (addr \<times> nat) multiset" where
  "pin_abs st = \<Sum>\<^sub># (image_mset entry_bag (mset (s_pins st)))"

definition pin_inv :: "pin_state \<Rightarrow> bool" where
  "pin_inv st \<longleftrightarrow> distinct (map pin_key (s_pins st)) \<and> (\<forall>e\<in>set (s_pins st). pin_cnt e \<noteq> 0) \<and>
     size (pin_abs st) < 2 ^ 64 \<and> list_pin_count st = of_nat (size (pin_abs st))"

lemma pin_matches_key: "pin_matches buf kind e \<longleftrightarrow> pin_key e = (buf, kind)"
  by (simp add: pin_matches_def pin_key_def)

lemma pin_index_cases:
  obtains (found) "pin_index buf kind es < length es" "pin_key (es ! pin_index buf kind es) = (buf, kind)"
    "(buf, kind) \<in> pin_key ` set es"
  | (missing) "pin_index buf kind es = length es" "(buf, kind) \<notin> pin_key ` set es"
proof -
  have "(pin_index buf kind es < length es \<and> pin_key (es ! pin_index buf kind es) = (buf, kind) \<and>
      (buf, kind) \<in> pin_key ` set es) \<or>
    (pin_index buf kind es = length es \<and> (buf, kind) \<notin> pin_key ` set es)"
    by (induction es) (auto simp: pin_matches_key)
  then show thesis using that by blast
qed

lemma entry_bag_set: "pin_cnt e \<noteq> 0 \<Longrightarrow> k \<in># entry_bag e \<longleftrightarrow> k = pin_key e"
  by (auto simp: entry_bag_def unat_eq_zero)

lemma pin_abs_member:
  assumes "pin_inv st"
  shows "k \<in># pin_abs st \<longleftrightarrow> k \<in> pin_key ` set (s_pins st)"
  using assms by (auto simp: pin_abs_def pin_inv_def entry_bag_set)

lemma addr_pinned_iff: "addr_is_pinned buf kind st \<longleftrightarrow> (buf, kind) \<in> pin_key ` set (s_pins st)"
  by (force simp: addr_is_pinned_def list_ex_iff pin_matches_key)

lemma pin_abs_split:
  assumes "i < length (s_pins st)"
  shows "pin_abs st = entry_bag (s_pins st ! i) +
    \<Sum>\<^sub># (image_mset entry_bag (mset (s_pins st) - {#s_pins st ! i#}))"
proof -
  have "mset (s_pins st) = add_mset (s_pins st ! i) (mset (s_pins st) - {#s_pins st ! i#})"
    using assms by simp
  then show ?thesis unfolding pin_abs_def by (metis image_mset_add_mset sum_mset.add_mset)
qed

lemma pin_abs_update:
  assumes "i < length (s_pins st)" and "s_pins st' = (s_pins st)[i := e]"
  shows "pin_abs st' = entry_bag e + \<Sum>\<^sub># (image_mset entry_bag (mset (s_pins st) - {#s_pins st ! i#}))"
  using assms by (simp add: pin_abs_def mset_update)

lemma pin_cnt_le:
  assumes "i < length (s_pins st)"
  shows "unat (pin_cnt (s_pins st ! i)) \<le> size (pin_abs st)"
  by (simp add: pin_abs_split [OF assms] entry_bag_def)

lemma keys_update:
  assumes "i < length es" and "pin_key e = pin_key (es ! i)"
  shows "map pin_key (es[i := e]) = map pin_key es"
  using assms by (metis length_map list_update_id map_update nth_map)

lemma unat_inc: "Suc (unat c) < 2 ^ LENGTH('a) \<Longrightarrow> unat (c + 1 :: 'a::len word) = Suc (unat c)"
  by (simp add: unat_word_ariths)

lemma unat_dec: "c \<noteq> 0 \<Longrightarrow> unat (c - 1 :: 'a::len word) = unat c - 1"
  by (rule unat_minus_one)

lemma pin_bump_law:
  assumes "i < length (s_pins st)" and "distinct (map pin_key (s_pins st))"
    and "\<forall>j<length (s_pins st). j \<noteq> i \<longrightarrow> pin_cnt (s_pins st ! j) \<noteq> 0"
    and "Suc (size (pin_abs st)) < 2 ^ 64" and "list_pin_count st = of_nat (size (pin_abs st))"
  shows "pin_inv (pin_bump i st) \<and> pin_abs (pin_bump i st) = add_mset (pin_key (s_pins st ! i)) (pin_abs st)"
proof -
  let ?e = "(s_pins st ! i)\<lparr>pin_cnt := pin_cnt (s_pins st ! i) + 1\<rparr>"
  have n: "unat (pin_cnt ?e) = Suc (unat (pin_cnt (s_pins st ! i)))"
    using pin_cnt_le [OF assms(1)] assms(4) by (simp add: unat_inc)
  have k: "pin_key ?e = pin_key (s_pins st ! i)" by (simp add: pin_key_def)
  have bag: "pin_abs (pin_bump i st) = add_mset (pin_key (s_pins st ! i)) (pin_abs st)"
    using pin_abs_update [OF assms(1), of "pin_bump i st" ?e] pin_abs_split [OF assms(1)] n k
    by (simp add: pin_bump_def entry_bag_def)
  have "pin_cnt ?e \<noteq> 0" using n by (metis nat.distinct(1) unat_0)
  then have "pin_cnt (s_pins (pin_bump i st) ! j) \<noteq> 0" if "j < length (s_pins st)" for j
    using assms(1,3) that by (cases "j = i") (simp_all add: pin_bump_def)
  then have "\<forall>e\<in>set (s_pins (pin_bump i st)). pin_cnt e \<noteq> 0"
    by (auto simp: in_set_conv_nth pin_bump_def)
  moreover have "distinct (map pin_key (s_pins (pin_bump i st)))"
    using keys_update [OF assms(1) k] assms(2) by (simp add: pin_bump_def)
  moreover have "list_pin_count (pin_bump i st) = of_nat (size (pin_abs (pin_bump i st)))"
    unfolding bag using assms(5) by (simp add: pin_bump_def add.commute)
  ultimately show ?thesis using assms(4) by (simp add: pin_inv_def bag)
qed

lemma addr_pin_law:
  assumes inv: "pin_inv st" and n: "Suc (size (pin_abs st)) < 2 ^ 64"
    and pin: "addr_pin ok buf kind st = Inr st'"
  shows "pin_inv st' \<and> pin_abs st' = add_mset (buf, kind) (pin_abs st)"
proof (cases rule: pin_index_cases [of buf kind "s_pins st"])
  case found
  then have "st' = pin_bump (pin_index buf kind (s_pins st)) st"
    using pin by (auto simp: addr_pin_def Let_def)
  with pin_bump_law [OF found(1)] inv n found(2) show ?thesis by (simp add: pin_inv_def)
next
  case missing
  let ?new = "\<lparr>pin_buf = buf, pin_cnt = 0, pin_kind = kind\<rparr>"
  have "st' = pin_bump (length (s_pins st)) (st\<lparr>s_pins := s_pins st @ [?new], s_pincap :=
      (if length (s_pins st) = s_pincap st then if s_pincap st = 0 then 16 else s_pincap st * 2
       else s_pincap st)\<rparr>)"
    using pin missing(1) by (cases "length (s_pins st) = s_pincap st"; cases "s_pincap st = 0")
      (auto simp: addr_pin_def Let_def split: if_splits)
  then obtain c where st': "st' = pin_bump (length (s_pins st)) (st\<lparr>s_pins := s_pins st @ [?new], s_pincap := c\<rparr>)"
    by blast
  let ?st = "st\<lparr>s_pins := s_pins st @ [?new], s_pincap := c\<rparr>"
  have "pin_key ?new = (buf, kind)" "entry_bag ?new = {#}" by (simp_all add: pin_key_def entry_bag_def)
  moreover have "pin_abs ?st = pin_abs st"
    by (simp add: pin_abs_def entry_bag_def)
  moreover have "\<forall>j<length (s_pins ?st). j \<noteq> length (s_pins st) \<longrightarrow> pin_cnt (s_pins ?st ! j) \<noteq> 0"
    using inv by (auto simp: pin_inv_def nth_append)
  ultimately show ?thesis
    unfolding st' using pin_bump_law [of "length (s_pins st)" ?st] inv n missing(2)
    by (simp add: pin_inv_def)
qed

text \<open>Removing an entry whose count reached zero swaps the last entry into its place.\<close>

lemma swap_out_mset:
  assumes "i < length es"
  shows "mset (butlast (es[i := last (es[i := e])])) = mset es - {#es ! i#}"
  using mset_swap_remove [of i "es[i := e]"] assms by (simp add: mset_update)

lemma swap_out_keys:
  assumes "i < length es" and "pin_key e = pin_key (es ! i)" and "distinct (map pin_key es)"
  shows "distinct (map pin_key (butlast (es[i := last (es[i := e])])))"
proof -
  have "pin_key (last (es[i := e])) = last (map pin_key (es[i := e]))"
    using assms(1) by (subst last_map) auto
  with keys_update [OF assms(1,2)] assms(1,3) distinct_swap_remove [of "map pin_key es" i]
  show ?thesis by (simp add: map_butlast map_update del: list_update_overwrite)
qed

lemma addr_unpin_law:
  assumes inv: "pin_inv st"
  shows "pin_inv (addr_unpin buf kind st) \<and> pin_abs (addr_unpin buf kind st) = pin_abs st - {#(buf, kind)#}"
proof (cases rule: pin_index_cases [of buf kind "s_pins st"])
  case missing
  with inv pin_abs_member [OF inv, of "(buf, kind)"] show ?thesis
    by (simp add: addr_unpin_def diff_single_trivial)
next
  case found
  let ?i = "pin_index buf kind (s_pins st)" and ?st = "addr_unpin buf kind st"
  let ?c = "pin_cnt (s_pins st ! ?i)" and ?e = "(s_pins st ! ?i)\<lparr>pin_cnt := pin_cnt (s_pins st ! ?i) - 1\<rparr>"
  let ?rest = "mset (s_pins st) - {#s_pins st ! ?i#}"
  have c: "?c \<noteq> 0" using inv found(1) by (simp add: pin_inv_def)
  have k: "pin_key ?e = pin_key (s_pins st ! ?i)" by (simp add: pin_key_def)
  have fields: "s_pins ?st = (if ?c - 1 = 0 then butlast ((s_pins st)[?i := last ((s_pins st)[?i := ?e])])
      else (s_pins st)[?i := ?e])" "list_pin_count ?st = list_pin_count st - 1"
    using found(1) by (simp_all add: addr_unpin_def Let_def)
  have "pin_abs ?st = replicate_mset (unat ?c - 1) (buf, kind) + \<Sum>\<^sub># (image_mset entry_bag ?rest)"
  proof (cases "?c - 1 = 0")
    case True
    then have "unat ?c - 1 = 0" using unat_dec [OF c] by simp
    with True fields(1) swap_out_mset [OF found(1)] show ?thesis by (simp add: pin_abs_def)
  next
    case False
    with pin_abs_update [OF found(1), of ?st ?e] fields(1) k found(2) unat_dec [OF c] show ?thesis
      by (simp add: entry_bag_def)
  qed
  then have bag: "pin_abs ?st = pin_abs st - {#(buf, kind)#}"
    using pin_abs_split [OF found(1)] found(2) c
    by (cases "unat ?c") (simp_all add: entry_bag_def unat_eq_zero)
  have mem: "(buf, kind) \<in># pin_abs st" using pin_abs_member [OF inv] found(3) by simp
  have "list_pin_count ?st = of_nat (size (pin_abs ?st))"
    using inv mem fields(2) by (cases "size (pin_abs st)") (auto simp: pin_inv_def bag size_Diff_singleton)
  moreover have "distinct (map pin_key (s_pins ?st))"
  proof (cases "?c - 1 = 0")
    case True
    then have "s_pins ?st = butlast ((s_pins st)[?i := last ((s_pins st)[?i := ?e])])"
      unfolding fields(1) by (rule if_P)
    with swap_out_keys [OF found(1) k] inv show ?thesis unfolding pin_inv_def by simp
  next
    case False
    then have "s_pins ?st = (s_pins st)[?i := ?e]" unfolding fields(1) by (rule if_not_P)
    with keys_update [OF found(1) k] inv show ?thesis unfolding pin_inv_def by simp
  qed
  moreover have "\<forall>e\<in>set (s_pins ?st). pin_cnt e \<noteq> 0"
  proof (cases "?c - 1 = 0")
    case True
    then have "mset (s_pins ?st) = ?rest"
      using fields(1) swap_out_mset [OF found(1), of ?e] by simp
    then have "set (s_pins ?st) \<subseteq> set (s_pins st)"
      by (metis diff_subset_eq_self set_mset_mono set_mset_mset)
    with inv show ?thesis unfolding pin_inv_def by blast
  next
    case False
    then have "s_pins ?st = (s_pins st)[?i := ?e]" "pin_cnt ?e \<noteq> 0" using fields(1) by simp_all
    with inv show ?thesis unfolding pin_inv_def using set_update_subset_insert [of "s_pins st" ?i ?e]
      by fastforce
  qed
  moreover have "size (pin_abs ?st) < 2 ^ 64"
    unfolding bag using inv mem by (simp add: pin_inv_def size_Diff_singleton less_imp_diff_less)
  ultimately show ?thesis using bag by (simp only: pin_inv_def)
qed

interpretation addr_pins: pin_bag pin_inv pin_abs "\<lambda>_. True"
  "\<lambda>(buf, kind). addr_pin ok buf kind" "\<lambda>(buf, kind). addr_unpin buf kind"
  "\<lambda>st (buf, kind). addr_is_pinned buf kind st" for ok
proof
  fix s t :: pin_state and k :: "addr \<times> nat"
  assume inv: "pin_inv s"
  obtain buf kind where k: "k = (buf, kind)" by (cases k)
  show "pin_inv t \<and> pin_abs t = add_mset k (pin_abs s)"
    if "Suc (size (pin_abs s)) < 2 ^ 64" and "(case k of (buf, kind) \<Rightarrow> addr_pin ok buf kind) s = Inr t"
    using addr_pin_law [OF inv that(1)] that(2) by (simp add: k)
  show "pin_inv ((case k of (buf, kind) \<Rightarrow> addr_unpin buf kind) s) \<and>
      pin_abs ((case k of (buf, kind) \<Rightarrow> addr_unpin buf kind) s) = pin_abs s - {#k#}"
    using addr_unpin_law [OF inv, of buf kind] by (simp add: k)
  show "(case k of (buf, kind) \<Rightarrow> addr_is_pinned buf kind s) \<longleftrightarrow> k \<in># pin_abs s"
    by (simp add: k addr_pinned_iff pin_abs_member [OF inv])
qed

section \<open>What the pin checks guarantee\<close>

lemma pin_init_inv: "pin_inv pin_init" "pin_abs pin_init = {#}"
  by (simp_all add: pin_inv_def pin_init_def pin_abs_def)

lemma pin_count_0:
  assumes "pin_inv st"
  shows "list_pin_count st = 0 \<longleftrightarrow> pin_abs st = {#}"
proof -
  have "(of_nat (size (pin_abs st)) :: u64) = 0 \<longleftrightarrow> size (pin_abs st) = 0"
    using assms by (simp add: pin_inv_def word_unat_eq_iff unsigned_of_nat take_bit_nat_eq_self)
  with assms show ?thesis unfolding pin_inv_def by simp
qed

text \<open>C5: the pins of list buffers and of receivers are counted exactly. While any borrow of a
  list is in progress the check before its buffer is moved or freed stops the process, also when
  borrows of one buffer nest, and it passes again once each of them has ended, in any order; a pin of
  one address or kind never counts for another. The fast test on the total count never hides a pin.\<close>

theorem list_pin_check_exact:
  assumes "pin_inv st" and "buf \<noteq> 0"
  shows "IRON_LIST_PIN_CHECK buf st = (if (buf, 0) \<in># pin_abs st then Inl Panic_List_Pinned else Inr ()) \<and>
    IRON_RECV_PIN_CHECK buf st = (if (buf, 1) \<in># pin_abs st then Inl Panic_Recv_Pinned else Inr ()) \<and>
    (Suc (size (pin_abs st)) < 2 ^ 64 \<longrightarrow> iron_list_iter_pin ok buf st = Inr st1 \<longrightarrow>
       pin_inv st1 \<and> pin_abs st1 = add_mset (buf, 0) (pin_abs st)) \<and>
    (Suc (size (pin_abs st)) < 2 ^ 64 \<longrightarrow> iron_recv_pin ok buf st = Inr st1 \<longrightarrow>
       pin_inv st1 \<and> pin_abs st1 = add_mset (buf, 1) (pin_abs st)) \<and>
    pin_inv (iron_list_iter_unpin buf st) \<and>
    pin_abs (iron_list_iter_unpin buf st) = pin_abs st - {#(buf, 0)#} \<and>
    pin_inv (iron_recv_unpin buf st) \<and>
    pin_abs (iron_recv_unpin buf st) = pin_abs st - {#(buf, 1)#}"
  using assms addr_pin_law [OF assms(1), of ok buf _ st1] addr_unpin_law [OF assms(1), of buf]
    pin_count_0 [OF assms(1)] pin_abs_member [OF assms(1)]
  by (simp add: IRON_LIST_PIN_CHECK_def IRON_RECV_PIN_CHECK_def iron_list_is_pinned_def
      iron_recv_is_pinned_def addr_pinned_iff iron_list_iter_pin_def iron_recv_pin_def
      iron_list_iter_unpin_def iron_recv_unpin_def) force

theorem list_pin_check_exact_witness:
  "IRON_LIST_PIN_CHECK 64 \<lparr>s_pins = [\<lparr>pin_buf = 64, pin_cnt = 1, pin_kind = 0\<rparr>], s_pincap = 16,
     list_pin_count = 1\<rparr> = Inl Panic_List_Pinned"
  using list_pin_check_exact [of "\<lparr>s_pins = [\<lparr>pin_buf = 64, pin_cnt = 1, pin_kind = 0\<rparr>],
      s_pincap = 16, list_pin_count = 1\<rparr>" 64]
  by (simp add: pin_inv_def pin_abs_def entry_bag_def pin_key_def)

end
