(* ===== verification/Stack_Scope.thy ===== *)
theory Stack_Scope
  imports Gen_Table
begin

text \<open>
  Stack scopes (src/runtime/iron\_heap\_track.c, and the inline entry, exit and check functions of
  src/runtime/iron\_runtime.h). A scope whose locals have their address taken gets a key, a thread
  number and an id; a stack pointer is valid while its scope's key is recorded at its depth. This
  theory models the registry of thread numbers, the per-thread scope tables with their deep chunks,
  the lookup from another thread with its binary search, and the pointer checks that route a
  generation to the table or to the scopes.

  Depths, thread numbers and ids are natural numbers here: the invariant proves that they stay within
  1048575, 4095 and \<open>2 ^ 35 - 1\<close>, so the C counters never wrap. Keys and generations are 64-bit words.
\<close>

section \<open>The layout of a stack generation\<close>

definition IRON_STACK_ID_MASK :: nat where
  "IRON_STACK_ID_MASK = 2 ^ 35 - 1"

definition IRON_STACK_KEY_MASK :: u64 where
  "IRON_STACK_KEY_MASK = mask 47"

definition IRON_STACK_THREAD :: "u64 \<Rightarrow> nat" where
  "IRON_STACK_THREAD g = unat (drop_bit 35 g AND mask 12)"

definition IRON_STACK_DEPTH :: "u64 \<Rightarrow> nat" where
  "IRON_STACK_DEPTH g = unat (drop_bit 47 g AND mask 16)"

definition IRON_STACK_GEN_INIT :: u64 where
  "IRON_STACK_GEN_INIT = IRON_STACK_TAG"

definition IRON_STACK_CHUNK :: nat where
  "IRON_STACK_CHUNK = 1024"

definition IRON_STACK_CHUNKS :: nat where
  "IRON_STACK_CHUNKS = 1024"

definition IRON_STACK_DEPTH_MAX :: nat where
  "IRON_STACK_DEPTH_MAX = IRON_STACK_CHUNK * IRON_STACK_CHUNKS - 1"

definition IRON_STACK_THREADS :: nat where
  "IRON_STACK_THREADS = 4096"

text \<open>The two words \<^verbatim>\<open>iron_stack_enter\<close> builds: the key and the generation.\<close>

definition stack_key :: "nat \<Rightarrow> nat \<Rightarrow> u64" where
  "stack_key n ident = push_bit 35 (of_nat n) OR of_nat ident"

definition stack_gen_of :: "nat \<Rightarrow> u64 \<Rightarrow> u64" where
  "stack_gen_of d key = IRON_STACK_TAG OR push_bit 47 (of_nat (if d < 0xFFFF then d else 0xFFFF)) OR key"

section \<open>State\<close>

text \<open>\<^verbatim>\<open>IronStackTLS\<close>: one block per thread; \<open>stk_more\<close> holds the chunks of depths from 1024 on.\<close>

record stk =
  stk_gen :: u64
  stk_depth :: nat
  stk_tno :: nat
  stk_next_id :: nat
  stk_renumbered :: bool
  stk_more :: "(nat \<Rightarrow> (nat \<Rightarrow> u64) option) option"
  stk_ids :: "nat \<Rightarrow> u64"

record stack_reg =
  reg_tls :: "tid option"
  reg_next_id :: nat

record stack_state =
  stks :: "tid \<Rightarrow> stk"
  s_stack_reg :: "nat \<Rightarrow> stack_reg"
  s_stack_free :: "nat list"
  s_stack_next :: nat

definition stk_init :: stk where
  "stk_init = \<lparr>stk_gen = IRON_STACK_GEN_INIT, stk_depth = 0, stk_tno = 0, stk_next_id = 0,
     stk_renumbered = False, stk_more = None, stk_ids = (\<lambda>_. 0)\<rparr>"

definition stack_init :: stack_state where
  "stack_init = \<lparr>stks = (\<lambda>_. stk_init), s_stack_reg = (\<lambda>_. \<lparr>reg_tls = None, reg_next_id = 0\<rparr>),
     s_stack_free = [], s_stack_next = 1\<rparr>"

abbreviation upd_stk :: "tid \<Rightarrow> (stk \<Rightarrow> stk) \<Rightarrow> stack_state \<Rightarrow> stack_state" where
  "upd_stk i f st \<equiv> st\<lparr>stks := (stks st)(i := f (stks st i))\<rparr>"

section \<open>Thread numbers\<close>

text \<open>The loop of \<^verbatim>\<open>stack_take_number\<close>: pops free numbers until one has ids left.\<close>

fun stack_pop_free :: "(nat \<Rightarrow> stack_reg) \<Rightarrow> nat list \<Rightarrow> nat \<times> nat list" where
  "stack_pop_free reg [] = (0, [])"
| "stack_pop_free reg (m # fs) =
     (let n = (if reg_next_id (reg m) \<ge> IRON_STACK_ID_MASK then 0 else m) in
      if n = 0 then stack_pop_free reg fs else (n, fs))"

definition stack_take_number :: "tid \<Rightarrow> stack_state \<Rightarrow> nat \<times> stack_state" where
  "stack_take_number i st =
     (case stack_pop_free (s_stack_reg st) (s_stack_free st) of (m, fs) \<Rightarrow>
        let fresh = (m = 0 \<and> s_stack_next st < IRON_STACK_THREADS);
            n = (if fresh then s_stack_next st else m);
            st1 = st\<lparr>s_stack_free := fs, s_stack_next := (if fresh then s_stack_next st + 1 else s_stack_next st)\<rparr> in
        if n \<noteq> 0 then
          (n, (upd_stk i (\<lambda>t. t\<lparr>stk_next_id := reg_next_id (s_stack_reg st n), stk_tno := n\<rparr>) st1)
                \<lparr>s_stack_reg := (s_stack_reg st)(n := (s_stack_reg st n)\<lparr>reg_tls := Some i\<rparr>)\<rparr>)
        else (n, st1))"

definition iron_stack_attach :: "tid \<Rightarrow> stack_state \<Rightarrow> stack_state run" where
  "iron_stack_attach i st =
     (case stack_take_number i st of (n, st') \<Rightarrow>
        if n = 0 then Inl (Oom_Abort ''stack scopes: more than 4095 threads take addresses of locals'')
        else Inr st')"

definition iron_stack_renumber :: "tid \<Rightarrow> stack_state \<Rightarrow> stack_state run" where
  "iron_stack_renumber i st =
     (let old = stk_tno (stks st i);
          st1 = st\<lparr>s_stack_reg := (s_stack_reg st)(old := (s_stack_reg st old)\<lparr>reg_next_id := IRON_STACK_ID_MASK\<rparr>)\<rparr> in
      case stack_take_number i st1 of (n, st2) \<Rightarrow>
        let st3 = upd_stk i (\<lambda>t. t\<lparr>stk_renumbered := True\<rparr>) st2 in
        if n = 0 then Inl (Oom_Abort ''stack scopes: scope ids used up'') else Inr st3)"

section \<open>The scope table of a thread\<close>

text \<open>The slot of a deep scope: its chunk and its place there, or none.\<close>

definition stack_deep_slot :: "malloc_ok \<Rightarrow> stk \<Rightarrow> nat \<Rightarrow> bool \<Rightarrow> ((nat \<times> nat) option \<times> stk) run" where
  "stack_deep_slot ok t d mk =
     (if d > IRON_STACK_DEPTH_MAX then
        (if mk then Inl (Oom_Abort ''stack scopes: nesting deeper than 1048575'') else Inr (None, t))
      else if stk_more t = None \<and> \<not> mk then Inr (None, t)
      else if stk_more t = None \<and> \<not> ok (IRON_STACK_CHUNKS * 8) then Inl (Oom_Abort ''stack scopes'')
      else let more = (case stk_more t of None \<Rightarrow> (\<lambda>_. None) | Some m \<Rightarrow> m);
               k = d div IRON_STACK_CHUNK;
               slot = Some (k, d mod IRON_STACK_CHUNK) in
        (case more k of
           Some c \<Rightarrow> Inr (slot, t\<lparr>stk_more := Some more\<rparr>)
         | None \<Rightarrow>
             if \<not> mk then Inr (None, t)
             else if \<not> ok (IRON_STACK_CHUNK * 8) then Inl (Oom_Abort ''stack scopes'')
             else Inr (slot, t\<lparr>stk_more := Some (more(k \<mapsto> (\<lambda>_. 0)))\<rparr>)))"

definition iron_stack_set_deep :: "malloc_ok \<Rightarrow> nat \<Rightarrow> u64 \<Rightarrow> stk \<Rightarrow> stk run" where
  "iron_stack_set_deep ok d key t = (case stack_deep_slot ok t d True of
     Inl e \<Rightarrow> Inl e
   | Inr (slot, t1) \<Rightarrow>
       (case (slot, stk_more t1) of
          (Some (k, off), Some m) \<Rightarrow>
            Inr (t1\<lparr>stk_more := Some (m(k := map_option (\<lambda>c. c(off := key)) (m k)))\<rparr>)
        | _ \<Rightarrow> Inr t1))"

text \<open>The store of a key at a depth, in the first 1024 slots or in a chunk.\<close>

definition stack_set :: "malloc_ok \<Rightarrow> nat \<Rightarrow> u64 \<Rightarrow> stk \<Rightarrow> stk run" where
  "stack_set ok d key t =
     (if d < IRON_STACK_CHUNK then Inr (t\<lparr>stk_ids := (stk_ids t)(d := key)\<rparr>)
      else iron_stack_set_deep ok d key t)"

definition stack_key_at :: "stk \<Rightarrow> nat \<Rightarrow> u64" where
  "stack_key_at t d =
     (if d < IRON_STACK_CHUNK then stk_ids t d
      else (case stack_deep_slot (\<lambda>_. True) t d False of
              Inr (Some (k, off), t') \<Rightarrow>
                (case stk_more t' of Some m \<Rightarrow> (case m k of Some c \<Rightarrow> c off | None \<Rightarrow> 0) | None \<Rightarrow> 0)
            | _ \<Rightarrow> 0))"

definition iron_stack_enter :: "malloc_ok \<Rightarrow> tid \<Rightarrow> stack_state \<Rightarrow> (u64 \<times> stack_state) run" where
  "iron_stack_enter ok i st =
     (let saved = stk_gen (stks st i) in
      case (if stk_tno (stks st i) = 0 then iron_stack_attach i st else Inr st) of
        Inl e \<Rightarrow> Inl e
      | Inr st1 \<Rightarrow>
        (let d = stk_depth (stks st1 i) + 1 in
         case (if stk_next_id (stks st1 i) \<ge> IRON_STACK_ID_MASK then iron_stack_renumber i st1 else Inr st1) of
           Inl e \<Rightarrow> Inl e
         | Inr st2 \<Rightarrow>
           (let t = stks st2 i;
                t1 = t\<lparr>stk_next_id := stk_next_id t + 1\<rparr>;
                key = stack_key (stk_tno t1) (stk_next_id t1) in
            case stack_set ok d key t1 of
              Inl e \<Rightarrow> Inl e
            | Inr t2 \<Rightarrow>
                Inr (saved, upd_stk i (\<lambda>_. t2\<lparr>stk_depth := d, stk_gen := stack_gen_of d key\<rparr>) st2))))"

definition iron_stack_leave :: "malloc_ok \<Rightarrow> tid \<Rightarrow> u64 \<Rightarrow> stack_state \<Rightarrow> stack_state run" where
  "iron_stack_leave ok i saved st =
     (let t = stks st i; d = stk_depth t in
      case stack_set ok d 0 t of
        Inl e \<Rightarrow> Inl e
      | Inr t1 \<Rightarrow> Inr (upd_stk i (\<lambda>_. t1\<lparr>stk_depth := d - 1, stk_gen := saved\<rparr>) st))"

text \<open>The loop over the registry: numbers the thread used up still point at its block.\<close>

definition drop_block :: "tid \<Rightarrow> stack_reg \<Rightarrow> stack_reg" where
  "drop_block i r = (if reg_tls r = Some i then r\<lparr>reg_tls := None\<rparr> else r)"

definition iron_stack_thread_exit ::
    "malloc_ok \<Rightarrow> tid \<Rightarrow> gen_state \<times> stack_state \<Rightarrow> gen_state \<times> stack_state" where
  "iron_stack_thread_exit ok i s = (case s of (gs, st) \<Rightarrow>
     let gs' = iron_gen_thread_exit ok i gs; t = stks st i; n = stk_tno t in
     if n = 0 then (gs', st)
     else let reg = (s_stack_reg st)(n := \<lparr>reg_tls = None, reg_next_id = stk_next_id t\<rparr>);
              reg' = (if stk_renumbered t
                      then (\<lambda>m. if 1 \<le> m \<and> m < IRON_STACK_THREADS then drop_block i (reg m) else reg m)
                      else reg) in
       (gs', (upd_stk i (\<lambda>t. t\<lparr>stk_more := None, stk_tno := 0, stk_renumbered := False, stk_depth := 0,
                           stk_gen := IRON_STACK_GEN_INIT\<rparr>) st)
                \<lparr>s_stack_reg := reg', s_stack_free := n # s_stack_free st\<rparr>))"

section \<open>Checks\<close>

text \<open>The binary search of \<^verbatim>\<open>iron_stack_live_slow\<close> over the depths \<open>lo..hi\<close>.\<close>

function stack_search :: "stk \<Rightarrow> u64 \<Rightarrow> nat \<Rightarrow> nat \<Rightarrow> bool" where
  "stack_search t key lo hi =
     (if lo \<le> hi then
        let mid = lo + (hi - lo) div 2; v = stack_key_at t mid in
        if v = key then True
        else if v = 0 \<or> v > key then
          (if mid = lo then False else stack_search t key lo (mid - 1))
        else stack_search t key (mid + 1) hi
      else False)"
  by pat_completeness auto
termination
  by (relation "measure (\<lambda>(t, key, lo, hi). hi + 1 - lo)") auto

declare stack_search.simps [simp del]

definition iron_stack_live_slow :: "stack_state \<Rightarrow> u64 \<Rightarrow> bool" where
  "iron_stack_live_slow st g =
     (let n = IRON_STACK_THREAD g; key = g AND IRON_STACK_KEY_MASK; d = IRON_STACK_DEPTH g in
      if n = 0 \<or> n \<ge> IRON_STACK_THREADS then False
      else (case reg_tls (s_stack_reg st n) of
              None \<Rightarrow> False
            | Some j \<Rightarrow>
                let t = stks st j; cur = stk_depth t in
                if d < 0xFFFF then d \<le> cur \<and> stack_key_at t d = key
                else if cur \<ge> 0xFFFF \<and> \<not> stk_renumbered t then stack_search t key 0xFFFF cur
                else if cur \<ge> 0xFFFF then list_ex (\<lambda>k. stack_key_at t k = key) [0xFFFF..<Suc cur]
                else False))"

definition iron_stack_gen_open :: "tid \<Rightarrow> stack_state \<Rightarrow> u64 \<Rightarrow> bool" where
  "iron_stack_gen_open i st g \<longleftrightarrow>
     g = IRON_STACK_GEN_INIT \<or>
     g AND IRON_STACK_TAG \<noteq> 0 \<and> 1 \<le> IRON_STACK_DEPTH g \<and> IRON_STACK_DEPTH g < IRON_STACK_CHUNK \<and>
       stk_ids (stks st i) (IRON_STACK_DEPTH g) = g AND IRON_STACK_KEY_MASK"

definition iron_stack_gen_live :: "tid \<Rightarrow> stack_state \<Rightarrow> u64 \<Rightarrow> bool" where
  "iron_stack_gen_live i st g =
     (let d = IRON_STACK_DEPTH g in
      if g AND IRON_STACK_TAG = 0 then True
      else if 1 \<le> d \<and> d < IRON_STACK_CHUNK \<and> stk_ids (stks st i) d = g AND IRON_STACK_KEY_MASK then True
      else if d = 0 then True
      else iron_stack_live_slow st g)"

definition iron_check_ptr_slow :: "tid \<Rightarrow> gen_state \<times> stack_state \<Rightarrow> u64 \<Rightarrow> unit run" where
  "iron_check_ptr_slow i s g = (case s of (gs, st) \<Rightarrow>
     if g AND IRON_STACK_TAG \<noteq> 0 then
       (if iron_stack_gen_live i st g then Inr () else Inl (Panic_Stale_Stack g))
     else if iron_gen_live gs g then Inr () else Inl (Panic_Stale_Gen g))"

text \<open>The check of a pointer of unknown origin, in the release build and in the debug build.\<close>

definition iron_check_ptr :: "tid \<Rightarrow> gen_state \<times> stack_state \<Rightarrow> u64 \<Rightarrow> unit run" where
  "iron_check_ptr i s g =
     (if g AND IRON_STACK_TAG \<noteq> 0
      then (if iron_stack_gen_open i (snd s) g then Inr () else iron_check_ptr_slow i s g)
      else if iron_gen_live (fst s) g then Inr () else iron_check_ptr_slow i s g)"

definition iron_check_ptr_debug :: "tid \<Rightarrow> gen_state \<times> stack_state \<Rightarrow> u64 \<Rightarrow> unit run" where
  "iron_check_ptr_debug i s g =
     (if g AND IRON_STACK_TAG \<noteq> 0
      then (if \<not> iron_stack_gen_live i (snd s) g then Inl (Panic_Stale_Stack g) else Inr ())
      else if \<not> iron_gen_live (fst s) g then Inl (Panic_Stale_Gen g) else Inr ())"

definition iron_check_stack_pointer_gen :: "tid \<Rightarrow> gen_state \<times> stack_state \<Rightarrow> u64 \<Rightarrow> unit run" where
  "iron_check_stack_pointer_gen i s g =
     (if iron_stack_gen_open i (snd s) g then Inr () else iron_check_ptr_slow i s g)"

definition iron_check_stack_pointer_gen_debug :: "tid \<Rightarrow> gen_state \<times> stack_state \<Rightarrow> u64 \<Rightarrow> unit run" where
  "iron_check_stack_pointer_gen_debug i s g =
     (if \<not> iron_stack_gen_live i (snd s) g then Inl (Panic_Stale_Stack g)
      else if g AND IRON_STACK_TAG = 0 \<and> \<not> iron_gen_live (fst s) g then Inl (Panic_Stale_Gen g)
      else Inr ())"

definition iron_check_pointer_gen :: "gen_state \<times> stack_state \<Rightarrow> u64 \<Rightarrow> unit run" where
  "iron_check_pointer_gen s g = (if \<not> iron_gen_live (fst s) g then Inl (Panic_Stale_Gen g) else Inr ())"

section \<open>Keys and generations\<close>

lemma bit_of_nat_u64: "bit (of_nat n :: u64) m \<longleftrightarrow> m < 64 \<and> bit n m"
  by (simp add: bit_simps)

lemma bit_stack_key:
  "bit (stack_key n x) m \<longleftrightarrow> m < 64 \<and> (35 \<le> m \<and> bit n (m - 35) \<or> bit x m)"
  by (auto simp: stack_key_def bit_or_iff bit_push_bit_iff bit_of_nat_u64)

lemma bit_stack_gen_of:
  "bit (stack_gen_of d key) m \<longleftrightarrow> m = 63 \<or> 47 \<le> m \<and> m < 64 \<and> bit (min d 0xFFFF) (m - 47) \<or> bit key m"
  by (auto simp: stack_gen_of_def bit_or_iff bit_push_bit_iff bit_of_nat_u64 gen_layout_bits min_def
      split: if_splits)

lemma stack_key_value:
  assumes "n < 4096" and "x < 2 ^ 35"
  shows "unat (stack_key n x) = n * 2 ^ 35 + x"
proof -
  let ?a = "push_bit 35 (of_nat n :: u64)" and ?b = "of_nat x :: u64"
  have "?a AND ?b = 0"
    using nat_bit_high [OF assms(2)]
    by (auto intro!: word_eqI_bits simp: bit_and_iff bit_push_bit_iff bit_of_nat_u64)
  then have "stack_key n x = ?a + ?b"
    unfolding stack_key_def by (simp add: disjunctive_add_eq_or)
  moreover have "?a = of_nat (n * 2 ^ 35)" by (simp add: push_bit_eq_mult)
  ultimately have "stack_key n x = of_nat (n * 2 ^ 35 + x)" by simp
  moreover have "n * 2 ^ 35 + x < 2 ^ 64" using assms by simp
  ultimately show ?thesis by (simp add: unat_of_nat_small del: of_nat_add of_nat_mult)
qed

text \<open>The id of a key or generation.\<close>

definition stack_id :: "u64 \<Rightarrow> nat" where
  "stack_id g = unat (g AND mask 35)"

lemma unat_of_nat_field:
  assumes "\<And>m. m < 64 \<Longrightarrow> bit (w :: u64) m \<longleftrightarrow> bit n m" and "n < 2 ^ 64"
  shows "unat w = n"
proof -
  have "w = of_nat n" by (rule word_eqI_bits) (use assms(1) in \<open>simp add: bit_of_nat_u64\<close>)
  with assms(2) show ?thesis by (simp add: unat_of_nat_small)
qed

lemma stack_key_fields:
  assumes n: "n < 4096" and x: "x < 2 ^ 35"
  shows "IRON_STACK_THREAD (stack_key n x) = n" and "stack_id (stack_key n x) = x"
    and "stack_key n x AND IRON_STACK_KEY_MASK = stack_key n x" and "47 \<le> m \<Longrightarrow> \<not> bit (stack_key n x) m"
    and "stack_key n x = 0 \<longleftrightarrow> n = 0 \<and> x = 0"
proof -
  have n': "n < 2 ^ 12" using n by simp
  note hi = nat_bit_high [OF n'] nat_bit_high [OF x]
  show top: "\<not> bit (stack_key n x) m" if "47 \<le> m" for m
    using hi(1) [of "m - 35"] hi(2) [of m] that by (simp add: bit_stack_key)
  show "stack_key n x AND IRON_STACK_KEY_MASK = stack_key n x"
    using top by (auto intro!: word_eqI_bits simp: IRON_STACK_KEY_MASK_def bit_simps not_le [symmetric])
  show "IRON_STACK_THREAD (stack_key n x) = n" unfolding IRON_STACK_THREAD_def
  proof (rule unat_of_nat_field)
    fix m :: nat
    show "bit (drop_bit 35 (stack_key n x) AND mask 12) m \<longleftrightarrow> bit n m"
      using hi(1) [of m] hi(2) [of "35 + m"] by (cases "m < 12") (auto simp: bit_simps bit_stack_key)
  qed (use n in simp)
  show "stack_id (stack_key n x) = x" unfolding stack_id_def
  proof (rule unat_of_nat_field)
    fix m :: nat assume "m < 64"
    then show "bit (stack_key n x AND mask 35) m \<longleftrightarrow> bit x m"
      using hi(2) [of m] by (cases "m < 35") (auto simp: bit_simps bit_stack_key)
  qed (use x in simp)
  show "stack_key n x = 0 \<longleftrightarrow> n = 0 \<and> x = 0"
    using stack_key_value [OF assms] by (metis add_is_0 mult_is_0 unat_0 unat_eq_zero zero_neq_numeral power_eq_0_iff)
qed

text \<open>The fields of a generation: they determine the key, and the depth up to saturation.\<close>

lemma stack_gen_of_fields:
  assumes key: "\<And>m. 47 \<le> m \<Longrightarrow> \<not> bit key m"
  shows "stack_gen_of d key AND IRON_STACK_TAG \<noteq> 0"
    and "stack_gen_of d key AND IRON_STACK_KEY_MASK = key"
    and "IRON_STACK_DEPTH (stack_gen_of d key) = min d 0xFFFF"
    and "IRON_STACK_THREAD (stack_gen_of d key) = IRON_STACK_THREAD key"
    and "stack_id (stack_gen_of d key) = stack_id key"
proof -
  let ?g = "stack_gen_of d key"
  have "bit (?g AND IRON_STACK_TAG) 63" by (simp add: bit_simps gen_layout_bits bit_stack_gen_of)
  then show "?g AND IRON_STACK_TAG \<noteq> 0" by auto
  have low: "bit ?g m \<longleftrightarrow> bit key m" if "m < 47" for m using that by (simp add: bit_stack_gen_of)
  have "bit (?g AND mask 47) m \<longleftrightarrow> bit key m" for m
    using key [of m] low [of m] by (cases "m < 47") (auto simp: bit_simps)
  then show "?g AND IRON_STACK_KEY_MASK = key"
    unfolding IRON_STACK_KEY_MASK_def by (blast intro: word_eqI_bits)
  have "drop_bit 35 ?g AND mask 12 = drop_bit 35 key AND mask 12"
    using low by (auto intro!: word_eqI_bits simp: bit_simps)
  then show "IRON_STACK_THREAD ?g = IRON_STACK_THREAD key" by (simp add: IRON_STACK_THREAD_def)
  have "?g AND mask 35 = key AND mask 35" using low by (auto intro!: word_eqI_bits simp: bit_simps)
  then show "stack_id ?g = stack_id key" by (simp add: stack_id_def)
  have d: "min d 0xFFFF < 2 ^ 16" by simp
  show "IRON_STACK_DEPTH ?g = min d 0xFFFF" unfolding IRON_STACK_DEPTH_def
  proof (rule unat_of_nat_field)
    fix m :: nat
    show "bit (drop_bit 47 ?g AND mask 16) m \<longleftrightarrow> bit (min d 0xFFFF) m"
      using nat_bit_high [OF d, of m] key [of "47 + m"]
      by (cases "m < 16") (auto simp: bit_simps bit_stack_gen_of)
  qed (use d in simp)
qed

section \<open>Slots of the scope table\<close>

lemma deep_slot_split: "d div IRON_STACK_CHUNK = d' div IRON_STACK_CHUNK \<Longrightarrow>
    d mod IRON_STACK_CHUNK = d' mod IRON_STACK_CHUNK \<Longrightarrow> d = d'"
  by (metis div_mult_mod_eq)

definition deep_at :: "stk \<Rightarrow> nat \<Rightarrow> u64" where
  "deep_at t d = (case stk_more t of None \<Rightarrow> 0
     | Some m \<Rightarrow> (case m (d div IRON_STACK_CHUNK) of None \<Rightarrow> 0 | Some c \<Rightarrow> c (d mod IRON_STACK_CHUNK)))"

lemma stack_key_at_eq:
  "stack_key_at t d = (if d < IRON_STACK_CHUNK then stk_ids t d
     else if d > IRON_STACK_DEPTH_MAX then 0 else deep_at t d)"
  by (auto simp: stack_key_at_def stack_deep_slot_def deep_at_def Let_def split: option.splits)

lemma set_deep_at:
  assumes "iron_stack_set_deep ok d key t = Inr t'"
  shows "deep_at t' d' = (if d' = d then key else deep_at t d')" and "d \<le> IRON_STACK_DEPTH_MAX"
    and "\<exists>m. t' = t\<lparr>stk_more := m\<rparr>"
  using assms deep_slot_split [of d' d]
  by (auto simp: iron_stack_set_deep_def stack_deep_slot_def deep_at_def Let_def not_less
      split: if_splits option.splits)

lemma stack_set_at:
  assumes "stack_set ok d key t = Inr t'"
  shows "stack_key_at t' d' = (if d' = d then key else stack_key_at t d')" and "d \<le> IRON_STACK_DEPTH_MAX"
    and "\<exists>m ids. t' = t\<lparr>stk_more := m, stk_ids := ids\<rparr>"
proof -
  have m: "IRON_STACK_CHUNK \<le> IRON_STACK_DEPTH_MAX"
    by (simp add: IRON_STACK_CHUNK_def IRON_STACK_DEPTH_MAX_def IRON_STACK_CHUNKS_def)
  show "stack_key_at t' d' = (if d' = d then key else stack_key_at t d')"
    using assms m set_deep_at(1,2) [of ok d key t t'] set_deep_at(3) [of ok d key t t']
    by (auto simp: stack_set_def stack_key_at_eq deep_at_def split: if_splits)
  show "d \<le> IRON_STACK_DEPTH_MAX"
    using assms m set_deep_at(2) [of ok d key t t'] by (auto simp: stack_set_def split: if_splits)
  show "\<exists>m ids. t' = t\<lparr>stk_more := m, stk_ids := ids\<rparr>"
  proof (cases "d < IRON_STACK_CHUNK")
    case True
    with assms have "t' = t\<lparr>stk_more := stk_more t, stk_ids := (stk_ids t)(d := key)\<rparr>"
      by (simp add: stack_set_def)
    then show ?thesis by blast
  next
    case False
    with assms set_deep_at(3) [of ok d key t t'] obtain m where "t' = t\<lparr>stk_more := m\<rparr>"
      by (auto simp: stack_set_def)
    then have "t' = t\<lparr>stk_more := m, stk_ids := stk_ids t\<rparr>" by simp
    then show ?thesis by blast
  qed
qed

section \<open>The invariant\<close>

text \<open>The last id given out under a thread number.\<close>

definition last_id :: "stack_state \<Rightarrow> nat \<Rightarrow> nat" where
  "last_id st n = (case reg_tls (s_stack_reg st n) of
     Some i \<Rightarrow> if stk_tno (stks st i) = n then stk_next_id (stks st i) else reg_next_id (s_stack_reg st n)
   | None \<Rightarrow> reg_next_id (s_stack_reg st n))"

definition reg_ok :: "stack_state \<Rightarrow> bool" where
  "reg_ok st \<longleftrightarrow>
     reg_tls (s_stack_reg st 0) = None \<and> 1 \<le> s_stack_next st \<and> s_stack_next st \<le> IRON_STACK_THREADS \<and>
     (\<forall>n\<ge>s_stack_next st. s_stack_reg st n = \<lparr>reg_tls = None, reg_next_id = 0\<rparr>) \<and>
     (\<forall>n. reg_next_id (s_stack_reg st n) \<le> IRON_STACK_ID_MASK) \<and>
     distinct (s_stack_free st) \<and>
     (\<forall>n\<in>set (s_stack_free st). 1 \<le> n \<and> n < s_stack_next st \<and> reg_tls (s_stack_reg st n) = None) \<and>
     (\<forall>n i. reg_tls (s_stack_reg st n) = Some i \<and> stk_tno (stks st i) \<noteq> n \<longrightarrow>
        reg_next_id (s_stack_reg st n) = IRON_STACK_ID_MASK \<and> stk_renumbered (stks st i))"

definition key_ok :: "stack_state \<Rightarrow> tid \<Rightarrow> u64 \<Rightarrow> bool" where
  "key_ok st i key \<longleftrightarrow> (\<exists>n x. key = stack_key n x \<and> 1 \<le> n \<and> n < 4096 \<and> 1 \<le> x \<and> x < 2 ^ 35 \<and>
     reg_tls (s_stack_reg st n) = Some i \<and> x \<le> last_id st n)"

definition thread_ok :: "stack_state \<Rightarrow> tid \<Rightarrow> bool" where
  "thread_ok st i \<longleftrightarrow> (let t = stks st i in
     (stk_tno t = 0 \<longrightarrow> stk_depth t = 0 \<and> \<not> stk_renumbered t) \<and>
     (stk_tno t \<noteq> 0 \<longrightarrow> stk_tno t < 4096 \<and> reg_tls (s_stack_reg st (stk_tno t)) = Some i \<and>
        stk_next_id t \<le> IRON_STACK_ID_MASK) \<and>
     (\<forall>d. d = 0 \<or> stk_depth t < d \<longrightarrow> stack_key_at t d = 0) \<and>
     (\<forall>d. 1 \<le> d \<and> d \<le> stk_depth t \<longrightarrow> key_ok st i (stack_key_at t d)) \<and>
     inj_on (stack_key_at t) {1..stk_depth t} \<and>
     (\<not> stk_renumbered t \<longrightarrow>
        (\<forall>d. 1 \<le> d \<and> d \<le> stk_depth t \<longrightarrow> IRON_STACK_THREAD (stack_key_at t d) = stk_tno t) \<and>
        (\<forall>d d'. 1 \<le> d \<and> d < d' \<and> d' \<le> stk_depth t \<longrightarrow> stack_key_at t d < stack_key_at t d')))"

definition stack_inv :: "stack_state \<Rightarrow> bool" where
  "stack_inv st \<longleftrightarrow> reg_ok st \<and> (\<forall>i. thread_ok st i)"

lemma thread_okD:
  assumes "thread_ok st i" and "t = stks st i"
  shows "stk_tno t = 0 \<Longrightarrow> stk_depth t = 0 \<and> \<not> stk_renumbered t"
    and "stk_tno t \<noteq> 0 \<Longrightarrow> stk_tno t < 4096 \<and> reg_tls (s_stack_reg st (stk_tno t)) = Some i \<and>
        stk_next_id t \<le> IRON_STACK_ID_MASK"
    and "d = 0 \<or> stk_depth t < d \<Longrightarrow> stack_key_at t d = 0"
    and "1 \<le> d \<Longrightarrow> d \<le> stk_depth t \<Longrightarrow> key_ok st i (stack_key_at t d)"
    and "inj_on (stack_key_at t) {1..stk_depth t}"
    and "\<not> stk_renumbered t \<Longrightarrow> 1 \<le> d \<Longrightarrow> d \<le> stk_depth t \<Longrightarrow> IRON_STACK_THREAD (stack_key_at t d) = stk_tno t"
    and "\<not> stk_renumbered t \<Longrightarrow> 1 \<le> d \<Longrightarrow> d < d' \<Longrightarrow> d' \<le> stk_depth t \<Longrightarrow> stack_key_at t d < stack_key_at t d'"
  using assms unfolding thread_ok_def Let_def by auto

lemma reg_okD:
  assumes "reg_ok st"
  shows "reg_tls (s_stack_reg st 0) = None" "1 \<le> s_stack_next st" "s_stack_next st \<le> IRON_STACK_THREADS"
    "s_stack_next st \<le> n \<Longrightarrow> s_stack_reg st n = \<lparr>reg_tls = None, reg_next_id = 0\<rparr>"
    "reg_next_id (s_stack_reg st n) \<le> IRON_STACK_ID_MASK"
    "distinct (s_stack_free st)"
    "n \<in> set (s_stack_free st) \<Longrightarrow> 1 \<le> n \<and> n < s_stack_next st \<and> reg_tls (s_stack_reg st n) = None"
    "reg_tls (s_stack_reg st n) = Some i \<Longrightarrow> stk_tno (stks st i) \<noteq> n \<Longrightarrow>
        reg_next_id (s_stack_reg st n) = IRON_STACK_ID_MASK \<and> stk_renumbered (stks st i)"
  using assms unfolding reg_ok_def by auto

lemma id_mask_pos: "0 < IRON_STACK_ID_MASK" "x \<le> IRON_STACK_ID_MASK \<longleftrightarrow> x < 2 ^ 35"
  by (auto simp: IRON_STACK_ID_MASK_def)

subsection \<open>Taking a number\<close>

lemma stack_pop_free_cases:
  assumes "stack_pop_free reg fs = (n, fs')"
  shows "(n = 0 \<and> fs' = []) \<or> (n \<noteq> 0 \<and> reg_next_id (reg n) < IRON_STACK_ID_MASK \<and> (\<exists>pre. fs = pre @ n # fs'))"
  using assms
proof (induction fs)
  case (Cons m fs)
  show ?case
  proof (cases "reg_next_id (reg m) \<ge> IRON_STACK_ID_MASK \<or> m = 0")
    case True
    with Cons show ?thesis by (auto simp: Let_def split: if_splits)
  qed (use Cons.prems in \<open>auto simp: Let_def not_le\<close>)
qed simp

text \<open>The outcome of a successful take: an unregistered number with ids left, now registered to the thread.\<close>

lemma stack_take_number_spec:
  assumes ok: "reg_ok st" and take: "stack_take_number i st = (n, st')" and n: "n \<noteq> 0"
  shows "reg_tls (s_stack_reg st n) = None" "n < 4096" "reg_next_id (s_stack_reg st n) < IRON_STACK_ID_MASK"
    "stks st' = (stks st)(i := (stks st i)\<lparr>stk_next_id := reg_next_id (s_stack_reg st n), stk_tno := n\<rparr>)"
    "s_stack_reg st' = (s_stack_reg st)(n := (s_stack_reg st n)\<lparr>reg_tls := Some i\<rparr>)"
    "distinct (s_stack_free st')" "set (s_stack_free st') \<subseteq> set (s_stack_free st) - {n}"
    "s_stack_next st \<le> s_stack_next st'" "s_stack_next st' \<le> IRON_STACK_THREADS" "n < s_stack_next st'"
proof -
  obtain m fs where pop: "stack_pop_free (s_stack_reg st) (s_stack_free st) = (m, fs)" by force
  note c = stack_pop_free_cases [OF pop] and r = reg_okD [OF ok]
  have "reg_tls (s_stack_reg st n) = None \<and> n < 4096 \<and> reg_next_id (s_stack_reg st n) < IRON_STACK_ID_MASK \<and>
    stks st' = (stks st)(i := (stks st i)\<lparr>stk_next_id := reg_next_id (s_stack_reg st n), stk_tno := n\<rparr>) \<and>
    s_stack_reg st' = (s_stack_reg st)(n := (s_stack_reg st n)\<lparr>reg_tls := Some i\<rparr>) \<and>
    distinct (s_stack_free st') \<and> set (s_stack_free st') \<subseteq> set (s_stack_free st) - {n} \<and>
    s_stack_next st \<le> s_stack_next st' \<and> s_stack_next st' \<le> IRON_STACK_THREADS \<and> n < s_stack_next st'"
  proof (cases "m = 0")
    case True
    with take n pop have "n = s_stack_next st" "s_stack_next st < IRON_STACK_THREADS"
      by (auto simp: stack_take_number_def Let_def split: if_splits)
    with take n pop True c r(4) [of n] r(2) id_mask_pos(1) show ?thesis
      by (auto simp: stack_take_number_def Let_def IRON_STACK_THREADS_def)
  next
    case False
    then obtain pre where fs: "s_stack_free st = pre @ m # fs" using c by auto
    with take n pop False have m: "n = m" by (auto simp: stack_take_number_def Let_def)
    with r(7) [of n] fs have "reg_tls (s_stack_reg st n) = None" "n < s_stack_next st" by auto
    moreover have "distinct fs" "set fs \<subseteq> set (s_stack_free st) - {n}" using r(6) fs m by auto
    ultimately show ?thesis
      using take n pop False m c r(3) by (auto simp: stack_take_number_def Let_def IRON_STACK_THREADS_def)
  qed
  then show "reg_tls (s_stack_reg st n) = None" "n < 4096" "reg_next_id (s_stack_reg st n) < IRON_STACK_ID_MASK"
    "stks st' = (stks st)(i := (stks st i)\<lparr>stk_next_id := reg_next_id (s_stack_reg st n), stk_tno := n\<rparr>)"
    "s_stack_reg st' = (s_stack_reg st)(n := (s_stack_reg st n)\<lparr>reg_tls := Some i\<rparr>)"
    "distinct (s_stack_free st')" "set (s_stack_free st') \<subseteq> set (s_stack_free st) - {n}"
    "s_stack_next st \<le> s_stack_next st'" "s_stack_next st' \<le> IRON_STACK_THREADS" "n < s_stack_next st'"
    by auto
qed

lemma stack_key_at_upd [simp]:
  "stack_key_at (t\<lparr>stk_next_id := x\<rparr>) = stack_key_at t" "stack_key_at (t\<lparr>stk_tno := n\<rparr>) = stack_key_at t"
  "stack_key_at (t\<lparr>stk_renumbered := b\<rparr>) = stack_key_at t" "stack_key_at (t\<lparr>stk_depth := d\<rparr>) = stack_key_at t"
  "stack_key_at (t\<lparr>stk_gen := g\<rparr>) = stack_key_at t"
  by (rule ext, simp add: stack_key_at_eq deep_at_def)+

lemma key_ok_mono:
  assumes "key_ok st i key"
    and "\<And>m. reg_tls (s_stack_reg st m) = Some i \<Longrightarrow> reg_tls (s_stack_reg st' m) = Some i"
    and "\<And>m. last_id st m \<le> last_id st' m"
  shows "key_ok st' i key"
proof -
  from assms(1) obtain n x where k: "key = stack_key n x" "1 \<le> n" "n < 4096" "1 \<le> x" "x < 2 ^ 35"
    "reg_tls (s_stack_reg st n) = Some i" "x \<le> last_id st n"
    unfolding key_ok_def by blast
  from assms(2) [OF k(6)] k(7) assms(3) [of n] have "reg_tls (s_stack_reg st' n) = Some i" "x \<le> last_id st' n"
    by simp_all
  with k show ?thesis unfolding key_ok_def by blast
qed

text \<open>A thread without a number, or one that used up its ids, takes one: nothing is forgotten.\<close>

text \<open>A thread takes a number: what changes, whether it is its first one or one after its old one ran out of identifiers.\<close>

definition numbered :: "tid \<Rightarrow> nat \<Rightarrow> stack_state \<Rightarrow> stack_state \<Rightarrow> bool" where
  "numbered i n st st' \<longleftrightarrow> (let old = stk_tno (stks st i) in
    n \<noteq> 0 \<and> n < 4096 \<and> n \<noteq> old \<and> reg_tls (s_stack_reg st n) = None \<and> reg_next_id (s_stack_reg st n) < IRON_STACK_ID_MASK \<and>
    stks st' = (stks st)(i := (stks st i)\<lparr>stk_next_id := reg_next_id (s_stack_reg st n), stk_tno := n, stk_renumbered := (old \<noteq> 0)\<rparr>) \<and>
    (\<forall>m. reg_tls (s_stack_reg st' m) = (if m = n then Some i else reg_tls (s_stack_reg st m))) \<and>
    (\<forall>m. reg_next_id (s_stack_reg st' m) = (if m = old \<and> old \<noteq> 0 then IRON_STACK_ID_MASK else reg_next_id (s_stack_reg st m))) \<and>
    distinct (s_stack_free st') \<and> set (s_stack_free st') \<subseteq> set (s_stack_free st) - {n} \<and>
    s_stack_next st \<le> s_stack_next st' \<and> s_stack_next st' \<le> IRON_STACK_THREADS \<and> n < s_stack_next st')"

lemma numberedD:
  assumes "numbered i n st st'"
  shows "n \<noteq> 0" "n < 4096" "n \<noteq> stk_tno (stks st i)" "reg_tls (s_stack_reg st n) = None" "reg_next_id (s_stack_reg st n) < IRON_STACK_ID_MASK"
    "stks st' = (stks st)(i := (stks st i)\<lparr>stk_next_id := reg_next_id (s_stack_reg st n), stk_tno := n, stk_renumbered := (stk_tno (stks st i) \<noteq> 0)\<rparr>)"
    "\<And>m. reg_tls (s_stack_reg st' m) = (if m = n then Some i else reg_tls (s_stack_reg st m))"
    "\<And>m. reg_next_id (s_stack_reg st' m) =
      (if m = stk_tno (stks st i) \<and> stk_tno (stks st i) \<noteq> 0 then IRON_STACK_ID_MASK else reg_next_id (s_stack_reg st m))"
    "distinct (s_stack_free st')" "set (s_stack_free st') \<subseteq> set (s_stack_free st) - {n}" "s_stack_next st \<le> s_stack_next st'"
    "s_stack_next st' \<le> IRON_STACK_THREADS" "n < s_stack_next st'"
  using assms by (simp_all add: numbered_def Let_def)

definition used_up :: "tid \<Rightarrow> stack_state \<Rightarrow> bool" where
  "used_up i st \<longleftrightarrow> stk_tno (stks st i) = 0 \<or> IRON_STACK_ID_MASK \<le> stk_next_id (stks st i)"

lemma old_number:
  assumes "stack_inv st" "used_up i st" "stk_tno (stks st i) \<noteq> 0"
  shows "reg_tls (s_stack_reg st (stk_tno (stks st i))) = Some i \<and> stk_next_id (stks st i) = IRON_STACK_ID_MASK \<and>
    stk_tno (stks st i) < s_stack_next st"
proof -
  have reg: "reg_ok st" and th: "thread_ok st i" using assms(1) by (auto simp: stack_inv_def)
  have "reg_tls (s_stack_reg st (stk_tno (stks st i))) = Some i" "stk_next_id (stks st i) = IRON_STACK_ID_MASK"
    using thread_okD(2) [OF th refl] assms(2,3) by (auto simp: used_up_def)
  moreover have "\<not> s_stack_next st \<le> stk_tno (stks st i)" using reg_okD(4) [OF reg, of "stk_tno (stks st i)"] calculation(1) by auto
  ultimately show ?thesis by simp
qed

lemma stack_take_numbered:
  assumes inv: "stack_inv st" and used: "used_up i st"
    and st1: "st1 = (if stk_tno (stks st i) = 0 then st else st\<lparr>s_stack_reg := (s_stack_reg st)
       (stk_tno (stks st i) := (s_stack_reg st (stk_tno (stks st i)))\<lparr>reg_next_id := IRON_STACK_ID_MASK\<rparr>)\<rparr>)"
    and take: "stack_take_number i st1 = (n, st2)" and n: "n \<noteq> 0"
    and st': "st' = upd_stk i (\<lambda>t. t\<lparr>stk_renumbered := (stk_tno (stks st i) \<noteq> 0)\<rparr>) st2"
  shows "numbered i n st st'"
proof -
  have reg: "reg_ok st" using inv by (simp add: stack_inv_def)
  note old = old_number [OF inv used]
  have reg1: "reg_ok st1" using reg old by (cases "stk_tno (stks st i) = 0") (auto simp: reg_ok_def st1)
  have same1: "stks st1 = stks st" "\<And>m. reg_tls (s_stack_reg st1 m) = reg_tls (s_stack_reg st m)"
    "s_stack_free st1 = s_stack_free st" "s_stack_next st1 = s_stack_next st"
    "\<And>m. reg_next_id (s_stack_reg st1 m) =
      (if m = stk_tno (stks st i) \<and> stk_tno (stks st i) \<noteq> 0 then IRON_STACK_ID_MASK else reg_next_id (s_stack_reg st m))"
    by (simp_all add: st1)
  note sp = stack_take_number_spec [OF reg1 take n]
  have "n \<noteq> stk_tno (stks st i)" using sp(1) old same1(2) n by auto
  then show ?thesis using sp n by (simp add: numbered_def Let_def st' same1)
qed

lemma numbered_last:
  assumes inv: "stack_inv st" and used: "used_up i st" and num: "numbered i n st st'"
  shows "last_id st' = last_id st"
proof
  fix m
  have r0: "reg_tls (s_stack_reg st 0) = None" using reg_okD(1) [of st] inv by (simp add: stack_inv_def)
  note old = old_number [OF inv used] and f = numberedD [OF num]
  consider "m = n" | "m \<noteq> n" "m = stk_tno (stks st i)" "stk_tno (stks st i) \<noteq> 0" | "m \<noteq> n" "m \<noteq> stk_tno (stks st i) \<or> stk_tno (stks st i) = 0"
    by blast
  then show "last_id st' m = last_id st m"
  proof cases
    case 1
    then show ?thesis using f(3,4) by (simp add: last_id_def f(6-8))
  next
    case 2
    then show ?thesis using old f(3) by (simp add: last_id_def f(6-8))
  next
    case 3
    then show ?thesis using r0 by (cases "reg_tls (s_stack_reg st m)") (auto simp: last_id_def f(6-8))
  qed
qed

lemma numbered_reg_ok:
  assumes inv: "stack_inv st" and used: "used_up i st" and num: "numbered i n st st'"
  shows "reg_ok st'"
proof -
  have reg: "reg_ok st" and th: "\<And>j. thread_ok st j" using inv by (auto simp: stack_inv_def)
  note r = reg_okD [OF reg] and t = thread_okD [OF th refl] and old = old_number [OF inv used] and f = numberedD [OF num]
  show ?thesis
    unfolding reg_ok_def
  proof (intro conjI allI ballI impI)
    show "distinct (s_stack_free st')" "s_stack_next st' \<le> IRON_STACK_THREADS" "1 \<le> s_stack_next st'" using f(9,11,12) r(2) by simp_all
    show "reg_tls (s_stack_reg st' 0) = None" using r(1) f(1) by (simp add: f(7))
    show "s_stack_reg st' m = \<lparr>reg_tls = None, reg_next_id = 0\<rparr>" if "s_stack_next st' \<le> m" for m
      using that f(7) [of m] f(8) [of m] f(11,13) r(4) [of m] old by (cases "s_stack_reg st' m") (auto split: if_splits)
    show "reg_next_id (s_stack_reg st' m) \<le> IRON_STACK_ID_MASK" for m using r(5) [of m] by (simp add: f(8))
    fix m assume "m \<in> set (s_stack_free st')"
    then have "m \<in> set (s_stack_free st)" "m \<noteq> n" using f(10) by auto
    with r(7) [of m] f(11) show "1 \<le> m" "m < s_stack_next st'" "reg_tls (s_stack_reg st' m) = None" by (auto simp: f(7))
  next
    fix m j assume "reg_tls (s_stack_reg st' m) = Some j \<and> stk_tno (stks st' j) \<noteq> m"
    then have m: "m \<noteq> n" "reg_tls (s_stack_reg st m) = Some j" "stk_tno (stks st' j) \<noteq> m" by (auto simp: f(6,7) split: if_splits)
    have "m \<noteq> 0" using m(2) r(1) by (cases m) auto
    with m r(8) [of m j] show "reg_next_id (s_stack_reg st' m) = IRON_STACK_ID_MASK" by (auto simp: f(6,8) split: if_splits)
    show "stk_renumbered (stks st' j)" using m r(8) [of m j] t(1) [of j] \<open>m \<noteq> 0\<close> by (cases "j = i") (auto simp: f(6))
  qed
qed

lemma numbered_inv:
  assumes inv: "stack_inv st" and used: "used_up i st" and num: "numbered i n st st'"
  shows "stack_inv st'"
proof -
  have reg: "reg_ok st" and th: "\<And>j. thread_ok st j" using inv by (auto simp: stack_inv_def)
  note t = thread_okD [OF th refl] and f = numberedD [OF num] and last = numbered_last [OF inv used num]
  have "thread_ok st' j" for j
  proof -
    have keys: "key_ok st' j (stack_key_at (stks st j) d)" if "1 \<le> d" "d \<le> stk_depth (stks st j)" for d
      by (rule key_ok_mono [OF t(4) [OF that]]) (use f(4) in \<open>auto simp: f(7) last\<close>)
    show ?thesis
    proof (cases "j = i")
      case True
      have "reg_next_id (s_stack_reg st n) \<le> IRON_STACK_ID_MASK" by (rule reg_okD(5) [OF reg])
      with True keys thread_okD(1,3,5) [OF th [of j] refl] f(1,2) show ?thesis by (auto simp: thread_ok_def Let_def f(6,7))
    next
      case False
      have "stk_tno (stks st j) \<noteq> n" using t(2) [of j] f(1,4) by auto
      with False keys th [of j] show ?thesis by (auto simp: thread_ok_def Let_def f(6,7))
    qed
  qed
  then show ?thesis using numbered_reg_ok [OF inv used num] by (simp add: stack_inv_def)
qed

lemma stack_number_inv:
  assumes inv: "stack_inv st" and used: "used_up i st"
    and st1: "st1 = (if stk_tno (stks st i) = 0 then st else st\<lparr>s_stack_reg := (s_stack_reg st)
       (stk_tno (stks st i) := (s_stack_reg st (stk_tno (stks st i)))\<lparr>reg_next_id := IRON_STACK_ID_MASK\<rparr>)\<rparr>)"
    and take: "stack_take_number i st1 = (n, st2)" and n: "n \<noteq> 0"
    and st': "st' = upd_stk i (\<lambda>t. t\<lparr>stk_renumbered := (stk_tno (stks st i) \<noteq> 0)\<rparr>) st2"
  shows "stack_inv st'" and "last_id st' = last_id st"
    and "stk_tno (stks st' i) \<noteq> 0" and "stk_next_id (stks st' i) < IRON_STACK_ID_MASK"
    and "stk_depth (stks st' j) = stk_depth (stks st j)"
    and "stack_key_at (stks st' j) = stack_key_at (stks st j)"
proof -
  have num: "numbered i n st st'" by (rule stack_take_numbered [OF inv used st1 take n st'])
  note f = numberedD [OF num]
  show "stack_inv st'" "last_id st' = last_id st" by (rule numbered_inv [OF inv used num], rule numbered_last [OF inv used num])
  show "stk_tno (stks st' i) \<noteq> 0" "stk_next_id (stks st' i) < IRON_STACK_ID_MASK" using f(1,5) by (simp_all add: f(6))
  show "stk_depth (stks st' j) = stk_depth (stks st j)" "stack_key_at (stks st' j) = stack_key_at (stks st j)" by (simp_all add: f(6))
qed

lemma stack_attach_inv:
  assumes inv: "stack_inv st" and tno: "stk_tno (stks st i) = 0" and at: "iron_stack_attach i st = Inr st'"
  shows "stack_inv st'" "last_id st' = last_id st" "stk_tno (stks st' i) \<noteq> 0"
    "stk_depth (stks st' j) = stk_depth (stks st j)" "stack_key_at (stks st' j) = stack_key_at (stks st j)"
proof -
  from at obtain n where take: "stack_take_number i st = (n, st')" and n: "n \<noteq> 0"
    by (auto simp: iron_stack_attach_def split: prod.splits if_splits)
  have "reg_ok st" "\<not> stk_renumbered (stks st i)"
    using inv tno thread_okD(1) [of st i] by (auto simp: stack_inv_def)
  then have "\<not> stk_renumbered (stks st' i)"
    using stack_take_number_spec(4) [OF _ take n] by simp
  then have "(stks st' i)\<lparr>stk_renumbered := False\<rparr> = stks st' i" by (cases "stks st' i") simp
  then have st': "st' = upd_stk i (\<lambda>t. t\<lparr>stk_renumbered := (stk_tno (stks st i) \<noteq> 0)\<rparr>) st'"
    using tno by simp
  have used_up: "used_up i st" using tno by (simp add: used_up_def)
  have "st = (if stk_tno (stks st i) = 0 then st else st\<lparr>s_stack_reg := (s_stack_reg st)
       (stk_tno (stks st i) := (s_stack_reg st (stk_tno (stks st i)))\<lparr>reg_next_id := IRON_STACK_ID_MASK\<rparr>)\<rparr>)"
    using tno by simp
  note * = stack_number_inv [OF inv used_up this take n st']
  show "stack_inv st'" "last_id st' = last_id st" "stk_tno (stks st' i) \<noteq> 0"
    "stk_depth (stks st' j) = stk_depth (stks st j)" "stack_key_at (stks st' j) = stack_key_at (stks st j)"
    using * by blast+
qed

lemma stack_renumber_inv:
  assumes inv: "stack_inv st" and tno: "stk_tno (stks st i) \<noteq> 0"
    and used: "IRON_STACK_ID_MASK \<le> stk_next_id (stks st i)" and re: "iron_stack_renumber i st = Inr st'"
  shows "stack_inv st'" "last_id st' = last_id st" "stk_tno (stks st' i) \<noteq> 0"
    "stk_next_id (stks st' i) < IRON_STACK_ID_MASK"
    "stk_depth (stks st' j) = stk_depth (stks st j)" "stack_key_at (stks st' j) = stack_key_at (stks st j)"
proof -
  let ?old = "stk_tno (stks st i)"
  let ?st1 = "st\<lparr>s_stack_reg := (s_stack_reg st)(?old := (s_stack_reg st ?old)\<lparr>reg_next_id := IRON_STACK_ID_MASK\<rparr>)\<rparr>"
  from re obtain n st2 where take: "stack_take_number i ?st1 = (n, st2)" and n: "n \<noteq> 0"
    and "st' = upd_stk i (\<lambda>t. t\<lparr>stk_renumbered := True\<rparr>) st2"
    by (auto simp: iron_stack_renumber_def Let_def split: prod.splits if_splits)
  then have st': "st' = upd_stk i (\<lambda>t. t\<lparr>stk_renumbered := (stk_tno (stks st i) \<noteq> 0)\<rparr>) st2" using tno by simp
  have used_up: "used_up i st" using used by (simp add: used_up_def)
  have "?st1 = (if ?old = 0 then st else ?st1)" using tno by simp
  note * = stack_number_inv [OF inv used_up this take n st']
  show "stack_inv st'" "last_id st' = last_id st" "stk_tno (stks st' i) \<noteq> 0"
    "stk_next_id (stks st' i) < IRON_STACK_ID_MASK"
    "stk_depth (stks st' j) = stk_depth (stks st j)" "stack_key_at (stks st' j) = stack_key_at (stks st j)"
    using * by blast+
qed

subsection \<open>Entering and leaving\<close>

text \<open>Entering a scope, after a number has been taken where one was needed.\<close>

lemma stack_enter_cases:
  assumes inv: "stack_inv st" and enter: "iron_stack_enter ok i st = Inr (saved, st')"
  obtains st2 t2 where "stack_inv st2" "last_id st2 = last_id st" "stk_tno (stks st2 i) \<noteq> 0"
    "stk_next_id (stks st2 i) < IRON_STACK_ID_MASK"
    "\<And>j. stk_depth (stks st2 j) = stk_depth (stks st j)"
    "\<And>j. stack_key_at (stks st2 j) = stack_key_at (stks st j)"
    "saved = stk_gen (stks st i)"
    "stack_set ok (stk_depth (stks st i) + 1) (stack_key (stk_tno (stks st2 i)) (stk_next_id (stks st2 i) + 1))
       ((stks st2 i)\<lparr>stk_next_id := stk_next_id (stks st2 i) + 1\<rparr>) = Inr t2"
    "st' = upd_stk i (\<lambda>_. t2\<lparr>stk_depth := stk_depth (stks st i) + 1, stk_gen := stack_gen_of
       (stk_depth (stks st i) + 1) (stack_key (stk_tno (stks st2 i)) (stk_next_id (stks st2 i) + 1))\<rparr>) st2"
proof -
  from enter obtain st1 where
    st1: "(if stk_tno (stks st i) = 0 then iron_stack_attach i st else Inr st) = Inr st1"
    by (auto simp: iron_stack_enter_def Let_def split: sum.splits)
  have 1: "stack_inv st1" "last_id st1 = last_id st" "stk_tno (stks st1 i) \<noteq> 0"
    "\<And>j. stk_depth (stks st1 j) = stk_depth (stks st j)"
    "\<And>j. stack_key_at (stks st1 j) = stack_key_at (stks st j)"
    using st1 inv stack_attach_inv [OF inv] by (auto split: if_splits)
  from enter st1 obtain st2 where
    st2: "(if IRON_STACK_ID_MASK \<le> stk_next_id (stks st1 i) then iron_stack_renumber i st1 else Inr st1) = Inr st2"
    by (auto simp: iron_stack_enter_def Let_def split: sum.splits)
  have 2: "stack_inv st2" "last_id st2 = last_id st" "stk_tno (stks st2 i) \<noteq> 0"
    "stk_next_id (stks st2 i) < IRON_STACK_ID_MASK"
    "\<And>j. stk_depth (stks st2 j) = stk_depth (stks st j)"
    "\<And>j. stack_key_at (stks st2 j) = stack_key_at (stks st j)"
    using st2 1 stack_renumber_inv [OF 1(1) 1(3)] by (auto split: if_splits)
  from enter st1 st2 that [OF 2] 1(4) [of i] show thesis
    by (auto simp: iron_stack_enter_def Let_def split: sum.splits)
qed

lemma key_ok_at:
  assumes "key_ok st i key"
  obtains n x where "key = stack_key n x" "1 \<le> n" "n < 4096" "1 \<le> x" "x < 2 ^ 35"
    "reg_tls (s_stack_reg st n) = Some i" "x \<le> last_id st n"
    "IRON_STACK_THREAD key = n" "stack_id key = x" "key \<noteq> 0" "\<And>m. 47 \<le> m \<Longrightarrow> \<not> bit key m"
  using assms stack_key_fields unfolding key_ok_def by fastforce

lemma stack_key_less:
  "n < 4096 \<Longrightarrow> x < y \<Longrightarrow> y < 2 ^ 35 \<Longrightarrow> stack_key n x < stack_key n y"
  by (simp add: word_less_nat_alt stack_key_value)

text \<open>The state change common to entering a scope, from a state in which the thread has an id left.\<close>

lemma stack_push_inv:
  assumes inv: "stack_inv st" and tno: "stk_tno (stks st i) \<noteq> 0"
    and left: "stk_next_id (stks st i) < IRON_STACK_ID_MASK"
    and x: "x = stk_next_id (stks st i) + 1" and d: "d = stk_depth (stks st i) + 1"
    and key: "key = stack_key (stk_tno (stks st i)) x"
    and set: "stack_set ok d key ((stks st i)\<lparr>stk_next_id := x\<rparr>) = Inr t"
    and st': "st' = upd_stk i (\<lambda>_. t\<lparr>stk_depth := d, stk_gen := g\<rparr>) st"
  shows "stack_inv st'" and "last_id st' m = (if m = stk_tno (stks st i) then x else last_id st m)"
    and "last_id st (stk_tno (stks st i)) = x - 1" and "key_ok st' i key"
    and "stk_depth (stks st' j) = (if j = i then d else stk_depth (stks st j))"
    and "stack_key_at (stks st' j) d' = (if j = i \<and> d' = d then key else stack_key_at (stks st j) d')"
proof -
  let ?n = "stk_tno (stks st i)"
  have reg: "reg_ok st" and th: "\<And>j. thread_ok st j" using inv by (auto simp: stack_inv_def)
  note t = thread_okD [OF th refl] and r = reg_okD [OF reg]
  have n: "?n < 4096" "reg_tls (s_stack_reg st ?n) = Some i" using t(2) [OF tno] by auto
  have xb: "x < 2 ^ 35" "x \<le> IRON_STACK_ID_MASK" using left x by (auto simp: IRON_STACK_ID_MASK_def)
  obtain mo ids where t2: "t = (stks st i)\<lparr>stk_next_id := x, stk_more := mo, stk_ids := ids\<rparr>"
    using stack_set_at(3) [OF set] by auto
  have kat: "stack_key_at t d' = (if d' = d then key else stack_key_at (stks st i) d')" for d'
    using stack_set_at(1) [OF set] by simp
  have stks': "stks st' = (stks st)(i := t\<lparr>stk_depth := d, stk_gen := g\<rparr>)" and regs: "s_stack_reg st' = s_stack_reg st"
    by (simp_all add: st')
  show last: "last_id st' m = (if m = ?n then x else last_id st m)" for m
    using n by (auto simp: last_id_def regs stks' t2 split: option.split)
  show lastn: "last_id st ?n = x - 1" using n x by (simp add: last_id_def)
  show dep: "stk_depth (stks st' j) = (if j = i then d else stk_depth (stks st j))" for j by (simp add: stks')
  show kat': "stack_key_at (stks st' j) d' = (if j = i \<and> d' = d then key else stack_key_at (stks st j) d')" for j d'
    by (simp add: stks' kat)
  have mono: "key_ok st' j k" if "key_ok st j k" for j k
    by (rule key_ok_mono [OF that]) (auto simp: regs last lastn)
  show new: "key_ok st' i key"
    unfolding key_ok_def using n tno xb x by (intro exI [of _ ?n] exI [of _ x]) (simp add: key regs last)
  have fresh: "k \<noteq> key" if "key_ok st i k" for k
    using that stack_key_fields(1,2) [OF n(1) xb(1)] lastn x by (elim key_ok_at) (auto simp: key)
  have "thread_ok st' j" for j
  proof (cases "j = i")
    case False
    then have e: "stks st' j = stks st j" by (simp add: stks')
    show ?thesis using th [of j] mono [of j] unfolding thread_ok_def Let_def e regs by blast
  next
    case True
    have keys: "key_ok st' i (stack_key_at (stks st' i) e)" if "1 \<le> e" "e \<le> d" for e
      using that mono t(4) [of e i] new d by (cases "e = d") (auto simp: kat')
    have old: "stack_key_at (stks st i) e \<noteq> key" if "1 \<le> e" "e < d" for e
      using fresh t(4) [of e i] that d by simp
    have "inj_on (stack_key_at (stks st' i)) {1..d}"
    proof (rule inj_onI)
      fix a b assume "a \<in> {1..d}" "b \<in> {1..d}" "stack_key_at (stks st' i) a = stack_key_at (stks st' i) b"
      then show "a = b"
        using old [of a] old [of b] inj_onD [OF t(5) [of i], of a b] d
        by (cases "a = d"; cases "b = d") (auto simp: kat')
    qed
    moreover have "IRON_STACK_THREAD (stack_key_at (stks st' i) e) = ?n"
      if "\<not> stk_renumbered (stks st i)" "1 \<le> e" "e \<le> d" for e
      using that t(6) [of i e] d stack_key_fields(1) [OF n(1) xb(1)] by (cases "e = d") (auto simp: kat' key)
    moreover have "stack_key_at (stks st' i) a < stack_key_at (stks st' i) b"
      if nr: "\<not> stk_renumbered (stks st i)" and ab: "1 \<le> a" "a < b" "b \<le> d" for a b
    proof (cases "b = d")
      case True
      have "key_ok st i (stack_key_at (stks st i) a)" using t(4) [of a i] ab d by simp
      then obtain y where "stack_key_at (stks st i) a = stack_key ?n y" "y < x"
        using t(6) [OF nr, of a] ab d lastn x by (elim key_ok_at) auto
      with True ab stack_key_less [OF n(1) _ xb(1)] show ?thesis by (simp add: kat' key)
    qed (use t(7) [OF nr, of a b] ab d in \<open>simp add: kat'\<close>)
    moreover have "stack_key_at (stks st' i) e = 0" if "e = 0 \<or> d < e" for e
      using that t(3) [of e i] d by (auto simp: kat')
    ultimately show ?thesis
      using True keys tno n xb unfolding thread_ok_def Let_def by (simp add: stks' t2 regs)
  qed
  moreover have "reg_ok st'"
    using reg unfolding reg_ok_def by (auto simp: stks' t2 regs st')
  ultimately show "stack_inv st'" by (simp add: stack_inv_def)
qed

lemma stack_pop_inv:
  assumes inv: "stack_inv st" and open_: "0 < stk_depth (stks st i)"
    and leave: "iron_stack_leave ok i saved st = Inr st'"
  shows "stack_inv st'" and "last_id st' = last_id st"
    and "stk_depth (stks st' j) = (if j = i then stk_depth (stks st i) - 1 else stk_depth (stks st j))"
    and "stack_key_at (stks st' j) d' =
      (if j = i \<and> d' = stk_depth (stks st i) then 0 else stack_key_at (stks st j) d')"
proof -
  let ?d = "stk_depth (stks st i)"
  from leave obtain t where set: "stack_set ok ?d 0 (stks st i) = Inr t"
    and st': "st' = upd_stk i (\<lambda>_. t\<lparr>stk_depth := ?d - 1, stk_gen := saved\<rparr>) st"
    by (auto simp: iron_stack_leave_def Let_def split: sum.splits)
  have reg: "reg_ok st" and th: "\<And>j. thread_ok st j" using inv by (auto simp: stack_inv_def)
  note t = thread_okD [OF th refl]
  obtain mo ids where t2: "t = (stks st i)\<lparr>stk_more := mo, stk_ids := ids\<rparr>"
    using stack_set_at(3) [OF set] by auto
  have stks': "stks st' = (stks st)(i := t\<lparr>stk_depth := ?d - 1, stk_gen := saved\<rparr>)"
    and regs: "s_stack_reg st' = s_stack_reg st"
    by (simp_all add: st')
  show last: "last_id st' = last_id st"
    by (rule ext) (auto simp: last_id_def regs stks' t2 split: option.split)
  show "stk_depth (stks st' j) = (if j = i then ?d - 1 else stk_depth (stks st j))" for j by (simp add: stks')
  show kat: "stack_key_at (stks st' j) d' = (if j = i \<and> d' = ?d then 0 else stack_key_at (stks st j) d')" for j d'
    using stack_set_at(1) [OF set] by (simp add: stks')
  have mono: "key_ok st' j k" if "key_ok st j k" for j k
    by (rule key_ok_mono [OF that]) (auto simp: regs last)
  have "thread_ok st' j" for j
  proof (cases "j = i")
    case False
    then have e: "stks st' j = stks st j" by (simp add: stks')
    show ?thesis using th [of j] mono [of j] unfolding thread_ok_def Let_def e regs by blast
  next
    case True
    have k: "stack_key_at (stks st' i) e = stack_key_at (stks st i) e" if "e \<le> ?d - 1" for e
      using that open_ by (auto simp: kat)
    have "inj_on (stack_key_at (stks st' i)) {1..?d - 1}"
      using inj_on_subset [OF t(5) [of i], of "{1..?d - 1}"] k
      by (auto simp: inj_on_def)
    moreover have "stack_key_at (stks st' i) e = 0" if "e = 0 \<or> ?d - 1 < e" for e
      using that t(3) [of e i] by (cases "e = ?d") (auto simp: kat)
    moreover have "key_ok st' i (stack_key_at (stks st' i) e)" if "1 \<le> e" "e \<le> ?d - 1" for e
      using that k mono t(4) [of e i] by simp
    moreover have "IRON_STACK_THREAD (stack_key_at (stks st' i) e) = stk_tno (stks st i)"
      if "\<not> stk_renumbered (stks st i)" "1 \<le> e" "e \<le> ?d - 1" for e
      using that t(6) [of i e] k by simp
    moreover have "stack_key_at (stks st' i) a < stack_key_at (stks st' i) b"
      if "\<not> stk_renumbered (stks st i)" "1 \<le> a" "a < b" "b \<le> ?d - 1" for a b
      using that t(7) [of i a b] k by simp
    moreover have "stk_tno (stks st i) \<noteq> 0" using t(1) [of i] open_ by auto
    ultimately show ?thesis
      using True t(2) [of i] open_ unfolding thread_ok_def Let_def by (simp add: stks' t2 regs)
  qed
  moreover have "reg_ok st'"
    using reg unfolding reg_ok_def by (auto simp: stks' t2 regs st')
  ultimately show "stack_inv st'" by (simp add: stack_inv_def)
qed

text \<open>
  A thread's exit: the call, after which the thread-local block of the thread is gone (a later
  thread starts with a fresh one).
\<close>

definition stack_gone :: "tid \<Rightarrow> stack_state \<Rightarrow> stack_state" where
  "stack_gone i st = upd_stk i (\<lambda>_. stk_init) st"

text \<open>The end of a thread: its slot is empty again, its number goes back to the free list and no entry of the registry names it.\<close>

lemma stack_exit_fields:
  assumes "iron_stack_thread_exit ok i (gs, st) = (gs', st1)" "st' = stack_gone i st1"
  shows "stks st' = (stks st)(i := stk_init)" "s_stack_next st' = s_stack_next st"
    "s_stack_free st' = (if stk_tno (stks st i) = 0 then s_stack_free st else stk_tno (stks st i) # s_stack_free st)"
  using assms by (auto simp: stack_gone_def iron_stack_thread_exit_def Let_def split: if_splits)

lemma reg_tls_range:
  assumes "reg_ok st" "reg_tls (s_stack_reg st m) \<noteq> None"
  shows "1 \<le> m \<and> m < IRON_STACK_THREADS"
  using assms(2) reg_okD(1,3) [OF assms(1)] reg_okD(4) [OF assms(1), of m] by (cases "m = 0"; cases "s_stack_next st \<le> m") auto

lemma stack_exit_regs:
  assumes inv: "stack_inv st" and exit: "iron_stack_thread_exit ok i (gs, st) = (gs', st1)"
    and st': "st' = stack_gone i st1"
  shows "reg_tls (s_stack_reg st' m) = (if reg_tls (s_stack_reg st m) = Some i then None else reg_tls (s_stack_reg st m))"
    "reg_next_id (s_stack_reg st' m) =
      (if m = stk_tno (stks st i) \<and> stk_tno (stks st i) \<noteq> 0 then stk_next_id (stks st i) else reg_next_id (s_stack_reg st m))"
proof -
  let ?t = "stks st i" and ?n = "stk_tno (stks st i)"
  have reg: "reg_ok st" and th: "\<And>j. thread_ok st j" using inv by (auto simp: stack_inv_def)
  note t = thread_okD [OF th refl] and r = reg_okD [OF reg] and lim = reg_tls_range [OF reg, of m]
  have only: "stk_tno (stks st j) = m" if "reg_tls (s_stack_reg st m) = Some j" "\<not> stk_renumbered (stks st j)" for m j
    using r(8) [OF that(1)] that(2) by blast
  have i0: "reg_tls (s_stack_reg st m) \<noteq> Some i" if "?n = 0"
    using only [of m i] t(1) [OF that] that lim by auto
  let ?reg = "(s_stack_reg st)(?n := \<lparr>reg_tls = None, reg_next_id = stk_next_id ?t\<rparr>)"
  have e: "s_stack_reg st' = (if ?n = 0 then s_stack_reg st else if stk_renumbered ?t
      then (\<lambda>m. if 1 \<le> m \<and> m < IRON_STACK_THREADS then drop_block i (?reg m) else ?reg m) else ?reg)"
    using exit by (cases "?n = 0"; cases "stk_renumbered ?t")
      (simp_all add: st' stack_gone_def iron_stack_thread_exit_def Let_def, auto)
  consider (none) "?n = 0" | (renum) "?n \<noteq> 0" "stk_renumbered ?t" | (plain) "?n \<noteq> 0" "\<not> stk_renumbered ?t" by blast
  then show "reg_tls (s_stack_reg st' m) = (if reg_tls (s_stack_reg st m) = Some i then None else reg_tls (s_stack_reg st m))"
  proof cases
    case none
    with i0 show ?thesis by (simp add: e)
  next
    case renum
    with t(2) [of i] lim show ?thesis
      by (cases "m = ?n"; cases "reg_tls (s_stack_reg st m) = Some i") (simp_all add: e drop_block_def)
  next
    case plain
    with t(2) [of i] only [of m i] show ?thesis by (cases "m = ?n") (auto simp: e)
  qed
  show "reg_next_id (s_stack_reg st' m) = (if m = ?n \<and> ?n \<noteq> 0 then stk_next_id ?t else reg_next_id (s_stack_reg st m))"
    by (simp add: e drop_block_def)
qed

lemma stack_exit_last:
  assumes inv: "stack_inv st" and exit: "iron_stack_thread_exit ok i (gs, st) = (gs', st1)"
    and st': "st' = stack_gone i st1"
  shows "last_id st' = last_id st"
proof -
  let ?n = "stk_tno (stks st i)"
  have reg: "reg_ok st" and th: "\<And>j. thread_ok st j" using inv by (auto simp: stack_inv_def)
  note t = thread_okD [OF th refl] and lim = reg_tls_range [OF reg]
  note stks' = stack_exit_fields(1) [OF exit st'] and regs = stack_exit_regs [OF inv exit st']
  show "last_id st' = last_id st"
  proof
    fix m
    show "last_id st' m = last_id st m"
    proof (cases "m = ?n \<and> ?n \<noteq> 0")
      case True
      with t(2) [of i] show ?thesis by (simp add: last_id_def regs)
    next
      case False
      then have "reg_tls (s_stack_reg st m) = Some i \<Longrightarrow> stk_tno (stks st i) \<noteq> m" using lim [of m] by auto
      with False show ?thesis
        by (cases "reg_tls (s_stack_reg st m)") (auto simp: last_id_def regs stks')
    qed
  qed
qed

lemma stack_exit_reg_ok:
  assumes inv: "stack_inv st" and exit: "iron_stack_thread_exit ok i (gs, st) = (gs', st1)"
    and st': "st' = stack_gone i st1"
  shows "reg_ok st'"
proof -
  let ?n = "stk_tno (stks st i)"
  have reg: "reg_ok st" and th: "\<And>j. thread_ok st j" using inv by (auto simp: stack_inv_def)
  note t = thread_okD [OF th refl] and r = reg_okD [OF reg]
  note stks' = stack_exit_fields(1) [OF exit st'] and rest = stack_exit_fields(2,3) [OF exit st'] and regs = stack_exit_regs [OF inv exit st']
  show ?thesis
    unfolding reg_ok_def
  proof (intro conjI allI ballI impI)
    show "reg_tls (s_stack_reg st' 0) = None" "1 \<le> s_stack_next st'" "s_stack_next st' \<le> IRON_STACK_THREADS"
      using r(1-3) by (simp_all add: regs rest)
    show "s_stack_reg st' m = \<lparr>reg_tls = None, reg_next_id = 0\<rparr>" if "s_stack_next st' \<le> m" for m
      using that r(4) [of m] regs [of m] t(2) [of i] by (cases "s_stack_reg st' m") (auto simp: rest)
    show "reg_next_id (s_stack_reg st' m) \<le> IRON_STACK_ID_MASK" for m
      using r(5) [of m] t(2) [of i] by (simp add: regs)
    show "distinct (s_stack_free st')"
      using r(6) r(7) [of ?n] t(2) [of i] by (auto simp: rest)
    show "1 \<le> m" "m < s_stack_next st'" "reg_tls (s_stack_reg st' m) = None" if "m \<in> set (s_stack_free st')" for m
    proof -
      have n: "?n \<noteq> 0 \<Longrightarrow> ?n < s_stack_next st"
        using t(2) [of i] r(4) [of ?n] by (cases "s_stack_next st \<le> ?n") auto
      have "m \<in> set (s_stack_free st) \<or> m = ?n \<and> ?n \<noteq> 0" using that rest(2) by (cases "?n = 0") auto
      then have "1 \<le> m \<and> m < s_stack_next st \<and> reg_tls (s_stack_reg st' m) = None"
      proof
        assume "m \<in> set (s_stack_free st)"
        with r(7) [of m] show ?thesis by (simp add: regs(1))
      next
        assume "m = ?n \<and> ?n \<noteq> 0"
        with n t(2) [of i] show ?thesis by (simp add: regs(1))
      qed
      then show "1 \<le> m" "m < s_stack_next st'" "reg_tls (s_stack_reg st' m) = None" by (simp_all add: rest)
    qed
    fix m j assume "reg_tls (s_stack_reg st' m) = Some j \<and> stk_tno (stks st' j) \<noteq> m"
    then have "reg_tls (s_stack_reg st m) = Some j" "j \<noteq> i" "stk_tno (stks st j) \<noteq> m"
      by (auto simp: regs stks' split: if_splits)
    then have m: "reg_next_id (s_stack_reg st m) = IRON_STACK_ID_MASK" "stk_renumbered (stks st j)" "j \<noteq> i"
      "reg_tls (s_stack_reg st m) = Some j"
      using r(8) [of m j] by auto
    then show "stk_renumbered (stks st' j)" by (simp add: stks')
    have "m \<noteq> ?n \<or> ?n = 0" using t(2) [of i] m(3,4) by (cases "?n = 0") auto
    with m(1) show "reg_next_id (s_stack_reg st' m) = IRON_STACK_ID_MASK" by (auto simp: regs)
  qed
qed

lemma stack_exit_inv:
  assumes inv: "stack_inv st" and exit: "iron_stack_thread_exit ok i (gs, st) = (gs', st1)"
    and st': "st' = stack_gone i st1"
  shows "stack_inv st'"
proof -
  have th: "\<And>j. thread_ok st j" using inv by (auto simp: stack_inv_def)
  note stks' = stack_exit_fields(1) [OF exit st'] and regs = stack_exit_regs [OF inv exit st'] and last = stack_exit_last [OF inv exit st']
  have "thread_ok st' j" for j
  proof (cases "j = i")
    case True
    then show ?thesis
      by (simp add: thread_ok_def stks' stk_init_def stack_key_at_eq deep_at_def)
  next
    case False
    then have e: "stks st' j = stks st j" by (simp add: stks')
    have "key_ok st' j k" if "key_ok st j k" for k
      by (rule key_ok_mono [OF that]) (use False in \<open>auto simp: regs last\<close>)
    then show ?thesis using th [of j] False unfolding thread_ok_def Let_def e by (auto simp: regs)
  qed
  then show ?thesis using stack_exit_reg_ok [OF inv exit st'] by (simp add: stack_inv_def)
qed

section \<open>Runs\<close>

definition open_gens :: "stack_state \<Rightarrow> tid \<Rightarrow> u64 set" where
  "open_gens st j = {stack_gen_of d (stack_key_at (stks st j) d) |d. 1 \<le> d \<and> d \<le> stk_depth (stks st j)}"

definition stack_alive :: "stack_state \<Rightarrow> u64 \<Rightarrow> bool" where
  "stack_alive st g \<longleftrightarrow> (\<exists>j. g \<in> open_gens st j)"

definition stack_spent :: "stack_state \<Rightarrow> u64 \<Rightarrow> bool" where
  "stack_spent st g \<longleftrightarrow> stack_id g \<le> last_id st (IRON_STACK_THREAD g)"

text \<open>The generation of a thread's innermost scope.\<close>

definition top_gen :: "stack_state \<Rightarrow> tid \<Rightarrow> u64" where
  "top_gen st i = stack_gen_of (stk_depth (stks st i)) (stack_key_at (stks st i) (stk_depth (stks st i)))"

inductive stack_step :: "stack_state \<Rightarrow> u64 gen_event \<Rightarrow> stack_state \<Rightarrow> bool" where
  step_enter: "iron_stack_enter ok i st = Inr (saved, st') \<Longrightarrow> stack_step st (Issued (stk_gen (stks st' i))) st'"
| step_leave: "0 < stk_depth (stks st i) \<Longrightarrow> iron_stack_leave ok i saved st = Inr st' \<Longrightarrow>
    stack_step st (Ended {top_gen st i}) st'"
| step_thread_exit: "iron_stack_thread_exit ok i (gs, st) = (gs', st') \<Longrightarrow>
    stack_step st (Ended (open_gens st i)) (stack_gone i st')"

lemma stack_init_inv: "stack_inv stack_init"
  by (simp add: stack_inv_def stack_init_def reg_ok_def thread_ok_def stk_init_def stack_key_at_eq
      deep_at_def IRON_STACK_THREADS_def id_mask_pos)

lemma open_gens_fields:
  assumes inv: "stack_inv st" and g: "g \<in> open_gens st j"
  obtains d n x where "1 \<le> d" "d \<le> stk_depth (stks st j)" "g = stack_gen_of d (stack_key_at (stks st j) d)"
    "g AND IRON_STACK_KEY_MASK = stack_key_at (stks st j) d" "IRON_STACK_DEPTH g = min d 0xFFFF"
    "IRON_STACK_THREAD g = n" "stack_id g = x" "1 \<le> n" "n < 4096" "1 \<le> x" "stack_key_at (stks st j) d \<noteq> 0"
    "reg_tls (s_stack_reg st n) = Some j" "x \<le> last_id st n" "g AND IRON_STACK_TAG \<noteq> 0"
proof -
  from g obtain d where d: "1 \<le> d" "d \<le> stk_depth (stks st j)" "g = stack_gen_of d (stack_key_at (stks st j) d)"
    by (auto simp: open_gens_def)
  have "thread_ok st j" using inv by (simp add: stack_inv_def)
  from thread_okD(4) [OF this refl d(1,2)] show thesis
  proof (rule key_ok_at)
    fix n x
    assume k: "1 \<le> n" "n < 4096" "1 \<le> x" "reg_tls (s_stack_reg st n) = Some j" "x \<le> last_id st n"
      "IRON_STACK_THREAD (stack_key_at (stks st j) d) = n" "stack_id (stack_key_at (stks st j) d) = x"
      "stack_key_at (stks st j) d \<noteq> 0"
      and hi: "\<And>m. 47 \<le> m \<Longrightarrow> \<not> bit (stack_key_at (stks st j) d) m"
    note f = stack_gen_of_fields [OF hi, of d]
    show thesis by (rule that [OF d]) (use k f d(3) in simp_all)
  qed
qed

text \<open>Two open scopes never share a generation.\<close>

lemma open_gens_disjoint:
  assumes inv: "stack_inv st" and "g \<in> open_gens st i" "g \<in> open_gens st j"
  shows "i = j"
  using assms by (elim open_gens_fields [OF inv]) simp

lemma open_gens_inj:
  assumes inv: "stack_inv st" and d: "1 \<le> d" "d \<le> stk_depth (stks st i)" and e: "1 \<le> e" "e \<le> stk_depth (stks st i)"
    and eq: "stack_gen_of d (stack_key_at (stks st i) d) = stack_gen_of e (stack_key_at (stks st i) e)"
  shows "d = e"
proof -
  have th: "thread_ok st i" using inv by (simp add: stack_inv_def)
  have "stack_key_at (stks st i) a = stack_gen_of a (stack_key_at (stks st i) a) AND IRON_STACK_KEY_MASK"
    if a: "1 \<le> a" "a \<le> stk_depth (stks st i)" for a
    using thread_okD(4) [OF th refl a] by (elim key_ok_at) (simp add: stack_gen_of_fields(2))
  with d e eq have "stack_key_at (stks st i) d = stack_key_at (stks st i) e" by metis
  with inj_onD [OF thread_okD(5) [OF th refl]] d e show ?thesis by simp
qed

lemma stack_enter_step:
  assumes inv: "stack_inv st" and enter: "iron_stack_enter ok i st = Inr (saved, st')"
  defines "g \<equiv> stk_gen (stks st' i)"
  shows "stack_inv st'" and "open_gens st' j = (if j = i then insert g (open_gens st i) else open_gens st j)"
    and "last_id st m \<le> last_id st' m" and "\<not> stack_spent st g"
proof -
  have "stack_inv st' \<and> (\<forall>j. open_gens st' j = (if j = i then insert g (open_gens st i) else open_gens st j)) \<and>
      (\<forall>m. last_id st m \<le> last_id st' m) \<and> \<not> stack_spent st g"
    using inv enter
  proof (cases rule: stack_enter_cases)
  case (1 st2 t2)
  let ?n = "stk_tno (stks st2 i)" and ?x = "stk_next_id (stks st2 i) + 1" and ?d = "stk_depth (stks st i) + 1"
  let ?key = "stack_key ?n ?x"
  have "stack_set ok ?d ?key (stks st2 i\<lparr>stk_next_id := ?x\<rparr>) = Inr t2" using 1(8) .
  note p = stack_push_inv [OF 1(1,3,4) refl _ refl this 1(9)]
  have dd: "?d = stk_depth (stks st2 i) + 1" using 1(5) by simp
  note p = p [OF dd]
  have g: "g = stack_gen_of ?d ?key" using 1(9) by (simp add: g_def)
  have hi: "\<And>m. 47 \<le> m \<Longrightarrow> \<not> bit ?key m" "IRON_STACK_THREAD ?key = ?n" "stack_id ?key = ?x"
  proof -
    have "?n < 4096" using 1(1,3) thread_okD(2) [of st2 i] by (auto simp: stack_inv_def)
    moreover have "?x < 2 ^ 35" using 1(4) by (simp add: IRON_STACK_ID_MASK_def)
    ultimately show "\<And>m. 47 \<le> m \<Longrightarrow> \<not> bit ?key m" "IRON_STACK_THREAD ?key = ?n" "stack_id ?key = ?x"
      using stack_key_fields by blast+
  qed
  have fresh: "\<not> stack_spent st g"
    using stack_gen_of_fields(4,5) [OF hi(1), of ?d] hi(2,3) p(3) 1(2) by (simp add: stack_spent_def g)
  have mono: "last_id st m \<le> last_id st' m" for m using p(2) [of m] p(3) 1(2) by auto
  have "open_gens st' j = (if j = i then insert g (open_gens st i) else open_gens st j)" for j
  proof (cases "j = i")
    case False
    then show ?thesis using p(5) [of j] p(6) [of j] 1(5,6) by (simp add: open_gens_def)
  next
    case True
    have "{1..?d} = insert ?d {1..stk_depth (stks st i)}" by auto
    moreover have "open_gens st' i = (\<lambda>e. stack_gen_of e (stack_key_at (stks st' i) e)) ` {1..?d}"
      using p(5) [of i] by (auto simp: open_gens_def)
    moreover have "open_gens st i = (\<lambda>e. stack_gen_of e (stack_key_at (stks st' i) e)) ` {1..stk_depth (stks st i)}"
      using p(6) [of i] 1(6) by (auto simp: open_gens_def)
    ultimately show ?thesis using True p(6) [of i ?d] g by simp
  qed
  with p(1) mono fresh show ?thesis by blast
  qed
  then show "stack_inv st'" "open_gens st' j = (if j = i then insert g (open_gens st i) else open_gens st j)"
    "last_id st m \<le> last_id st' m" "\<not> stack_spent st g" by blast+
qed

lemma top_gen_open: "0 < stk_depth (stks st i) \<Longrightarrow> top_gen st i \<in> open_gens st i"
  unfolding top_gen_def open_gens_def by (rule CollectI, rule exI [of _ "stk_depth (stks st i)"]) simp

lemma stack_leave_step:
  assumes inv: "stack_inv st" and "0 < stk_depth (stks st i)" and "iron_stack_leave ok i saved st = Inr st'"
  shows "open_gens st' j = open_gens st j - {top_gen st i}"
proof -
  note p = stack_pop_inv [OF assms]
  let ?d = "stk_depth (stks st i)" and ?f = "\<lambda>e. stack_gen_of e (stack_key_at (stks st i) e)"
  note top = top_gen_open [OF assms(2)]
  show ?thesis
  proof (cases "j = i")
    case False
    with open_gens_disjoint [OF inv top] have "top_gen st i \<notin> open_gens st j" by blast
    moreover have "open_gens st' j = open_gens st j" using p(3) [of j] p(4) [of j] False by (simp add: open_gens_def)
    ultimately show ?thesis by simp
  next
    case True
    have "open_gens st i = ?f ` {1..?d}" by (auto simp: open_gens_def)
    moreover have "open_gens st' i = ?f ` {1..?d - 1}"
    proof -
      have "open_gens st' i = (\<lambda>e. stack_gen_of e (stack_key_at (stks st' i) e)) ` {1..?d - 1}"
        using p(3) [of i] by (auto simp: open_gens_def)
      also have "\<dots> = ?f ` {1..?d - 1}"
        by (rule image_cong) (use p(4) [of i] assms(2) in auto)
      finally show ?thesis .
    qed
    moreover have "{1..?d} = insert ?d {1..?d - 1}" using assms(2) by auto
    moreover have "?f ?d \<notin> ?f ` {1..?d - 1}"
    proof
      assume "?f ?d \<in> ?f ` {1..?d - 1}"
      then obtain e where "e \<in> {1..?d - 1}" "?f ?d = ?f e" by blast
      moreover from this have "?d = e" by (intro open_gens_inj [OF inv]) (use assms(2) in auto)
      ultimately show False using assms(2) by simp
    qed
    ultimately show ?thesis using True by (auto simp: top_gen_def)
  qed
qed

lemma stack_exit_step:
  assumes inv: "stack_inv st" and "iron_stack_thread_exit ok i (gs, st) = (gs', st1)"
  shows "open_gens (stack_gone i st1) j = (if j = i then {} else open_gens st j)"
  using stack_exit_fields(1) [OF assms(2) refl] by (auto simp: open_gens_def stk_init_def)

lemma stack_step_inv:
  assumes "stack_inv st" and "stack_step st e st'"
  shows "stack_inv st'" and "last_id st m \<le> last_id st' m"
proof -
  from assms(2) have "stack_inv st' \<and> last_id st m \<le> last_id st' m"
  proof cases
    case (step_enter ok i saved)
    with stack_enter_step [OF assms(1)] show ?thesis by blast
  next
    case (step_leave i ok saved)
    with stack_pop_inv(1,2) [OF assms(1)] show ?thesis by fastforce
  next
    case (step_thread_exit ok i gs gs' st1)
    with stack_exit_inv [OF assms(1) step_thread_exit(3) refl] stack_exit_last [OF assms(1) step_thread_exit(3) refl] show ?thesis by simp
  qed
  then show "stack_inv st'" "last_id st m \<le> last_id st' m" by auto
qed

lemma stack_step_alive:
  assumes inv: "stack_inv st" and "stack_step st e st'"
  shows "stack_alive st' g \<longleftrightarrow> (stack_alive st g \<or> e = Issued g) \<and> g \<notin> ended [e]"
  using assms(2)
proof cases
  case (step_enter ok i saved)
  have "(\<exists>j. g \<in> open_gens st' j) \<longleftrightarrow> (\<exists>j. g \<in> open_gens st j) \<or> g = stk_gen (stks st' i)"
    using stack_enter_step(2) [OF inv step_enter(2)] by (metis insert_iff)
  with step_enter(1) show ?thesis by (auto simp: stack_alive_def)
next
  case (step_leave i ok saved)
  with stack_leave_step [OF inv step_leave(2,3)] show ?thesis by (auto simp: stack_alive_def)
next
  case (step_thread_exit ok i gs gs' st1)
  have "(\<exists>j. g \<in> open_gens st' j) \<longleftrightarrow> (\<exists>j. g \<in> open_gens st j) \<and> g \<notin> open_gens st i"
    using stack_exit_step [OF inv step_thread_exit(3)] open_gens_disjoint [OF inv, of g i] step_thread_exit(2)
    by (metis empty_iff)
  with step_thread_exit(1) show ?thesis by (auto simp: stack_alive_def)
qed

inductive_cases stack_step_Issued: "stack_step st (Issued g) st'"
inductive_cases stack_step_Ended: "stack_step st (Ended A) st'"

interpretation scopes: generations stack_init stack_step stack_inv stack_alive stack_spent
proof
  show "stack_inv stack_init" by (rule stack_init_inv)
  show "\<not> stack_alive stack_init g" for g
    by (simp add: stack_alive_def open_gens_def stack_init_def stk_init_def)
  show "stack_step st (Ended A) st' \<Longrightarrow> g \<in> A \<Longrightarrow> stack_alive st g" for st A st' g
    by (erule stack_step_Ended) (use top_gen_open in \<open>auto simp: stack_alive_def\<close>)
  show "stack_inv st \<Longrightarrow> stack_alive st g \<Longrightarrow> stack_spent st g" for st g
    by (auto simp: stack_alive_def stack_spent_def elim: open_gens_fields)
  show "stack_inv st \<Longrightarrow> stack_step st (Issued g) st' \<Longrightarrow> \<not> stack_spent st g" for st g st'
    by (erule stack_step_Issued) (use stack_enter_step(4) in blast)
  fix st e st' assume inv: "stack_inv st" and step: "stack_step st e st'"
  show "stack_inv st'" by (rule stack_step_inv(1) [OF inv step])
  fix g
  show "stack_alive st' g \<longleftrightarrow> (stack_alive st g \<or> e = Issued g) \<and> g \<notin> ended [e]"
    by (rule stack_step_alive [OF inv step])
  show "stack_spent st g \<Longrightarrow> stack_spent st' g"
    using stack_step_inv(2) [OF inv step] unfolding stack_spent_def by (meson le_trans)
qed

section \<open>The checks find exactly the open scopes\<close>

text \<open>The binary search is exact on an increasing range of keys.\<close>

lemma stack_search_exact:
  assumes "\<And>a b. lo \<le> a \<Longrightarrow> a < b \<Longrightarrow> b \<le> hi \<Longrightarrow> stack_key_at t a < stack_key_at t b"
    and "\<And>a. lo \<le> a \<Longrightarrow> a \<le> hi \<Longrightarrow> stack_key_at t a \<noteq> 0"
  shows "stack_search t key lo hi \<longleftrightarrow> (\<exists>p. lo \<le> p \<and> p \<le> hi \<and> stack_key_at t p = key)"
  using assms
proof (induction t key lo hi rule: stack_search.induct)
  case (1 t key lo hi)
  let ?mid = "lo + (hi - lo) div 2"
  show ?case
  proof (cases "lo \<le> hi")
    case True
    have mid: "lo \<le> ?mid" "?mid \<le> hi" using True by auto
    have nz: "stack_key_at t ?mid \<noteq> 0" using 1(4) [OF mid] .
    consider (eq) "stack_key_at t ?mid = key" | (above) "key < stack_key_at t ?mid" | (below) "stack_key_at t ?mid < key"
      by (meson linorder_cases)
    then show ?thesis
    proof cases
      case eq
      then have "stack_search t key lo hi" using True by (subst stack_search.simps) (simp add: Let_def)
      with mid eq show ?thesis by blast
    next
      case above
      have ex: "p < ?mid" if "p \<le> hi" "stack_key_at t p = key" for p
      proof (rule ccontr)
        assume "\<not> p < ?mid"
        then have "p = ?mid \<or> ?mid < p" by auto
        with 1(3) [OF mid(1), of p] that above show False by (auto dest: less_asym)
      qed
      show ?thesis
      proof (cases "?mid = lo")
        case True
        then have "\<not> stack_search t key lo hi"
          using above \<open>lo \<le> hi\<close> by (subst stack_search.simps) (auto simp: Let_def)
        moreover have "\<not> (\<exists>p. lo \<le> p \<and> p \<le> hi \<and> stack_key_at t p = key)"
          using ex True by (metis not_le)
        ultimately show ?thesis by blast
      next
        case False
        have "stack_search t key lo hi = stack_search t key lo (?mid - 1)"
          using above \<open>lo \<le> hi\<close> False by (subst stack_search.simps) (auto simp: Let_def)
        also have "\<dots> \<longleftrightarrow> (\<exists>p. lo \<le> p \<and> p \<le> ?mid - 1 \<and> stack_key_at t p = key)"
          using 1(1) [OF True refl refl _ _ False] above mid 1(3,4) by auto
        also have "\<dots> \<longleftrightarrow> (\<exists>p. lo \<le> p \<and> p \<le> hi \<and> stack_key_at t p = key)"
        proof (rule arg_cong [of _ _ Ex], rule ext)
          fix p
          show "(lo \<le> p \<and> p \<le> ?mid - 1 \<and> stack_key_at t p = key) = (lo \<le> p \<and> p \<le> hi \<and> stack_key_at t p = key)"
            using ex [of p] mid False by auto
        qed
        finally show ?thesis .
      qed
    next
      case below
      have ex: "?mid < p" if "lo \<le> p" "stack_key_at t p = key" for p
      proof (rule ccontr)
        assume "\<not> ?mid < p"
        then have "p = ?mid \<or> p < ?mid" by auto
        with 1(3) [OF that(1) _ mid(2)] that below show False by (auto dest: less_asym)
      qed
      have "stack_search t key lo hi = stack_search t key (?mid + 1) hi"
        using below True nz by (subst stack_search.simps) (auto simp: Let_def)
      also have "\<dots> \<longleftrightarrow> (\<exists>p. ?mid + 1 \<le> p \<and> p \<le> hi \<and> stack_key_at t p = key)"
        using 1(2) [OF True refl refl] below nz mid 1(3,4) by auto
      also have "\<dots> \<longleftrightarrow> (\<exists>p. lo \<le> p \<and> p \<le> hi \<and> stack_key_at t p = key)"
      proof (rule arg_cong [of _ _ Ex], rule ext)
        fix p
        show "(?mid + 1 \<le> p \<and> p \<le> hi \<and> stack_key_at t p = key) = (lo \<le> p \<and> p \<le> hi \<and> stack_key_at t p = key)"
          using ex [of p] mid by auto
      qed
      finally show ?thesis .
    qed
  next
    case False
    then show ?thesis by (subst stack_search.simps) auto
  qed
qed

text \<open>A stack generation is determined by its depth field and its key.\<close>

lemma depth_field_le: "IRON_STACK_DEPTH g \<le> 0xFFFF"
proof -
  have "drop_bit 47 g AND mask 16 < 2 ^ 16" by (rule and_mask_below) simp
  then show ?thesis by (simp add: IRON_STACK_DEPTH_def word_less_nat_alt)
qed

lemma stack_gen_of_eq:
  assumes "g AND IRON_STACK_TAG \<noteq> 0"
  shows "g = stack_gen_of (IRON_STACK_DEPTH g) (g AND IRON_STACK_KEY_MASK)"
proof (rule word_eqI_bits)
  fix m :: nat assume m: "m < LENGTH(64)"
  have tag: "bit g 63"
  proof (rule ccontr)
    assume "\<not> bit g 63"
    then have "g AND IRON_STACK_TAG = 0" by (auto intro!: word_eqI_bits simp: bit_and_iff gen_layout_bits)
    with assms show False by simp
  qed
  have d: "min (IRON_STACK_DEPTH g) 0xFFFF = unat (drop_bit 47 g AND mask 16)"
    using depth_field_le [of g] by (simp add: IRON_STACK_DEPTH_def)
  have "bit (unat (drop_bit 47 g AND mask 16)) k \<longleftrightarrow> k < 16 \<and> bit g (47 + k)" for k
    by (auto simp: bit_simps)
  then show "bit g m \<longleftrightarrow> bit (stack_gen_of (IRON_STACK_DEPTH g) (g AND IRON_STACK_KEY_MASK)) m"
    using tag m unfolding bit_stack_gen_of d IRON_STACK_KEY_MASK_def bit_and_iff bit_mask_iff
    by (cases "m < 47"; cases "m = 63") (simp_all, linarith)
qed

lemma stack_gen_of_saturated: "0xFFFF \<le> d \<Longrightarrow> stack_gen_of d key = stack_gen_of 0xFFFF key"
  by (simp add: stack_gen_of_def)

lemma thread_field: "IRON_STACK_THREAD (g AND IRON_STACK_KEY_MASK) = IRON_STACK_THREAD g"
proof -
  have "drop_bit 35 (g AND IRON_STACK_KEY_MASK) AND mask 12 = drop_bit 35 g AND mask 12"
    by (auto intro!: word_eqI_bits simp: IRON_STACK_KEY_MASK_def bit_simps)
  then show ?thesis by (simp add: IRON_STACK_THREAD_def)
qed

text \<open>The lookup in the owner's block is exact.\<close>

lemma live_slow_exact:
  assumes inv: "stack_inv st" and tag: "g AND IRON_STACK_TAG \<noteq> 0" and d: "IRON_STACK_DEPTH g \<noteq> 0"
    and key: "g AND IRON_STACK_KEY_MASK \<noteq> 0"
  shows "iron_stack_live_slow st g \<longleftrightarrow> stack_alive st g"
proof
  let ?d = "IRON_STACK_DEPTH g" and ?k = "g AND IRON_STACK_KEY_MASK" and ?n = "IRON_STACK_THREAD g"
  assume "stack_alive st g"
  then obtain j where "g \<in> open_gens st j" by (auto simp: stack_alive_def)
  with inv show "iron_stack_live_slow st g"
  proof (rule open_gens_fields)
    fix e n x
    assume e: "1 \<le> e" "e \<le> stk_depth (stks st j)" "?k = stack_key_at (stks st j) e" "?d = min e 0xFFFF"
      and n: "?n = n" "1 \<le> n" "n < 4096" "reg_tls (s_stack_reg st n) = Some j"
    have th: "thread_ok st j" using inv by (simp add: stack_inv_def)
    let ?t = "stks st j"
    have nz: "stack_key_at ?t a \<noteq> 0" if "1 \<le> a" "a \<le> stk_depth ?t" for a
      using thread_okD(4) [OF th refl that] by (elim key_ok_at) simp
    have srch: "stack_search ?t ?k 0xFFFF (stk_depth ?t)" if "\<not> stk_renumbered ?t" "0xFFFF \<le> e"
      using stack_search_exact [where lo = "0xFFFF" and hi = "stk_depth ?t" and t = ?t and key = ?k] thread_okD(7) [OF th refl that(1)] nz e that(2) by auto
    have ex: "list_ex (\<lambda>k. stack_key_at ?t k = ?k) [0xFFFF..<Suc (stk_depth ?t)]" if "0xFFFF \<le> e"
      unfolding list_ex_iff by (rule bexI [of _ e]) (use e that in \<open>simp_all del: upt_Suc\<close>)
    show ?thesis
      using n e srch ex
      by (auto simp: iron_stack_live_slow_def Let_def IRON_STACK_THREADS_def min_def split: if_splits)
  qed
next
  let ?d = "IRON_STACK_DEPTH g" and ?k = "g AND IRON_STACK_KEY_MASK" and ?n = "IRON_STACK_THREAD g"
  assume live: "iron_stack_live_slow st g"
  then obtain j where j: "reg_tls (s_stack_reg st ?n) = Some j"
    by (auto simp: iron_stack_live_slow_def Let_def split: if_splits option.splits)
  let ?t = "stks st j"
  have th: "thread_ok st j" using inv by (simp add: stack_inv_def)
  have nz: "stack_key_at ?t a \<noteq> 0" if "1 \<le> a" "a \<le> stk_depth ?t" for a
    using thread_okD(4) [OF th refl that] by (elim key_ok_at) simp
  have "\<exists>p. 1 \<le> p \<and> p \<le> stk_depth ?t \<and> stack_key_at ?t p = ?k \<and> g = stack_gen_of p ?k"
  proof (cases "?d < 0xFFFF")
    case True
    with live j have "?d \<le> stk_depth ?t \<and> stack_key_at ?t ?d = ?k"
      by (auto simp: iron_stack_live_slow_def Let_def split: if_splits)
    with d stack_gen_of_eq [OF tag] show ?thesis by (intro exI [of _ ?d]) simp
  next
    case False
    then have sat: "?d = 0xFFFF" using depth_field_le [of g] by simp
    have "\<exists>p. 0xFFFF \<le> p \<and> p \<le> stk_depth ?t \<and> stack_key_at ?t p = ?k"
    proof (cases "stk_renumbered ?t")
      case True
      with False live j show ?thesis
        by (auto simp: iron_stack_live_slow_def Let_def list_ex_iff less_Suc_eq_le split: if_splits)
    next
      case nr: False
      with False live j have "stack_search ?t ?k 0xFFFF (stk_depth ?t)"
        by (auto simp: iron_stack_live_slow_def Let_def split: if_splits)
      then show ?thesis
        using stack_search_exact [where lo = "0xFFFF" and hi = "stk_depth ?t" and t = ?t and key = ?k] thread_okD(7) [OF th refl nr] nz by auto
    qed
    then obtain p where p: "0xFFFF \<le> p" "p \<le> stk_depth ?t" "stack_key_at ?t p = ?k" by blast
    have "g = stack_gen_of p ?k"
      using stack_gen_of_eq [OF tag] stack_gen_of_saturated [OF p(1), of ?k] sat by simp
    with p show ?thesis by (intro exI [of _ p]) simp
  qed
  then have "\<exists>d. g = stack_gen_of d (stack_key_at ?t d) \<and> 1 \<le> d \<and> d \<le> stk_depth ?t" by metis
  then show "stack_alive st g" unfolding stack_alive_def open_gens_def by blast
qed

lemma gen_live_stack_exact:
  assumes inv: "stack_inv st" and tag: "g AND IRON_STACK_TAG \<noteq> 0" and d: "IRON_STACK_DEPTH g \<noteq> 0"
    and key: "g AND IRON_STACK_KEY_MASK \<noteq> 0"
  shows "iron_stack_gen_live i st g \<longleftrightarrow> stack_alive st g"
proof -
  let ?d = "IRON_STACK_DEPTH g" and ?k = "g AND IRON_STACK_KEY_MASK"
  have th: "thread_ok st i" using inv by (simp add: stack_inv_def)
  have "stack_alive st g" if f: "?d < IRON_STACK_CHUNK" "stk_ids (stks st i) ?d = ?k"
  proof -
    have k: "stack_key_at (stks st i) ?d = ?k" using f by (simp add: stack_key_at_eq)
    then have "?d \<le> stk_depth (stks st i)"
      using thread_okD(3) [OF th refl, of ?d] key by (auto simp: not_le [symmetric])
    with k d stack_gen_of_eq [OF tag] have "g \<in> open_gens st i"
      unfolding open_gens_def by (intro CollectI exI [of _ ?d]) simp
    then show ?thesis by (auto simp: stack_alive_def)
  qed
  with live_slow_exact [OF assms] tag d show ?thesis
    by (auto simp: iron_stack_gen_live_def Let_def)
qed

section \<open>Properties of the scopes and of the checks\<close>

text \<open>C6: after any sequence of scope entries, scope exits and thread exits on any threads, a thread
  that checks a stack pointer accepts it exactly when the scope the pointer names has been entered and
  has not been left: pointers to a scope that ended, or of a thread that exited, are rejected, also when
  the thread number was reused, the ids were used up or the scope was more than 65534 deep; pointers to
  an open scope are accepted on every thread. Depth 0 is static storage and the key of a scope is never 0.\<close>

theorem stack_live_exact:
  assumes "runs stack_step stack_init es st" and "g AND IRON_STACK_TAG \<noteq> 0"
    and "IRON_STACK_DEPTH g \<noteq> 0" and "g AND IRON_STACK_KEY_MASK \<noteq> 0"
  shows "iron_stack_gen_live i st g \<longleftrightarrow> Issued g \<in> set es \<and> g \<notin> ended es"
  using gen_live_stack_exact [OF scopes.runs_inv [OF assms(1)] assms(2-4)] scopes.runs_alive [OF assms(1)]
  by simp

definition stack_one :: stack_state where
  "stack_one = \<lparr>stks = (\<lambda>_. stk_init)(0 := stk_init\<lparr>stk_gen := 0x8000800800000001, stk_depth := 1, stk_tno := 1,
       stk_next_id := 1, stk_ids := (\<lambda>_. 0)(1 := 0x800000001)\<rparr>),
     s_stack_reg = (\<lambda>_. \<lparr>reg_tls = None, reg_next_id = 0\<rparr>)(1 := \<lparr>reg_tls = Some 0, reg_next_id = 0\<rparr>),
     s_stack_free = [], s_stack_next = 2\<rparr>"

lemmas stack_eval = stack_init_def stk_init_def stack_one_def IRON_STACK_GEN_INIT_def IRON_STACK_TAG_def
  IRON_STACK_ID_MASK_def IRON_STACK_CHUNK_def IRON_STACK_THREADS_def stack_key_def stack_gen_of_def
  stack_set_def IRON_STACK_DEPTH_def IRON_STACK_KEY_MASK_def mask_eq_exp_minus_1

lemma stack_one_enter: "iron_stack_enter (\<lambda>_. True) 0 stack_init = Inr (0x8000000000000000, stack_one)"
  by (simp add: iron_stack_enter_def iron_stack_attach_def stack_take_number_def stack_eval)

lemma stack_one_runs: "runs stack_step stack_init [Issued 0x8000800800000001] stack_one"
proof -
  have "stack_step stack_init (Issued (stk_gen (stks stack_one 0))) stack_one"
    by (rule step_enter [OF stack_one_enter])
  then have "stack_step stack_init (Issued 0x8000800800000001) stack_one" by (simp add: stack_eval)
  then show ?thesis by (rule runs_single)
qed

theorem stack_live_exact_witness:
  "iron_stack_gen_live 5 stack_one 0x8000800800000001 \<and> \<not> iron_stack_gen_live 5 stack_one 0x8000800800000002"
  using stack_live_exact [OF stack_one_runs, of "0x8000800800000001" 5]
    stack_live_exact [OF stack_one_runs, of "0x8000800800000002" 5]
  by (simp add: stack_eval)

text \<open>C7: the release build's pointer checks, with their inline fast paths, decide every generation as
  the debug build's checks do, and a check that passes accepts exactly a live generation: a stack form
  through the scopes, a slot form through the table.\<close>

theorem check_ptr_release_debug:
  "iron_check_ptr i s g = iron_check_ptr_debug i s g \<and>
   iron_check_stack_pointer_gen i s g = iron_check_stack_pointer_gen_debug i s g \<and>
   (iron_check_ptr i s g = Inr () \<longleftrightarrow>
      (if g AND IRON_STACK_TAG \<noteq> 0 then iron_stack_gen_live i (snd s) g else iron_gen_live (fst s) g)) \<and>
   (g AND IRON_STACK_TAG = 0 \<longrightarrow> iron_check_pointer_gen s g = iron_check_ptr i s g)"
proof -
  have "IRON_STACK_DEPTH IRON_STACK_GEN_INIT = 0" "IRON_STACK_GEN_INIT AND IRON_STACK_TAG \<noteq> 0"
    by (simp_all add: stack_eval)
  then have live: "iron_stack_gen_live i st g \<and> g AND IRON_STACK_TAG \<noteq> 0" if "iron_stack_gen_open i st g" for st
    using that by (auto simp: iron_stack_gen_open_def iron_stack_gen_live_def Let_def)
  obtain gs st where s: "s = (gs, st)" by (cases s)
  show ?thesis
    using live [of st] unfolding s
    by (auto simp: iron_check_ptr_def iron_check_ptr_debug_def iron_check_ptr_slow_def
        iron_check_stack_pointer_gen_def iron_check_stack_pointer_gen_debug_def iron_check_pointer_gen_def)
      (auto simp: iron_stack_gen_live_def)
qed

theorem check_ptr_release_debug_witness:
  "iron_check_ptr 5 (gen_init, stack_one) 0x8000800800000001 = iron_check_ptr_debug 5 (gen_init, stack_one) 0x8000800800000001"
  using check_ptr_release_debug [of 5 "(gen_init, stack_one)" "0x8000800800000001"] by blast

end
