(* ===== verification/Token.thy ===== *)
theory Token
  imports Prelude
begin

text \<open>
  Token kinds and the keyword table of the lexer (src/lexer/lexer.h and src/lexer/lexer.c): the
  enumeration, the sorted table searched with \<^verbatim>\<open>bsearch\<close>, the names and spellings of
  the kinds. The theory shows that the binary search finds exactly the reserved words and that the
  spelling of every keyword lexes back to its kind.
\<close>

section \<open>Kinds and tables\<close>

datatype (plugins only:) Iron_TokenKind =
    IRON_TOK_INTEGER | IRON_TOK_FLOAT | IRON_TOK_STRING | IRON_TOK_INTERP_STRING | IRON_TOK_AND |
    IRON_TOK_AWAIT | IRON_TOK_BREAK | IRON_TOK_COMPTIME | IRON_TOK_CONTINUE | IRON_TOK_COPY |
    IRON_TOK_DEFER | IRON_TOK_DROP | IRON_TOK_ELIF | IRON_TOK_ELSE | IRON_TOK_ENUM |
    IRON_TOK_EXTENDS | IRON_TOK_EXTERN | IRON_TOK_FALSE | IRON_TOK_FOR | IRON_TOK_FREE |
    IRON_TOK_FUNC | IRON_TOK_HEAP | IRON_TOK_IF | IRON_TOK_IMPL | IRON_TOK_IMPORT | IRON_TOK_IN |
    IRON_TOK_INIT | IRON_TOK_INTERFACE | IRON_TOK_IS | IRON_TOK_LEAK | IRON_TOK_MATCH |
    IRON_TOK_MUT | IRON_TOK_NOCOPY | IRON_TOK_NOT | IRON_TOK_NULL_KW | IRON_TOK_OBJECT |
    IRON_TOK_OR | IRON_TOK_PARALLEL | IRON_TOK_PATCH | IRON_TOK_POOL | IRON_TOK_PRIVATE |
    IRON_TOK_PUB | IRON_TOK_PURE | IRON_TOK_RC | IRON_TOK_READONLY | IRON_TOK_RETURN |
    IRON_TOK_SELF | IRON_TOK_SPAWN | IRON_TOK_STATIC | IRON_TOK_SUPER | IRON_TOK_TRUE |
    IRON_TOK_UNCHECKED | IRON_TOK_VAL | IRON_TOK_VAR | IRON_TOK_WEAK | IRON_TOK_WHILE |
    IRON_TOK_PLUS | IRON_TOK_MINUS | IRON_TOK_STAR | IRON_TOK_SLASH | IRON_TOK_PERCENT |
    IRON_TOK_ASSIGN | IRON_TOK_EQUALS | IRON_TOK_NOT_EQUALS | IRON_TOK_LESS | IRON_TOK_GREATER |
    IRON_TOK_LESS_EQ | IRON_TOK_GREATER_EQ | IRON_TOK_DOT | IRON_TOK_DOTDOT | IRON_TOK_COMMA |
    IRON_TOK_COLON | IRON_TOK_ARROW | IRON_TOK_QUESTION | IRON_TOK_PLUS_ASSIGN |
    IRON_TOK_MINUS_ASSIGN | IRON_TOK_STAR_ASSIGN | IRON_TOK_SLASH_ASSIGN | IRON_TOK_SHL |
    IRON_TOK_SHR | IRON_TOK_AMP | IRON_TOK_PIPE | IRON_TOK_CARET | IRON_TOK_TILDE |
    IRON_TOK_SHL_ASSIGN | IRON_TOK_SHR_ASSIGN | IRON_TOK_AMP_ASSIGN | IRON_TOK_PIPE_ASSIGN |
    IRON_TOK_CARET_ASSIGN | IRON_TOK_LPAREN | IRON_TOK_RPAREN | IRON_TOK_LBRACKET |
    IRON_TOK_RBRACKET | IRON_TOK_LBRACE | IRON_TOK_RBRACE | IRON_TOK_SEMICOLON | IRON_TOK_AT |
    IRON_TOK_NEWLINE | IRON_TOK_EOF | IRON_TOK_ERROR | IRON_TOK_IDENTIFIER | IRON_TOK_WILDCARD |
    IRON_TOK_DOC_COMMENT

definition kw_table :: "(string \<times> Iron_TokenKind) list" where
  "kw_table = [
     (''and'', IRON_TOK_AND), (''await'', IRON_TOK_AWAIT), (''break'', IRON_TOK_BREAK),
     (''comptime'', IRON_TOK_COMPTIME), (''continue'', IRON_TOK_CONTINUE),
     (''copy'', IRON_TOK_COPY), (''defer'', IRON_TOK_DEFER), (''drop'', IRON_TOK_DROP),
     (''elif'', IRON_TOK_ELIF), (''else'', IRON_TOK_ELSE), (''enum'', IRON_TOK_ENUM),
     (''extends'', IRON_TOK_EXTENDS), (''extern'', IRON_TOK_EXTERN), (''false'', IRON_TOK_FALSE),
     (''for'', IRON_TOK_FOR), (''free'', IRON_TOK_FREE), (''func'', IRON_TOK_FUNC),
     (''heap'', IRON_TOK_HEAP), (''if'', IRON_TOK_IF), (''impl'', IRON_TOK_IMPL),
     (''import'', IRON_TOK_IMPORT), (''in'', IRON_TOK_IN), (''init'', IRON_TOK_INIT),
     (''interface'', IRON_TOK_INTERFACE), (''is'', IRON_TOK_IS), (''leak'', IRON_TOK_LEAK),
     (''match'', IRON_TOK_MATCH), (''mut'', IRON_TOK_MUT), (''nocopy'', IRON_TOK_NOCOPY),
     (''not'', IRON_TOK_NOT), (''null'', IRON_TOK_NULL_KW), (''object'', IRON_TOK_OBJECT),
     (''or'', IRON_TOK_OR), (''parallel'', IRON_TOK_PARALLEL), (''patch'', IRON_TOK_PATCH),
     (''pool'', IRON_TOK_POOL), (''private'', IRON_TOK_PRIVATE), (''pub'', IRON_TOK_PUB),
     (''pure'', IRON_TOK_PURE), (''rc'', IRON_TOK_RC), (''readonly'', IRON_TOK_READONLY),
     (''return'', IRON_TOK_RETURN), (''self'', IRON_TOK_SELF), (''spawn'', IRON_TOK_SPAWN),
     (''static'', IRON_TOK_STATIC), (''super'', IRON_TOK_SUPER), (''true'', IRON_TOK_TRUE),
     (''unchecked'', IRON_TOK_UNCHECKED), (''val'', IRON_TOK_VAL), (''var'', IRON_TOK_VAR),
     (''weak'', IRON_TOK_WEAK), (''while'', IRON_TOK_WHILE)]"

definition kw_kind_names :: "(Iron_TokenKind \<times> string) list" where
  "kw_kind_names = [
     (IRON_TOK_INTEGER, ''IRON_TOK_INTEGER''), (IRON_TOK_FLOAT, ''IRON_TOK_FLOAT''),
     (IRON_TOK_STRING, ''IRON_TOK_STRING''),
     (IRON_TOK_INTERP_STRING, ''IRON_TOK_INTERP_STRING''), (IRON_TOK_AND, ''IRON_TOK_AND''),
     (IRON_TOK_AWAIT, ''IRON_TOK_AWAIT''), (IRON_TOK_BREAK, ''IRON_TOK_BREAK''),
     (IRON_TOK_COMPTIME, ''IRON_TOK_COMPTIME''), (IRON_TOK_CONTINUE, ''IRON_TOK_CONTINUE''),
     (IRON_TOK_COPY, ''IRON_TOK_COPY''), (IRON_TOK_DEFER, ''IRON_TOK_DEFER''),
     (IRON_TOK_DROP, ''IRON_TOK_DROP''), (IRON_TOK_ELIF, ''IRON_TOK_ELIF''),
     (IRON_TOK_ELSE, ''IRON_TOK_ELSE''), (IRON_TOK_ENUM, ''IRON_TOK_ENUM''),
     (IRON_TOK_EXTENDS, ''IRON_TOK_EXTENDS''), (IRON_TOK_EXTERN, ''IRON_TOK_EXTERN''),
     (IRON_TOK_FALSE, ''IRON_TOK_FALSE''), (IRON_TOK_FOR, ''IRON_TOK_FOR''),
     (IRON_TOK_FREE, ''IRON_TOK_FREE''), (IRON_TOK_FUNC, ''IRON_TOK_FUNC''),
     (IRON_TOK_HEAP, ''IRON_TOK_HEAP''), (IRON_TOK_IF, ''IRON_TOK_IF''),
     (IRON_TOK_IMPL, ''IRON_TOK_IMPL''), (IRON_TOK_IMPORT, ''IRON_TOK_IMPORT''),
     (IRON_TOK_IN, ''IRON_TOK_IN''), (IRON_TOK_INIT, ''IRON_TOK_INIT''),
     (IRON_TOK_INTERFACE, ''IRON_TOK_INTERFACE''), (IRON_TOK_IS, ''IRON_TOK_IS''),
     (IRON_TOK_LEAK, ''IRON_TOK_LEAK''), (IRON_TOK_MATCH, ''IRON_TOK_MATCH''),
     (IRON_TOK_MUT, ''IRON_TOK_MUT''), (IRON_TOK_NOCOPY, ''IRON_TOK_NOCOPY''),
     (IRON_TOK_NOT, ''IRON_TOK_NOT''), (IRON_TOK_NULL_KW, ''IRON_TOK_NULL_KW''),
     (IRON_TOK_OBJECT, ''IRON_TOK_OBJECT''), (IRON_TOK_OR, ''IRON_TOK_OR''),
     (IRON_TOK_PARALLEL, ''IRON_TOK_PARALLEL''), (IRON_TOK_PATCH, ''IRON_TOK_PATCH''),
     (IRON_TOK_POOL, ''IRON_TOK_POOL''), (IRON_TOK_PRIVATE, ''IRON_TOK_PRIVATE''),
     (IRON_TOK_PUB, ''IRON_TOK_PUB''), (IRON_TOK_PURE, ''IRON_TOK_PURE''),
     (IRON_TOK_RC, ''IRON_TOK_RC''), (IRON_TOK_READONLY, ''IRON_TOK_READONLY''),
     (IRON_TOK_STATIC, ''IRON_TOK_STATIC''), (IRON_TOK_RETURN, ''IRON_TOK_RETURN''),
     (IRON_TOK_SELF, ''IRON_TOK_SELF''), (IRON_TOK_SPAWN, ''IRON_TOK_SPAWN''),
     (IRON_TOK_SUPER, ''IRON_TOK_SUPER''), (IRON_TOK_TRUE, ''IRON_TOK_TRUE''),
     (IRON_TOK_UNCHECKED, ''IRON_TOK_UNCHECKED''), (IRON_TOK_VAL, ''IRON_TOK_VAL''),
     (IRON_TOK_VAR, ''IRON_TOK_VAR''), (IRON_TOK_WEAK, ''IRON_TOK_WEAK''),
     (IRON_TOK_WHILE, ''IRON_TOK_WHILE''), (IRON_TOK_PLUS, ''IRON_TOK_PLUS''),
     (IRON_TOK_MINUS, ''IRON_TOK_MINUS''), (IRON_TOK_STAR, ''IRON_TOK_STAR''),
     (IRON_TOK_SLASH, ''IRON_TOK_SLASH''), (IRON_TOK_PERCENT, ''IRON_TOK_PERCENT''),
     (IRON_TOK_ASSIGN, ''IRON_TOK_ASSIGN''), (IRON_TOK_EQUALS, ''IRON_TOK_EQUALS''),
     (IRON_TOK_NOT_EQUALS, ''IRON_TOK_NOT_EQUALS''), (IRON_TOK_LESS, ''IRON_TOK_LESS''),
     (IRON_TOK_GREATER, ''IRON_TOK_GREATER''), (IRON_TOK_LESS_EQ, ''IRON_TOK_LESS_EQ''),
     (IRON_TOK_GREATER_EQ, ''IRON_TOK_GREATER_EQ''), (IRON_TOK_DOT, ''IRON_TOK_DOT''),
     (IRON_TOK_DOTDOT, ''IRON_TOK_DOTDOT''), (IRON_TOK_COMMA, ''IRON_TOK_COMMA''),
     (IRON_TOK_COLON, ''IRON_TOK_COLON''), (IRON_TOK_ARROW, ''IRON_TOK_ARROW''),
     (IRON_TOK_QUESTION, ''IRON_TOK_QUESTION''),
     (IRON_TOK_PLUS_ASSIGN, ''IRON_TOK_PLUS_ASSIGN''),
     (IRON_TOK_MINUS_ASSIGN, ''IRON_TOK_MINUS_ASSIGN''),
     (IRON_TOK_STAR_ASSIGN, ''IRON_TOK_STAR_ASSIGN''),
     (IRON_TOK_SLASH_ASSIGN, ''IRON_TOK_SLASH_ASSIGN''), (IRON_TOK_SHL, ''IRON_TOK_SHL''),
     (IRON_TOK_SHR, ''IRON_TOK_SHR''), (IRON_TOK_AMP, ''IRON_TOK_AMP''),
     (IRON_TOK_PIPE, ''IRON_TOK_PIPE''), (IRON_TOK_CARET, ''IRON_TOK_CARET''),
     (IRON_TOK_TILDE, ''IRON_TOK_TILDE''), (IRON_TOK_SHL_ASSIGN, ''IRON_TOK_SHL_ASSIGN''),
     (IRON_TOK_SHR_ASSIGN, ''IRON_TOK_SHR_ASSIGN''),
     (IRON_TOK_AMP_ASSIGN, ''IRON_TOK_AMP_ASSIGN''),
     (IRON_TOK_PIPE_ASSIGN, ''IRON_TOK_PIPE_ASSIGN''),
     (IRON_TOK_CARET_ASSIGN, ''IRON_TOK_CARET_ASSIGN''), (IRON_TOK_LPAREN, ''IRON_TOK_LPAREN''),
     (IRON_TOK_RPAREN, ''IRON_TOK_RPAREN''), (IRON_TOK_LBRACKET, ''IRON_TOK_LBRACKET''),
     (IRON_TOK_RBRACKET, ''IRON_TOK_RBRACKET''), (IRON_TOK_LBRACE, ''IRON_TOK_LBRACE''),
     (IRON_TOK_RBRACE, ''IRON_TOK_RBRACE''), (IRON_TOK_SEMICOLON, ''IRON_TOK_SEMICOLON''),
     (IRON_TOK_NEWLINE, ''IRON_TOK_NEWLINE''), (IRON_TOK_EOF, ''IRON_TOK_EOF''),
     (IRON_TOK_ERROR, ''IRON_TOK_ERROR''), (IRON_TOK_IDENTIFIER, ''IRON_TOK_IDENTIFIER''),
     (IRON_TOK_WILDCARD, ''IRON_TOK_WILDCARD''), (IRON_TOK_AT, ''IRON_TOK_AT''),
     (IRON_TOK_DOC_COMMENT, ''IRON_TOK_DOC_COMMENT'')]"

definition punct :: "(Iron_TokenKind \<times> string) list" where
  "punct = [
     (IRON_TOK_PLUS, ''+''), (IRON_TOK_MINUS, ''-''), (IRON_TOK_STAR, ''*''),
     (IRON_TOK_SLASH, ''/''), (IRON_TOK_PERCENT, ''%''), (IRON_TOK_ASSIGN, ''=''),
     (IRON_TOK_EQUALS, ''==''), (IRON_TOK_NOT_EQUALS, ''!=''), (IRON_TOK_LESS, ''<''),
     (IRON_TOK_GREATER, ''>''), (IRON_TOK_LESS_EQ, ''<=''), (IRON_TOK_GREATER_EQ, ''>=''),
     (IRON_TOK_DOT, ''.''), (IRON_TOK_DOTDOT, ''..''), (IRON_TOK_COMMA, '',''),
     (IRON_TOK_COLON, '':''), (IRON_TOK_ARROW, ''->''), (IRON_TOK_QUESTION, ''?''),
     (IRON_TOK_PLUS_ASSIGN, ''+=''), (IRON_TOK_MINUS_ASSIGN, ''-=''),
     (IRON_TOK_STAR_ASSIGN, ''*=''), (IRON_TOK_SLASH_ASSIGN, ''/=''), (IRON_TOK_SHL, ''<<''),
     (IRON_TOK_SHR, ''>>''), (IRON_TOK_AMP, ''&''), (IRON_TOK_PIPE, ''|''),
     (IRON_TOK_CARET, ''^''), (IRON_TOK_TILDE, ''~''), (IRON_TOK_SHL_ASSIGN, ''<<=''),
     (IRON_TOK_SHR_ASSIGN, ''>>=''), (IRON_TOK_AMP_ASSIGN, ''&=''),
     (IRON_TOK_PIPE_ASSIGN, ''|=''), (IRON_TOK_CARET_ASSIGN, ''^=''), (IRON_TOK_LPAREN, ''(''),
     (IRON_TOK_RPAREN, '')''), (IRON_TOK_LBRACKET, ''[''), (IRON_TOK_RBRACKET, '']''),
     (IRON_TOK_LBRACE, ''{''), (IRON_TOK_RBRACE, ''}''), (IRON_TOK_SEMICOLON, '';''),
     (IRON_TOK_AT, ''@''), (IRON_TOK_NEWLINE, [CHR 0x0A])]"

section \<open>Searching the keyword table\<close>

text \<open>\<^verbatim>\<open>strcmp\<close> compares bytes as unsigned characters; the code looks at the sign only.\<close>

fun c_strcmp :: "string \<Rightarrow> string \<Rightarrow> int" where
  "c_strcmp [] [] = 0"
| "c_strcmp [] (b # bs) = - 1"
| "c_strcmp (a # as) [] = 1"
| "c_strcmp (a # as) (b # bs) =
     (if a = b then c_strcmp as bs
      else if (of_char a :: nat) < of_char b then - 1 else 1)"

text \<open>\<^verbatim>\<open>bsearch\<close> of the C library over the indices \<open>lo..<hi\<close>: the index of an equal element, if any.\<close>

function bsearch :: "('k \<Rightarrow> 'e \<Rightarrow> int) \<Rightarrow> 'k \<Rightarrow> 'e list \<Rightarrow> nat \<Rightarrow> nat \<Rightarrow> nat option" where
  "bsearch cmp key tab lo hi =
     (if lo < hi then
        let mid = (lo + hi) div 2; c = cmp key (tab ! mid) in
        if c < 0 then bsearch cmp key tab lo mid
        else if c > 0 then bsearch cmp key tab (mid + 1) hi
        else Some mid
      else None)"
  by pat_completeness auto
termination
  by (relation "measure (\<lambda>(cmp, key, tab, lo, hi). hi - lo)") auto

declare bsearch.simps [simp del]

definition KW_TABLE_SIZE :: nat where
  "KW_TABLE_SIZE = length kw_table"

definition kw_compare :: "string \<Rightarrow> string \<times> Iron_TokenKind \<Rightarrow> int" where
  "kw_compare key entry = c_strcmp key (fst entry)"

definition keyword_lookup :: "string \<Rightarrow> Iron_TokenKind" where
  "keyword_lookup name = (case bsearch kw_compare name kw_table 0 KW_TABLE_SIZE of
     Some i \<Rightarrow> snd (kw_table ! i) | None \<Rightarrow> IRON_TOK_IDENTIFIER)"

text \<open>
  The names are indexed by kind. A kind outside of the enumeration, for which the C function
  answers ''IRON\_TOK\_UNKNOWN'', is not a value of the datatype.
\<close>

definition iron_token_kind_str :: "Iron_TokenKind \<Rightarrow> string" where
  "iron_token_kind_str kind = (case map_of kw_kind_names kind of
     Some s \<Rightarrow> s | None \<Rightarrow> ''IRON_TOK_UNKNOWN'')"

text \<open>The loops over a table return the first entry of a kind.\<close>

definition find_keyword :: "Iron_TokenKind \<Rightarrow> string option" where
  "find_keyword kind = map_option fst (List.find (\<lambda>e. snd e = kind) kw_table)"

definition iron_token_spelling :: "Iron_TokenKind \<Rightarrow> string" where
  "iron_token_spelling kind = (case find_keyword kind of
     Some s \<Rightarrow> s
   | None \<Rightarrow> (case map_of punct kind of
       Some s \<Rightarrow> s
     | None \<Rightarrow>
         if kind = IRON_TOK_INTEGER then ''integer literal''
         else if kind = IRON_TOK_FLOAT then ''float literal''
         else if kind = IRON_TOK_STRING \<or> kind = IRON_TOK_INTERP_STRING then ''string literal''
         else if kind = IRON_TOK_EOF then ''end of file''
         else if kind = IRON_TOK_ERROR then ''invalid token''
         else if kind = IRON_TOK_IDENTIFIER then ''identifier''
         else if kind = IRON_TOK_WILDCARD then ''_''
         else if kind = IRON_TOK_DOC_COMMENT then ''doc comment''
         else iron_token_kind_str kind))"

definition iron_token_is_keyword :: "Iron_TokenKind \<Rightarrow> bool" where
  "iron_token_is_keyword kind \<longleftrightarrow> find_keyword kind \<noteq> None"

section \<open>Binary search on a sorted table\<close>

text \<open>The contract of a table the library's \<^verbatim>\<open>bsearch\<close> may be called on.\<close>

locale sorted_table =
  fixes cmp :: "'k \<Rightarrow> 'e \<Rightarrow> int" and tab :: "'e list"
  assumes ordered: "i < j \<Longrightarrow> j < length tab \<Longrightarrow> 0 \<le> cmp key (tab ! j) \<Longrightarrow> 0 < cmp key (tab ! i)"
begin

lemma search_exact:
  assumes "hi \<le> length tab"
  shows "case bsearch cmp key tab lo hi of
      Some i \<Rightarrow> lo \<le> i \<and> i < hi \<and> cmp key (tab ! i) = 0
    | None \<Rightarrow> \<forall>i. lo \<le> i \<longrightarrow> i < hi \<longrightarrow> cmp key (tab ! i) \<noteq> 0"
  using assms
proof (induction "hi - lo" arbitrary: lo hi rule: less_induct)
  case less
  show ?case
  proof (cases "lo < hi")
    case False
    then show ?thesis by (simp add: bsearch.simps)
  next
    case True
    let ?mid = "(lo + hi) div 2"
    have mid: "lo \<le> ?mid" "?mid < hi" "?mid < length tab" using True less.prems by auto
    consider (lt) "cmp key (tab ! ?mid) < 0" | (gt) "0 < cmp key (tab ! ?mid)" | (eq) "cmp key (tab ! ?mid) = 0"
      by linarith
    then show ?thesis
    proof cases
      case lt
      have b: "bsearch cmp key tab lo hi = bsearch cmp key tab lo ?mid"
        using True lt by (subst bsearch.simps) (simp add: Let_def)
      have right: "cmp key (tab ! i) \<noteq> 0" if "?mid \<le> i" "i < hi" for i
        using ordered [of ?mid i key] that less.prems lt by (cases "?mid = i") auto
      have "case bsearch cmp key tab lo ?mid of Some i \<Rightarrow> lo \<le> i \<and> i < ?mid \<and> cmp key (tab ! i) = 0
          | None \<Rightarrow> \<forall>i. lo \<le> i \<longrightarrow> i < ?mid \<longrightarrow> cmp key (tab ! i) \<noteq> 0"
        using mid less.prems by (intro less.hyps) auto
      with right mid(2) show ?thesis by (auto simp: b not_less [symmetric] split: option.splits)
    next
      case gt
      have b: "bsearch cmp key tab lo hi = bsearch cmp key tab (?mid + 1) hi"
        using True gt by (subst bsearch.simps) (simp add: Let_def)
      have left: "cmp key (tab ! i) \<noteq> 0" if "i \<le> ?mid" for i
        using ordered [of i ?mid key] that mid(3) gt by (cases "?mid = i") auto
      have "case bsearch cmp key tab (?mid + 1) hi of Some i \<Rightarrow> ?mid + 1 \<le> i \<and> i < hi \<and> cmp key (tab ! i) = 0
          | None \<Rightarrow> \<forall>i. ?mid + 1 \<le> i \<longrightarrow> i < hi \<longrightarrow> cmp key (tab ! i) \<noteq> 0"
        using mid less.prems by (intro less.hyps) auto
      with left mid(1) show ?thesis by (auto simp: b not_less_eq_eq [symmetric] split: option.splits)
    next
      case eq
      with True mid show ?thesis by (subst bsearch.simps) (simp add: Let_def)
    qed
  qed
qed

end

section \<open>The keyword table is sorted\<close>

lemma strcmp_eq_0 [simp]: "c_strcmp a b = 0 \<longleftrightarrow> a = b"
  by (induction a b rule: c_strcmp.induct) auto

lemma strcmp_trans: "c_strcmp a b < 0 \<Longrightarrow> 0 \<le> c_strcmp k b \<Longrightarrow> 0 < c_strcmp k a"
proof (induction a b arbitrary: k rule: c_strcmp.induct)
  case (2 b bs)
  then show ?case by (cases k) auto
next
  case (4 a as b bs)
  then show ?case by (cases k) (auto split: if_splits)
qed auto

lemma kw_table_sorted: "successively (\<lambda>a b. c_strcmp (fst a) (fst b) < 0) kw_table"
  by (simp add: kw_table_def)

interpretation kw: sorted_table kw_compare kw_table
proof
  fix i j key
  assume ij: "i < j" "j < length kw_table" and "0 \<le> kw_compare key (kw_table ! j)"
  have "sorted_wrt (\<lambda>a b. c_strcmp (fst a) (fst b) < 0) kw_table"
  proof (rule iffD1 [OF successively_iff_sorted_wrt_strong kw_table_sorted])
    fix a b c :: "string \<times> Iron_TokenKind"
    assume "c_strcmp (fst a) (fst b) < 0" "c_strcmp (fst b) (fst c) < 0"
    then show "c_strcmp (fst a) (fst c) < 0"
      using strcmp_trans [of "fst b" "fst c" "fst a"] by linarith
  qed
  with ij have "c_strcmp (fst (kw_table ! i)) (fst (kw_table ! j)) < 0"
    by (simp add: sorted_wrt_iff_nth_less)
  from strcmp_trans [OF this, of key] \<open>0 \<le> kw_compare key (kw_table ! j)\<close>
  show "0 < kw_compare key (kw_table ! i)" by (simp add: kw_compare_def)
qed

lemma kw_table_distinct: "distinct (map fst kw_table)"
  by (simp add: kw_table_def)

lemma kw_kinds_distinct: "distinct (map snd kw_table)"
  by (simp add: kw_table_def)

lemma keyword_lookup_map:
  "keyword_lookup name = (case map_of kw_table name of Some k \<Rightarrow> k | None \<Rightarrow> IRON_TOK_IDENTIFIER)"
proof (cases "bsearch kw_compare name kw_table 0 KW_TABLE_SIZE")
  case None
  with kw.search_exact [of "length kw_table" 0 name]
  have "\<forall>i<length kw_table. fst (kw_table ! i) \<noteq> name"
    by (auto simp: KW_TABLE_SIZE_def kw_compare_def)
  then have "map_of kw_table name = None"
    by (fastforce simp: map_of_eq_None_iff in_set_conv_nth)
  with None show ?thesis by (simp add: keyword_lookup_def)
next
  case (Some i)
  with kw.search_exact [of "length kw_table" 0 name]
  have i: "i < length kw_table" "fst (kw_table ! i) = name"
    by (auto simp: KW_TABLE_SIZE_def kw_compare_def)
  then have "(name, snd (kw_table ! i)) \<in> set kw_table" by (metis nth_mem prod.collapse)
  with kw_table_distinct have "map_of kw_table name = Some (snd (kw_table ! i))" by simp
  with Some show ?thesis by (simp add: keyword_lookup_def)
qed

lemma find_keyword_table:
  assumes "(name, kind) \<in> set kw_table"
  shows "find_keyword kind = Some name"
proof -
  from assms obtain i where i: "i < length kw_table" "kw_table ! i = (name, kind)" by (auto simp: in_set_conv_nth)
  have "snd (kw_table ! j) \<noteq> kind" if "j < i" for j
    using kw_kinds_distinct that i nth_eq_iff_index_eq [of "map snd kw_table" j i] by simp
  then have "List.find (\<lambda>e. snd e = kind) kw_table = Some (name, kind)"
    using i by (auto simp: find_Some_iff intro!: exI [of _ i])
  then show ?thesis by (simp add: find_keyword_def)
qed

lemma find_keyword_member: "find_keyword kind = Some name \<Longrightarrow> (name, kind) \<in> set kw_table"
  by (auto simp: find_keyword_def find_Some_iff) (metis nth_mem snd_conv)

section \<open>Properties\<close>

text \<open>C8: the binary search over the keyword table answers as a search through the whole table: a
  reserved word gets its kind, every other name is an identifier.\<close>

theorem keyword_lookup_exact:
  "keyword_lookup name = (case map_of kw_table name of Some k \<Rightarrow> k | None \<Rightarrow> IRON_TOK_IDENTIFIER)"
  by (rule keyword_lookup_map)

text \<open>spelling and lookup of keywords are inverse to each other: the spelling of a reserved
  word's kind lexes back to that kind, a name that lexes to a keyword kind is that kind's spelling, and
  the kinds the table gives are exactly those the compiler treats as reserved words.\<close>

theorem keyword_spelling_roundtrip:
  "(iron_token_is_keyword kind \<longrightarrow> keyword_lookup (iron_token_spelling kind) = kind) \<and>
   (keyword_lookup name \<noteq> IRON_TOK_IDENTIFIER \<longrightarrow>
      iron_token_is_keyword (keyword_lookup name) \<and> iron_token_spelling (keyword_lookup name) = name)"
proof (intro conjI impI)
  assume "iron_token_is_keyword kind"
  then obtain s where s: "find_keyword kind = Some s" by (auto simp: iron_token_is_keyword_def)
  then have "map_of kw_table s = Some kind"
    using kw_table_distinct find_keyword_member by (simp add: map_of_eq_Some_iff)
  with s show "keyword_lookup (iron_token_spelling kind) = kind"
    by (simp add: keyword_lookup_map iron_token_spelling_def)
next
  assume "keyword_lookup name \<noteq> IRON_TOK_IDENTIFIER"
  then have "map_of kw_table name = Some (keyword_lookup name)"
    by (auto simp: keyword_lookup_map split: option.splits)
  then have "find_keyword (keyword_lookup name) = Some name"
    by (intro find_keyword_table) (rule map_of_SomeD)
  then show "iron_token_is_keyword (keyword_lookup name)" "iron_token_spelling (keyword_lookup name) = name"
    by (simp_all add: iron_token_is_keyword_def iron_token_spelling_def)
qed

theorem keyword_spelling_roundtrip_witness:
  "keyword_lookup (iron_token_spelling IRON_TOK_WHILE) = IRON_TOK_WHILE"
proof -
  have "find_keyword IRON_TOK_WHILE = Some ''while''" by (simp add: find_keyword_def kw_table_def)
  with keyword_spelling_roundtrip [of IRON_TOK_WHILE] show ?thesis by (simp add: iron_token_is_keyword_def)
qed

end
