(* ===== verification/File_Marker.thy ===== *)
theory File_Marker
  imports Prelude
begin

text \<open>
  File markers (src/diagnostics/diagnostics.c): comments of the form
  \<^verbatim>\<open>@file: name @line: n @lines: n @packed\<close> that give the tokens below them the name and
  the line numbers of the file they came from. The theory models the parser of a marker, the gate
  that decides which markers of a buffer are honored, the search the diagnostic printer makes through
  them and the writers of packed sources, and shows that user text cannot forge a marker.
\<close>

section \<open>Parsing a marker\<close>

record Iron_FileMarker =
  fm_name :: string
  fm_line_reset :: u32
  fm_has_lines :: bool
  fm_lines :: u32
  fm_packed :: bool

definition iron_comment_intro_len :: "string \<Rightarrow> nat" where
  "iron_comment_intro_len text =
     (if length text < 2 then 0
      else if text ! 0 = CHR ''-'' \<and> text ! 1 = CHR ''-'' then 2
      else if text ! 0 = CHR ''/'' \<and> text ! 1 = CHR ''/'' \<and> \<not> (length text > 2 \<and> text ! 2 = CHR ''/'') then 2
      else 0)"

function marker_skip_blanks :: "string \<Rightarrow> nat \<Rightarrow> nat" where
  "marker_skip_blanks s i =
     (if i < length s \<and> (s ! i = CHR '' '' \<or> s ! i = TAB) then marker_skip_blanks s (i + 1) else i)"
  by pat_completeness auto
termination
  by (relation "measure (\<lambda>(s, i). length s - i)") auto

declare marker_skip_blanks.simps [simp del]

text \<open>\<^verbatim>\<open>memcmp\<close> of the text at an index with a keyword.\<close>

definition text_at :: "string \<Rightarrow> nat \<Rightarrow> string \<Rightarrow> bool" where
  "text_at s i key \<longleftrightarrow> i + length key \<le> length s \<and> take (length key) (drop i s) = key"

text \<open>The digit loop of \<^verbatim>\<open>marker_number\<close>: the index after the digits, the number, whether there were any.\<close>

function marker_digits :: "string \<Rightarrow> nat \<Rightarrow> u32 \<Rightarrow> bool \<Rightarrow> nat \<times> u32 \<times> bool" where
  "marker_digits s j n any =
     (if j < length s \<and> isdigit (s ! j)
      then marker_digits s (j + 1)
             (if n < 100000000 then n * 10 + of_nat (code (s ! j) - 48) else n) True
      else (j, n, any))"
  by pat_completeness auto
termination
  by (relation "measure (\<lambda>(s, j, n, any). length s - j)") auto

declare marker_digits.simps [simp del]

definition marker_number :: "string \<Rightarrow> nat \<Rightarrow> string \<Rightarrow> (nat \<times> u32) option" where
  "marker_number s i key =
     (if \<not> text_at s i key then None
      else (case marker_digits s (marker_skip_blanks s (i + length key)) 0 False of
              (j, n, any) \<Rightarrow> if any then Some (j, n) else None))"

text \<open>The scans over a quoted and over a bare name: the index where the name ends.\<close>

function scan_until :: "(char \<Rightarrow> bool) \<Rightarrow> string \<Rightarrow> nat \<Rightarrow> nat" where
  "scan_until stop s i = (if i < length s \<and> \<not> stop (s ! i) then scan_until stop s (i + 1) else i)"
  by pat_completeness auto
termination
  by (relation "measure (\<lambda>(stop, s, i). length s - i)") auto

declare scan_until.simps [simp del]

definition quoted_end :: "char \<Rightarrow> bool" where
  "quoted_end c \<longleftrightarrow> c = QUOTE \<or> c = NL \<or> c = CR"

definition bare_end :: "char \<Rightarrow> bool" where
  "bare_end c \<longleftrightarrow> c = CHR '' '' \<or> c = TAB \<or> c = NL \<or> c = CR"

text \<open>The name of a marker: the name and the index after it; none for an unterminated quote or no name.\<close>

definition marker_name :: "string \<Rightarrow> nat \<Rightarrow> (string \<times> nat) option" where
  "marker_name text i =
     (if i < length text \<and> text ! i = QUOTE then
        let e = scan_until quoted_end text (i + 1); name = take (e - (i + 1)) (drop (i + 1) text) in
        if e < length text \<and> text ! e = QUOTE \<and> name \<noteq> [] then Some (name, e + 1) else None
      else
        let e = scan_until bare_end text i; name = take (e - i) (drop i text) in
        if name \<noteq> [] then Some (name, e) else None)"

text \<open>The attributes after the name, in their fixed order.\<close>

definition marker_attrs :: "string \<Rightarrow> string \<Rightarrow> nat \<Rightarrow> Iron_FileMarker" where
  "marker_attrs text name i0 =
     (let i1 = marker_skip_blanks text i0;
          (i2, reset) = (case marker_number text i1 ''@line:'' of
              Some (j, n) \<Rightarrow> (marker_skip_blanks text j, n) | None \<Rightarrow> (i1, 0));
          (i3, has, lines) = (case marker_number text i2 ''@lines:'' of
              Some (j, n) \<Rightarrow> (marker_skip_blanks text j, True, n) | None \<Rightarrow> (i2, False, 0));
          packed = (text_at text i3 ''@packed'' \<and>
            (i3 + 7 = length text \<or> text ! (i3 + 7) \<in> {CHR '' '', TAB, CR})) in
      \<lparr>fm_name = name, fm_line_reset = reset, fm_has_lines = has, fm_lines = lines, fm_packed = packed\<rparr>)"

definition iron_file_marker_parse :: "string \<Rightarrow> Iron_FileMarker option" where
  "iron_file_marker_parse text =
     (let i = marker_skip_blanks text 0 in
      if \<not> text_at text i ''@file:'' then None
      else (case marker_name text (marker_skip_blanks text (i + 6)) of
              None \<Rightarrow> None
            | Some (name, j) \<Rightarrow> Some (marker_attrs text name j)))"

section \<open>The gate\<close>

record Iron_FileMarkerGate =
  g_test_mode :: bool
  g_packed :: bool
  g_user_start :: u32
  g_trust_from :: u32

text \<open>The two process-wide flags of the module, set at startup.\<close>

record marker_flags =
  marker_test_mode :: bool
  marker_packed_source :: bool

definition iron_file_marker_gate :: "marker_flags \<Rightarrow> u32 \<Rightarrow> Iron_FileMarkerGate" where
  "iron_file_marker_gate fl user_start_line =
     (let start = (if user_start_line > 0 then user_start_line else 1) in
      \<lparr>g_test_mode = marker_test_mode fl, g_packed = marker_packed_source fl,
       g_user_start = start, g_trust_from = start\<rparr>)"

definition iron_file_marker_admit :: "Iron_FileMarkerGate \<Rightarrow> u32 \<Rightarrow> Iron_FileMarker \<Rightarrow> bool \<times> Iron_FileMarkerGate" where
  "iron_file_marker_admit gate phys m =
     (if g_test_mode gate then (True, gate)
      else if phys < g_user_start gate then
        (True, if fm_packed m then gate\<lparr>g_packed := True\<rparr> else gate)
      else if \<not> g_packed gate \<or> phys < g_trust_from gate then (False, gate)
      else if \<not> fm_has_lines m \<or> fm_lines m \<ge> 0xFFFFFFFF - phys - 1 then
        (True, gate\<lparr>g_trust_from := 0xFFFFFFFF\<rparr>)
      else (True, gate\<lparr>g_trust_from := phys + 1 + fm_lines m\<rparr>))"

definition honored_marker_on_line ::
    "Iron_FileMarkerGate \<Rightarrow> string \<Rightarrow> u32 \<Rightarrow> Iron_FileMarker option \<times> Iron_FileMarkerGate" where
  "honored_marker_on_line gate line phys =
     (let i = marker_skip_blanks line 0; intro = iron_comment_intro_len (drop i line) in
      if intro = 0 then (None, gate)
      else (case iron_file_marker_parse (drop (i + intro) line) of
              None \<Rightarrow> (None, gate)
            | Some m \<Rightarrow> (case iron_file_marker_admit gate phys m of
                (b, gate') \<Rightarrow> (if b then Some m else None, gate'))))"

section \<open>The search of the diagnostic printer\<close>

record replay =
  rp_gate :: Iron_FileMarkerGate
  rp_phys :: u32
  rp_logical :: u32
  rp_name :: "string option"
  rp_found :: u32
  rp_is_marker :: bool

text \<open>What one physical line does to the state of \<^verbatim>\<open>replay_file_markers\<close>.\<close>

definition replay_line :: "string option \<Rightarrow> u32 \<Rightarrow> u32 \<Rightarrow> string \<Rightarrow> replay \<Rightarrow> replay" where
  "replay_line filename logical query line r =
     (case honored_marker_on_line (rp_gate r) line (rp_phys r) of
        (Some m, gate) \<Rightarrow>
          r\<lparr>rp_gate := gate, rp_name := Some (fm_name m),
            rp_is_marker := (rp_is_marker r \<or> rp_phys r = query),
            rp_logical := (if fm_line_reset m > 0 then fm_line_reset m else rp_phys r + 1)\<rparr>
      | (None, gate) \<Rightarrow>
          let name_match = (filename = None \<or> rp_name r = None \<or> filename = rp_name r) in
          r\<lparr>rp_gate := gate,
            rp_found := (if rp_found r = 0 \<and> logical \<noteq> 0 \<and> name_match \<and> rp_logical r = logical
                         then rp_phys r else rp_found r),
            rp_logical := rp_logical r + 1\<rparr>)"

fun replay_lines :: "string option \<Rightarrow> u32 \<Rightarrow> u32 \<Rightarrow> string list \<Rightarrow> replay \<Rightarrow> replay" where
  "replay_lines filename logical query [] r = r"
| "replay_lines filename logical query (line # rest) r =
     (let r1 = replay_line filename logical query line r in
      if (rp_found r1 \<noteq> 0 \<or> logical = 0) \<and> (query = 0 \<or> rp_phys r1 \<ge> query) then r1
      else if rest = [] then r1
      else replay_lines filename logical query rest (r1\<lparr>rp_phys := rp_phys r1 + 1\<rparr>))"

text \<open>
  The lines the walk visits: the text split at its line breaks; after a final line break
  \<^verbatim>\<open>*p\<close> is the terminator and no further line is visited.
\<close>

function source_lines :: "string \<Rightarrow> string list" where
  "source_lines s =
     (if s = [] then []
      else let line = takeWhile (\<lambda>c. c \<noteq> NL) s in
        if line = s then [line] else line # source_lines (drop (Suc (length line)) s))"
  by pat_completeness auto
termination
  by (relation "measure length") auto

declare source_lines.simps [simp del]

definition replay_file_markers ::
    "marker_flags \<Rightarrow> u32 \<Rightarrow> string \<Rightarrow> string option \<Rightarrow> u32 \<Rightarrow> u32 \<Rightarrow> u32 \<times> bool" where
  "replay_file_markers fl user_start text filename logical query =
     (let r = replay_lines filename logical query (source_lines text)
        \<lparr>rp_gate = iron_file_marker_gate fl user_start, rp_phys = 1, rp_logical = 1, rp_name = None,
         rp_found = 0, rp_is_marker = False\<rparr> in
      (if rp_found r \<noteq> 0 then rp_found r else logical, rp_is_marker r))"

definition resolve_physical_line :: "marker_flags \<Rightarrow> u32 \<Rightarrow> string \<Rightarrow> string option \<Rightarrow> u32 \<Rightarrow> u32" where
  "resolve_physical_line fl user_start text filename logical =
     (if logical = 0 then logical
      else fst (replay_file_markers fl user_start text filename logical 0))"

definition physical_line_is_marker :: "marker_flags \<Rightarrow> u32 \<Rightarrow> string \<Rightarrow> u32 \<Rightarrow> bool" where
  "physical_line_is_marker fl user_start text lineno =
     snd (replay_file_markers fl user_start text None 0 lineno)"

section \<open>The names markers gave\<close>

text \<open>\<^verbatim>\<open>iron_source_marker_add\<close>: the array of names and its capacity; nothing is recorded without memory.\<close>

definition iron_source_marker_add :: "malloc_ok \<Rightarrow> string \<Rightarrow> string list \<times> nat \<Rightarrow> string list \<times> nat" where
  "iron_source_marker_add ok path s = (case s of (names, cap) \<Rightarrow>
     if List.member names path then (names, cap)
     else let grow = (length names = cap); cap' = (if cap = 0 then 16 else cap * 2) in
       if grow \<and> \<not> ok (8 * cap') then (names, cap)
       else if \<not> ok (length path + 1) then (names, if grow then cap' else cap)
       else (names @ [path], if grow then cap' else cap))"

definition iron_source_marker_get :: "string list \<times> nat \<Rightarrow> int \<Rightarrow> string option" where
  "iron_source_marker_get s i =
     (if i \<ge> 0 \<and> nat i < length (fst s) then Some (fst s ! nat i) else None)"

section \<open>Writing packed sources\<close>

definition IRON_FILE_MARKER_OPEN :: string where
  "IRON_FILE_MARKER_OPEN = ''// @file: '' @ [QUOTE]"

text \<open>The line break added after the file counts as one line.\<close>

definition count_lines :: "string \<Rightarrow> nat" where
  "count_lines text = 1 + length (filter (\<lambda>c. c = NL) text)"

text \<open>What \<^verbatim>\<open>append_marked_file\<close> writes for a file whose content was read.\<close>

definition append_marked_file :: "string \<Rightarrow> string \<Rightarrow> string \<Rightarrow> string" where
  "append_marked_file out rel_path content =
     (let text = takeWhile (\<lambda>c. c \<noteq> NUL) content in
      out @ IRON_FILE_MARKER_OPEN @ rel_path @ [QUOTE] @ '' @line: 1 @lines: '' @ dec (count_lines text) @ [NL]
          @ text @ [NL])"

definition iron_path_marker_safe :: "string \<Rightarrow> bool" where
  "iron_path_marker_safe path \<longleftrightarrow> path \<noteq> [] \<and> \<not> List.member path QUOTE \<and> \<not> List.member path NL \<and> \<not> List.member path CR"

definition prepend_user_line_marker :: "malloc_ok \<Rightarrow> string \<Rightarrow> string \<Rightarrow> bool \<Rightarrow> string \<times> nat" where
  "prepend_user_line_marker ok source source_path packed =
     (if \<not> iron_path_marker_safe source_path then (source, 0)
      else let marker = IRON_FILE_MARKER_OPEN @ source_path @ [QUOTE] @ '' @line: 1'' @
                 (if packed then '' @packed'' else []) @ [NL] in
        if \<not> ok (length marker + length source + 1) then (source, 0)
        else (marker @ source, 1))"

section \<open>Reading a text at an index\<close>

lemma drop_add: "drop i s = xs @ r \<Longrightarrow> drop (i + length xs) s = r"
  by (metis add.commute append_eq_conv_conj drop_drop)

lemma drop_Cons_nth: "drop i s = c # r \<Longrightarrow> i < length s \<and> s ! i = c"
  by (metis drop_eq_Nil2 hd_drop_conv_nth linorder_not_less list.distinct(1) list.sel(1))

lemma text_at_drop: "text_at s i key \<longleftrightarrow> (i \<le> length s \<and> (\<exists>r. drop i s = key @ r))"
proof
  assume "text_at s i key"
  then show "i \<le> length s \<and> (\<exists>r. drop i s = key @ r)"
    by (metis add_leE append_take_drop_id text_at_def)
next
  assume "i \<le> length s \<and> (\<exists>r. drop i s = key @ r)"
  then obtain r where r: "drop i s = key @ r" and i: "i \<le> length s" by blast
  have "length s - i = length key + length r" using arg_cong [OF r, of length] by simp
  with r i show "text_at s i key" by (simp add: text_at_def)
qed

lemma skip_blanks_take:
  "marker_skip_blanks s i = i + length (takeWhile (\<lambda>c. c = CHR '' '' \<or> c = TAB) (drop i s))"
proof (induction s i rule: marker_skip_blanks.induct)
  case (1 s i)
  show ?case
  proof (cases "i < length s")
    case True
    then have "drop i s = s ! i # drop (i + 1) s" by (simp add: Cons_nth_drop_Suc)
    with 1 True show ?thesis by (subst marker_skip_blanks.simps) auto
  qed (subst marker_skip_blanks.simps, simp)
qed

lemma scan_until_take: "scan_until stop s i = i + length (takeWhile (\<lambda>c. \<not> stop c) (drop i s))"
proof (induction stop s i rule: scan_until.induct)
  case (1 stop s i)
  show ?case
  proof (cases "i < length s")
    case True
    then have "drop i s = s ! i # drop (i + 1) s" by (simp add: Cons_nth_drop_Suc)
    with 1 True show ?thesis by (subst scan_until.simps) auto
  qed (subst scan_until.simps, simp)
qed

text \<open>Numbers of up to nine digits are read exactly.\<close>

lemma foldl_digits_ge: "a \<le> foldl (\<lambda>a c. a * 10 + (code c - 48)) (a::nat) ds"
proof (induction ds arbitrary: a)
  case (Cons d ds)
  have "a \<le> a * 10 + (code d - 48)" by simp
  also have "\<dots> \<le> foldl (\<lambda>a c. a * 10 + (code c - 48)) (a * 10 + (code d - 48)) ds" by (rule Cons.IH)
  finally show ?case by simp
qed simp

lemma marker_digits_read:
  "drop j s = ds @ r \<Longrightarrow> list_all isdigit ds \<Longrightarrow> (case r of [] \<Rightarrow> True | c # _ \<Rightarrow> \<not> isdigit c) \<Longrightarrow>
     foldl (\<lambda>a c. a * 10 + (code c - 48)) (unat n) ds < 10 ^ 9 \<Longrightarrow>
     marker_digits s j n any =
       (j + length ds, of_nat (foldl (\<lambda>a c. a * 10 + (code c - 48)) (unat n) ds), any \<or> ds \<noteq> [])"
proof (induction ds arbitrary: j n any)
  case Nil
  then have "\<not> (j < length s \<and> isdigit (s ! j))"
    by (cases r) (auto dest: drop_Cons_nth)
  then show ?case by (subst marker_digits.simps) auto
next
  case (Cons d ds)
  then have j: "j < length s" "s ! j = d" "drop (j + 1) s = ds @ r"
    using drop_add [of j s "[d]" "ds @ r"] by (auto dest: drop_Cons_nth)
  let ?m = "n * 10 + of_nat (code d - 48)"
  have d: "code d - 48 < 10" using Cons.prems(2) by (auto simp: isdigit_def)
  have nb: "unat n * 10 + (code d - 48) < 10 ^ 9"
    using foldl_digits_ge [of "unat n * 10 + (code d - 48)" ds] Cons.prems(4) by simp
  have m: "unat ?m = unat n * 10 + (code d - 48)"
    using nb d by (simp add: unat_word_ariths unsigned_of_nat take_bit_nat_eq_self)
  have guard: "n < 100000000" using nb by (simp add: word_less_nat_alt)
  have "marker_digits s j n any = marker_digits s (j + 1) ?m True"
    using j Cons.prems(2) guard by (subst marker_digits.simps) simp
  with Cons.IH [OF j(3) _ Cons.prems(3), of ?m True] Cons.prems(2,4) m show ?case by simp
qed

lemma marker_number_read:
  assumes "drop i s = key @ CHR '' '' # dec n @ r" and "n < 10 ^ 9"
    and "case r of [] \<Rightarrow> True | c # _ \<Rightarrow> \<not> isdigit c"
  shows "marker_number s i key = Some (i + length key + 1 + length (dec n), of_nat n)"
proof -
  have d0: "drop (i + length key) s = CHR '' '' # dec n @ r" using drop_add [OF assms(1)] by simp
  have d1: "drop (i + length key + 1) s = dec n @ r"
    using drop_add [of "i + length key" s "[CHR '' '']"] d0 by simp
  have at: "text_at s i key"
    unfolding text_at_drop using assms(1) by (metis append_is_Nil_conv drop_eq_Nil2 list.distinct(1) nat_le_linear)
  obtain c cs where c: "dec n = c # cs" by (cases "dec n") auto
  then have "isdigit c" using dec_digits [of n] by simp
  then have "c \<noteq> CHR '' ''" "c \<noteq> TAB" by (auto simp: isdigit_def code_def)
  then have skip: "marker_skip_blanks s (i + length key) = i + length key + 1"
    by (simp add: skip_blanks_take d0 c)
  show ?thesis
    using marker_digits_read [OF d1 dec_digits assms(3), of 0 False] assms(2) dec_value_dec [of n]
    by (simp add: marker_number_def at skip dec_value_def)
qed

lemma marker_number_none:
  assumes "drop i s = c # r" and "key = k # ks" and "c \<noteq> k"
  shows "marker_number s i key = None"
  using assms by (auto simp: marker_number_def text_at_drop)

text \<open>The text of a marker as the writers spell it.\<close>

definition marker_text :: "string \<Rightarrow> string \<Rightarrow> string" where
  "marker_text name attrs = '' @file: '' @ [QUOTE] @ name @ [QUOTE] @ attrs"

lemma marker_parse_written:
  assumes safe: "iron_path_marker_safe name"
  shows "iron_file_marker_parse (marker_text name attrs) =
    Some (marker_attrs (marker_text name attrs) name (10 + length name))"
proof -
  let ?t = "marker_text name attrs"
  have t: "?t = CHR '' '' # ''@file:'' @ CHR '' '' # QUOTE # name @ QUOTE # attrs"
    by (simp add: marker_text_def)
  have s0: "marker_skip_blanks ?t 0 = 1" by (simp add: skip_blanks_take t)
  have at: "text_at ?t 1 ''@file:''" by (simp add: text_at_def t)
  have s7: "marker_skip_blanks ?t 7 = 8" by (simp add: skip_blanks_take t)
  have q: "8 < length ?t" "?t ! 8 = QUOTE" by (simp_all add: t)
  have d9: "drop 9 ?t = name @ QUOTE # attrs" by (simp add: t)
  have "takeWhile (\<lambda>c. \<not> quoted_end c) (name @ QUOTE # attrs) = name"
  proof -
    have "\<forall>c\<in>set name. \<not> quoted_end c"
      using safe by (auto simp: iron_path_marker_safe_def quoted_end_def)
    then show ?thesis by (simp add: takeWhile_append2 quoted_end_def)
  qed
  then have e: "scan_until quoted_end ?t 9 = 9 + length name" by (simp add: scan_until_take d9)
  have dq: "drop (9 + length name) ?t = QUOTE # attrs" using drop_add [OF d9] .
  have "marker_name ?t 8 = Some (name, 10 + length name)"
    using q e drop_Cons_nth [OF dq] safe
    by (simp add: marker_name_def Let_def d9 iron_path_marker_safe_def)
  then show ?thesis by (simp add: iron_file_marker_parse_def Let_def s0 at [simplified] s7)
qed

lemma marker_written_drop: "drop (10 + length name) (marker_text name attrs) = attrs"
proof -
  have "length ('' @file: '' @ [QUOTE] @ name @ [QUOTE]) = 10 + length name" by simp
  with drop_add [of 0 "marker_text name attrs" "'' @file: '' @ [QUOTE] @ name @ [QUOTE]" attrs]
  show ?thesis by (simp only: marker_text_def append_assoc drop0 add_0) 
qed

lemma marker_skip_space: "drop i s = CHR '' '' # c # r \<Longrightarrow> c \<noteq> CHR '' '' \<Longrightarrow> c \<noteq> TAB \<Longrightarrow> marker_skip_blanks s i = i + 1"
  by (simp add: skip_blanks_take)

lemma dec_1: "dec (Suc 0) = ''1''"
  by code_simp

lemma marker_attrs_lines:
  assumes d: "drop i t = '' @line: 1 @lines: '' @ dec n" and n: "n < 10 ^ 9"
  shows "marker_attrs t name i =
    \<lparr>fm_name = name, fm_line_reset = 1, fm_has_lines = True, fm_lines = of_nat n, fm_packed = False\<rparr>"
proof -
  have s1: "marker_skip_blanks t i = i + 1" by (rule marker_skip_space) (use d in auto)
  have d1: "drop (i + 1) t = ''@line:'' @ CHR '' '' # dec 1 @ '' @lines: '' @ dec n"
    using drop_add [of i t "'' ''"] d by (simp add: dec_1)
  have m1: "marker_number t (i + 1) ''@line:'' = Some (i + 9, 1)"
    using marker_number_read [OF d1] by (simp add: dec_1 isdigit_def code_def)
  have d9: "drop (i + 9) t = '' @lines: '' @ dec n"
    using drop_add [of i t "'' @line: 1''" "'' @lines: '' @ dec n"] d by (simp add: eval_nat_numeral)
  have s9: "marker_skip_blanks t (i + 9) = i + 10" using marker_skip_space [of "i + 9" t] d9 by simp
  have d10: "drop (i + 10) t = ''@lines:'' @ CHR '' '' # dec n @ []"
    using drop_add [of "i + 9" t "'' ''"] d9 by (simp add: add.commute)
  have m2: "marker_number t (i + 10) ''@lines:'' = Some (i + 18 + length (dec n), of_nat n)"
    using marker_number_read [OF d10 n] by simp
  have e: "drop (i + 18 + length (dec n)) t = []"
    using drop_add [of i t "'' @line: 1 @lines: '' @ dec n" "[]"] d by (simp add: add.commute add.left_commute)
  then have "marker_skip_blanks t (i + 18 + length (dec n)) = i + 18 + length (dec n)"
    by (simp only: skip_blanks_take takeWhile.simps list.size)
  moreover have "\<not> text_at t (i + 18 + length (dec n)) ''@packed''" using e by (simp only: text_at_drop) simp
  ultimately show ?thesis
    by (simp add: marker_attrs_def Let_def s1 m1 [simplified] s9 m2)
qed

section \<open>Gates\<close>

text \<open>The line a packed source has above each of its files.\<close>

definition marker_line :: "string \<Rightarrow> nat \<Rightarrow> string" where
  "marker_line name n = IRON_FILE_MARKER_OPEN @ name @ [QUOTE] @ '' @line: 1 @lines: '' @ dec n"

lemma marker_line_honored:
  assumes safe: "iron_path_marker_safe name" and n: "n < 10 ^ 9"
  shows "honored_marker_on_line gate (marker_line name n) phys =
    (let m = \<lparr>fm_name = name, fm_line_reset = 1, fm_has_lines = True, fm_lines = of_nat n, fm_packed = False\<rparr>;
         (b, gate') = iron_file_marker_admit gate phys m in (if b then Some m else None, gate'))"
proof -
  let ?l = "marker_line name n" and ?t = "marker_text name ('' @line: 1 @lines: '' @ dec n)"
  have l: "?l = ''//'' @ ?t" by (simp add: marker_line_def IRON_FILE_MARKER_OPEN_def marker_text_def)
  have hd: "?t = CHR '' '' # tl ?t" by (simp add: marker_text_def)
  have "marker_skip_blanks ?l 0 = 0" by (simp add: skip_blanks_take l)
  moreover have "iron_comment_intro_len ?l = 2"
    unfolding l by (subst hd) (simp add: iron_comment_intro_len_def)
  moreover have "iron_file_marker_parse ?t =
      Some \<lparr>fm_name = name, fm_line_reset = 1, fm_has_lines = True, fm_lines = of_nat n, fm_packed = False\<rparr>"
    using marker_parse_written [OF safe] marker_attrs_lines [OF marker_written_drop n] by simp
  ultimately show ?thesis
    by (simp add: honored_marker_on_line_def Let_def l)
qed

lemma admit_user_text:
  assumes "\<not> g_test_mode gate" and "g_user_start gate \<le> phys" and "\<not> g_packed gate \<or> phys < g_trust_from gate"
  shows "iron_file_marker_admit gate phys m = (False, gate)"
  using assms by (auto simp: iron_file_marker_admit_def)

lemma honored_user_text:
  assumes "\<not> g_test_mode gate" and "g_user_start gate \<le> phys" and "\<not> g_packed gate \<or> phys < g_trust_from gate"
  shows "honored_marker_on_line gate line phys = (None, gate)"
  by (simp add: honored_marker_on_line_def Let_def admit_user_text [OF assms] split: option.split)

section \<open>Packed sources\<close>

text \<open>
  A packed source, as \<^verbatim>\<open>append_marked_file\<close> writes it file after file (tests.iron). The builder of combined.iron writes in addition a
  comment line before the vendored files and one before those of the project; these lines are left out here.
\<close>

definition packed_source :: "(string \<times> string) list \<Rightarrow> string" where
  "packed_source fs = foldl (\<lambda>out (name, content). append_marked_file out name content) [] fs"

text \<open>The lines the markers of a packed source are on, the first one on line \<open>p\<close>.\<close>

definition file_lines :: "string \<Rightarrow> nat" where
  "file_lines content = count_lines (takeWhile (\<lambda>c. c \<noteq> NUL) content)"

fun marker_starts :: "nat \<Rightarrow> (string \<times> string) list \<Rightarrow> nat set" where
  "marker_starts p [] = {}"
| "marker_starts p ((name, content) # fs) = insert p (marker_starts (p + 1 + file_lines content) fs)"

definition packed_lines :: "(string \<times> string) list \<Rightarrow> nat" where
  "packed_lines fs = sum_list (map (\<lambda>(name, content). 1 + file_lines content) fs)"

lemma source_lines_NL:
  assumes "NL \<notin> set l"
  shows "source_lines (l @ NL # rest) = l # source_lines rest"
proof -
  have "takeWhile (\<lambda>c. c \<noteq> NL) (l @ NL # rest) = l" using assms by (subst takeWhile_append2) auto
  then show ?thesis by (subst source_lines.simps) simp
qed

lemma source_lines_text:
  "\<exists>ls. source_lines (t @ NL # rest) = ls @ source_lines rest \<and> length ls = count_lines t"
proof (induction "length t" arbitrary: t rule: less_induct)
  case less
  show ?case
  proof (cases "NL \<in> set t")
    case False
    with source_lines_NL [OF False] have "filter (\<lambda>c. c = NL) t = []" by (auto simp: filter_empty_conv)
    with source_lines_NL [OF False, of rest] show ?thesis
      by (intro exI [of _ "[t]"]) (simp add: count_lines_def)
  next
    case True
    then obtain l u where t: "t = l @ NL # u" "NL \<notin> set l" by (metis split_list_first)
    from less [of u] t obtain ls where ls: "source_lines (u @ NL # rest) = ls @ source_lines rest"
      "length ls = count_lines u" by auto
    have "filter (\<lambda>c. c = NL) l = []" using t(2) by (auto simp: filter_empty_conv)
    with t ls source_lines_NL [OF t(2), of "u @ NL # rest"] show ?thesis
      by (intro exI [of _ "l # ls"]) (simp add: count_lines_def)
  qed
qed

text \<open>Which lines of a buffer are honored markers, scanning from a line with a gate.\<close>

fun scan_markers :: "Iron_FileMarkerGate \<Rightarrow> nat \<Rightarrow> string list \<Rightarrow> bool list" where
  "scan_markers gate p [] = []"
| "scan_markers gate p (l # ls) = (case honored_marker_on_line gate l (of_nat p) of
     (m, gate') \<Rightarrow> (m \<noteq> None) # scan_markers gate' (Suc p) ls)"

lemma scan_markers_length [simp]: "length (scan_markers gate p ls) = length ls"
  by (induction ls arbitrary: gate p) (auto split: prod.split)

lemma replay_is_marker:
  assumes "p \<le> q" and "q < 2 ^ 32" and "rp_phys r = of_nat p" and "\<not> rp_is_marker r" and "0 < p"
  shows "rp_is_marker (replay_lines None 0 (of_nat q) ls r) \<longleftrightarrow>
    q - p < length ls \<and> scan_markers (rp_gate r) p ls ! (q - p)"
  using assms
proof (induction ls arbitrary: p r)
  case (Cons l ls)
  let ?r1 = "replay_line None 0 (of_nat q) l r"
  obtain m g where h: "honored_marker_on_line (rp_gate r) l (of_nat p) = (m, g)" by force
  have inj: "(of_nat p :: u32) = of_nat q \<longleftrightarrow> p = q"
    using Cons.prems(1,2) by (auto simp: word_unat_eq_iff unat_of_nat_small)
  have ge: "(of_nat q :: u32) \<le> of_nat p \<longleftrightarrow> q = p" and nz: "(of_nat q :: u32) \<noteq> 0"
    using Cons.prems by (auto simp: word_le_nat_alt word_unat_eq_iff unat_of_nat_small)
  have r1: "rp_gate ?r1 = g" "rp_phys ?r1 = of_nat p" "rp_is_marker ?r1 \<longleftrightarrow> m \<noteq> None \<and> p = q"
    using h Cons.prems(3,4) inj by (auto simp: replay_line_def Let_def split: option.splits)
  show ?case
  proof (cases "p = q")
    case True
    with r1 ge nz h show ?thesis by (simp add: Let_def)
  next
    case False
    then have pq: "Suc p \<le> q" "q - p = Suc (q - Suc p)" using Cons.prems(1) by auto
    have step: "rp_is_marker (replay_lines None 0 (of_nat q) (l # ls) r) =
      (if ls = [] then False else rp_is_marker (replay_lines None 0 (of_nat q) ls (?r1\<lparr>rp_phys := rp_phys ?r1 + 1\<rparr>)))"
      using False r1 ge nz by (simp add: Let_def)
    show ?thesis
    proof (cases "ls = []")
      case True
      with step pq show ?thesis by simp
    next
      case ls: False
      have "rp_is_marker (replay_lines None 0 (of_nat q) ls (?r1\<lparr>rp_phys := rp_phys ?r1 + 1\<rparr>)) \<longleftrightarrow>
        q - Suc p < length ls \<and> scan_markers g (Suc p) ls ! (q - Suc p)"
        using Cons.IH [OF pq(1) Cons.prems(2), of "?r1\<lparr>rp_phys := rp_phys ?r1 + 1\<rparr>"] r1 False
        by (simp add: add.commute)
      with step ls pq(2) h show ?thesis by simp
    qed
  qed
qed simp

text \<open>Inside of a file of a packed source nothing is honored and the gate stays as it is.\<close>

lemma scan_markers_inside:
  assumes "\<not> g_test_mode gate" and "unat (g_user_start gate) \<le> p" and "p + length ls \<le> unat (g_trust_from gate)"
  shows "scan_markers gate p (ls @ rest) = replicate (length ls) False @ scan_markers gate (p + length ls) rest"
  using assms
proof (induction ls arbitrary: p)
  case (Cons l ls)
  have "unat (g_trust_from gate) < 2 ^ 32" by (rule order_less_le_trans [OF unsigned_less]) simp
  then have "unat (of_nat p :: u32) = p"
    using Cons.prems(3) by (intro unat_of_nat_small) simp
  then have "honored_marker_on_line gate l (of_nat p) = (None, gate)"
    using Cons.prems by (intro honored_user_text) (auto simp: word_le_nat_alt word_less_nat_alt)
  with Cons show ?case by simp
qed simp

lemma packed_append:
  "append_marked_file out name content =
     out @ marker_line name (file_lines content) @ NL # takeWhile (\<lambda>c. c \<noteq> NUL) content @ [NL]"
  by (simp add: append_marked_file_def marker_line_def file_lines_def Let_def)

lemma packed_foldl:
  "foldl (\<lambda>out (name, content). append_marked_file out name content) out fs = out @ packed_source fs"
proof (induction fs arbitrary: out rule: rev_induct)
  case (snoc f fs)
  obtain n c where f: "f = (n, c)" by (cases f)
  show ?case using snoc [of out] snoc [of "[]"] by (simp add: f packed_source_def packed_append)
qed (simp add: packed_source_def)

lemma packed_source_Cons:
  "packed_source ((name, content) # fs) =
     marker_line name (file_lines content) @ NL # takeWhile (\<lambda>c. c \<noteq> NUL) content @ NL # packed_source fs"
proof -
  have "packed_source ((name, content) # fs) =
      foldl (\<lambda>out (name, content). append_marked_file out name content) (append_marked_file [] name content) fs"
    by (simp add: packed_source_def)
  then show ?thesis by (simp only: packed_foldl) (simp add: packed_append)
qed

lemma packed_gate_step:
  assumes g: "\<not> g_test_mode gate" "g_packed gate" "unat (g_user_start gate) \<le> p" "unat (g_trust_from gate) = p"
    and n: "n < 10 ^ 9" "p + 1 + n < 2 ^ 32 - 1" and safe: "iron_path_marker_safe name"
  shows "\<exists>m. honored_marker_on_line gate (marker_line name n) (of_nat p) =
    (Some m, gate\<lparr>g_trust_from := of_nat (p + 1 + n)\<rparr>)"
proof -
  let ?m = "\<lparr>fm_name = name, fm_line_reset = 1, fm_has_lines = True, fm_lines = of_nat n, fm_packed = False\<rparr>"
  have u: "unat (of_nat p :: u32) = p" "unat (of_nat n :: u32) = n" using n by (auto intro!: unat_of_nat_small)
  have e: "(0xFFFFFFFF - of_nat p - 1 :: u32) = of_nat (2 ^ 32 - 1 - p - 1)"
    using n(2) by (simp add: of_nat_diff)
  have "\<not> (of_nat n :: u32) \<ge> 0xFFFFFFFF - of_nat p - 1"
    unfolding e word_le_nat_alt u(2) using n(2) by (subst unat_of_nat_small) auto
  moreover have "\<not> (of_nat p < g_user_start gate)" "\<not> (of_nat p < g_trust_from gate)"
    using g u(1) by (simp_all add: word_less_nat_alt)
  ultimately have "iron_file_marker_admit gate (of_nat p) ?m = (True, gate\<lparr>g_trust_from := of_nat p + 1 + of_nat n\<rparr>)"
    using g by (simp add: iron_file_marker_admit_def)
  then show ?thesis by (simp add: marker_line_honored [OF safe n(1)] Let_def)
qed

lemma scan_packed:
  assumes g: "\<not> g_test_mode gate" "g_packed gate" "unat (g_user_start gate) \<le> p" "unat (g_trust_from gate) = p"
    and fs: "\<forall>(name, content)\<in>set fs. iron_path_marker_safe name \<and> file_lines content < 10 ^ 9"
    and "p + packed_lines fs < 2 ^ 32 - 1"
  shows "length (source_lines (packed_source fs)) = packed_lines fs \<and>
    (\<forall>k < packed_lines fs. scan_markers gate p (source_lines (packed_source fs)) ! k \<longleftrightarrow> p + k \<in> marker_starts p fs)"
  using assms
proof (induction fs arbitrary: gate p)
  case Nil
  have "source_lines [] = []" by (subst source_lines.simps) simp
  then show ?case by (simp add: packed_lines_def packed_source_def)
next
  case (Cons f fs)
  obtain name content where f: "f = (name, content)" by (cases f)
  let ?n = "file_lines content" and ?t = "takeWhile (\<lambda>c. c \<noteq> NUL) content"
  have safe: "iron_path_marker_safe name" "?n < 10 ^ 9" using Cons.prems(5) by (auto simp: f)
  have tot: "packed_lines (f # fs) = 1 + ?n + packed_lines fs" by (simp add: packed_lines_def f)
  have nNL: "NL \<notin> set (marker_line name ?n)"
    using safe(1) dec_digits [of ?n]
    by (auto simp: marker_line_def IRON_FILE_MARKER_OPEN_def iron_path_marker_safe_def list_all_iff isdigit_def code_def)
  obtain ls where ls: "source_lines (?t @ NL # packed_source fs) = ls @ source_lines (packed_source fs)"
    "length ls = ?n"
    using source_lines_text [of ?t "packed_source fs"] by (auto simp: file_lines_def)
  have src: "source_lines (packed_source (f # fs)) = marker_line name ?n # ls @ source_lines (packed_source fs)"
    using source_lines_NL [OF nNL] ls(1) by (simp add: f packed_source_Cons)
  obtain m where m: "honored_marker_on_line gate (marker_line name ?n) (of_nat p) =
      (Some m, gate\<lparr>g_trust_from := of_nat (p + 1 + ?n)\<rparr>)" (is "_ = (_, ?g)")
    using packed_gate_step [OF Cons.prems(1-4) safe(2) _ safe(1)] Cons.prems(6) tot by auto
  have tr: "unat (g_trust_from ?g) = Suc p + ?n"
    using Cons.prems(6) tot by (simp add: unat_of_nat_small del: of_nat_add of_nat_Suc)
  have inside: "scan_markers ?g (Suc p) (ls @ source_lines (packed_source fs)) =
      replicate ?n False @ scan_markers ?g (Suc p + ?n) (source_lines (packed_source fs))"
    using scan_markers_inside [of ?g "Suc p" ls] Cons.prems(1,3) tr ls(2) by simp
  have IH: "length (source_lines (packed_source fs)) = packed_lines fs \<and>
    (\<forall>k < packed_lines fs. scan_markers ?g (Suc p + ?n) (source_lines (packed_source fs)) ! k \<longleftrightarrow>
       Suc p + ?n + k \<in> marker_starts (Suc p + ?n) fs)"
    using Cons.prems tr tot by (intro Cons.IH) auto
  have low: "x \<notin> marker_starts q fs'" if "x < q" for x q fs'
    using that by (induction q fs' rule: marker_starts.induct) auto
  have "scan_markers gate p (source_lines (packed_source (f # fs))) ! k \<longleftrightarrow> p + k \<in> marker_starts p (f # fs)"
    if k: "k < packed_lines (f # fs)" for k
  proof (cases k)
    case 0
    then show ?thesis by (simp only: src) (simp add: m f)
  next
    case (Suc j)
    have e: "scan_markers gate p (source_lines (packed_source (f # fs))) ! k =
        (replicate ?n False @ scan_markers ?g (Suc p + ?n) (source_lines (packed_source fs))) ! j"
      by (simp only: src Suc scan_markers.simps m prod.case nth_Cons_Suc inside)
    show ?thesis
    proof (cases "j < ?n")
      case True
      with e low [of "p + k" "p + 1 + ?n" fs] Suc show ?thesis by (simp add: f nth_append)
    next
      case False
      then have "p + k = Suc p + ?n + (j - ?n)" "j - ?n < packed_lines fs" using Suc k tot by auto
      with e IH False Suc show ?thesis by (simp add: f nth_append)
    qed
  qed
  with src ls(2) IH tot show ?case by simp
qed

section \<open>Properties\<close>

text \<open>C9: in a packed source, whatever the packed files contain, the lines the compiler takes for
  file markers are exactly the lines the packer wrote above each file: text inside of a file that looks
  like a marker stays a comment, and no marker of the packer is missed. File names hold no quote and no
  line break, and the line counts stay below one thousand million lines per file and the 32-bit range.\<close>

theorem packed_markers_exact:
  assumes "\<not> marker_test_mode fl" and "marker_packed_source fl"
    and "\<forall>(name, content)\<in>set fs. iron_path_marker_safe name \<and> file_lines content < 10 ^ 9"
    and "1 + packed_lines fs < 2 ^ 32 - 1" and "1 \<le> k" and "k \<le> packed_lines fs"
  shows "physical_line_is_marker fl 1 (packed_source fs) (of_nat k) \<longleftrightarrow> k \<in> marker_starts 1 fs"
proof -
  let ?g = "iron_file_marker_gate fl 1"
  have g: "\<not> g_test_mode ?g" "g_packed ?g" "unat (g_user_start ?g) \<le> 1" "unat (g_trust_from ?g) = 1"
    using assms(1,2) by (simp_all add: iron_file_marker_gate_def)
  have s: "length (source_lines (packed_source fs)) = packed_lines fs"
    "scan_markers ?g 1 (source_lines (packed_source fs)) ! (k - 1) \<longleftrightarrow> 1 + (k - 1) \<in> marker_starts 1 fs"
    using scan_packed [OF g assms(3,4)] assms(5,6) by auto
  let ?r = "\<lparr>rp_gate = ?g, rp_phys = 1, rp_logical = 1, rp_name = None, rp_found = 0, rp_is_marker = False\<rparr>"
  have "rp_is_marker (replay_lines None 0 (of_nat k) (source_lines (packed_source fs)) ?r) \<longleftrightarrow>
      k - 1 < packed_lines fs \<and> scan_markers ?g 1 (source_lines (packed_source fs)) ! (k - 1)"
    using replay_is_marker [of 1 k ?r "source_lines (packed_source fs)"] s(1) assms(4-6) by simp
  with s(2) assms(5,6) show ?thesis
    by (auto simp: physical_line_is_marker_def replay_file_markers_def Let_def)
qed

theorem packed_markers_exact_witness:
  "\<not> physical_line_is_marker \<lparr>marker_test_mode = False, marker_packed_source = True\<rparr> 1
     (packed_source [(''a'', ''// @file: b''), (''c'', [])]) 2"
proof -
  have "file_lines ''// @file: b'' = 1" "file_lines [] = 1" by code_simp+
  moreover have "iron_path_marker_safe ''a''" "iron_path_marker_safe ''c''" by code_simp+
  ultimately show ?thesis
    using packed_markers_exact [of "\<lparr>marker_test_mode = False, marker_packed_source = True\<rparr>"
        "[(''a'', ''// @file: b''), (''c'', [])]" 2]
    by (simp add: packed_lines_def)
qed

end
