(* ===== verification/Diag.thy ===== *)
theory Diag
  imports Prelude
begin

text \<open>
  The diagnostic list (src/diagnostics/diagnostics.c): spans, diagnostics with level, code, span and
  message, and the emission that drops a repetition. Labels, notes and suggestions are carried along by
  the C code without being looked at and are left out.
\<close>

record Iron_Span =
  sp_filename :: "string option"
  sp_line :: u32
  sp_col :: u32
  sp_end_line :: u32
  sp_end_col :: u32

definition iron_span_make :: "string option \<Rightarrow> u32 \<Rightarrow> u32 \<Rightarrow> u32 \<Rightarrow> u32 \<Rightarrow> Iron_Span" where
  "iron_span_make filename line col end_line end_col =
     \<lparr>sp_filename = filename, sp_line = line, sp_col = col, sp_end_line = end_line, sp_end_col = end_col\<rparr>"

definition iron_span_merge :: "Iron_Span \<Rightarrow> Iron_Span \<Rightarrow> Iron_Span" where
  "iron_span_merge a b = \<lparr>sp_filename = sp_filename a, sp_line = sp_line a, sp_col = sp_col a,
     sp_end_line = sp_end_line b, sp_end_col = sp_end_col b\<rparr>"

datatype Iron_DiagLevel = IRON_DIAG_ERROR | IRON_DIAG_WARNING | IRON_DIAG_NOTE

record Iron_Diagnostic =
  dg_level :: Iron_DiagLevel
  dg_code :: nat
  dg_span :: Iron_Span
  dg_message :: "string option"

text \<open>\<open>dl_items\<close> has the last diagnostic at its head; \<^verbatim>\<open>count\<close> is its length.\<close>

record Iron_DiagList =
  dl_items :: "Iron_Diagnostic list"
  dl_error_count :: nat
  dl_warning_count :: nat

definition iron_diaglist_create :: Iron_DiagList where
  "iron_diaglist_create = \<lparr>dl_items = [], dl_error_count = 0, dl_warning_count = 0\<rparr>"

text \<open>Two missing file names are the same pointer; a missing message equals none.\<close>

definition diag_same :: "Iron_DiagLevel \<Rightarrow> nat \<Rightarrow> Iron_Span \<Rightarrow> string \<Rightarrow> Iron_Diagnostic \<Rightarrow> bool" where
  "diag_same level cd span message d \<longleftrightarrow>
     dg_code d = cd \<and> dg_level d = level \<and> dg_span d = span \<and> dg_message d = Some message"

definition iron_diag_emit ::
    "malloc_ok \<Rightarrow> Iron_DiagLevel \<Rightarrow> nat \<Rightarrow> Iron_Span \<Rightarrow> string \<Rightarrow> Iron_DiagList \<Rightarrow> Iron_DiagList" where
  "iron_diag_emit al level cd span message list =
     (if list_ex (diag_same level cd span message) (take 1024 (dl_items list)) then list
      else let d = \<lparr>dg_level = level, dg_code = cd, dg_span = span,
                    dg_message = (if al (length message + 1) then Some message else None)\<rparr> in
        list\<lparr>dl_items := d # dl_items list,
             dl_error_count := dl_error_count list + (if level = IRON_DIAG_ERROR then 1 else 0),
             dl_warning_count := dl_warning_count list + (if level = IRON_DIAG_WARNING then 1 else 0)\<rparr>)"

text \<open>The counters agree with the entries.\<close>

definition diag_inv :: "Iron_DiagList \<Rightarrow> bool" where
  "diag_inv list \<longleftrightarrow>
     dl_error_count list = length (filter (\<lambda>d. dg_level d = IRON_DIAG_ERROR) (dl_items list)) \<and>
     dl_warning_count list = length (filter (\<lambda>d. dg_level d = IRON_DIAG_WARNING) (dl_items list))"

lemma diag_create_inv: "diag_inv iron_diaglist_create"
  by (simp add: diag_inv_def iron_diaglist_create_def)

lemma diag_emit_inv: "diag_inv list \<Longrightarrow> diag_inv (iron_diag_emit al level cd span message list)"
  by (simp add: diag_inv_def iron_diag_emit_def Let_def)

text \<open>Emission only adds: at most one entry, and the emitted diagnostic is in the list afterwards.\<close>

lemma diag_emit_items:
  "\<exists>new. dl_items (iron_diag_emit al level cd span message list) = new @ dl_items list \<and> length new \<le> 1"
  by (auto simp: iron_diag_emit_def Let_def)

lemma diag_emit_present:
  "\<exists>d \<in> set (dl_items (iron_diag_emit al level cd span message list)).
     dg_level d = level \<and> dg_code d = cd \<and> dg_span d = span"
  by (auto simp: iron_diag_emit_def Let_def list_ex_iff diag_same_def dest: in_set_takeD)

end
