(* ===== verification/Lexer_Base.thy ===== *)
theory Lexer_Base
  imports Token File_Marker Diag
begin

text \<open>
  The state of the lexer and its low-level helpers (src/lexer/lexer.c, src/lexer/lexer.h): tokens,
  the cursor over the source, whitespace, and the comment forms. Allocation from the arena is a
  parameter: whether a request of so many bytes is granted.
\<close>

section \<open>Tokens and the lexer\<close>

record Iron_Token =
  tok_kind :: Iron_TokenKind
  tok_value :: "string option"
  tok_line :: u32
  tok_col :: u32
  tok_len :: u32
  tok_value_len :: u32
  tok_filename :: "string option"
  tok_from_stdlib_prepend :: bool
  tok_comment :: u8
  tok_offset :: u32

definition IRON_COMMENT_PRESENT :: u8 where "IRON_COMMENT_PRESENT = 1"
definition IRON_COMMENT_OWN_LINE :: u8 where "IRON_COMMENT_OWN_LINE = 2"
definition IRON_COMMENT_DIRECTIVE :: u8 where "IRON_COMMENT_DIRECTIVE = 4"
definition IRON_COMMENT_MARKER :: u8 where "IRON_COMMENT_MARKER = 8"
definition IRON_COMMENT_DASH :: u8 where "IRON_COMMENT_DASH = 16"
definition IRON_COMMENT_TRIPLE :: u8 where "IRON_COMMENT_TRIPLE = 32"

definition IRON_ERR_UNTERMINATED_STRING :: nat where "IRON_ERR_UNTERMINATED_STRING = 1"
definition IRON_ERR_INVALID_CHAR :: nat where "IRON_ERR_INVALID_CHAR = 2"
definition IRON_ERR_INVALID_NUMBER :: nat where "IRON_ERR_INVALID_NUMBER = 3"
definition IRON_ERR_LEXER_OOM :: nat where "IRON_ERR_LEXER_OOM = 4"
definition IRON_ERR_STRING_TOO_LONG :: nat where "IRON_ERR_STRING_TOO_LONG = 5"
definition IRON_ERR_CANCELLED :: nat where "IRON_ERR_CANCELLED = 290"
definition IRON_WARN_DOC_COMMENT_TRUNCATED :: nat where "IRON_WARN_DOC_COMMENT_TRUNCATED = 610"

definition IRON_LEX_LITERAL_LBRACE :: char where "IRON_LEX_LITERAL_LBRACE = CHR 0x01"
definition IRON_LEX_LITERAL_RBRACE :: char where "IRON_LEX_LITERAL_RBRACE = CHR 0x02"
definition IRON_LEX_LITERAL_ESC :: char where "IRON_LEX_LITERAL_ESC = CHR 0xFF"

text \<open>
  \<open>lx_src\<close> is the text up to its terminating zero byte, so \<^verbatim>\<open>src_len\<close> is its
  length. \<open>lx_sources\<close> is the array of names the file markers gave (hir/stdlib\_origin.c).
\<close>

record Iron_Lexer =
  lx_src :: string
  lx_pos :: nat
  lx_line :: u32
  lx_col :: u32
  lx_filename :: "string option"
  lx_diags :: Iron_DiagList
  lx_phys_line :: u32
  lx_entry_filename :: "string option"
  lx_in_stdlib_prepend :: bool
  lx_file_markers :: Iron_FileMarkerGate
  lx_sources :: "string list \<times> nat"

definition iron_lexer_create :: "marker_flags \<Rightarrow> string \<Rightarrow> string option \<Rightarrow> Iron_DiagList \<Rightarrow> string list \<times> nat \<Rightarrow> Iron_Lexer" where
  "iron_lexer_create fl src filename diags sources =
     \<lparr>lx_src = takeWhile (\<lambda>c. c \<noteq> NUL) src, lx_pos = 0, lx_line = 1, lx_col = 1, lx_filename = filename,
      lx_diags = diags, lx_phys_line = 1, lx_entry_filename = filename, lx_in_stdlib_prepend = False,
      lx_file_markers = (iron_file_marker_gate fl 1)\<lparr>g_packed := False\<rparr>, lx_sources = sources\<rparr>"

definition iron_lexer_set_user_start_line :: "marker_flags \<Rightarrow> u32 \<Rightarrow> Iron_Lexer \<Rightarrow> Iron_Lexer" where
  "iron_lexer_set_user_start_line fl line l = l\<lparr>lx_file_markers := iron_file_marker_gate fl line\<rparr>"

definition iron_lexer_set_origin :: "u32 \<Rightarrow> u32 \<Rightarrow> Iron_Lexer \<Rightarrow> Iron_Lexer" where
  "iron_lexer_set_origin line col l =
     (let l1 = (if line > 0 then l\<lparr>lx_line := line, lx_phys_line := line\<rparr> else l) in
      if col > 0 then l1\<lparr>lx_col := col\<rparr> else l1)"

section \<open>Low-level helpers\<close>

definition iron_peek_char :: "Iron_Lexer \<Rightarrow> char" where
  "iron_peek_char l = (if lx_pos l \<ge> length (lx_src l) then NUL else lx_src l ! lx_pos l)"

definition iron_peek_next :: "Iron_Lexer \<Rightarrow> char" where
  "iron_peek_next l = (if lx_pos l + 1 \<ge> length (lx_src l) then NUL else lx_src l ! (lx_pos l + 1))"

text \<open>
  \<^verbatim>\<open>iron_advance_char\<close>: the character it returns is \<open>iron_peek_char l\<close>; this is the
  lexer afterwards.
\<close>

definition iron_advance_char :: "Iron_Lexer \<Rightarrow> Iron_Lexer" where
  "iron_advance_char l =
     (if lx_pos l \<ge> length (lx_src l) then l
      else l\<lparr>lx_pos := lx_pos l + 1, lx_col := lx_col l + 1\<rparr>)"

text \<open>The loops that advance while the next character satisfies a test.\<close>

function adv_while :: "(char \<Rightarrow> bool) \<Rightarrow> Iron_Lexer \<Rightarrow> Iron_Lexer" where
  "adv_while P l =
     (if lx_pos l < length (lx_src l) \<and> P (lx_src l ! lx_pos l) then adv_while P (iron_advance_char l) else l)"
  by pat_completeness auto
termination
  by (relation "measure (\<lambda>(P, l). length (lx_src l) - lx_pos l)") (auto simp: iron_advance_char_def)

declare adv_while.simps [simp del]

definition is_blank :: "char \<Rightarrow> bool" where
  "is_blank c \<longleftrightarrow> c = CHR '' '' \<or> c = TAB \<or> c = CR"

text \<open>A UTF-8 byte-order mark at an index.\<close>

definition bom_at :: "string \<Rightarrow> nat \<Rightarrow> bool" where
  "bom_at s i \<longleftrightarrow> i + 2 < length s \<and> s ! i = CHR 0xEF \<and> s ! (i + 1) = CHR 0xBB \<and> s ! (i + 2) = CHR 0xBF"

function iron_skip_whitespace :: "Iron_Lexer \<Rightarrow> Iron_Lexer" where
  "iron_skip_whitespace l =
     (if lx_pos l < length (lx_src l) then
        if is_blank (lx_src l ! lx_pos l)
        then iron_skip_whitespace (l\<lparr>lx_pos := lx_pos l + 1, lx_col := lx_col l + 1\<rparr>)
        else if bom_at (lx_src l) (lx_pos l)
        then iron_skip_whitespace (l\<lparr>lx_pos := lx_pos l + 3, lx_col := lx_col l + 3\<rparr>)
        else l
      else l)"
  by pat_completeness auto
termination
  by (relation "measure (\<lambda>l. length (lx_src l) - lx_pos l)") auto

declare iron_skip_whitespace.simps [simp del]

definition iron_make_token :: "Iron_Lexer \<Rightarrow> Iron_TokenKind \<Rightarrow> string option \<Rightarrow> u32 \<Rightarrow> u32 \<Rightarrow> u32 \<Rightarrow> Iron_Token" where
  "iron_make_token l kind value start_line start_col len =
     \<lparr>tok_kind = kind, tok_value = value, tok_line = start_line, tok_col = start_col, tok_len = len,
      tok_value_len = 0, tok_filename = lx_filename l, tok_from_stdlib_prepend = lx_in_stdlib_prepend l,
      tok_comment = 0, tok_offset = of_nat (lx_pos l)\<rparr>"

text \<open>\<^verbatim>\<open>iron_arena_strdup\<close>: a copy of the bytes and a terminator.\<close>

definition arena_strdup :: "malloc_ok \<Rightarrow> string \<Rightarrow> string option" where
  "arena_strdup al s = (if al (length s + 1) then Some s else None)"

definition lex_diag :: "malloc_ok \<Rightarrow> Iron_DiagLevel \<Rightarrow> nat \<Rightarrow> string \<Rightarrow> u32 \<Rightarrow> u32 \<Rightarrow> u32 \<Rightarrow> u32 \<Rightarrow> Iron_Lexer \<Rightarrow> Iron_Lexer" where
  "lex_diag al level cd msg l1 c1 l2 c2 l =
     l\<lparr>lx_diags := iron_diag_emit al level cd (iron_span_make (lx_filename l) l1 c1 l2 c2) msg (lx_diags l)\<rparr>"

text \<open>
  The error exit of the literal lexers: a diagnostic from the start of the literal to the cursor,
  and an error token that covers what was read.
\<close>

definition lex_error :: "malloc_ok \<Rightarrow> nat \<Rightarrow> string \<Rightarrow> u32 \<Rightarrow> u32 \<Rightarrow> nat \<Rightarrow> Iron_Lexer \<Rightarrow> Iron_Token \<times> Iron_Lexer" where
  "lex_error al cd msg start_line start_col start_pos l =
     (let l1 = lex_diag al IRON_DIAG_ERROR cd msg start_line start_col (lx_line l) (lx_col l) l in
      (iron_make_token l1 IRON_TOK_ERROR None start_line start_col (of_nat (lx_pos l1 - start_pos)), l1))"

text \<open>The four updates at a line break.\<close>

definition lex_newline :: "Iron_Lexer \<Rightarrow> Iron_Lexer" where
  "lex_newline l = l\<lparr>lx_pos := lx_pos l + 1, lx_line := lx_line l + 1, lx_phys_line := lx_phys_line l + 1, lx_col := 1\<rparr>"

section \<open>Comments\<close>

definition iron_lex_comment_marker :: "malloc_ok \<Rightarrow> nat \<Rightarrow> Iron_Lexer \<Rightarrow> bool \<times> Iron_Lexer" where
  "iron_lex_comment_marker al text_start l =
     (if text_start > length (lx_src l) then (False, l)
      else (case iron_file_marker_parse (takeWhile (\<lambda>c. c \<noteq> NL) (drop text_start (lx_src l))) of
        None \<Rightarrow> (False, l)
      | Some m \<Rightarrow>
        (case iron_file_marker_admit (lx_file_markers l) (lx_phys_line l) m of
           (b, gate) \<Rightarrow>
             let l1 = l\<lparr>lx_file_markers := gate\<rparr> in
             if \<not> b then (False, l1)
             else (case arena_strdup al (fm_name m) of
                None \<Rightarrow> (False, l1)
              | Some name \<Rightarrow>
                  let l2 = l1\<lparr>lx_filename := Some name, lx_sources := iron_source_marker_add al name (lx_sources l1)\<rparr> in
                  if fm_line_reset m > 0
                  then (True, l2\<lparr>lx_line := fm_line_reset m - 1,
                                 lx_in_stdlib_prepend := (lx_entry_filename l2 \<noteq> Some name)\<rparr>)
                  else (True, l2\<lparr>lx_line := lx_phys_line l2, lx_in_stdlib_prepend := False\<rparr>)))))"

fun iron_comment_is_own_line :: "string \<Rightarrow> nat \<Rightarrow> bool" where
  "iron_comment_is_own_line s i =
     (if i = 0 then True
      else let c = s ! (i - 1) in
        if c = NL then True
        else if is_blank c then iron_comment_is_own_line s (i - 1)
        else if c = CHR 0xBF \<and> i \<ge> 3 \<and> s ! (i - 2) = CHR 0xBB \<and> s ! (i - 3) = CHR 0xEF
        then iron_comment_is_own_line s (i - 3)
        else False)"

declare iron_comment_is_own_line.simps [simp del]

definition is_lower :: "char \<Rightarrow> bool" where
  "is_lower c \<longleftrightarrow> 97 \<le> code c \<and> code c \<le> 122"

definition iron_comment_is_directive :: "string \<Rightarrow> bool" where
  "iron_comment_is_directive text =
     (case text of
        [] \<Rightarrow> False
      | c # cs \<Rightarrow> is_lower c \<and>
          (case dropWhile (\<lambda>d. is_lower d \<or> isdigit d \<or> d = CHR ''_'') cs of [] \<Rightarrow> False | d # _ \<Rightarrow> d = CHR '':''))"

text \<open>Trailing blanks are not part of a comment's text.\<close>

definition rtrim :: "string \<Rightarrow> string" where
  "rtrim s = rev (dropWhile is_blank (rev s))"

text \<open>A text of more than 8192 bytes is cut, with a note.\<close>

definition truncation_note :: "malloc_ok \<Rightarrow> string \<Rightarrow> u32 \<Rightarrow> u32 \<Rightarrow> string \<Rightarrow> Iron_Lexer \<Rightarrow> Iron_Lexer" where
  "truncation_note al msg start_line start_col text l =
     (if length text > 8192
      then lex_diag al IRON_DIAG_NOTE IRON_WARN_DOC_COMMENT_TRUNCATED msg start_line start_col (lx_line l) (lx_col l) l
      else l)"

text \<open>The comment consumes the line break that ends it.\<close>

definition comment_newline :: "Iron_Lexer \<Rightarrow> Iron_Lexer" where
  "comment_newline l = (if lx_pos l < length (lx_src l) \<and> lx_src l ! lx_pos l = NL then lex_newline l else l)"

definition arena_text :: "malloc_ok \<Rightarrow> string \<Rightarrow> string" where
  "arena_text al s = (case arena_strdup al (take 8192 s) of Some t \<Rightarrow> t | None \<Rightarrow> [])"

definition iron_lex_line_comment ::
    "malloc_ok \<Rightarrow> u32 \<Rightarrow> u32 \<Rightarrow> nat \<Rightarrow> u8 \<Rightarrow> Iron_Lexer \<Rightarrow> Iron_Token \<times> Iron_Lexer" where
  "iron_lex_line_comment al start_line start_col start_pos spelling l =
     (case iron_lex_comment_marker al (lx_pos l + 1) l of (is_marker, l1) \<Rightarrow>
        let l2 = iron_advance_char l1;
            text_start = lx_pos l2;
            l3 = adv_while (\<lambda>c. c \<noteq> NL) l2;
            text = rtrim (take (lx_pos l3 - text_start) (drop text_start (lx_src l3)));
            flags = IRON_COMMENT_PRESENT OR spelling
              OR (if iron_comment_is_own_line (lx_src l3) start_pos then IRON_COMMENT_OWN_LINE else 0)
              OR (if is_marker then IRON_COMMENT_MARKER
                  else if spelling = 0 \<and> iron_comment_is_directive text then IRON_COMMENT_DIRECTIVE else 0);
            l4 = truncation_note al ''comment truncated to 8 KB'' start_line start_col text l3;
            l5 = comment_newline l4 in
        ((iron_make_token l5 IRON_TOK_NEWLINE (Some (arena_text al text)) start_line start_col (of_nat (lx_pos l5 - start_pos)))
           \<lparr>tok_comment := flags\<rparr>, l5))"

definition iron_lex_doc_comment ::
    "malloc_ok \<Rightarrow> u32 \<Rightarrow> u32 \<Rightarrow> nat \<Rightarrow> Iron_Lexer \<Rightarrow> Iron_Token \<times> Iron_Lexer" where
  "iron_lex_doc_comment al start_line start_col start_pos l =
     (let l1 = iron_advance_char (iron_advance_char l);
          l2 = (if iron_peek_char l1 = CHR '' '' then iron_advance_char l1 else l1);
          body_start = lx_pos l2;
          l3 = adv_while (\<lambda>c. c \<noteq> NL) l2;
          body = rtrim (take (lx_pos l3 - body_start) (drop body_start (lx_src l3)));
          l4 = truncation_note al ''doc comment truncated to 8 KB'' start_line start_col body l3 in
      ((iron_make_token l4 IRON_TOK_DOC_COMMENT (Some (arena_text al body)) start_line start_col (of_nat (lx_pos l4 - start_pos)))
         \<lparr>tok_comment := IRON_COMMENT_PRESENT OR IRON_COMMENT_TRIPLE
            OR (if iron_comment_is_own_line (lx_src l4) start_pos then IRON_COMMENT_OWN_LINE else 0)\<rparr>, l4))"

section \<open>What every helper keeps\<close>

text \<open>Line and column of a byte of the text, counted from the text itself.\<close>

definition line_of :: "string \<Rightarrow> nat \<Rightarrow> nat" where
  "line_of s i = 1 + length (filter (\<lambda>c. c = NL) (take i s))"

definition col_of :: "string \<Rightarrow> nat \<Rightarrow> nat" where
  "col_of s i = 1 + length (takeWhile (\<lambda>c. c \<noteq> NL) (rev (take i s)))"

lemma line_of_0 [simp]: "line_of s 0 = 1"
  by (simp add: line_of_def)

lemma col_of_0 [simp]: "col_of s 0 = 1"
  by (simp add: col_of_def)

lemma line_of_Suc: "i < length s \<Longrightarrow> line_of s (Suc i) = line_of s i + (if s ! i = NL then 1 else 0)"
  by (simp add: line_of_def take_Suc_conv_app_nth)

lemma col_of_Suc: "i < length s \<Longrightarrow> col_of s (Suc i) = (if s ! i = NL then 1 else col_of s i + 1)"
  by (simp add: col_of_def take_Suc_conv_app_nth)

text \<open>The lexer's counters agree with the text.\<close>

definition tracked :: "Iron_Lexer \<Rightarrow> bool" where
  "tracked l \<longleftrightarrow> lx_line l = of_nat (line_of (lx_src l) (lx_pos l)) \<and>
     lx_col l = of_nat (col_of (lx_src l) (lx_pos l)) \<and> lx_phys_line l = lx_line l"

text \<open>No backslash stands right before a line break.\<close>

definition no_escaped_newline :: "string \<Rightarrow> bool" where
  "no_escaped_newline s \<longleftrightarrow> list_all (\<lambda>(a, b). \<not> (a = CHR 0x5C \<and> b = NL)) (zip s (tl s))"

lemma no_escaped_newline_nth:
  assumes "no_escaped_newline s" "Suc i < length s" "s ! i = CHR 0x5C"
  shows "s ! Suc i \<noteq> NL"
proof -
  have "zip s (tl s) ! i = (s ! i, s ! Suc i)"
    using assms(2) by (simp add: nth_tl)
  moreover have "i < length (zip s (tl s))"
    using assms(2) by simp
  ultimately show ?thesis
    using assms(1,3) unfolding no_escaped_newline_def list_all_length by fastforce
qed

text \<open>
  One stretch of lexing that does not meet a file marker: the cursor moves forward inside the text,
  the name the tokens carry and the marker state stay, and the counters keep agreeing with the text.
\<close>

definition lx_step :: "Iron_Lexer \<Rightarrow> Iron_Lexer \<Rightarrow> bool" where
  "lx_step l l' \<longleftrightarrow> lx_src l' = lx_src l \<and> lx_pos l \<le> lx_pos l' \<and>
     (lx_pos l \<le> length (lx_src l) \<longrightarrow> lx_pos l' \<le> length (lx_src l)) \<and>
     lx_filename l' = lx_filename l \<and> lx_entry_filename l' = lx_entry_filename l \<and>
     lx_in_stdlib_prepend l' = lx_in_stdlib_prepend l \<and> lx_file_markers l' = lx_file_markers l \<and>
     lx_sources l' = lx_sources l \<and>
     (no_escaped_newline (lx_src l) \<and> tracked l \<longrightarrow> tracked l')"

lemma lx_step_refl [simp]: "lx_step l l"
  by (simp add: lx_step_def)

lemma lx_step_trans: "lx_step l l' \<Longrightarrow> lx_step l' l'' \<Longrightarrow> lx_step l l''"
  by (auto simp: lx_step_def)

lemma lx_stepD:
  assumes "lx_step l l'"
  shows "lx_src l' = lx_src l" "lx_pos l \<le> lx_pos l'"
    "lx_pos l \<le> length (lx_src l) \<Longrightarrow> lx_pos l' \<le> length (lx_src l)"
    "lx_filename l' = lx_filename l" "lx_entry_filename l' = lx_entry_filename l"
    "lx_in_stdlib_prepend l' = lx_in_stdlib_prepend l" "lx_file_markers l' = lx_file_markers l"
    "lx_sources l' = lx_sources l"
    "no_escaped_newline (lx_src l) \<Longrightarrow> tracked l \<Longrightarrow> tracked l'"
  using assms by (auto simp: lx_step_def)

lemma peek_NUL_end: "NUL \<notin> set (lx_src l) \<Longrightarrow> iron_peek_char l = NUL \<longleftrightarrow> lx_pos l \<ge> length (lx_src l)"
  by (metis iron_peek_char_def leI nth_mem)

lemma peek_inside: "iron_peek_char l \<noteq> NUL \<Longrightarrow> lx_pos l < length (lx_src l)"
  by (simp add: iron_peek_char_def split: if_splits)

lemma peek_nth: "lx_pos l < length (lx_src l) \<Longrightarrow> iron_peek_char l = lx_src l ! lx_pos l"
  by (simp add: iron_peek_char_def)

lemma advance_src [simp]: "lx_src (iron_advance_char l) = lx_src l"
  by (simp add: iron_advance_char_def)

lemma advance_pos_le: "lx_pos l \<le> lx_pos (iron_advance_char l)"
  by (simp add: iron_advance_char_def)

lemma advance_pos: "lx_pos l < length (lx_src l) \<Longrightarrow> lx_pos (iron_advance_char l) = Suc (lx_pos l)"
  by (simp add: iron_advance_char_def)

lemma advance_step:
  assumes "no_escaped_newline (lx_src l) \<Longrightarrow> iron_peek_char l \<noteq> NL"
  shows "lx_step l (iron_advance_char l)"
  using assms
  by (auto simp: lx_step_def iron_advance_char_def tracked_def line_of_Suc col_of_Suc iron_peek_char_def)

lemma newline_step: "iron_peek_char l = NL \<Longrightarrow> lx_step l (lex_newline l)"
  by (auto simp: lx_step_def lex_newline_def tracked_def line_of_Suc col_of_Suc iron_peek_char_def split: if_splits)

lemma diag_step [simp]: "lx_step l (lex_diag al level cd msg l1 c1 l2 c2 l)"
  by (simp add: lx_step_def lex_diag_def tracked_def)

lemma diag_pos [simp]: "lx_pos (lex_diag al level cd msg l1 c1 l2 c2 l) = lx_pos l"
  by (simp add: lex_diag_def)

lemma adv_while_step:
  assumes "\<not> P NL"
  shows "lx_step l (adv_while P l)"
  using assms
proof (induction P l rule: adv_while.induct)
  case (1 P l)
  show ?case
  proof (cases "lx_pos l < length (lx_src l) \<and> P (lx_src l ! lx_pos l)")
    case True
    have "lx_step l (iron_advance_char l)"
      using True "1.prems" by (intro advance_step) (auto simp: peek_nth)
    then show ?thesis
      using True 1 by (subst adv_while.simps) (auto intro: lx_step_trans)
  next
    case False
    then show ?thesis by (subst adv_while.simps) auto
  qed
qed

lemma note_step [simp]: "lx_step l (truncation_note al msg sl sc text l)"
  by (simp add: truncation_note_def)

lemma comment_newline_step [simp]: "lx_step l (comment_newline l)"
  by (auto simp: comment_newline_def peek_nth intro!: newline_step)

text \<open>What the loop has read.\<close>

lemma adv_while_eq:
  "adv_while P l = l\<lparr>lx_pos := lx_pos l + length (takeWhile P (drop (lx_pos l) (lx_src l))),
     lx_col := lx_col l + of_nat (length (takeWhile P (drop (lx_pos l) (lx_src l))))\<rparr>"
proof (induction P l rule: adv_while.induct)
  case (1 P l)
  show ?case
  proof (cases "lx_pos l < length (lx_src l) \<and> P (lx_src l ! lx_pos l)")
    case True
    then have "drop (lx_pos l) (lx_src l) = lx_src l ! lx_pos l # drop (Suc (lx_pos l)) (lx_src l)"
      by (simp add: Cons_nth_drop_Suc)
    then show ?thesis
      using True 1 by (subst adv_while.simps) (simp add: iron_advance_char_def)
  next
    case False
    then have "takeWhile P (drop (lx_pos l) (lx_src l)) = []"
      by (cases "lx_pos l < length (lx_src l)") (auto simp: takeWhile_eq_Nil_iff hd_drop_conv_nth)
    then show ?thesis
      using False by (subst adv_while.simps) auto
  qed
qed

lemma skip_ws_step: "lx_step l (iron_skip_whitespace l)"
proof (induction l rule: iron_skip_whitespace.induct)
  case (1 l)
  let ?s = "lx_src l" and ?p = "lx_pos l"
  consider (blank) "?p < length ?s" "is_blank (?s ! ?p)"
    | (bom) "?p < length ?s" "\<not> is_blank (?s ! ?p)" "bom_at ?s ?p"
    | (stop) "\<not> (?p < length ?s \<and> (is_blank (?s ! ?p) \<or> bom_at ?s ?p))"
    by blast
  then show ?case
  proof cases
    case blank
    have "lx_step l (l\<lparr>lx_pos := ?p + 1, lx_col := lx_col l + 1\<rparr>)"
      using advance_step [of l] blank by (auto simp: iron_advance_char_def peek_nth is_blank_def)
    then show ?thesis
      using blank "1.IH"(1) by (subst iron_skip_whitespace.simps) (auto intro: lx_step_trans)
  next
    case bom
    have "lx_step l (l\<lparr>lx_pos := ?p + 3, lx_col := lx_col l + 3\<rparr>)"
      using bom(3) by (auto simp: lx_step_def tracked_def bom_at_def line_of_Suc col_of_Suc numeral_3_eq_3)
    then show ?thesis
      using bom "1.IH"(2) by (subst iron_skip_whitespace.simps) (auto intro: lx_step_trans)
  next
    case stop
    then show ?thesis by (subst iron_skip_whitespace.simps) auto
  qed
qed

section \<open>The contract of the token lexers\<close>

text \<open>A token with the lexer after it covers exactly the bytes the lexer consumed.\<close>

definition covers :: "Iron_Lexer \<Rightarrow> Iron_Token \<times> Iron_Lexer \<Rightarrow> bool" where
  "covers l r \<longleftrightarrow> (case r of (t, l') \<Rightarrow>
     lx_src l' = lx_src l \<and> lx_pos l < lx_pos l' \<and> lx_pos l' \<le> length (lx_src l) \<and>
     tok_len t = of_nat (lx_pos l' - lx_pos l) \<and> tok_line t = lx_line l \<and> tok_col t = lx_col l \<and>
     tok_kind t \<noteq> IRON_TOK_EOF)"

text \<open>The token belongs to the file the lexer was in, and the lexer is still in it.\<close>

definition plain :: "Iron_Lexer \<Rightarrow> Iron_Token \<times> Iron_Lexer \<Rightarrow> bool" where
  "plain l r \<longleftrightarrow> (case r of (t, l') \<Rightarrow>
     lx_step l l' \<and> tok_filename t = lx_filename l \<and> tok_from_stdlib_prepend t = lx_in_stdlib_prepend l)"

text \<open>The lexer is in user text: its gate honours no file marker there.\<close>

definition quiet :: "Iron_Lexer \<Rightarrow> bool" where
  "quiet l \<longleftrightarrow> \<not> g_test_mode (lx_file_markers l) \<and> \<not> g_packed (lx_file_markers l) \<and>
     g_user_start (lx_file_markers l) \<le> lx_phys_line l"

lemma quiet_marker: "quiet l \<Longrightarrow> iron_lex_comment_marker al i l = (False, l)"
  by (simp add: iron_lex_comment_marker_def quiet_def admit_user_text split: option.split)

text \<open>A lexer of one class of tokens, chosen by the first character.\<close>

locale scanner =
  fixes scan :: "Iron_Lexer \<Rightarrow> Iron_Token \<times> Iron_Lexer" and starts :: "char \<Rightarrow> bool"
  assumes inside: "starts c \<Longrightarrow> c \<noteq> NUL"
    and scan_covers: "starts (iron_peek_char l) \<Longrightarrow> covers l (scan l)"
    and scan_plain: "starts (iron_peek_char l) \<Longrightarrow> quiet l \<Longrightarrow> plain l (scan l)"
begin

lemma progress:
  assumes "starts (iron_peek_char l)"
  shows "length (lx_src l) - lx_pos (snd (scan l)) < length (lx_src l) - lx_pos l"
  using scan_covers [OF assms] peek_inside [OF inside [OF assms]] by (auto simp: covers_def split: prod.splits)

lemma located:
  assumes "starts (iron_peek_char l)" "quiet l" "no_escaped_newline (lx_src l)" "tracked l"
  shows "tok_line (fst (scan l)) = of_nat (line_of (lx_src l) (lx_pos l))"
    "tok_col (fst (scan l)) = of_nat (col_of (lx_src l) (lx_pos l))" "tracked (snd (scan l))"
  using scan_covers [OF assms(1)] scan_plain [OF assms(1,2)] assms(3,4)
  by (auto simp: covers_def plain_def tracked_def dest!: lx_stepD(9) split: prod.splits)

end

lemma make_token_scanned:
  assumes "lx_step l l'" "lx_pos l < lx_pos l'" "lx_pos l \<le> length (lx_src l)" "kind \<noteq> IRON_TOK_EOF"
    "line = lx_line l" "col = lx_col l" "len = of_nat (lx_pos l' - lx_pos l)"
  shows "covers l (iron_make_token l' kind v line col len, l')" "plain l (iron_make_token l' kind v line col len, l')"
  using assms by (auto simp: covers_def plain_def iron_make_token_def lx_step_def)

lemma lex_error_scanned:
  assumes "lx_step l l'" "lx_pos l < lx_pos l'" "lx_pos l \<le> length (lx_src l)"
  shows "covers l (lex_error al cd msg (lx_line l) (lx_col l) (lx_pos l) l')"
    "plain l (lex_error al cd msg (lx_line l) (lx_col l) (lx_pos l) l')"
  using assms lx_step_trans [OF assms(1) diag_step] unfolding lex_error_def Let_def
  by (auto intro!: make_token_scanned)

section \<open>Reading a known text\<close>

text \<open>The cursor moved over some characters of one line.\<close>

definition adv :: "nat \<Rightarrow> Iron_Lexer \<Rightarrow> Iron_Lexer" where
  "adv n l = l\<lparr>lx_pos := lx_pos l + n, lx_col := lx_col l + of_nat n\<rparr>"

definition lx_at :: "Iron_Lexer \<Rightarrow> string \<Rightarrow> bool" where
  "lx_at l xs \<longleftrightarrow> drop (lx_pos l) (lx_src l) = xs"

lemma adv_0 [simp]: "adv 0 l = l"
  by (simp add: adv_def)

lemma adv_adv [simp]: "adv m (adv n l) = adv (n + m) l"
  by (simp add: adv_def add.assoc)

lemma adv_sel [simp]:
  "lx_src (adv n l) = lx_src l" "lx_pos (adv n l) = lx_pos l + n" "lx_line (adv n l) = lx_line l"
  "lx_filename (adv n l) = lx_filename l" "lx_diags (adv n l) = lx_diags l"
  by (simp_all add: adv_def)

lemma at_adv: "lx_at l (xs @ ys) \<Longrightarrow> lx_at (adv (length xs) l) ys"
  by (metis add.commute adv_sel(1,2) append_eq_conv_conj drop_drop lx_at_def)

lemma at_adv_Suc [simp]: "lx_at l (c # ys) \<Longrightarrow> lx_at (adv (Suc 0) l) ys"
  using at_adv [of l "[c]" ys] by simp

lemma at_inside: "lx_at l (c # xs) \<Longrightarrow> lx_pos l < length (lx_src l) \<and> lx_src l ! lx_pos l = c"
  by (metis drop_eq_Nil2 hd_drop_conv_nth leI list.sel(1) list.simps(3) lx_at_def)

lemma at_peek: "lx_at l (c # xs) \<Longrightarrow> iron_peek_char l = c"
  using at_inside [of l c xs] by (simp add: iron_peek_char_def)

lemma at_peek_end: "lx_at l [] \<Longrightarrow> iron_peek_char l = NUL"
  by (simp add: lx_at_def iron_peek_char_def)

lemma at_advance: "lx_at l (c # xs) \<Longrightarrow> iron_advance_char l = adv (Suc 0) l"
  using at_inside [of l c xs] by (simp add: iron_advance_char_def adv_def)

lemma at_peek_next: "lx_at l (c # d # xs) \<Longrightarrow> iron_peek_next l = d"
  using at_inside [of "adv (Suc 0) l" d xs] at_adv_Suc [of l c "d # xs"] by (simp add: iron_peek_next_def)

lemma at_adv_while: "lx_at l (xs @ ys) \<Longrightarrow> list_all P xs \<Longrightarrow> ys = [] \<or> \<not> P (hd ys) \<Longrightarrow> adv_while P l = adv (length xs) l"
proof -
  assume a: "lx_at l (xs @ ys)" "list_all P xs" "ys = [] \<or> \<not> P (hd ys)"
  then have "takeWhile P (xs @ ys) = xs"
    by (cases ys) (auto simp: list_all_iff takeWhile_append)
  then show ?thesis
    using a(1) by (simp add: adv_while_eq adv_def lx_at_def)
qed

end
