(* ===== verification/Lexer_String.thy ===== *)
theory Lexer_String
  imports Lexer_Base
begin

unbundle bit_operations_syntax

text \<open>
  String literals (\<^verbatim>\<open>iron_lex_string\<close>, src/lexer/lexer.c): the 4096-byte buffer, escapes,
  interpolations with the literals nested in them, and the marker bytes that keep an escaped brace
  apart from an interpolation delimiter.
\<close>

section \<open>The buffer\<close>

record strb =
  sb_buf :: string
  sb_overflowed :: bool

definition PUSH_CHAR :: "char \<Rightarrow> strb \<Rightarrow> strb" where
  "PUSH_CHAR ch b =
     (if length (sb_buf b) < 4096 - 1 then b\<lparr>sb_buf := sb_buf b @ [ch]\<rparr> else b\<lparr>sb_overflowed := True\<rparr>)"

definition is_lex_marker :: "char \<Rightarrow> bool" where
  "is_lex_marker c \<longleftrightarrow> c = IRON_LEX_LITERAL_LBRACE \<or> c = IRON_LEX_LITERAL_RBRACE \<or> c = IRON_LEX_LITERAL_ESC"

text \<open>A byte that equals a marker is stored behind the marker prefix.\<close>

definition push_raw :: "char \<Rightarrow> strb \<Rightarrow> strb" where
  "push_raw c b = PUSH_CHAR c (if is_lex_marker c then PUSH_CHAR IRON_LEX_LITERAL_ESC b else b)"

section \<open>Escapes\<close>

definition hex_val :: "char \<Rightarrow> nat option" where
  "hex_val h = (if isdigit h then Some (code h - 48)
     else if 97 \<le> code h \<and> code h \<le> 102 then Some (code h - 97 + 10)
     else if 65 \<le> code h \<and> code h \<le> 70 then Some (code h - 65 + 10)
     else None)"

text \<open>The two digits of a byte escape.\<close>

definition lex_hex2 :: "Iron_Lexer \<Rightarrow> nat option \<times> Iron_Lexer" where
  "lex_hex2 l =
     (case hex_val (iron_peek_char l) of
        None \<Rightarrow> (None, l)
      | Some a \<Rightarrow>
          let l1 = iron_advance_char l in
          (case hex_val (iron_peek_char l1) of
             None \<Rightarrow> (None, l1)
           | Some b \<Rightarrow> (Some (a * 16 + b), iron_advance_char l1)))"

text \<open>The digits of a Unicode escape; the loop leaves after the seventh.\<close>

function lex_hex_digits :: "nat \<Rightarrow> nat \<Rightarrow> Iron_Lexer \<Rightarrow> nat \<times> nat \<times> Iron_Lexer" where
  "lex_hex_digits cp digits l =
     (case hex_val (iron_peek_char l) of
        None \<Rightarrow> (cp, digits, l)
      | Some v \<Rightarrow>
          let l1 = iron_advance_char l; cp1 = cp * 16 + v in
          if digits + 1 > 6 then (cp1, digits + 1, l1) else lex_hex_digits cp1 (digits + 1) l1)"
  by pat_completeness auto
termination
  by (relation "measure (\<lambda>(cp, digits, l). 7 - digits)") auto

declare lex_hex_digits.simps [simp del]

definition is_scalar_value :: "nat \<Rightarrow> bool" where
  "is_scalar_value cp \<longleftrightarrow> cp \<le> 0x10FFFF \<and> \<not> (0xD800 \<le> cp \<and> cp \<le> 0xDFFF)"

definition push_utf8 :: "nat \<Rightarrow> strb \<Rightarrow> strb" where
  "push_utf8 cp b =
     (if cp = 0x7B then PUSH_CHAR IRON_LEX_LITERAL_LBRACE b
      else if cp = 0x7D then PUSH_CHAR IRON_LEX_LITERAL_RBRACE b
      else if cp < 0x80 then
        PUSH_CHAR (chr_of cp) (if cp = code IRON_LEX_LITERAL_LBRACE \<or> cp = code IRON_LEX_LITERAL_RBRACE
                               then PUSH_CHAR IRON_LEX_LITERAL_ESC b else b)
      else if cp < 0x800 then
        PUSH_CHAR (chr_of (0x80 OR (cp AND 0x3F))) (PUSH_CHAR (chr_of (0xC0 OR drop_bit 6 cp)) b)
      else if cp < 0x10000 then
        PUSH_CHAR (chr_of (0x80 OR (cp AND 0x3F)))
          (PUSH_CHAR (chr_of (0x80 OR (drop_bit 6 cp AND 0x3F)))
            (PUSH_CHAR (chr_of (0xE0 OR drop_bit 12 cp)) b))
      else
        PUSH_CHAR (chr_of (0x80 OR (cp AND 0x3F)))
          (PUSH_CHAR (chr_of (0x80 OR (drop_bit 6 cp AND 0x3F)))
            (PUSH_CHAR (chr_of (0x80 OR (drop_bit 12 cp AND 0x3F)))
              (PUSH_CHAR (chr_of (0xF0 OR drop_bit 18 cp)) b))))"

text \<open>A diagnostic at the cursor.\<close>

definition diag_here :: "malloc_ok \<Rightarrow> string \<Rightarrow> Iron_Lexer \<Rightarrow> Iron_Lexer" where
  "diag_here al msg l = lex_diag al IRON_DIAG_ERROR IRON_ERR_INVALID_CHAR msg (lx_line l) (lx_col l) (lx_line l) (lx_col l) l"

definition lex_byte_escape :: "malloc_ok \<Rightarrow> Iron_Lexer \<Rightarrow> strb \<Rightarrow> Iron_Lexer \<times> strb" where
  "lex_byte_escape al l b =
     (case lex_hex2 l of
        (None, l1) \<Rightarrow> (diag_here al ''invalid byte escape'' l1, b)
      | (Some v, l1) \<Rightarrow>
          let bv = chr_of v in
          (l1, if bv = CHR ''{'' then PUSH_CHAR IRON_LEX_LITERAL_LBRACE b
               else if bv = CHR ''}'' then PUSH_CHAR IRON_LEX_LITERAL_RBRACE b
               else push_raw bv b))"

definition lex_unicode_escape :: "malloc_ok \<Rightarrow> Iron_Lexer \<Rightarrow> strb \<Rightarrow> Iron_Lexer \<times> strb" where
  "lex_unicode_escape al l b =
     (if iron_peek_char l \<noteq> CHR ''{'' then (diag_here al ''invalid unicode escape'' l, b)
      else (case lex_hex_digits 0 0 (iron_advance_char l) of
        (cp, digits, l1) \<Rightarrow>
          let closed = (iron_peek_char l1 = CHR ''}'');
              ok = (0 < digits \<and> digits \<le> 6 \<and> closed \<and> is_scalar_value cp);
              l2 = (if closed then iron_advance_char l1 else l1) in
          if \<not> ok then (diag_here al ''invalid unicode escape'' l2, b)
          else (l2, push_utf8 cp b)))"

text \<open>The escape after a backslash outside an interpolation; the backslash is the next character.\<close>

definition lex_escape :: "malloc_ok \<Rightarrow> Iron_Lexer \<Rightarrow> strb \<Rightarrow> Iron_Lexer \<times> strb" where
  "lex_escape al l0 b =
     (let l1 = iron_advance_char l0; esc = iron_peek_char l1; l = iron_advance_char l1 in
      if esc = CHR ''n'' then (l, PUSH_CHAR NL b)
      else if esc = CHR ''t'' then (l, PUSH_CHAR TAB b)
      else if esc = CHR ''r'' then (l, PUSH_CHAR CR b)
      else if esc = CHR ''0'' then (l, PUSH_CHAR NUL b)
      else if esc = CHR ''x'' then lex_byte_escape al l b
      else if esc = CHR 0x5C then (l, PUSH_CHAR (CHR 0x5C) b)
      else if esc = QUOTE then (l, PUSH_CHAR QUOTE b)
      else if esc = CHR ''{'' then (l, PUSH_CHAR IRON_LEX_LITERAL_LBRACE b)
      else if esc = CHR ''}'' then (l, PUSH_CHAR IRON_LEX_LITERAL_RBRACE b)
      else if esc = CHR ''u'' then lex_unicode_escape al l b
      else (l, PUSH_CHAR esc (PUSH_CHAR (CHR 0x5C) b)))"

section \<open>Literals nested in an interpolation\<close>

text \<open>
  The stack has its top at the head: 0 inside a literal, else the brace depth inside one of its
  interpolations.
\<close>

definition nest_step :: "char \<Rightarrow> nat list \<Rightarrow> nat list" where
  "nest_step d nest =
     (case nest of
        [] \<Rightarrow> []
      | tp # rest \<Rightarrow>
          if tp = 0 then
            (if d = QUOTE then rest else if d = CHR ''{'' \<and> length nest < 64 then 1 # nest else nest)
          else if d = QUOTE \<and> length nest < 64 then 0 # nest
          else if d = CHR ''{'' then (tp + 1) # rest
          else if d = CHR ''}'' then (if tp - 1 = 0 then rest else (tp - 1) # rest)
          else nest)"

text \<open>A backslash in copied text takes the character after it along, unless the line ends there.\<close>

definition copy_escaped :: "Iron_Lexer \<Rightarrow> strb \<Rightarrow> Iron_Lexer \<times> strb" where
  "copy_escaped l b =
     (let e = iron_peek_char l in
      if e \<noteq> NUL \<and> e \<noteq> NL then (iron_advance_char l, PUSH_CHAR e b) else (l, b))"

lemma copy_escaped_pos: "copy_escaped l b = (l', b') \<Longrightarrow> lx_pos l \<le> lx_pos l' \<and> lx_src l' = lx_src l"
  by (auto simp: copy_escaped_def Let_def advance_pos_le split: if_splits)

function lex_nested :: "nat list \<Rightarrow> Iron_Lexer \<Rightarrow> strb \<Rightarrow> Iron_Lexer \<times> strb" where
  "lex_nested nest l b =
     (let d = iron_peek_char l in
      if nest = [] \<or> d = NUL \<or> d = NL then (l, b)
      else let l1 = iron_advance_char l; b1 = PUSH_CHAR d b in
        if d = CHR 0x5C then (case copy_escaped l1 b1 of (l2, b2) \<Rightarrow> lex_nested nest l2 b2)
        else lex_nested (nest_step d nest) l1 b1)"
  by pat_completeness auto
termination
proof (relation "measure (\<lambda>(nest, l, b). length (lx_src l) - lx_pos l)", goal_cases)
  case 1 show ?case by simp
next
  case (2 nest l b d l1 b1 l2 b2)
  then show ?case
    using peek_inside [of l] copy_escaped_pos [of l1 b1 l2 b2] by (auto simp: advance_pos split: prod.splits)
next
  case (3 nest l b d l1 b1)
  then show ?case using peek_inside [of l] by (auto simp: advance_pos)
qed

declare lex_nested.simps [simp del]

text \<open>The older spelling: \<open>\"\<close> opens a nested literal that the next \<open>\"\<close> closes.\<close>

function lex_legacy_nested :: "Iron_Lexer \<Rightarrow> strb \<Rightarrow> Iron_Lexer \<times> strb" where
  "lex_legacy_nested l b =
     (let d = iron_peek_char l in
      if d = NUL \<or> d = NL then (l, b)
      else if d = CHR 0x5C \<and> iron_peek_next l = QUOTE
      then (iron_advance_char (iron_advance_char l), PUSH_CHAR QUOTE b)
      else lex_legacy_nested (iron_advance_char l) (PUSH_CHAR d b))"
  by pat_completeness auto
termination
proof (relation "measure (\<lambda>(l, b). length (lx_src l) - lx_pos l)", goal_cases)
  case 1 show ?case by simp
next
  case (2 l b d)
  then show ?case using peek_inside [of l] by (auto simp: advance_pos)
qed

declare lex_legacy_nested.simps [simp del]

section \<open>The literal\<close>

record str_state =
  ss_lexer :: Iron_Lexer
  ss_buf :: strb
  ss_has_interp :: bool
  ss_interp_depth :: nat

datatype str_outcome = Str_More str_state | Str_End str_state | Str_Unterminated str_state

text \<open>The state in an outcome.\<close>

fun outcome_state :: "str_outcome \<Rightarrow> str_state" where
  "outcome_state (Str_More s) = s"
| "outcome_state (Str_End s) = s"
| "outcome_state (Str_Unterminated s) = s"

definition set_lb :: "str_state \<Rightarrow> Iron_Lexer \<times> strb \<Rightarrow> str_state" where
  "set_lb s p = s\<lparr>ss_lexer := fst p, ss_buf := snd p\<rparr>"

text \<open>An unescaped brace opens or closes an interpolation.\<close>

definition brace_step :: "char \<Rightarrow> str_state \<Rightarrow> str_state" where
  "brace_step c s =
     (if c = CHR ''{'' then s\<lparr>ss_has_interp := True, ss_interp_depth := ss_interp_depth s + 1\<rparr>
      else if c = CHR ''}'' \<and> ss_interp_depth s > 0 then s\<lparr>ss_interp_depth := ss_interp_depth s - 1\<rparr>
      else s)"

definition ends_here :: "bool \<Rightarrow> Iron_Lexer \<Rightarrow> bool" where
  "ends_here multiline l \<longleftrightarrow>
     (if multiline then iron_peek_char l = QUOTE \<and> iron_peek_next l = QUOTE \<and>
          lx_pos l + 2 < length (lx_src l) \<and> lx_src l ! (lx_pos l + 2) = QUOTE
      else iron_peek_char l = QUOTE)"

definition skip_end :: "bool \<Rightarrow> Iron_Lexer \<Rightarrow> Iron_Lexer" where
  "skip_end multiline l =
     (if multiline then iron_advance_char (iron_advance_char (iron_advance_char l)) else iron_advance_char l)"

text \<open>One round of the loop.\<close>

definition str_step :: "malloc_ok \<Rightarrow> bool \<Rightarrow> str_state \<Rightarrow> str_outcome" where
  "str_step al multiline s =
     (let l = ss_lexer s; b = ss_buf s; c = iron_peek_char l; inside = (ss_interp_depth s > 0) in
      if c = NUL \<or> (\<not> multiline \<and> c = NL) then Str_Unterminated s
      else if inside \<and> c = QUOTE
      then Str_More (set_lb s (lex_nested [0] (iron_advance_char l) (PUSH_CHAR QUOTE b)))
      else if inside \<and> c = CHR 0x5C \<and> iron_peek_next l = QUOTE
      then Str_More (set_lb s (lex_legacy_nested (iron_advance_char (iron_advance_char l)) (PUSH_CHAR QUOTE b)))
      else if inside \<and> c = CHR 0x5C
      then Str_More (set_lb s (copy_escaped (iron_advance_char l) (PUSH_CHAR (CHR 0x5C) b)))
      else if c = CHR 0x5C then Str_More (set_lb s (lex_escape al l b))
      else let s1 = brace_step c s in
        if ends_here multiline l then Str_End (set_lb s1 (skip_end multiline l, b))
        else if c = NL then Str_More (set_lb s1 (lex_newline l, PUSH_CHAR NL b))
        else Str_More (set_lb s1 (iron_advance_char l,
               if ss_interp_depth s1 = 0 then push_raw c b else PUSH_CHAR c b)))"

section \<open>Every round moves the cursor\<close>

lemma hex_val_NL [simp]: "hex_val NL = None" and hex_val_NUL [simp]: "hex_val NUL = None"
  by (simp_all add: hex_val_def isdigit_def code_def)

lemma hex2_step: "lx_step l (snd (lex_hex2 l))"
proof (cases "hex_val (iron_peek_char l)")
  case None
  then show ?thesis by (simp add: lex_hex2_def)
next
  case (Some a)
  let ?l1 = "iron_advance_char l"
  have 1: "lx_step l ?l1"
    using Some by (intro advance_step) auto
  show ?thesis
  proof (cases "hex_val (iron_peek_char ?l1)")
    case None
    then show ?thesis using Some 1 by (simp add: lex_hex2_def Let_def)
  next
    case (Some b)
    then have "lx_step ?l1 (iron_advance_char ?l1)"
      by (intro advance_step) auto
    then show ?thesis
      using 1 Some \<open>hex_val (iron_peek_char l) = Some a\<close> by (auto simp: lex_hex2_def Let_def intro: lx_step_trans)
  qed
qed

lemma hex_digits_step: "lex_hex_digits cp n l = (cp', n', l') \<Longrightarrow> lx_step l l'"
proof (induction cp n l rule: lex_hex_digits.induct)
  case (1 cp n l)
  show ?case
  proof (cases "hex_val (iron_peek_char l)")
    case None
    then show ?thesis using "1.prems" by (subst (asm) lex_hex_digits.simps) simp
  next
    case (Some v)
    then have a: "lx_step l (iron_advance_char l)"
      by (intro advance_step) auto
    show ?thesis
    proof (cases "n + 1 > 6")
      case True
      then show ?thesis using "1.prems" Some a by (subst (asm) lex_hex_digits.simps) (simp add: Let_def)
    next
      case False
      then have "lex_hex_digits (cp * 16 + v) (n + 1) (iron_advance_char l) = (cp', n', l')"
        using "1.prems" Some by (subst (asm) lex_hex_digits.simps) (simp add: Let_def)
      then show ?thesis
        using "1.IH" [OF Some refl refl False] a lx_step_trans by blast
    qed
  qed
qed

lemma diag_here_step [simp]: "lx_step l (diag_here al msg l)"
  by (simp add: diag_here_def)

lemma byte_escape_step: "lx_step l (fst (lex_byte_escape al l b))"
  using hex2_step [of l]
  by (auto simp: lex_byte_escape_def Let_def split: prod.split option.split intro: lx_step_trans)

lemma unicode_escape_step: "lx_step l (fst (lex_unicode_escape al l b))"
proof (cases "iron_peek_char l = CHR ''{''")
  case True
  obtain cp n l1 where d: "lex_hex_digits 0 0 (iron_advance_char l) = (cp, n, l1)"
    by (cases "lex_hex_digits 0 0 (iron_advance_char l)") auto
  let ?l2 = "if iron_peek_char l1 = CHR ''}'' then iron_advance_char l1 else l1"
  have "lx_step l (iron_advance_char l)"
    using True by (intro advance_step) simp
  moreover have "lx_step (iron_advance_char l) l1"
    by (rule hex_digits_step [OF d])
  moreover have "lx_step l1 ?l2"
    by (simp add: advance_step)
  ultimately have s: "lx_step l ?l2"
    using lx_step_trans by blast
  have "fst (lex_unicode_escape al l b) = ?l2 \<or>
      fst (lex_unicode_escape al l b) = diag_here al ''invalid unicode escape'' ?l2"
    using True d by (auto simp: lex_unicode_escape_def Let_def)
  then show ?thesis
    by (elim disjE) (simp_all only: s lx_step_trans [OF s diag_here_step])
qed (simp add: lex_unicode_escape_def)

lemma escape_second_step:
  assumes "iron_peek_char l = CHR 0x5C"
  shows "lx_step l (iron_advance_char (iron_advance_char l))"
proof -
  let ?l1 = "iron_advance_char l"
  have p: "lx_pos l < length (lx_src l)"
    using assms by (intro peek_inside) simp
  have "lx_step l ?l1"
    using assms by (intro advance_step) simp
  moreover have "lx_step ?l1 (iron_advance_char ?l1)"
  proof (intro advance_step)
    assume "no_escaped_newline (lx_src ?l1)"
    then show "iron_peek_char ?l1 \<noteq> NL"
      using assms p no_escaped_newline_nth [of "lx_src l" "lx_pos l"]
      by (auto simp: iron_peek_char_def advance_pos)
  qed
  ultimately show ?thesis by (rule lx_step_trans)
qed

lemma escape_step:
  assumes "iron_peek_char l = CHR 0x5C"
  shows "lx_step (iron_advance_char (iron_advance_char l)) (fst (lex_escape al l b))"
  by (simp add: lex_escape_def Let_def byte_escape_step unicode_escape_step)

lemma copy_escaped_step: "lx_step l (fst (copy_escaped l b))"
  by (auto simp: copy_escaped_def Let_def intro: advance_step)

lemma nested_step: "lx_step l (fst (lex_nested nest l b))"
proof (induction nest l b rule: lex_nested.induct)
  case (1 nest l b)
  let ?d = "iron_peek_char l" and ?l1 = "iron_advance_char l" and ?b1 = "PUSH_CHAR (iron_peek_char l) b"
  show ?case
  proof (cases "nest = [] \<or> ?d = NUL \<or> ?d = NL")
    case True
    then show ?thesis by (subst lex_nested.simps) (auto simp: Let_def)
  next
    case False
    then have a: "lx_step l ?l1"
      by (intro advance_step) simp
    show ?thesis
    proof (cases "?d = CHR 0x5C")
      case True
      obtain l2 b2 where c: "copy_escaped ?l1 ?b1 = (l2, b2)"
        by (cases "copy_escaped ?l1 ?b1")
      then have "lx_step ?l1 l2" using copy_escaped_step [of ?l1 ?b1] by simp
      moreover have "lx_step l2 (fst (lex_nested nest l2 b2))"
        using "1.IH"(1) [OF refl False refl refl True c [symmetric]] .
      moreover have "lex_nested nest l b = lex_nested nest l2 b2"
        using False True c by (subst lex_nested.simps) (simp add: Let_def)
      ultimately show ?thesis
        using a by (metis lx_step_trans)
    next
      case b: False
      have "lex_nested nest l b = lex_nested (nest_step ?d nest) ?l1 ?b1"
        using False b by (subst lex_nested.simps) (simp add: Let_def)
      then show ?thesis
        using "1.IH"(2) [OF refl False refl refl b] a by (metis lx_step_trans)
    qed
  qed
qed

lemma legacy_nested_step: "lx_step l (fst (lex_legacy_nested l b))"
proof (induction l b rule: lex_legacy_nested.induct)
  case (1 l b)
  let ?d = "iron_peek_char l"
  consider (stop) "?d = NUL \<or> ?d = NL" | (close) "?d = CHR 0x5C" "iron_peek_next l = QUOTE"
    | (more) "\<not> (?d = NUL \<or> ?d = NL)" "\<not> (?d = CHR 0x5C \<and> iron_peek_next l = QUOTE)"
    by blast
  then show ?case
  proof cases
    case stop
    then show ?thesis by (subst lex_legacy_nested.simps) (auto simp: Let_def)
  next
    case close
    then show ?thesis by (subst lex_legacy_nested.simps) (simp add: Let_def escape_second_step)
  next
    case more
    then have "lx_step l (iron_advance_char l)"
      by (intro advance_step) simp
    then show ?thesis
      using more "1.IH" [OF refl more] by (subst lex_legacy_nested.simps) (auto simp: Let_def intro: lx_step_trans)
  qed
qed

lemma skip_end_step: "ends_here multiline l \<Longrightarrow> lx_step l (skip_end multiline l)"
proof (cases multiline)
  case True
  assume e: "ends_here multiline l"
  let ?l1 = "iron_advance_char l" and ?l2 = "iron_advance_char (iron_advance_char l)"
  have p: "lx_pos l + 2 < length (lx_src l)" "lx_src l ! lx_pos l = QUOTE" "lx_src l ! (lx_pos l + 1) = QUOTE"
      "lx_src l ! (lx_pos l + 2) = QUOTE"
    using e True by (auto simp: ends_here_def iron_peek_char_def iron_peek_next_def split: if_splits)
  have "lx_step l ?l1" "lx_step ?l1 ?l2" "lx_step ?l2 (iron_advance_char ?l2)"
    using p by (auto intro!: advance_step simp: iron_peek_char_def advance_pos)
  then show ?thesis
    using True by (auto simp: skip_end_def intro: lx_step_trans)
next
  case False
  assume "ends_here multiline l"
  then show ?thesis
    using False by (auto simp: skip_end_def ends_here_def intro!: advance_step)
qed

lemma set_lb_sel [simp]:
  "ss_lexer (set_lb s p) = fst p" "ss_buf (set_lb s p) = snd p"
  "ss_has_interp (set_lb s p) = ss_has_interp s" "ss_interp_depth (set_lb s p) = ss_interp_depth s"
  by (simp_all add: set_lb_def)

lemma str_step_More:
  assumes "str_step al multiline s = Str_More s'"
  shows "lx_step (ss_lexer s) (ss_lexer s')" "lx_pos (ss_lexer s) < lx_pos (ss_lexer s')"
proof -
  let ?l = "ss_lexer s" and ?b = "ss_buf s"
  let ?c = "iron_peek_char ?l" and ?l1 = "iron_advance_char (ss_lexer s)"
  have nn: "?c \<noteq> NUL" "multiline \<or> ?c \<noteq> NL"
    using assms by (auto simp: str_step_def Let_def)
  have p: "lx_pos ?l < length (lx_src ?l)"
    using nn(1) by (rule peek_inside)
  have lt: "lx_step ?l1 x \<Longrightarrow> lx_pos ?l < lx_pos x" for x
    using p lx_stepD(2) [of ?l1 x] by (simp add: advance_pos)
  have go: "lx_step ?l x \<and> lx_pos ?l < lx_pos x" if "?c \<noteq> NL" "lx_step ?l1 x" for x
    using that lt advance_step lx_step_trans by blast
  have esc: "lx_step ?l x \<and> lx_pos ?l < lx_pos x" if "?c = CHR 0x5C" "lx_step (iron_advance_char ?l1) x" for x
    using that escape_second_step [of ?l] p advance_pos_le [of ?l1] lx_stepD(2) [OF that(2)]
    by (auto simp: advance_pos intro: lx_step_trans)
  have "?c \<noteq> NL \<and> lx_step ?l1 (ss_lexer s') \<or> ?c = CHR 0x5C \<and> lx_step (iron_advance_char ?l1) (ss_lexer s') \<or>
      ?c = NL \<and> ss_lexer s' = lex_newline ?l"
    using assms nn
    by (auto simp: str_step_def Let_def nested_step legacy_nested_step copy_escaped_step escape_step split: if_splits)
  then have "lx_step ?l (ss_lexer s') \<and> lx_pos ?l < lx_pos (ss_lexer s')"
    using go esc newline_step [of ?l] by (auto simp: lex_newline_def)
  then show "lx_step ?l (ss_lexer s')" "lx_pos ?l < lx_pos (ss_lexer s')" by auto
qed

function str_loop :: "malloc_ok \<Rightarrow> bool \<Rightarrow> str_state \<Rightarrow> str_outcome" where
  "str_loop al multiline s =
     (case str_step al multiline s of Str_More s' \<Rightarrow> str_loop al multiline s' | Str_End s' \<Rightarrow> Str_End s'
      | Str_Unterminated s' \<Rightarrow> Str_Unterminated s')"
  by pat_completeness auto
termination
proof (relation "measure (\<lambda>(al, multiline, s). length (lx_src (ss_lexer s)) - lx_pos (ss_lexer s))", goal_cases)
  case 1 show ?case by simp
next
  case (2 al multiline s s')
  have "iron_peek_char (ss_lexer s) \<noteq> NUL"
    using 2 by (auto simp: str_step_def Let_def)
  then have "lx_pos (ss_lexer s) < length (lx_src (ss_lexer s))"
    by (rule peek_inside)
  then show ?case
    using str_step_More [OF 2] lx_stepD(1) [of "ss_lexer s" "ss_lexer s'"] by simp
qed

declare str_loop.simps [simp del]

text \<open>Without an interpolation the marker bytes turn back into braces.\<close>

definition unmark_char :: "char \<Rightarrow> char" where
  "unmark_char c = (if c = IRON_LEX_LITERAL_LBRACE then CHR ''{''
     else if c = IRON_LEX_LITERAL_RBRACE then CHR ''}'' else c)"

fun unmark :: "string \<Rightarrow> string" where
  "unmark [] = []"
| "unmark [c] = [unmark_char c]"
| "unmark (c # d # cs) = (if c = IRON_LEX_LITERAL_ESC then d # unmark cs else unmark_char c # unmark (d # cs))"

text \<open>From the end of the loop: \<open>Str_More\<close> does not occur there.\<close>

definition finish_string :: "malloc_ok \<Rightarrow> u32 \<Rightarrow> u32 \<Rightarrow> nat \<Rightarrow> str_outcome \<Rightarrow> Iron_Token \<times> Iron_Lexer" where
  "finish_string al start_line start_col start_pos r =
     (case r of
        Str_End s \<Rightarrow>
          let buf = (if ss_has_interp s then sb_buf (ss_buf s) else unmark (sb_buf (ss_buf s)));
              l3 = ss_lexer s;
              l4 = (if sb_overflowed (ss_buf s)
                    then lex_diag al IRON_DIAG_ERROR IRON_ERR_STRING_TOO_LONG
                           ''string literal exceeds 4095-character limit and was truncated''
                           start_line start_col (lx_line l3) (lx_col l3) l3
                    else l3) in
          (case arena_strdup al buf of
             None \<Rightarrow> lex_error al IRON_ERR_LEXER_OOM ''out of memory while lexing string literal'' start_line start_col start_pos l4
           | Some value \<Rightarrow>
               ((iron_make_token l4 (if ss_has_interp s then IRON_TOK_INTERP_STRING else IRON_TOK_STRING) (Some value)
                   start_line start_col (of_nat (lx_pos l4 - start_pos)))\<lparr>tok_value_len := of_nat (length buf)\<rparr>, l4))
      | _ \<Rightarrow> lex_error al IRON_ERR_UNTERMINATED_STRING ''unterminated string literal'' start_line start_col start_pos
               (ss_lexer (outcome_state r)))"

definition iron_lex_string :: "malloc_ok \<Rightarrow> Iron_Lexer \<Rightarrow> Iron_Token \<times> Iron_Lexer" where
  "iron_lex_string al l =
     (let start_line = lx_line l; start_col = lx_col l; start_pos = lx_pos l;
          l1 = iron_advance_char l;
          multiline = (iron_peek_char l1 = QUOTE \<and> iron_peek_next l1 = QUOTE);
          l2 = (if multiline then iron_advance_char (iron_advance_char l1) else l1) in
      if \<not> al 4096
      then lex_error al IRON_ERR_LEXER_OOM ''out of memory while lexing string literal'' start_line start_col start_pos l2
      else finish_string al start_line start_col start_pos
             (str_loop al multiline \<lparr>ss_lexer = l2, ss_buf = \<lparr>sb_buf = [], sb_overflowed = False\<rparr>,
                                     ss_has_interp = False, ss_interp_depth = 0\<rparr>))"

text \<open>The loop always leaves through one of its two exits, and never goes backwards.\<close>

lemma str_step_End:
  "str_step al multiline s = Str_End s' \<Longrightarrow> lx_step (ss_lexer s) (ss_lexer s')"
  "str_step al multiline s = Str_Unterminated s' \<Longrightarrow> s' = s"
  by (auto simp: str_step_def Let_def skip_end_step split: if_splits)

lemma str_loop_step:
  "lx_step (ss_lexer s) (ss_lexer (outcome_state (str_loop al multiline s)))"
  "str_loop al multiline s \<noteq> Str_More s'"
proof (induction al multiline s rule: str_loop.induct)
  case (1 al multiline s)
  { case 1
    then show ?case
      using "1.IH" str_step_More(1) [of al multiline s] str_step_End [of al multiline s]
      by (subst str_loop.simps) (auto split: str_outcome.split intro: lx_step_trans)
  next
    case 2
    then show ?case
      using "1.IH" by (subst str_loop.simps) (auto split: str_outcome.split)
  }
qed

section \<open>A string token covers what was read\<close>

lemma finish_scanned:
  assumes s: "lx_step l (ss_lexer (outcome_state r))" "lx_pos l < lx_pos (ss_lexer (outcome_state r))"
    and p: "lx_pos l \<le> length (lx_src l)" and nm: "\<And>x. r \<noteq> Str_More x"
  shows "covers l (finish_string al (lx_line l) (lx_col l) (lx_pos l) r)"
    "plain l (finish_string al (lx_line l) (lx_col l) (lx_pos l) r)"
proof -
  let ?goal = "\<lambda>x. covers l x \<and> plain l x"
  have "?goal (finish_string al (lx_line l) (lx_col l) (lx_pos l) r)"
  proof (cases r)
    case (Str_End st)
    define l4 where "l4 = (if sb_overflowed (ss_buf st)
      then lex_diag al IRON_DIAG_ERROR IRON_ERR_STRING_TOO_LONG
             ''string literal exceeds 4095-character limit and was truncated''
             (lx_line l) (lx_col l) (lx_line (ss_lexer st)) (lx_col (ss_lexer st)) (ss_lexer st)
      else ss_lexer st)"
    have l4: "lx_step l l4" "lx_pos l < lx_pos l4"
      using s Str_End lx_step_trans [OF s(1) diag_step] by (auto simp: l4_def)
    have upd: "covers l (t\<lparr>tok_value_len := n\<rparr>, x) = covers l (t, x)" "plain l (t\<lparr>tok_value_len := n\<rparr>, x) = plain l (t, x)" for t n x
      by (simp_all add: covers_def plain_def)
    define buf where "buf = (if ss_has_interp st then sb_buf (ss_buf st) else unmark (sb_buf (ss_buf st)))"
    have "finish_string al (lx_line l) (lx_col l) (lx_pos l) r = (case arena_strdup al buf of
        None \<Rightarrow> lex_error al IRON_ERR_LEXER_OOM ''out of memory while lexing string literal'' (lx_line l) (lx_col l) (lx_pos l) l4
      | Some value \<Rightarrow>
          ((iron_make_token l4 (if ss_has_interp st then IRON_TOK_INTERP_STRING else IRON_TOK_STRING) (Some value)
             (lx_line l) (lx_col l) (of_nat (lx_pos l4 - lx_pos l)))\<lparr>tok_value_len := of_nat (length buf)\<rparr>, l4))"
      unfolding finish_string_def Str_End buf_def l4_def Let_def str_outcome.case ..
    then show ?thesis
      using lex_error_scanned [OF l4 p] make_token_scanned [OF l4 p]
      by (auto simp: upd split: option.split)
  qed (use s p nm lex_error_scanned [OF s p] in \<open>auto simp: finish_string_def\<close>)
  then show "covers l (finish_string al (lx_line l) (lx_col l) (lx_pos l) r)"
    "plain l (finish_string al (lx_line l) (lx_col l) (lx_pos l) r)" by auto
qed

lemma string_scanned:
  assumes q: "iron_peek_char l = QUOTE"
  shows "covers l (iron_lex_string al l)" "plain l (iron_lex_string al l)"
proof -
  let ?l1 = "iron_advance_char l"
  define multiline where "multiline = (iron_peek_char ?l1 = QUOTE \<and> iron_peek_next ?l1 = QUOTE)"
  define l2 where "l2 = (if multiline then iron_advance_char (iron_advance_char ?l1) else ?l1)"
  define r where "r = str_loop al multiline \<lparr>ss_lexer = l2, ss_buf = \<lparr>sb_buf = [], sb_overflowed = False\<rparr>,
                                        ss_has_interp = False, ss_interp_depth = 0\<rparr>"
  have p: "lx_pos l < length (lx_src l)"
    using q by (intro peek_inside) simp
  have "lx_step l ?l1"
    using q by (intro advance_step) simp
  moreover have "lx_step ?l1 l2"
  proof (cases multiline)
    case True
    then have "iron_peek_char ?l1 = QUOTE" "iron_peek_char (iron_advance_char ?l1) = QUOTE"
      by (auto simp: multiline_def iron_peek_next_def iron_peek_char_def iron_advance_char_def split: if_splits)
    then have "lx_step ?l1 (iron_advance_char ?l1)" "lx_step (iron_advance_char ?l1) l2"
      using True unfolding l2_def by (simp_all add: advance_step)
    then show ?thesis by (rule lx_step_trans)
  qed (simp add: l2_def)
  ultimately have s2: "lx_step l l2" "lx_step ?l1 l2"
    by (auto intro: lx_step_trans)
  then have lt2: "lx_pos l < lx_pos l2"
    using lx_stepD(2) [OF s2(2)] p by (simp add: advance_pos)
  have s3: "lx_step l2 (ss_lexer (outcome_state r))"
    using str_loop_step(1) [of _ al multiline] by (metis r_def str_state.select_convs(1))
  then have s: "lx_step l (ss_lexer (outcome_state r))" "lx_pos l < lx_pos (ss_lexer (outcome_state r))"
    using s2 lt2 lx_stepD(2) [OF s3] by (auto intro: lx_step_trans)
  have nm: "r \<noteq> Str_More x" for x
    unfolding r_def by (rule str_loop_step(2))
  have u: "iron_lex_string al l =
     (if \<not> al 4096
      then lex_error al IRON_ERR_LEXER_OOM ''out of memory while lexing string literal'' (lx_line l) (lx_col l) (lx_pos l) l2
      else finish_string al (lx_line l) (lx_col l) (lx_pos l) r)"
    by (simp add: iron_lex_string_def finish_string_def Let_def multiline_def l2_def r_def)
  show "covers l (iron_lex_string al l)" "plain l (iron_lex_string al l)"
    unfolding u using s2(1) lt2 p lex_error_scanned [of l l2] finish_scanned [OF s _ nm] by auto
qed

interpretation string_lexer: scanner "iron_lex_string al" "\<lambda>c. c = QUOTE" for al
  by unfold_locales (simp_all add: string_scanned)

section \<open>What a literal denotes\<close>

text \<open>
  The pieces a one-line literal without interpolation is made of, how each is written and what it
  denotes.
\<close>

datatype piece = P_Char char | P_Named char | P_Byte char char | P_Scalar string

fun hex_number :: "nat \<Rightarrow> string \<Rightarrow> nat" where
  "hex_number n [] = n"
| "hex_number n (c # cs) = hex_number (n * 16 + the (hex_val c)) cs"

definition named_escape :: "char \<Rightarrow> char option" where
  "named_escape e = map_of [(CHR ''n'', NL), (CHR ''t'', TAB), (CHR ''r'', CR), (CHR ''0'', NUL), (CHR 0x5C, CHR 0x5C),
     (QUOTE, QUOTE), (CHR ''{'', CHR ''{''), (CHR ''}'', CHR ''}'')] e"

fun piece_text :: "piece \<Rightarrow> string" where
  "piece_text (P_Char c) = [c]"
| "piece_text (P_Named e) = [CHR 0x5C, e]"
| "piece_text (P_Byte a b) = [CHR 0x5C, CHR ''x'', a, b]"
| "piece_text (P_Scalar ds) = [CHR 0x5C, CHR ''u'', CHR ''{''] @ ds @ [CHR ''}'']"

fun piece_ok :: "piece \<Rightarrow> bool" where
  "piece_ok (P_Char c) = (c \<notin> {NUL, NL, QUOTE, CHR 0x5C, CHR ''{''})"
| "piece_ok (P_Named e) = (named_escape e \<noteq> None)"
| "piece_ok (P_Byte a b) = (hex_val a \<noteq> None \<and> hex_val b \<noteq> None)"
| "piece_ok (P_Scalar ds) = (list_all (\<lambda>d. hex_val d \<noteq> None) ds \<and> 0 < length ds \<and> length ds \<le> 6 \<and>
     is_scalar_value (hex_number 0 ds))"

fun piece_value :: "piece \<Rightarrow> string" where
  "piece_value (P_Char c) = [c]"
| "piece_value (P_Named e) = [the (named_escape e)]"
| "piece_value (P_Byte a b) = [chr_of (the (hex_val a) * 16 + the (hex_val b))]"
| "piece_value (P_Scalar ds) = utf8 (hex_number 0 ds)"

text \<open>How a byte is stored in the buffer: literal braces as markers, marker bytes behind the prefix.\<close>

definition mark :: "char \<Rightarrow> string" where
  "mark c = (if c = CHR ''{'' then [IRON_LEX_LITERAL_LBRACE] else if c = CHR ''}'' then [IRON_LEX_LITERAL_RBRACE]
     else if is_lex_marker c then [IRON_LEX_LITERAL_ESC, c] else [c])"

fun piece_stored :: "piece \<Rightarrow> string" where
  "piece_stored (P_Char c) = (if is_lex_marker c then [IRON_LEX_LITERAL_ESC, c] else [c])"
| "piece_stored p = concat (map mark (piece_value p))"

lemmas lex_marker_defs = IRON_LEX_LITERAL_LBRACE_def IRON_LEX_LITERAL_RBRACE_def IRON_LEX_LITERAL_ESC_def is_lex_marker_def

lemma unmark_plain: "c \<noteq> IRON_LEX_LITERAL_ESC \<Longrightarrow> unmark (c # xs) = unmark_char c # unmark xs"
  by (cases xs) auto

lemma unmark_mark: "unmark (mark c @ xs) = c # unmark xs"
  by (auto simp: mark_def unmark_plain lex_marker_defs unmark_char_def)

lemma unmark_marks: "unmark (concat (map mark s) @ xs) = s @ unmark xs"
  by (induction s) (simp_all add: unmark_mark)

lemma unmark_piece: "unmark (piece_stored p @ xs) = piece_value p @ unmark xs"
proof (cases p)
  case (P_Char c)
  then show ?thesis by (auto simp: unmark_plain lex_marker_defs unmark_char_def)
qed (simp_all add: unmark_marks [of "[_]", simplified] unmark_marks)

lemma unmark_pieces: "unmark (concat (map piece_stored ps)) = concat (map piece_value ps)"
  by (induction ps) (simp_all add: unmark_piece)

text \<open>Pushing a stretch of bytes.\<close>

abbreviation pushes :: "string \<Rightarrow> strb \<Rightarrow> strb" where
  "pushes cs b \<equiv> fold PUSH_CHAR cs b"

lemma pushes_fit:
  "length (sb_buf b) + length cs \<le> 4095 \<Longrightarrow> pushes cs b = b\<lparr>sb_buf := sb_buf b @ cs\<rparr>"
  by (induction cs arbitrary: b) (simp_all add: PUSH_CHAR_def)

lemma pushes_over:
  "length (sb_buf b) \<le> 4095 \<Longrightarrow>
   length (sb_buf (pushes cs b)) \<le> 4095 \<and>
   sb_overflowed (pushes cs b) = (sb_overflowed b \<or> length (sb_buf b) + length cs > 4095)"
  by (induction cs arbitrary: b) (auto simp: PUSH_CHAR_def)

text \<open>The bit operations of the encoder are the arithmetic of UTF-8.\<close>

lemma or_is_add: "x < 2 ^ n \<Longrightarrow> (k * 2 ^ n) OR x = k * 2 ^ n + (x::nat)"
proof -
  assume "x < 2 ^ n"
  then have "(k * 2 ^ n) AND x = 0"
    by (intro bit_eqI) (auto simp: bit_and_iff bit_push_bit_iff nat_bit_high simp flip: push_bit_eq_mult)
  then show ?thesis by (simp add: disjunctive_add_eq_or)
qed

lemma and_63: "x AND 0x3F = x mod (64::nat)"
proof -
  have "x AND mask 6 = x mod 2 ^ 6"
    by (simp only: take_bit_eq_mask [symmetric] take_bit_eq_mod)
  then show ?thesis by (simp add: mask_eq_exp_minus_1)
qed

lemma utf8_bits:
  "0x80 OR (x AND 0x3F) = 128 + x mod (64::nat)"
  "x < 32 \<Longrightarrow> 0xC0 OR x = 192 + (x::nat)"
  "x < 16 \<Longrightarrow> 0xE0 OR x = 224 + (x::nat)"
  "x < 8 \<Longrightarrow> 0xF0 OR x = 240 + (x::nat)"
  using or_is_add [of "x mod 64" 6 2] or_is_add [of x 5 6] or_is_add [of x 4 14] or_is_add [of x 3 30]
  by (simp_all add: and_63)

lemma chr_of_eq_iff: "x < 256 \<Longrightarrow> chr_of x = c \<longleftrightarrow> x = code c"
  by (auto simp: chr_of_def code_def)

lemma mark_high: "128 \<le> x \<Longrightarrow> x < 255 \<Longrightarrow> mark (chr_of x) = [chr_of x]"
  by (auto simp: mark_def lex_marker_defs chr_of_eq_iff code_def)

lemma push_utf8_eq:
  assumes "cp \<le> 0x10FFFF"
  shows "push_utf8 cp b = pushes (concat (map mark (utf8 cp))) b"
proof -
  consider (ascii) "cp < 0x80" | (two) "0x80 \<le> cp" "cp < 0x800" | (three) "0x800 \<le> cp" "cp < 0x10000"
    | (four) "0x10000 \<le> cp"
    by linarith
  then show ?thesis
  proof cases
    case ascii
    then show ?thesis
      by (auto simp: push_utf8_def utf8_def mark_def lex_marker_defs chr_of_eq_iff code_def)
  next
    case two
    moreover have "cp div 64 < 32" "cp div 64 \<ge> 0" "cp mod 64 < 64"
      using two by auto
    ultimately show ?thesis
      by (simp add: push_utf8_def utf8_def utf8_bits drop_bit_eq_div mark_high)
  next
    case three
    moreover have "cp div 4096 < 16" "cp div 64 mod 64 < 64" "cp mod 64 < 64"
      using three by auto
    ultimately show ?thesis
      by (simp add: push_utf8_def utf8_def utf8_bits drop_bit_eq_div mark_high)
  next
    case four
    moreover have "cp div 262144 < 8" "cp div 4096 mod 64 < 64" "cp div 64 mod 64 < 64" "cp mod 64 < 64"
      using four assms by auto
    ultimately show ?thesis
      by (simp add: push_utf8_def utf8_def utf8_bits drop_bit_eq_div mark_high)
  qed
qed

text \<open>One round of the loop reads one piece.\<close>

lemma at_hex_digits:
  assumes "lx_at l (ds @ c # rest)" "list_all (\<lambda>d. hex_val d \<noteq> None) ds" "hex_val c = None" "n + length ds \<le> 6"
  shows "lex_hex_digits cp n l = (hex_number cp ds, n + length ds, adv (length ds) l)"
  using assms
proof (induction ds arbitrary: cp n l)
  case Nil
  then show ?case by (subst lex_hex_digits.simps) (simp add: at_peek)
next
  case (Cons d ds)
  then obtain v where "hex_val d = Some v" by auto
  then show ?case
    using Cons by (subst lex_hex_digits.simps) (simp add: at_peek at_advance Let_def)
qed

lemma at_byte_escape:
  assumes "lx_at l (a # b # rest)" "hex_val a \<noteq> None" "hex_val b \<noteq> None"
  shows "lex_byte_escape al l sb = (adv 2 l, pushes (piece_stored (P_Byte a b)) sb)"
proof -
  have "lex_hex2 l = (Some (the (hex_val a) * 16 + the (hex_val b)), adv 2 l)"
    using assms at_peek [OF at_adv_Suc [OF assms(1)]] at_advance [OF at_adv_Suc [OF assms(1)]]
    by (auto simp: lex_hex2_def Let_def at_peek at_advance numeral_2_eq_2)
  then show ?thesis
    by (auto simp: lex_byte_escape_def Let_def mark_def push_raw_def lex_marker_defs)
qed

lemma at_unicode_escape:
  assumes "lx_at l (CHR ''{'' # ds @ CHR ''}'' # rest)" "piece_ok (P_Scalar ds)"
  shows "lex_unicode_escape al l sb = (adv (length ds + 2) l, pushes (piece_stored (P_Scalar ds)) sb)"
proof -
  have "hex_val (CHR ''}'') = None" by (simp add: hex_val_def isdigit_def code_def)
  then have "lex_hex_digits 0 0 (iron_advance_char l) = (hex_number 0 ds, length ds, adv (length ds + 1) l)"
    using assms at_hex_digits [of "adv (Suc 0) l" ds "CHR ''}''" rest 0 0] by (simp add: at_advance)
  moreover have "lx_at (adv (length ds + 1) l) (CHR ''}'' # rest)"
    using at_adv [of l "CHR ''{'' # ds" "CHR ''}'' # rest"] assms(1) by simp
  ultimately show ?thesis
    using assms by (auto simp: lex_unicode_escape_def Let_def at_peek at_advance is_scalar_value_def push_utf8_eq)
qed

lemma at_escape:
  assumes "lx_at l (piece_text p @ rest)" "piece_ok p" "\<forall>c. p \<noteq> P_Char c"
  shows "lex_escape al l sb = (adv (length (piece_text p)) l, pushes (piece_stored p) sb)"
proof (cases p)
  case (P_Named e)
  have *: "lx_at (adv (Suc 0) l) (e # rest)"
    using assms(1) P_Named by simp
  have l: "iron_advance_char l = adv (Suc 0) l"
    using assms(1) P_Named by (auto intro: at_advance)
  have "e = CHR ''n'' \<or> e = CHR ''t'' \<or> e = CHR ''r'' \<or> e = CHR ''0'' \<or> e = CHR 0x5C \<or> e = QUOTE \<or> e = CHR ''{'' \<or> e = CHR ''}''"
    using assms(2) P_Named by (auto simp: named_escape_def split: if_splits)
  then show ?thesis
    unfolding lex_escape_def Let_def l at_peek [OF *] at_advance [OF *] P_Named
    by (elim disjE) (simp_all add: named_escape_def mark_def lex_marker_defs numeral_2_eq_2)
next
  case (P_Byte a b)
  have *: "lx_at (adv (Suc 0) l) (CHR ''x'' # a # b # rest)" "lx_at (adv 2 l) (a # b # rest)"
    using assms(1) P_Byte at_adv [of l "[CHR 0x5C]"] at_adv [of l "[CHR 0x5C, CHR ''x'']"] by (auto simp: numeral_2_eq_2)
  have l: "iron_advance_char l = adv (Suc 0) l"
    using assms(1) P_Byte by (auto intro: at_advance)
  show ?thesis
    unfolding lex_escape_def Let_def l at_peek [OF *(1)] at_advance [OF *(1)] P_Byte
    using at_byte_escape [OF *(2), of al sb] assms(2) P_Byte
    by (simp add: numeral_2_eq_2 del: piece_stored.simps)
next
  case (P_Scalar ds)
  have *: "lx_at (adv (Suc 0) l) (CHR ''u'' # CHR ''{'' # ds @ CHR ''}'' # rest)" "lx_at (adv 2 l) (CHR ''{'' # ds @ CHR ''}'' # rest)"
    using assms(1) P_Scalar at_adv [of l "[CHR 0x5C]"] at_adv [of l "[CHR 0x5C, CHR ''u'']"] by (auto simp: numeral_2_eq_2)
  have l: "iron_advance_char l = adv (Suc 0) l"
    using assms(1) P_Scalar by (auto intro: at_advance)
  show ?thesis
    unfolding lex_escape_def Let_def l at_peek [OF *(1)] at_advance [OF *(1)] P_Scalar
    using at_unicode_escape [OF *(2), of al sb] assms(2) P_Scalar
    by (simp add: numeral_2_eq_2 del: piece_stored.simps piece_ok.simps)
qed (use assms in auto)

lemma step_piece:
  assumes "lx_at (ss_lexer st) (piece_text p @ rest)" "piece_ok p" "ss_interp_depth st = 0"
  shows "str_step al False st =
    Str_More (set_lb st (adv (length (piece_text p)) (ss_lexer st), pushes (piece_stored p) (ss_buf st)))"
proof (cases "\<exists>c. p = P_Char c")
  case True
  then obtain c where c: "p = P_Char c" by blast
  have a: "lx_at (ss_lexer st) (c # rest)" using assms(1) c by simp
  show ?thesis
    using assms(2,3) c at_peek [OF a] at_advance [OF a]
    by (auto simp: str_step_def Let_def ends_here_def brace_step_def push_raw_def)
next
  case False
  then obtain xs where x: "piece_text p = CHR 0x5C # xs" by (cases p) auto
  then have a: "iron_peek_char (ss_lexer st) = CHR 0x5C"
    using assms(1) at_peek by simp
  show ?thesis
    using assms(3) at_escape [OF assms(1,2)] False a by (simp add: str_step_def Let_def)
qed

lemma loop_pieces:
  assumes "lx_at (ss_lexer st) (concat (map piece_text ps) @ QUOTE # rest)" "list_all piece_ok ps" "ss_interp_depth st = 0"
  shows "str_loop al False st = Str_End (set_lb st (adv (length (concat (map piece_text ps)) + 1) (ss_lexer st),
     pushes (concat (map piece_stored ps)) (ss_buf st)))"
  using assms
proof (induction ps arbitrary: st)
  case Nil
  then have a: "lx_at (ss_lexer st) (QUOTE # rest)" by simp
  show ?case
    using Nil(3) at_peek [OF a] at_advance [OF a]
    by (subst str_loop.simps) (simp add: str_step_def Let_def ends_here_def skip_end_def brace_step_def)
next
  case (Cons p ps)
  have "lx_at (ss_lexer st) (piece_text p @ concat (map piece_text ps) @ QUOTE # rest)"
    using Cons.prems(1) by simp
  note at = this
  show ?case
    using Cons step_piece [OF at, of al] at_adv [OF at]
    by (subst str_loop.simps) (simp add: set_lb_def add.assoc)
qed

lemma piece_text_nonempty: "piece_text p \<noteq> []"
  by (cases p) auto

text \<open>C13: A one-line literal without interpolation denotes the concatenation of what its pieces denote:
  plain characters, the named escapes, byte escapes (one byte each) and Unicode escapes (the UTF-8
  encoding of the scalar value). The token carries that value with its length, zero bytes included, and
  no diagnostic is issued. The literal must fit the buffer, memory must be there, and an empty literal
  must not be followed by a third quote.
\<close>

theorem string_literal_value:
  assumes at: "lx_at l (QUOTE # concat (map piece_text ps) @ QUOTE # rest)"
    and ok: "list_all piece_ok ps"
    and fits: "length (concat (map piece_stored ps)) \<le> 4095"
    and mem: "al 4096" "al (length (concat (map piece_value ps)) + 1)"
    and not_triple: "ps = [] \<Longrightarrow> rest = [] \<or> hd rest \<noteq> QUOTE"
  shows "iron_lex_string al l =
    ((iron_make_token (adv (length (concat (map piece_text ps)) + 2) l) IRON_TOK_STRING (Some (concat (map piece_value ps)))
        (lx_line l) (lx_col l) (of_nat (length (concat (map piece_text ps)) + 2)))
       \<lparr>tok_value_len := of_nat (length (concat (map piece_value ps)))\<rparr>,
     adv (length (concat (map piece_text ps)) + 2) l)"
proof -
  let ?l1 = "adv (Suc 0) l" and ?t = "concat (map piece_text ps)"
  have a1: "lx_at ?l1 (?t @ QUOTE # rest)" using at_adv_Suc [OF at] .
  have nq: "\<not> (iron_peek_char ?l1 = QUOTE \<and> iron_peek_next ?l1 = QUOTE)"
  proof (cases ps)
    case Nil
    then have r: "lx_at ?l1 (QUOTE # rest)" using a1 by simp
    show ?thesis
    proof (cases rest)
      case Nil
      then show ?thesis using r at_inside [OF r]
        by (auto simp: iron_peek_next_def lx_at_def dest: arg_cong [where f = length])
    next
      case (Cons d ds)
      then show ?thesis using r not_triple \<open>ps = []\<close> by (auto simp: at_peek_next)
    qed
  next
    case (Cons p qs)
    then have "\<exists>c xs. ?t = c # xs \<and> c \<noteq> QUOTE" using ok by (cases p) auto
    then show ?thesis using a1 at_peek by fastforce
  qed
  have loop: "str_loop al False \<lparr>ss_lexer = ?l1, ss_buf = \<lparr>sb_buf = [], sb_overflowed = False\<rparr>, ss_has_interp = False, ss_interp_depth = 0\<rparr>
    = Str_End \<lparr>ss_lexer = adv (length ?t + 2) l, ss_buf = \<lparr>sb_buf = concat (map piece_stored ps), sb_overflowed = False\<rparr>,
               ss_has_interp = False, ss_interp_depth = 0\<rparr>"
    using loop_pieces [of "\<lparr>ss_lexer = ?l1, ss_buf = \<lparr>sb_buf = [], sb_overflowed = False\<rparr>, ss_has_interp = False, ss_interp_depth = 0\<rparr>" ps rest al]
      a1 ok fits by (simp add: pushes_fit set_lb_def)
  show ?thesis
    unfolding iron_lex_string_def Let_def at_advance [OF at] using mem
    by (simp only: nq if_False loop not_False_eq_True)
       (simp add: finish_string_def Let_def unmark_pieces arena_strdup_def del: length_concat)
qed

theorem string_literal_value_witness:
  "let r = iron_lex_string (\<lambda>_. True) (iron_lexer_create \<lparr>marker_test_mode = False, marker_packed_source = False\<rparr>
        (QUOTE # ''a'' @ [CHR 0x5C] @ ''n'' @ [CHR 0x5C] @ ''x7B'' @ [CHR 0x5C] @ ''u{E9}'' @ [CHR 0x5C, CHR ''0'', QUOTE] @ '' b'')
        None iron_diaglist_create ([], 0)) in
   tok_kind (fst r) = IRON_TOK_STRING \<and>
   tok_value (fst r) = Some [CHR ''a'', NL, CHR ''{'', CHR 0xC3, CHR 0xA9, NUL] \<and>
   tok_value_len (fst r) = 6 \<and> tok_len (fst r) = 17"
proof -
  let ?ps = "[P_Char CHR ''a'', P_Named CHR ''n'', P_Byte CHR ''7'' CHR ''B'', P_Scalar ''E9'', P_Named CHR ''0'']"
  let ?l = "iron_lexer_create \<lparr>marker_test_mode = False, marker_packed_source = False\<rparr>
        (QUOTE # ''a'' @ [CHR 0x5C] @ ''n'' @ [CHR 0x5C] @ ''x7B'' @ [CHR 0x5C] @ ''u{E9}'' @ [CHR 0x5C, CHR ''0'', QUOTE] @ '' b'')
        None iron_diaglist_create ([], 0)"
  have hv: "hex_val (CHR ''7'') = Some 7" "hex_val (CHR ''B'') = Some 11" "hex_val (CHR ''E'') = Some 14" "hex_val (CHR ''9'') = Some 9"
    by (simp_all add: hex_val_def isdigit_def code_def)
  have v: "concat (map piece_value ?ps) = [CHR ''a'', NL, CHR ''{'', CHR 0xC3, CHR 0xA9, NUL]"
    by (simp add: hv named_escape_def utf8_def chr_of_def) code_simp
  have "lx_at ?l (QUOTE # concat (map piece_text ?ps) @ QUOTE # '' b'')"
    by (simp add: lx_at_def iron_lexer_create_def)
  moreover have "list_all piece_ok ?ps"
    by (simp add: hv named_escape_def is_scalar_value_def)
  moreover have "length (concat (map piece_stored ?ps)) \<le> 4095"
    by (simp add: hv named_escape_def utf8_def mark_def lex_marker_defs)
  ultimately show ?thesis
    using string_literal_value [of ?l ?ps "'' b''" "\<lambda>_. True"]
    unfolding v by (simp add: iron_make_token_def)
qed

text \<open>
  A backslash before a line break takes the line break into the literal without counting it: the line
  stays, so the tokens after it are reported one line early.
\<close>

lemma escaped_newline_uncounted:
  assumes "lx_at l (CHR 0x5C # NL # rest)"
  shows "lx_line (fst (lex_escape al l b)) = lx_line l" "lx_pos (fst (lex_escape al l b)) = lx_pos l + 2"
proof -
  have "lex_escape al l b = (adv 2 l, PUSH_CHAR NL (PUSH_CHAR (CHR 0x5C) b))"
    using at_advance [OF assms] at_peek [OF at_adv_Suc [OF assms]] at_advance [OF at_adv_Suc [OF assms]]
    by (simp add: lex_escape_def Let_def numeral_2_eq_2)
  then show "lx_line (fst (lex_escape al l b)) = lx_line l" "lx_pos (fst (lex_escape al l b)) = lx_pos l + 2"
    by simp_all
qed

section \<open>The buffer is never overrun\<close>

definition in_room :: "strb \<Rightarrow> bool" where
  "in_room b \<longleftrightarrow> length (sb_buf b) \<le> 4095"

lemma push_room [simp]: "in_room b \<Longrightarrow> in_room (PUSH_CHAR c b)"
  by (simp add: in_room_def PUSH_CHAR_def)

lemma push_raw_room [simp]: "in_room b \<Longrightarrow> in_room (push_raw c b)"
  by (simp add: push_raw_def)

lemma escape_room [simp]: "in_room b \<Longrightarrow> in_room (snd (lex_escape al l b))"
  by (simp add: lex_escape_def Let_def lex_byte_escape_def lex_unicode_escape_def push_utf8_def split: prod.split option.split)

lemma copy_escaped_room: "in_room b \<Longrightarrow> in_room (snd (copy_escaped l b))"
  by (simp add: copy_escaped_def Let_def)

lemma nested_room: "in_room b \<Longrightarrow> in_room (snd (lex_nested nest l b))"
proof (induction nest l b rule: lex_nested.induct)
  case (1 nest l b)
  then show ?case
    using copy_escaped_room [of "PUSH_CHAR (iron_peek_char l) b" "iron_advance_char l"]
    by (subst lex_nested.simps) (auto simp: Let_def split: prod.splits)
qed

lemma legacy_nested_room: "in_room b \<Longrightarrow> in_room (snd (lex_legacy_nested l b))"
  by (induction l b rule: lex_legacy_nested.induct) (subst lex_legacy_nested.simps, simp add: Let_def)

lemma str_step_room:
  assumes "in_room (ss_buf s)"
  shows "in_room (ss_buf (outcome_state (str_step al multiline s)))"
  using assms by (simp add: str_step_def Let_def nested_room legacy_nested_room copy_escaped_room)

lemma str_loop_room: "in_room (ss_buf s) \<Longrightarrow> in_room (ss_buf (outcome_state (str_loop al multiline s)))"
proof (induction al multiline s rule: str_loop.induct)
  case (1 al multiline s)
  then show ?case
    using str_step_room [of s al multiline] by (subst str_loop.simps) (auto split: str_outcome.split)
qed

lemma unmark_length: "length (unmark s) \<le> length s"
  by (induction s rule: unmark.induct) auto

lemma lex_error_no_value [simp]: "tok_value (fst (lex_error al cd msg sl sc sp l)) = None"
  by (simp add: lex_error_def Let_def iron_make_token_def)

text \<open>The value of a string token never exceeds the 4095 bytes the scratch buffer has room for, and the length
  stored in the token is the length of the value, for every source and whatever allocations fail.\<close>

theorem string_value_bounded:
  assumes "tok_value (fst (iron_lex_string al l)) = Some v"
  shows "length v \<le> 4095 \<and> unat (tok_value_len (fst (iron_lex_string al l))) = length v"
proof -
  define l2 where "l2 = (if iron_peek_char (iron_advance_char l) = QUOTE \<and> iron_peek_next (iron_advance_char l) = QUOTE
    then iron_advance_char (iron_advance_char (iron_advance_char l)) else iron_advance_char l)"
  define r where "r = str_loop al (iron_peek_char (iron_advance_char l) = QUOTE \<and> iron_peek_next (iron_advance_char l) = QUOTE)
    \<lparr>ss_lexer = l2, ss_buf = \<lparr>sb_buf = [], sb_overflowed = False\<rparr>, ss_has_interp = False, ss_interp_depth = 0\<rparr>"
  have u: "iron_lex_string al l = (if \<not> al 4096
      then lex_error al IRON_ERR_LEXER_OOM ''out of memory while lexing string literal'' (lx_line l) (lx_col l) (lx_pos l) l2
      else finish_string al (lx_line l) (lx_col l) (lx_pos l) r)"
    by (simp add: iron_lex_string_def Let_def l2_def r_def)
  have room: "in_room (ss_buf (outcome_state r))"
    unfolding r_def by (rule str_loop_room) (simp add: in_room_def)
  have "length v \<le> 4095 \<and> tok_value_len (fst (iron_lex_string al l)) = of_nat (length v)"
    using assms room unmark_length [of "sb_buf (ss_buf (outcome_state r))"] unfolding u
    by (cases r) (auto simp: finish_string_def Let_def arena_strdup_def iron_make_token_def in_room_def split: if_splits)
  then show ?thesis by (auto simp: unat_of_nat_small)
qed

theorem string_value_bounded_witness:
  "length (the (tok_value (fst (iron_lex_string (\<lambda>_. True) (iron_lexer_create \<lparr>marker_test_mode = False, marker_packed_source = False\<rparr>
      [QUOTE, CHR ''a'', QUOTE] None iron_diaglist_create ([], 0)))))) \<le> 4095"
proof -
  let ?l = "iron_lexer_create \<lparr>marker_test_mode = False, marker_packed_source = False\<rparr> [QUOTE, CHR ''a'', QUOTE] None iron_diaglist_create ([], 0)"
  have "tok_value (fst (iron_lex_string (\<lambda>_. True) ?l)) = Some ''a''"
    by (simp add: iron_lex_string_def Let_def iron_lexer_create_def iron_advance_char_def iron_peek_char_def iron_peek_next_def
        str_loop.simps str_step_def ends_here_def skip_end_def brace_step_def set_lb_def push_raw_def PUSH_CHAR_def
        lex_marker_defs finish_string_def arena_strdup_def iron_make_token_def unmark_char_def)
  then show ?thesis
    using string_value_bounded [of "\<lambda>_. True" ?l "''a''"] by simp
qed

end
