(* ===== verification/Lexer_Number.thy ===== *)
theory Lexer_Number
  imports Lexer_Base
begin

text \<open>
  Numbers (\<^verbatim>\<open>iron_lex_number\<close>) and identifiers (\<^verbatim>\<open>iron_lex_identifier\<close>) of
  src/lexer/lexer.c. A hexadecimal or binary literal is converted with \<^verbatim>\<open>strtoull\<close> from a
  buffer of fixed size and stored in decimal. The help texts of the diagnostics are not modelled.
\<close>

section \<open>Conversion\<close>

definition isxdigit :: "char \<Rightarrow> bool" where
  "isxdigit c \<longleftrightarrow> isdigit c \<or> (97 \<le> code c \<and> code c \<le> 102) \<or> (65 \<le> code c \<and> code c \<le> 70)"

definition digit_value :: "char \<Rightarrow> nat" where
  "digit_value c = (if isdigit c then code c - 48 else if 97 \<le> code c then code c - 87 else code c - 55)"

text \<open>The number some digits denote.\<close>

definition number_of :: "nat \<Rightarrow> string \<Rightarrow> nat" where
  "number_of base ds = foldl (\<lambda>n d. n * base + digit_value d) 0 ds"

text \<open>\<^verbatim>\<open>strtoull\<close> on digits of the base: the value, or \<^verbatim>\<open>ERANGE\<close>.\<close>

definition strtoull :: "nat \<Rightarrow> string \<Rightarrow> nat option" where
  "strtoull base ds = (if number_of base ds < 2 ^ 64 then Some (number_of base ds) else None)"

section \<open>Literals with a base prefix\<close>

text \<open>
  The two branches of the code for \<^verbatim>\<open>0x\<close> and \<^verbatim>\<open>0b\<close>: the prefix is next, \<open>room\<close> is
  the size of the buffer without its terminator, \<open>name\<close> the word in the messages.
\<close>

definition lex_based :: "malloc_ok \<Rightarrow> (char \<Rightarrow> bool) \<Rightarrow> nat \<Rightarrow> nat \<Rightarrow> string \<Rightarrow> string \<Rightarrow> Iron_Lexer \<Rightarrow> Iron_Token \<times> Iron_Lexer" where
  "lex_based al is_digit base room name prefix l =
     (let start_line = lx_line l; start_col = lx_col l; start_pos = lx_pos l;
          l1 = iron_advance_char (iron_advance_char l);
          digits_start = lx_pos l1;
          l2 = adv_while is_digit l1 in
      if lx_pos l2 = digits_start
      then lex_error al IRON_ERR_INVALID_NUMBER (''invalid '' @ name @ '' literal: no digits after '' @ prefix) start_line start_col start_pos l2
      else let digits = take (lx_pos l2 - digits_start) (drop digits_start (lx_src l2)) in
        (case strtoull base (take room digits) of
           None \<Rightarrow> lex_error al IRON_ERR_INVALID_NUMBER (name @ '' literal does not fit in 64 bits'') start_line start_col start_pos l2
         | Some v \<Rightarrow>
             (case arena_strdup al (dec v) of
                None \<Rightarrow> lex_error al IRON_ERR_LEXER_OOM (''out of memory while lexing '' @ name @ '' literal'') start_line start_col start_pos l2
              | Some value \<Rightarrow>
                  (iron_make_token l2 IRON_TOK_INTEGER (Some value) start_line start_col (of_nat (lx_pos l2 - start_pos)), l2))))"

section \<open>Decimal literals\<close>

text \<open>
  A decimal error is reported up to where the number ended; the characters after that are consumed
  before the diagnostic is issued, so that one bad literal gives one error.
\<close>

definition number_error :: "malloc_ok \<Rightarrow> string \<Rightarrow> u32 \<Rightarrow> u32 \<Rightarrow> nat \<Rightarrow> Iron_Lexer \<Rightarrow> Iron_Lexer \<Rightarrow> Iron_Token \<times> Iron_Lexer" where
  "number_error al msg start_line start_col start_pos at l =
     (let l1 = lex_diag al IRON_DIAG_ERROR IRON_ERR_INVALID_NUMBER msg start_line start_col (lx_line at) (lx_col at) l in
      (iron_make_token l1 IRON_TOK_ERROR None start_line start_col (of_nat (lx_pos l1 - start_pos)), l1))"

text \<open>The tail of a number written with digit separators.\<close>

function skip_separated :: "Iron_Lexer \<Rightarrow> Iron_Lexer" where
  "skip_separated l =
     (if lx_pos l < length (lx_src l) \<and>
         (isalnum (lx_src l ! lx_pos l) \<or> lx_src l ! lx_pos l = CHR ''_'' \<or>
          (lx_src l ! lx_pos l = CHR ''.'' \<and> lx_pos l + 1 < length (lx_src l) \<and> isdigit (lx_src l ! (lx_pos l + 1))))
      then skip_separated (iron_advance_char l) else l)"
  by pat_completeness auto
termination
  by (relation "measure (\<lambda>l. length (lx_src l) - lx_pos l)") (auto simp: advance_pos)

declare skip_separated.simps [simp del]

text \<open>A letter after the number; an exponent takes its sign along.\<close>

definition skip_suffix :: "Iron_Lexer \<Rightarrow> Iron_Lexer" where
  "skip_suffix l =
     (let exponent = (iron_peek_char l = CHR ''e'' \<or> iron_peek_char l = CHR ''E'');
          l1 = iron_advance_char l;
          l2 = (if exponent \<and> (iron_peek_char l1 = CHR ''+'' \<or> iron_peek_char l1 = CHR ''-'') \<and> isdigit (iron_peek_next l1)
                then iron_advance_char l1 else l1) in
      adv_while isalnum l2)"

definition lex_decimal :: "malloc_ok \<Rightarrow> Iron_Lexer \<Rightarrow> Iron_Token \<times> Iron_Lexer" where
  "lex_decimal al l =
     (let start_line = lx_line l; start_col = lx_col l; start_pos = lx_pos l;
          l1 = adv_while isdigit l;
          is_float = (iron_peek_char l1 = CHR ''.'' \<and> isdigit (iron_peek_next l1));
          l2 = (if is_float then adv_while isdigit (iron_advance_char l1) else l1) in
      if iron_peek_char l2 = CHR ''_'' \<and> isdigit (iron_peek_next l2)
      then number_error al (''invalid numeric literal: digit separators ('' @ [CHR 0x27, CHR ''_'', CHR 0x27] @ '') are not supported'')
             start_line start_col start_pos l2 (skip_separated l2)
      else if isalpha (iron_peek_char l2)
      then number_error al
             (if iron_peek_char l2 = CHR ''e'' \<or> iron_peek_char l2 = CHR ''E''
              then ''invalid numeric literal: exponent notation is not supported''
              else ''invalid numeric literal: unexpected character after number'')
             start_line start_col start_pos l2 (skip_suffix l2)
      else (case arena_strdup al (take (lx_pos l2 - start_pos) (drop start_pos (lx_src l2))) of
          None \<Rightarrow> lex_error al IRON_ERR_LEXER_OOM ''out of memory while lexing numeric literal'' start_line start_col start_pos l2
        | Some value \<Rightarrow>
            (iron_make_token l2 (if is_float then IRON_TOK_FLOAT else IRON_TOK_INTEGER) (Some value) start_line start_col
               (of_nat (lx_pos l2 - start_pos)), l2)))"

definition iron_lex_number :: "malloc_ok \<Rightarrow> Iron_Lexer \<Rightarrow> Iron_Token \<times> Iron_Lexer" where
  "iron_lex_number al l =
     (let c = iron_peek_char l; next = iron_peek_next l in
      if c = CHR ''0'' \<and> (next = CHR ''x'' \<or> next = CHR ''X'')
      then lex_based al isxdigit 16 63 ''hex'' ([CHR 0x27] @ ''0x'' @ [CHR 0x27]) l
      else if c = CHR ''0'' \<and> (next = CHR ''b'' \<or> next = CHR ''B'')
      then lex_based al (\<lambda>d. d = CHR ''0'' \<or> d = CHR ''1'') 2 127 ''binary'' ([CHR 0x27] @ ''0b'' @ [CHR 0x27]) l
      else lex_decimal al l)"

section \<open>Identifiers and keywords\<close>

definition is_ident_char :: "char \<Rightarrow> bool" where
  "is_ident_char c \<longleftrightarrow> isalnum c \<or> c = CHR ''_''"

definition iron_lex_identifier :: "malloc_ok \<Rightarrow> Iron_Lexer \<Rightarrow> Iron_Token \<times> Iron_Lexer" where
  "iron_lex_identifier al l =
     (let start_line = lx_line l; start_col = lx_col l; start_pos = lx_pos l;
          l1 = adv_while is_ident_char l;
          tok_len = lx_pos l1 - start_pos in
      (case arena_strdup al (take tok_len (drop start_pos (lx_src l1))) of
         None \<Rightarrow> lex_error al IRON_ERR_LEXER_OOM ''out of memory while lexing identifier'' start_line start_col start_pos l1
       | Some text \<Rightarrow>
           (iron_make_token l1 (if text = ''_'' then IRON_TOK_WILDCARD else keyword_lookup text) (Some text)
              start_line start_col (of_nat tok_len), l1)))"

section \<open>Tokens cover what was read\<close>

lemma keyword_lookup_not_eof: "keyword_lookup s \<noteq> IRON_TOK_EOF"
proof
  assume "keyword_lookup s = IRON_TOK_EOF"
  then have "(case map_of kw_table s of Some k \<Rightarrow> k | None \<Rightarrow> IRON_TOK_IDENTIFIER) = IRON_TOK_EOF"
    by (simp add: keyword_lookup_map)
  then have "IRON_TOK_EOF \<in> snd ` set kw_table"
    by (auto split: option.splits dest: map_of_SomeD intro: rev_image_eqI)
  then show False by (simp add: kw_table_def)
qed

lemma char_class_NL [simp]: "\<not> isdigit NL" "\<not> isalpha NL" "\<not> isalnum NL" "\<not> isxdigit NL" "\<not> is_ident_char NL"
  and char_class_NUL [simp]: "\<not> isdigit NUL" "\<not> isalpha NUL" "\<not> isalnum NUL"
  by (simp_all add: isdigit_def isalpha_def isalnum_def isxdigit_def is_ident_char_def code_def)

lemma adv_while_less:
  assumes "P (iron_peek_char l)" "lx_pos l < length (lx_src l)"
  shows "lx_pos l < lx_pos (adv_while P l)"
proof -
  have "drop (lx_pos l) (lx_src l) = lx_src l ! lx_pos l # drop (Suc (lx_pos l)) (lx_src l)"
    using assms(2) by (simp add: Cons_nth_drop_Suc)
  then show ?thesis
    using assms by (simp add: adv_while_eq peek_nth)
qed

lemma skip_separated_step: "lx_step l (skip_separated l)"
proof (induction l rule: skip_separated.induct)
  case (1 l)
  show ?case
  proof (cases "lx_pos l < length (lx_src l) \<and>
         (isalnum (lx_src l ! lx_pos l) \<or> lx_src l ! lx_pos l = CHR ''_'' \<or>
          (lx_src l ! lx_pos l = CHR ''.'' \<and> lx_pos l + 1 < length (lx_src l) \<and> isdigit (lx_src l ! (lx_pos l + 1))))")
    case True
    then have "lx_src l ! lx_pos l \<noteq> NL" by auto
    then have "lx_step l (iron_advance_char l)"
      using True by (intro advance_step) (simp add: peek_nth)
    then show ?thesis
      using True "1.IH" by (subst skip_separated.simps) (auto intro: lx_step_trans)
  next
    case False
    then show ?thesis by (subst skip_separated.simps) auto
  qed
qed

lemma skip_suffix_step: "isalpha (iron_peek_char l) \<Longrightarrow> lx_step l (skip_suffix l)"
proof -
  assume a: "isalpha (iron_peek_char l)"
  let ?l1 = "iron_advance_char l"
  define l2 where "l2 = (if (iron_peek_char l = CHR ''e'' \<or> iron_peek_char l = CHR ''E'') \<and>
    (iron_peek_char ?l1 = CHR ''+'' \<or> iron_peek_char ?l1 = CHR ''-'') \<and> isdigit (iron_peek_next ?l1)
    then iron_advance_char ?l1 else ?l1)"
  have "lx_step l ?l1"
    using a by (intro advance_step) auto
  moreover have "lx_step ?l1 l2"
    unfolding l2_def by (auto intro!: advance_step)
  moreover have "lx_step l2 (skip_suffix l)"
    unfolding skip_suffix_def Let_def l2_def [symmetric] by (rule adv_while_step) simp
  ultimately show ?thesis
    by (blast intro: lx_step_trans)
qed

lemma number_error_scanned:
  assumes "lx_step l l'" "lx_pos l < lx_pos l'" "lx_pos l \<le> length (lx_src l)"
  shows "covers l (number_error al msg (lx_line l) (lx_col l) (lx_pos l) at l')"
    "plain l (number_error al msg (lx_line l) (lx_col l) (lx_pos l) at l')"
  using assms lx_step_trans [OF assms(1) diag_step] unfolding number_error_def Let_def
  by (auto intro!: make_token_scanned)

lemma prefix_step:
  assumes "iron_peek_char l \<noteq> NL" "iron_peek_char l \<noteq> NUL" "iron_peek_next l \<noteq> NL"
  shows "lx_step l (iron_advance_char (iron_advance_char l))" "lx_pos l < lx_pos (iron_advance_char (iron_advance_char l))"
proof -
  have p: "lx_pos l < length (lx_src l)"
    using assms(2) by (rule peek_inside)
  have "lx_step l (iron_advance_char l)"
    using assms(1) by (intro advance_step) simp
  moreover have "lx_step (iron_advance_char l) (iron_advance_char (iron_advance_char l))"
    using assms(3) p by (intro advance_step) (auto simp: iron_peek_char_def iron_peek_next_def advance_pos)
  ultimately show "lx_step l (iron_advance_char (iron_advance_char l))"
    by (rule lx_step_trans)
  show "lx_pos l < lx_pos (iron_advance_char (iron_advance_char l))"
    using p advance_pos_le [of "iron_advance_char l"] by (simp add: advance_pos)
qed

lemma based_scanned:
  assumes "iron_peek_char l = CHR ''0''" "iron_peek_next l \<noteq> NL" "\<not> is_digit NL"
  shows "covers l (lex_based al is_digit base room name prefix l) \<and> plain l (lex_based al is_digit base room name prefix l)"
proof -
  let ?l1 = "iron_advance_char (iron_advance_char l)" and ?l2 = "adv_while is_digit (iron_advance_char (iron_advance_char l))"
  have p: "lx_pos l \<le> length (lx_src l)"
    using assms(1) peek_inside [of l] by simp
  have 1: "lx_step l ?l1" "lx_pos l < lx_pos ?l1"
    using prefix_step [of l] assms by auto
  have "lx_step ?l1 ?l2"
    using assms(3) by (rule adv_while_step)
  then have "lx_step l ?l2" "lx_pos l < lx_pos ?l2"
    using 1 lx_stepD(2) [of ?l1 ?l2] by (auto intro: lx_step_trans)
  then show ?thesis
    using lex_error_scanned [of l ?l2] make_token_scanned [of l ?l2] p
    by (simp add: lex_based_def Let_def split: option.split)
qed

lemma decimal_scanned:
  assumes "isdigit (iron_peek_char l)"
  shows "covers l (lex_decimal al l) \<and> plain l (lex_decimal al l)"
proof -
  let ?l1 = "adv_while isdigit l"
  define is_float where "is_float = (iron_peek_char ?l1 = CHR ''.'' \<and> isdigit (iron_peek_next ?l1))"
  define l2 where "l2 = (if is_float then adv_while isdigit (iron_advance_char ?l1) else ?l1)"
  have p: "lx_pos l < length (lx_src l)"
    using assms by (intro peek_inside) auto
  have 1: "lx_step l ?l1" "lx_pos l < lx_pos ?l1"
    using p assms by (auto intro: adv_while_step adv_while_less)
  have "lx_step ?l1 l2"
    unfolding l2_def is_float_def by (auto intro!: lx_step_trans [OF advance_step adv_while_step])
  then have 2: "lx_step l l2" "lx_pos l < lx_pos l2"
    using 1 lx_stepD(2) [of ?l1 l2] by (auto intro: lx_step_trans)
  have 3: "lx_step l l'" "lx_pos l < lx_pos l'" if "lx_step l2 l'" for l'
    using that 2 lx_stepD(2) [OF that] by (auto intro: lx_step_trans)
  show ?thesis
    unfolding lex_decimal_def Let_def is_float_def [symmetric] l2_def [symmetric]
    using p 2 lex_error_scanned [of l l2] make_token_scanned [of l l2]
      number_error_scanned [of l "skip_separated l2"] number_error_scanned [of l "skip_suffix l2"]
      3 [OF skip_separated_step] 3 [OF skip_suffix_step]
    by (auto split: option.split)
qed

lemma number_scanned:
  assumes "isdigit (iron_peek_char l)"
  shows "covers l (iron_lex_number al l) \<and> plain l (iron_lex_number al l)"
  using assms based_scanned decimal_scanned by (auto simp: iron_lex_number_def Let_def)

lemma identifier_scanned:
  assumes "isalpha (iron_peek_char l) \<or> iron_peek_char l = CHR ''_''"
  shows "covers l (iron_lex_identifier al l) \<and> plain l (iron_lex_identifier al l)"
proof -
  let ?l1 = "adv_while is_ident_char l"
  have p: "lx_pos l < length (lx_src l)"
    using assms by (intro peek_inside) auto
  then have "lx_step l ?l1" "lx_pos l < lx_pos ?l1"
    using assms by (auto intro!: adv_while_step adv_while_less simp: is_ident_char_def isalnum_def)
  then show ?thesis
    using p lex_error_scanned [of l ?l1] make_token_scanned [of l ?l1] keyword_lookup_not_eof
    by (simp add: iron_lex_identifier_def Let_def split: option.split)
qed

interpretation number_lexer: scanner "iron_lex_number al" isdigit for al
  by unfold_locales (auto simp: number_scanned)

interpretation identifier_lexer: scanner "iron_lex_identifier al" "\<lambda>c. isalpha c \<or> c = CHR ''_''" for al
  by unfold_locales (auto simp: identifier_scanned)

section \<open>What the tokens denote\<close>

lemma take_at: "lx_at l (xs @ ys) \<Longrightarrow> take (length xs) (drop (lx_pos l) (lx_src l)) = xs"
  by (simp add: lx_at_def)

text \<open>The four spellings of a base prefix: base, letter, digits and room of the buffer.\<close>

definition based_forms :: "(nat \<times> char \<times> (char \<Rightarrow> bool) \<times> nat) list" where
  "based_forms = [(16, CHR ''x'', isxdigit, 63), (16, CHR ''X'', isxdigit, 63),
     (2, CHR ''b'', \<lambda>d. d = CHR ''0'' \<or> d = CHR ''1'', 127), (2, CHR ''B'', \<lambda>d. d = CHR ''0'' \<or> d = CHR ''1'', 127)]"

lemma based_reads:
  assumes form: "(base, x, is_digit, room) \<in> set based_forms"
    and at: "lx_at l (CHR ''0'' # x # ds @ rest)"
    and digits: "list_all is_digit ds" "ds \<noteq> []" and stop: "rest = [] \<or> \<not> is_digit (hd rest)"
    and mem: "\<forall>n. al n"
  shows "case strtoull base (take room ds) of
      Some v \<Rightarrow> iron_lex_number al l =
        (iron_make_token (adv (length ds + 2) l) IRON_TOK_INTEGER (Some (dec v)) (lx_line l) (lx_col l) (of_nat (length ds + 2)),
         adv (length ds + 2) l)
    | None \<Rightarrow> \<exists>msg. iron_lex_number al l =
        lex_error al IRON_ERR_INVALID_NUMBER msg (lx_line l) (lx_col l) (lx_pos l) (adv (length ds + 2) l)"
proof -
  have at2: "lx_at (adv (Suc (Suc 0)) l) (ds @ rest)"
    using at at_adv [of l "[CHR ''0'', x]" "ds @ rest"] by simp
  have adv2: "iron_advance_char (iron_advance_char l) = adv (Suc (Suc 0)) l"
    using at_advance [OF at] at_advance [OF at_adv_Suc [OF at]] by simp
  have loop: "adv_while is_digit (adv (Suc (Suc 0)) l) = adv (length ds + 2) l"
    using at_adv_while [OF at2 digits(1)] stop by simp
  have tk: "take (length ds) (drop (Suc (Suc (lx_pos l))) (lx_src l)) = ds"
    using take_at [OF at2] by simp
  have "lx_pos (adv (length ds + 2) l) \<noteq> lx_pos (adv (Suc (Suc 0)) l)"
    using digits(2) by simp
  then have b: "case strtoull base (take room ds) of
      Some v \<Rightarrow> lex_based al is_digit base room nm pre l =
        (iron_make_token (adv (length ds + 2) l) IRON_TOK_INTEGER (Some (dec v)) (lx_line l) (lx_col l) (of_nat (length ds + 2)),
         adv (length ds + 2) l)
    | None \<Rightarrow> \<exists>msg. lex_based al is_digit base room nm pre l =
        lex_error al IRON_ERR_INVALID_NUMBER msg (lx_line l) (lx_col l) (lx_pos l) (adv (length ds + 2) l)" for nm pre
    using mem tk unfolding lex_based_def Let_def adv2 loop
    by (auto simp: arena_strdup_def digits(2) split: option.split)
  have "iron_peek_char l = CHR ''0''" "iron_peek_next l = x"
    using at_peek [OF at] at_peek_next [OF at] by auto
  then have "iron_lex_number al l = lex_based al is_digit base room ''hex'' ([CHR 0x27] @ ''0x'' @ [CHR 0x27]) l \<or>
      iron_lex_number al l = lex_based al is_digit base room ''binary'' ([CHR 0x27] @ ''0b'' @ [CHR 0x27]) l"
    using form by (auto simp: based_forms_def iron_lex_number_def Let_def)
  then show ?thesis by (elim disjE) (simp_all only: b)
qed


abbreviation plain_lexer :: "string \<Rightarrow> Iron_Lexer" where
  "plain_lexer src \<equiv> iron_lexer_create \<lparr>marker_test_mode = False, marker_packed_source = False\<rparr> src None iron_diaglist_create ([], 0)"

lemma plain_lexer_at: "NUL \<notin> set src \<Longrightarrow> lx_at (plain_lexer src) src"
  by (simp add: lx_at_def iron_lexer_create_def takeWhile_eq_all_conv) (metis takeWhile_eq_all_conv)


text \<open>
  Digits beyond the buffer are dropped from the end, leading zeros included: sixty-three zeros and a one
  is read as zero, with no diagnostic.
\<close>

lemma hex_literal_truncated:
  "iron_lex_number (\<lambda>_. True) (plain_lexer (''0x'' @ replicate 63 CHR ''0'' @ ''1'')) =
    (iron_make_token (adv 66 (plain_lexer (''0x'' @ replicate 63 CHR ''0'' @ ''1''))) IRON_TOK_INTEGER (Some ''0'') 1 1 66,
     adv 66 (plain_lexer (''0x'' @ replicate 63 CHR ''0'' @ ''1'')))"
proof -
  let ?ds = "replicate 63 CHR ''0'' @ ''1''"
  have "foldl (\<lambda>n d. n * 16 + digit_value d) 0 (replicate k CHR ''0'') = 0" for k
    by (induction k) (simp_all add: digit_value_def isdigit_def code_def)
  then have "number_of 16 (take 63 ?ds) = 0"
    by (simp add: number_of_def)
  moreover have "list_all isxdigit ?ds"
    by (simp add: isxdigit_def isdigit_def code_def list_all_iff)
  moreover have "dec 0 = ''0''" by code_simp
  ultimately show ?thesis
    using based_reads [of 16 "CHR ''x''" isxdigit 63 "plain_lexer (''0x'' @ ?ds)" ?ds "[]" "\<lambda>_. True"]
      plain_lexer_at [of "''0x'' @ ?ds"]
    by (simp add: based_forms_def strtoull_def) (simp add: iron_lexer_create_def)
qed

text \<open>C15: An identifier is lexed by maximal munch: the token takes every following letter, digit and
  underscore, carries that text, and has the keyword's kind exactly when the text is a keyword; a single
  underscore is the wildcard.\<close>

theorem identifier_maximal_munch:
  assumes "lx_at l (c # cs @ rest)" "isalpha c \<or> c = CHR ''_''" "list_all is_ident_char cs"
    and "rest = [] \<or> \<not> is_ident_char (hd rest)" and "al (length cs + 2)"
  shows "iron_lex_identifier al l =
    (iron_make_token (adv (length cs + 1) l)
       (if c # cs = ''_'' then IRON_TOK_WILDCARD
        else case map_of kw_table (c # cs) of Some k \<Rightarrow> k | None \<Rightarrow> IRON_TOK_IDENTIFIER)
       (Some (c # cs)) (lx_line l) (lx_col l) (of_nat (length cs + 1)), adv (length cs + 1) l)"
proof -
  have at: "lx_at l ((c # cs) @ rest)" using assms(1) by simp
  have "list_all is_ident_char (c # cs)"
    using assms(2,3) by (auto simp: is_ident_char_def isalnum_def)
  then have "adv_while is_ident_char l = adv (length (c # cs)) l"
    using at_adv_while [OF at] assms(4) by simp
  moreover have "arena_strdup al (take (length (c # cs)) (drop (lx_pos l) (lx_src l))) = Some (c # cs)"
    unfolding take_at [OF at] using assms(5) by (simp add: arena_strdup_def)
  moreover have "(if c # cs = ''_'' then IRON_TOK_WILDCARD else keyword_lookup (c # cs)) =
      (if c # cs = ''_'' then IRON_TOK_WILDCARD
       else case map_of kw_table (c # cs) of Some k \<Rightarrow> k | None \<Rightarrow> IRON_TOK_IDENTIFIER)"
    by (simp only: keyword_lookup_map)
  ultimately show ?thesis
    by (simp add: iron_lex_identifier_def Let_def)
qed

theorem identifier_maximal_munch_witness:
  "tok_kind (fst (iron_lex_identifier (\<lambda>_. True) (plain_lexer ''iffy(x)''))) = IRON_TOK_IDENTIFIER"
proof -
  have "map_of kw_table ''iffy'' = None" by (simp add: kw_table_def)
  moreover have "list_all is_ident_char ''ffy''" "isalpha CHR ''i''" "\<not> is_ident_char CHR ''(''"
    by (simp_all add: is_ident_char_def isalnum_def isalpha_def isdigit_def code_def)
  ultimately show ?thesis
    using identifier_maximal_munch [of "plain_lexer ''iffy(x)''" "CHR ''i''" "''ffy''" "''(x)''" "\<lambda>_. True"]
      plain_lexer_at [of "''iffy(x)''"]
    by (simp add: iron_make_token_def)
qed

end
