(* ===== verification/Lexer.thy ===== *)
theory Lexer
  imports Lexer_String Lexer_Number
begin

unbundle bit_operations_syntax

text \<open>
  Punctuation, the main loop and the guarantees of the whole lexer (src/lexer/lexer.c): every byte of
  the source is in exactly one token or is a blank between two, the list ends with one end-of-file token,
  and in user text every token carries the line and column of its first byte.
\<close>

section \<open>Punctuation\<close>

fun hex_digits :: "nat \<Rightarrow> nat \<Rightarrow> nat \<Rightarrow> string" where
  "hex_digits ten 0 n = []"
| "hex_digits ten (Suc k) n =
     hex_digits ten k (n div 16) @ [char_of (let d = n mod 16 in if d < 10 then 48 + d else ten + d - 10)]"

text \<open>\<^verbatim>\<open>%04X\<close> of a code point and \<^verbatim>\<open>%02x\<close> of a byte.\<close>

definition fmt_U :: "nat \<Rightarrow> string" where
  "fmt_U cp = hex_digits 65 (if cp < 0x10000 then 4 else if cp < 0x100000 then 5 else 6) cp"

definition fmt_x2 :: "nat \<Rightarrow> string" where
  "fmt_x2 b = hex_digits 97 2 b"

definition utf8_need :: "nat \<Rightarrow> nat" where
  "utf8_need lead =
     (if 0xF0 \<le> lead \<and> lead \<le> 0xF4 then 3
      else if 0xE0 \<le> lead \<and> lead \<le> 0xEF then 2
      else if 0xC2 \<le> lead \<and> lead \<le> 0xDF then 1 else 0)"

text \<open>The unrecognized character \<open>c\<close> was just consumed: a whole UTF-8 sequence is one character.\<close>

definition lex_invalid_char :: "malloc_ok \<Rightarrow> u32 \<Rightarrow> u32 \<Rightarrow> nat \<Rightarrow> char \<Rightarrow> Iron_Lexer \<Rightarrow> Iron_Token \<times> Iron_Lexer" where
  "lex_invalid_char al start_line start_col start_pos c l =
     (let lead = code c;
          need = utf8_need lead;
          conts = take need (drop (lx_pos l) (lx_src l));
          whole = (need > 0 \<and> lx_pos l + need \<le> length (lx_src l) \<and> list_all (\<lambda>b. code b AND 0xC0 = 0x80) conts);
          cp = foldl (\<lambda>cp b. push_bit 6 cp OR (code b AND 0x3F))
                 (lead AND (if need = 1 then 0x1F else if need = 2 then 0x0F else 0x07)) conts;
          msg = (if whole then ''invalid character '' @ [CHR 0x27] @ c # conts @ [CHR 0x27] @ '' (U+'' @ fmt_U cp @ '')''
                 else if 32 \<le> lead \<and> lead < 127 then ''invalid character '' @ [CHR 0x27, c, CHR 0x27]
                 else ''invalid character (0x'' @ fmt_x2 lead @ '')'');
          l1 = (if whole then (iron_advance_char ^^ need) l else l);
          arena_msg = (case arena_strdup al msg of Some m \<Rightarrow> m | None \<Rightarrow> ''invalid character'');
          l2 = lex_diag al IRON_DIAG_ERROR IRON_ERR_INVALID_CHAR arena_msg start_line start_col start_line
                 (start_col + of_nat (lx_pos l1 - start_pos) - 1) l1 in
      (iron_make_token l2 IRON_TOK_ERROR None start_line start_col (of_nat (lx_pos l2 - start_pos)), l2))"

text \<open>The help text names the Iron spelling; it is not modelled.\<close>

definition iron_lex_c_operator :: "malloc_ok \<Rightarrow> Iron_TokenKind \<Rightarrow> string \<Rightarrow> u32 \<Rightarrow> u32 \<Rightarrow> u32 \<Rightarrow> Iron_Lexer \<Rightarrow> Iron_Token \<times> Iron_Lexer" where
  "iron_lex_c_operator al kind oper start_line start_col len l =
     (let msg = [CHR 0x27] @ oper @ [CHR 0x27] @ '' is not an Iron operator'';
          arena_msg = (case arena_strdup al msg of Some m \<Rightarrow> m | None \<Rightarrow> ''invalid character'');
          l1 = lex_diag al IRON_DIAG_ERROR IRON_ERR_INVALID_CHAR arena_msg start_line start_col start_line (start_col + len) l in
      (iron_make_token l1 kind None start_line start_col len, l1))"

definition iron_lex_punctuation :: "malloc_ok \<Rightarrow> Iron_Lexer \<Rightarrow> Iron_Token \<times> Iron_Lexer" where
  "iron_lex_punctuation al l =
     (let start_line = lx_line l; start_col = lx_col l; start_pos = lx_pos l;
          c = iron_peek_char l; l1 = iron_advance_char l;
          n = iron_peek_char l1; l2 = iron_advance_char l1;
          l3 = iron_advance_char l2;
          tok = (\<lambda>kind len l'. (iron_make_token l' kind None start_line start_col len, l')) in
      if c = CHR ''+'' then (if n = CHR ''='' then tok IRON_TOK_PLUS_ASSIGN 2 l2 else tok IRON_TOK_PLUS 1 l1)
      else if c = CHR ''-'' then
        (if n = CHR ''>'' then tok IRON_TOK_ARROW 2 l2
         else if n = CHR ''-'' then iron_lex_line_comment al start_line start_col start_pos IRON_COMMENT_DASH l1
         else if n = CHR ''='' then tok IRON_TOK_MINUS_ASSIGN 2 l2
         else tok IRON_TOK_MINUS 1 l1)
      else if c = CHR ''*'' then (if n = CHR ''='' then tok IRON_TOK_STAR_ASSIGN 2 l2 else tok IRON_TOK_STAR 1 l1)
      else if c = CHR ''/'' then
        (if n = CHR ''='' then tok IRON_TOK_SLASH_ASSIGN 2 l2
         else if n = CHR ''/'' \<and> iron_peek_next l1 = CHR ''/'' then iron_lex_doc_comment al start_line start_col start_pos l1
         else if n = CHR ''/'' then iron_lex_line_comment al start_line start_col start_pos 0 l1
         else tok IRON_TOK_SLASH 1 l1)
      else if c = CHR ''%'' then tok IRON_TOK_PERCENT 1 l1
      else if c = CHR ''='' then (if n = CHR ''='' then tok IRON_TOK_EQUALS 2 l2 else tok IRON_TOK_ASSIGN 1 l1)
      else if c = CHR ''!'' then
        (if n = CHR ''='' then tok IRON_TOK_NOT_EQUALS 2 l2
         else iron_lex_c_operator al IRON_TOK_NOT ''!'' start_line start_col 1 l1)
      else if c = CHR ''<'' then
        (if n = CHR ''='' then tok IRON_TOK_LESS_EQ 2 l2
         else if n = CHR ''<'' then
           (if iron_peek_char l2 = CHR ''='' then tok IRON_TOK_SHL_ASSIGN 3 l3 else tok IRON_TOK_SHL 2 l2)
         else tok IRON_TOK_LESS 1 l1)
      else if c = CHR ''>'' then
        (if n = CHR ''='' then tok IRON_TOK_GREATER_EQ 2 l2
         else if n = CHR ''>'' then
           (if iron_peek_char l2 = CHR ''='' then tok IRON_TOK_SHR_ASSIGN 3 l3 else tok IRON_TOK_SHR 2 l2)
         else tok IRON_TOK_GREATER 1 l1)
      else if c = CHR ''&'' then
        (if n = CHR ''='' then tok IRON_TOK_AMP_ASSIGN 2 l2
         else if n = CHR ''&'' then iron_lex_c_operator al IRON_TOK_AND ''&&'' start_line start_col 2 l2
         else tok IRON_TOK_AMP 1 l1)
      else if c = CHR ''|'' then
        (if n = CHR ''='' then tok IRON_TOK_PIPE_ASSIGN 2 l2
         else if n = CHR ''|'' then iron_lex_c_operator al IRON_TOK_OR ''||'' start_line start_col 2 l2
         else tok IRON_TOK_PIPE 1 l1)
      else if c = CHR ''^'' then (if n = CHR ''='' then tok IRON_TOK_CARET_ASSIGN 2 l2 else tok IRON_TOK_CARET 1 l1)
      else if c = CHR ''~'' then tok IRON_TOK_TILDE 1 l1
      else if c = CHR ''.'' then (if n = CHR ''.'' then tok IRON_TOK_DOTDOT 2 l2 else tok IRON_TOK_DOT 1 l1)
      else if c = CHR '','' then tok IRON_TOK_COMMA 1 l1
      else if c = CHR '':'' then tok IRON_TOK_COLON 1 l1
      else if c = CHR ''?'' then tok IRON_TOK_QUESTION 1 l1
      else if c = CHR ''@'' then tok IRON_TOK_AT 1 l1
      else if c = CHR ''('' then tok IRON_TOK_LPAREN 1 l1
      else if c = CHR '')'' then tok IRON_TOK_RPAREN 1 l1
      else if c = CHR ''['' then tok IRON_TOK_LBRACKET 1 l1
      else if c = CHR '']'' then tok IRON_TOK_RBRACKET 1 l1
      else if c = CHR ''{'' then tok IRON_TOK_LBRACE 1 l1
      else if c = CHR ''}'' then tok IRON_TOK_RBRACE 1 l1
      else if c = CHR '';'' then tok IRON_TOK_SEMICOLON 1 l1
      else lex_invalid_char al start_line start_col start_pos c l1)"

text \<open>The branches of the main loop that call a token lexer.\<close>

definition iron_lex_token :: "malloc_ok \<Rightarrow> Iron_Lexer \<Rightarrow> Iron_Token \<times> Iron_Lexer" where
  "iron_lex_token al l =
     (let c = iron_peek_char l in
      if c = QUOTE then iron_lex_string al l
      else if isdigit c then iron_lex_number al l
      else if isalpha c \<or> c = CHR ''_'' then iron_lex_identifier al l
      else iron_lex_punctuation al l)"

section \<open>Punctuation covers what was read\<close>

text \<open>The contract of a token lexer at one point, as a predicate that distributes over the branches.\<close>

definition scanned :: "Iron_Lexer \<Rightarrow> Iron_Token \<times> Iron_Lexer \<Rightarrow> bool" where
  "scanned l r \<longleftrightarrow> covers l r \<and> (quiet l \<longrightarrow> plain l r)"

lemma scanned_if: "(b \<Longrightarrow> scanned l x) \<Longrightarrow> (\<not> b \<Longrightarrow> scanned l y) \<Longrightarrow> scanned l (if b then x else y)"
  by simp

lemma scanned_token:
  assumes "lx_step l l'" "lx_pos l < lx_pos l'" "kind \<noteq> IRON_TOK_EOF" "len = of_nat (lx_pos l' - lx_pos l)" "lx_pos l \<le> length (lx_src l)"
  shows "scanned l (iron_make_token l' kind v (lx_line l) (lx_col l) len, l')"
  using make_token_scanned [OF assms(1,2,5,3)] assms(4) by (simp add: scanned_def)

lemma chars_step:
  assumes "iron_peek_char l \<noteq> NUL" "iron_peek_char l \<noteq> NL"
  shows "lx_step l (iron_advance_char l)" "lx_pos (iron_advance_char l) = Suc (lx_pos l)" "lx_pos l < length (lx_src l)"
  using assms peek_inside [of l] by (auto intro: advance_step simp: advance_pos)

lemma scanned_1:
  assumes "iron_peek_char l \<noteq> NUL" "iron_peek_char l \<noteq> NL" "kind \<noteq> IRON_TOK_EOF"
  shows "scanned l (iron_make_token (iron_advance_char l) kind v (lx_line l) (lx_col l) 1, iron_advance_char l)"
  using chars_step [OF assms(1,2)] assms(3) by (intro scanned_token) auto

lemma scanned_2:
  assumes "iron_peek_char l \<noteq> NUL" "iron_peek_char l \<noteq> NL" "kind \<noteq> IRON_TOK_EOF"
    "iron_peek_char (iron_advance_char l) \<noteq> NUL" "iron_peek_char (iron_advance_char l) \<noteq> NL"
  shows "scanned l (iron_make_token (iron_advance_char (iron_advance_char l)) kind v (lx_line l) (lx_col l) 2, iron_advance_char (iron_advance_char l))"
  using chars_step [OF assms(1,2)] chars_step [OF assms(4,5)] assms(3)
  by (intro scanned_token) (auto intro: lx_step_trans)

lemma scanned_3:
  assumes "iron_peek_char l \<noteq> NUL" "iron_peek_char l \<noteq> NL" "kind \<noteq> IRON_TOK_EOF"
    "iron_peek_char (iron_advance_char l) \<noteq> NUL" "iron_peek_char (iron_advance_char l) \<noteq> NL"
    "iron_peek_char (iron_advance_char (iron_advance_char l)) \<noteq> NUL" "iron_peek_char (iron_advance_char (iron_advance_char l)) \<noteq> NL"
  shows "scanned l (iron_make_token (iron_advance_char (iron_advance_char (iron_advance_char l))) kind v (lx_line l) (lx_col l) 3,
    iron_advance_char (iron_advance_char (iron_advance_char l)))"
  using chars_step [OF assms(1,2)] chars_step [OF assms(4,5)] chars_step [OF assms(6,7)] assms(3)
  by (intro scanned_token) (auto intro: lx_step_trans)

lemma scanned_c_operator:
  assumes "lx_step l l'" "lx_pos l < lx_pos l'" "kind \<noteq> IRON_TOK_EOF" "len = of_nat (lx_pos l' - lx_pos l)" "lx_pos l \<le> length (lx_src l)"
  shows "scanned l (iron_lex_c_operator al kind oper (lx_line l) (lx_col l) len l')"
  using assms lx_step_trans [OF assms(1) diag_step] unfolding iron_lex_c_operator_def Let_def
  by (intro scanned_token) auto

lemma advance_funpow_step:
  assumes "lx_pos l + n \<le> length (lx_src l)" "\<And>i. i < n \<Longrightarrow> lx_src l ! (lx_pos l + i) \<noteq> NL"
  shows "lx_step l ((iron_advance_char ^^ n) l) \<and> lx_pos ((iron_advance_char ^^ n) l) = lx_pos l + n"
  using assms
proof (induction n)
  case (Suc n)
  let ?l = "(iron_advance_char ^^ n) l"
  have ih: "lx_step l ?l" "lx_pos ?l = lx_pos l + n"
    using Suc by auto
  then have "iron_peek_char ?l = lx_src l ! (lx_pos l + n)"
    using Suc.prems lx_stepD(1) [OF ih(1)] by (auto simp: iron_peek_char_def)
  then have "lx_step ?l (iron_advance_char ?l)"
    using Suc.prems(2) [of n] by (intro advance_step) simp
  then show ?case
    using ih Suc.prems(1) lx_stepD(1) [OF ih(1)] by (auto intro: lx_step_trans simp: advance_pos)
qed simp

lemma scanned_invalid:
  assumes "iron_peek_char l \<noteq> NUL" "iron_peek_char l \<noteq> NL"
  shows "scanned l (lex_invalid_char al (lx_line l) (lx_col l) (lx_pos l) c (iron_advance_char l))"
proof -
  let ?l1 = "iron_advance_char l"
  define n where "n = utf8_need (code c)"
  define whole where "whole = (n > 0 \<and> lx_pos ?l1 + n \<le> length (lx_src ?l1) \<and>
    list_all (\<lambda>b. code b AND 0xC0 = 0x80) (take n (drop (lx_pos ?l1) (lx_src ?l1))))"
  define l2 where "l2 = (if whole then (iron_advance_char ^^ n) ?l1 else ?l1)"
  have 1: "lx_step l ?l1" "lx_pos ?l1 = Suc (lx_pos l)" "lx_pos l < length (lx_src l)"
    using chars_step [OF assms] by auto
  have 2: "lx_step ?l1 l2"
  proof (cases whole)
    case True
    have "lx_src ?l1 ! (lx_pos ?l1 + i) \<noteq> NL" if "i < n" for i
    proof -
      have "code (lx_src ?l1 ! (lx_pos ?l1 + i)) AND 0xC0 = 0x80"
        using True that by (auto simp: whole_def list_all_length)
      moreover have "code NL AND 0xC0 = (0::nat)" by (simp add: code_def)
      ultimately show ?thesis by (metis zero_neq_numeral)
    qed
    then show ?thesis
      using True advance_funpow_step [of ?l1 n] by (simp add: l2_def whole_def)
  qed (simp add: l2_def)
  have s: "lx_step l l2" "lx_pos l < lx_pos l2"
    using 1 2 lx_stepD(2) [OF 2] by (auto intro: lx_step_trans)
  show ?thesis
    unfolding lex_invalid_char_def Let_def n_def [symmetric] whole_def [symmetric] l2_def [symmetric]
    using s 1(3) lx_step_trans [OF s(1) diag_step] by (intro scanned_token) auto
qed

text \<open>Comments. A marker moves the lexer to another file, but never in the text.\<close>

lemma marker_keeps:
  assumes "iron_lex_comment_marker al i l = (b, l')"
  shows "lx_src l' = lx_src l" "lx_pos l' = lx_pos l"
  using assms by (auto simp: iron_lex_comment_marker_def Let_def split: if_splits option.splits prod.splits)

definition lx_fwd :: "Iron_Lexer \<Rightarrow> Iron_Lexer \<Rightarrow> bool" where
  "lx_fwd l l' \<longleftrightarrow> lx_src l' = lx_src l \<and> lx_pos l \<le> lx_pos l' \<and>
     (lx_pos l \<le> length (lx_src l) \<longrightarrow> lx_pos l' \<le> length (lx_src l))"

lemma fwd_trans: "lx_fwd l l' \<Longrightarrow> lx_fwd l' l'' \<Longrightarrow> lx_fwd l l''"
  by (auto simp: lx_fwd_def)

lemma step_fwd: "lx_step l l' \<Longrightarrow> lx_fwd l l'"
  by (simp add: lx_step_def lx_fwd_def)

lemma scanned_upd: "scanned l (t\<lparr>tok_comment := f\<rparr>, l') = scanned l (t, l')"
  by (simp add: scanned_def covers_def plain_def)

text \<open>The text of a comment is consumed whole.\<close>

lemma comment_text_step: "lx_step l (comment_newline (truncation_note al msg sl sc tx (adv_while (\<lambda>c. c \<noteq> NL) l)))"
  "lx_step l (truncation_note al msg sl sc tx (adv_while (\<lambda>c. c \<noteq> NL) l))"
  using adv_while_step [of "\<lambda>c. c \<noteq> NL" l] lx_step_trans [OF _ note_step] lx_step_trans [OF _ comment_newline_step]
  by blast+

lemma scanned_line_comment:
  assumes "iron_peek_char l \<noteq> NUL" "iron_peek_char l \<noteq> NL"
    "iron_peek_char (iron_advance_char l) \<noteq> NUL" "iron_peek_char (iron_advance_char l) \<noteq> NL"
  shows "scanned l (iron_lex_line_comment al (lx_line l) (lx_col l) (lx_pos l) spelling (iron_advance_char l))"
proof -
  let ?l1 = "iron_advance_char l"
  obtain m l0 where m: "iron_lex_comment_marker al (lx_pos ?l1 + 1) ?l1 = (m, l0)"
    by (cases "iron_lex_comment_marker al (lx_pos ?l1 + 1) ?l1")
  obtain tx flags where r: "iron_lex_line_comment al (lx_line l) (lx_col l) (lx_pos l) spelling ?l1 =
      (let l5 = comment_newline (truncation_note al ''comment truncated to 8 KB'' (lx_line l) (lx_col l) tx
                  (adv_while (\<lambda>c. c \<noteq> NL) (iron_advance_char l0))) in
       ((iron_make_token l5 IRON_TOK_NEWLINE (Some (arena_text al tx)) (lx_line l) (lx_col l) (of_nat (lx_pos l5 - lx_pos l)))
          \<lparr>tok_comment := flags\<rparr>, l5))"
    unfolding iron_lex_line_comment_def m Let_def prod.case by blast
  define l5 where "l5 = comment_newline (truncation_note al ''comment truncated to 8 KB'' (lx_line l) (lx_col l) tx (adv_while (\<lambda>c. c \<noteq> NL) (iron_advance_char l0)))"
  have l5: "lx_step (iron_advance_char l0) l5"
    unfolding l5_def by (rule comment_text_step)
  have 1: "lx_step l ?l1" "lx_pos ?l1 = Suc (lx_pos l)" "lx_pos l < length (lx_src l)"
    using chars_step [OF assms(1,2)] by auto
  have 0: "lx_src l0 = lx_src l" "lx_pos l0 = Suc (lx_pos l)"
    using marker_keeps [OF m] 1(2) by auto
  have "lx_pos ?l1 < length (lx_src l)"
    using chars_step [OF assms(3,4)] by simp
  then have "lx_pos (iron_advance_char l0) = Suc (Suc (lx_pos l))"
    using 0 1(2) by (simp add: advance_pos)
  then have c: "lx_src l5 = lx_src l" "lx_pos l < lx_pos l5" "lx_pos l5 \<le> length (lx_src l)"
    using lx_stepD(1,2,3) [OF l5] 0 1(2) \<open>lx_pos ?l1 < length (lx_src l)\<close> by auto
  have "lx_step l l5" if "quiet l"
  proof -
    have "l0 = ?l1"
      using that m quiet_marker [of ?l1 al "lx_pos ?l1 + 1"] by (auto simp: quiet_def iron_advance_char_def split: if_splits)
    then show ?thesis
      using l5 1(1) chars_step(1) [OF assms(3,4)] by (auto intro: lx_step_trans)
  qed
  then show ?thesis
    unfolding r Let_def l5_def [symmetric] scanned_upd
    using c by (auto simp: scanned_def covers_def plain_def iron_make_token_def lx_stepD)
qed

lemma scanned_doc_comment:
  assumes "iron_peek_char l \<noteq> NUL" "iron_peek_char l \<noteq> NL"
    "iron_peek_char (iron_advance_char l) \<noteq> NUL" "iron_peek_char (iron_advance_char l) \<noteq> NL"
    "iron_peek_next (iron_advance_char l) \<noteq> NUL" "iron_peek_next (iron_advance_char l) \<noteq> NL"
  shows "scanned l (iron_lex_doc_comment al (lx_line l) (lx_col l) (lx_pos l) (iron_advance_char l))"
proof -
  let ?l1 = "iron_advance_char l" and ?l3 = "iron_advance_char (iron_advance_char (iron_advance_char l))"
  have nx: "iron_peek_char (iron_advance_char ?l1) = iron_peek_next ?l1"
    by (simp add: iron_peek_char_def iron_peek_next_def iron_advance_char_def)
  have 3: "lx_step l ?l3" "lx_pos l < lx_pos ?l3" "lx_pos l < length (lx_src l)"
    using chars_step [OF assms(1,2)] chars_step [OF assms(3,4)] chars_step [of "iron_advance_char ?l1"] assms(5,6)
    by (auto simp: nx intro: lx_step_trans)
  define l4 where "l4 = (if iron_peek_char ?l3 = CHR '' '' then iron_advance_char ?l3 else ?l3)"
  have "lx_step ?l3 l4"
    by (auto simp: l4_def intro!: advance_step)
  then have s: "lx_step l (truncation_note al msg sl sc tx (adv_while (\<lambda>c. c \<noteq> NL) l4))"
      "lx_pos l < lx_pos (truncation_note al msg sl sc tx (adv_while (\<lambda>c. c \<noteq> NL) l4))" for msg sl sc tx
    using 3 comment_text_step(2) [where l = l4] lx_stepD(2) [of ?l3 l4] lx_stepD(2) [OF comment_text_step(2) [where l = l4]]
    by (meson lx_step_trans order.strict_trans2)+
  show ?thesis
    unfolding iron_lex_doc_comment_def Let_def l4_def [symmetric] scanned_upd
    using 3(3) by (intro scanned_token s) auto
qed

lemma scanned_punctuation:
  assumes "iron_peek_char l \<noteq> NUL" "iron_peek_char l \<noteq> NL"
  shows "scanned l (iron_lex_punctuation al l)"
proof -
  note c1 = chars_step [OF assms]
  note c2 = chars_step [of "iron_advance_char l"]
  have op1: "scanned l (iron_lex_c_operator al IRON_TOK_NOT oper (lx_line l) (lx_col l) 1 (iron_advance_char l))" for oper
    using c1 by (intro scanned_c_operator) auto
  have op2: "scanned l (iron_lex_c_operator al kind oper (lx_line l) (lx_col l) 2 (iron_advance_char (iron_advance_char l)))"
    if "kind \<noteq> IRON_TOK_EOF" "iron_peek_char (iron_advance_char l) = d" "d \<noteq> NUL" "d \<noteq> NL" for kind oper d
    using c1 c2 that by (intro scanned_c_operator) (auto intro: lx_step_trans)
  show ?thesis
    unfolding iron_lex_punctuation_def Let_def
    by (intro scanned_if; (simp add: op1 op2 scanned_1 scanned_2 scanned_3 scanned_line_comment scanned_doc_comment scanned_invalid assms)?)
qed

lemma scanned_lex_token:
  assumes "iron_peek_char l \<noteq> NUL" "iron_peek_char l \<noteq> NL"
  shows "scanned l (iron_lex_token al l)"
  unfolding iron_lex_token_def Let_def
  using string_scanned [of l al] number_scanned [of l al] identifier_scanned [of l al] scanned_punctuation [OF assms, of al]
  by (intro scanned_if) (auto simp: scanned_def)

interpretation token_lexer: scanner "iron_lex_token al" "\<lambda>c. c \<noteq> NUL \<and> c \<noteq> NL" for al
  by unfold_locales (use scanned_lex_token scanned_def in blast)+

section \<open>The main loop\<close>

text \<open>
  The cancel flag is polled once per round; \<open>cancel k\<close> is what round \<open>k\<close> reads. The result is the token
  array and the lexer afterwards.
\<close>

function lex_rounds :: "malloc_ok \<Rightarrow> (nat \<Rightarrow> bool) \<Rightarrow> nat \<Rightarrow> Iron_Lexer \<Rightarrow> Iron_Token list \<times> Iron_Lexer" where
  "lex_rounds al cancel k l =
     (if cancel k then
        let l1 = lex_diag al IRON_DIAG_NOTE IRON_ERR_CANCELLED ''compilation cancelled''
                   (lx_line l) (lx_col l) (lx_line l) (lx_col l) l in
        ([iron_make_token l1 IRON_TOK_EOF None (lx_line l1) (lx_col l1) 0], l1)
      else let l1 = iron_skip_whitespace l; c = iron_peek_char l1 in
        if c = NUL then ([iron_make_token l1 IRON_TOK_EOF None (lx_line l1) (lx_col l1) 0], l1)
        else if c = NL then
          let l2 = lex_newline l1;
              nl = (iron_make_token l2 IRON_TOK_NEWLINE None (lx_line l1) (lx_col l1) 1)\<lparr>tok_offset := of_nat (lx_pos l2 - 1)\<rparr> in
          apfst (Cons nl) (lex_rounds al cancel (Suc k) l2)
        else let r = iron_lex_token al l1 in
          apfst (Cons ((fst r)\<lparr>tok_offset := of_nat (lx_pos l1)\<rparr>)) (lex_rounds al cancel (Suc k) (snd r)))"
  by pat_completeness auto
termination
proof (relation "measure (\<lambda>(al, cancel, k, l). length (lx_src l) - lx_pos l)", goal_cases)
  case 1 show ?case by simp
next
  case (2 al cancel k l l1 c l2 nl)
  then show ?case
    using peek_inside [of l1] lx_stepD(1,2) [OF skip_ws_step [of l]] by (auto simp: lex_newline_def)
next
  case (3 al cancel k l l1 c r)
  have "length (lx_src l1) - lx_pos (snd (iron_lex_token al l1)) < length (lx_src l1) - lx_pos l1"
    using 3 by (intro token_lexer.progress) auto
  moreover have "lx_src (snd r) = lx_src l1"
    using token_lexer.scan_covers [of l1 al] 3 by (auto simp: covers_def split: prod.splits)
  ultimately show ?case
    using 3 lx_stepD(1,2) [OF skip_ws_step [of l]] by auto
qed

declare lex_rounds.simps [simp del]

definition iron_lex_all :: "malloc_ok \<Rightarrow> (nat \<Rightarrow> bool) \<Rightarrow> Iron_Lexer \<Rightarrow> Iron_Token list \<times> Iron_Lexer" where
  "iron_lex_all al cancel l = lex_rounds al cancel 0 l"

section \<open>What the token list is\<close>

text \<open>Blanks between tokens: spaces, tabs, carriage returns and byte-order marks.\<close>

fun is_blanks :: "string \<Rightarrow> bool" where
  "is_blanks [] = True"
| "is_blanks (c # cs) = (if is_blank c then is_blanks cs
     else c = CHR 0xEF \<and> (case cs of d # e # ds \<Rightarrow> d = CHR 0xBB \<and> e = CHR 0xBF \<and> is_blanks ds | _ \<Rightarrow> False))"

text \<open>
  The tokens from byte \<open>i\<close> on: each begins after blanks only, has at least one byte, lies inside the
  source and ends where the next stretch of blanks begins; the last one is the end of file, at the end.
\<close>

fun tiles :: "string \<Rightarrow> nat \<Rightarrow> Iron_Token list \<Rightarrow> bool" where
  "tiles s i [] = False"
| "tiles s i (t # ts) =
     (let b = unat (tok_offset t); e = b + unat (tok_len t) in
      i \<le> b \<and> b \<le> length s \<and> is_blanks (take (b - i) (drop i s)) \<and>
      (if tok_kind t = IRON_TOK_EOF then ts = [] \<and> b = length s \<and> e = b
       else b < e \<and> e \<le> length s \<and> tiles s e ts))"

lemma is_blanks_bom: "is_blanks (CHR 0xEF # CHR 0xBB # CHR 0xBF # cs) = is_blanks cs"
  by (simp add: is_blank_def)

lemma skip_ws_blanks:
  "is_blanks (take (lx_pos (iron_skip_whitespace l) - lx_pos l) (drop (lx_pos l) (lx_src l)))"
proof (induction l rule: iron_skip_whitespace.induct)
  case (1 l)
  let ?s = "lx_src l" and ?p = "lx_pos l"
  consider (blank) "?p < length ?s" "is_blank (?s ! ?p)"
    | (bom) "?p < length ?s" "\<not> is_blank (?s ! ?p)" "bom_at ?s ?p"
    | (stop) "\<not> (?p < length ?s \<and> (is_blank (?s ! ?p) \<or> bom_at ?s ?p))"
    by blast
  then show ?case
  proof cases
    case blank
    let ?l' = "l\<lparr>lx_pos := ?p + 1, lx_col := lx_col l + 1\<rparr>"
    have "iron_skip_whitespace l = iron_skip_whitespace ?l'"
      using blank by (subst iron_skip_whitespace.simps) simp
    moreover have "?p + 1 \<le> lx_pos (iron_skip_whitespace ?l')"
      using lx_stepD(2) [OF skip_ws_step [of ?l']] by simp
    moreover have "drop ?p ?s = ?s ! ?p # drop (Suc ?p) ?s"
      using blank by (simp add: Cons_nth_drop_Suc)
    ultimately show ?thesis
      using blank "1.IH"(1) by (simp add: take_Cons' Suc_diff_Suc)
  next
    case bom
    let ?l' = "l\<lparr>lx_pos := ?p + 3, lx_col := lx_col l + 3\<rparr>"
    have "iron_skip_whitespace l = iron_skip_whitespace ?l'"
      using bom by (subst iron_skip_whitespace.simps) simp
    moreover have "?p + 3 \<le> lx_pos (iron_skip_whitespace ?l')"
      using lx_stepD(2) [OF skip_ws_step [of ?l']] by simp
    moreover have "drop ?p ?s = CHR 0xEF # CHR 0xBB # CHR 0xBF # drop (?p + 3) ?s"
      using bom(3) Cons_nth_drop_Suc [of ?p ?s] Cons_nth_drop_Suc [of "Suc ?p" ?s] Cons_nth_drop_Suc [of "Suc (Suc ?p)" ?s]
      by (simp add: bom_at_def numeral_3_eq_3)
    ultimately show ?thesis
      using bom "1.IH"(2) is_blanks_bom
      by (auto simp: take_Cons' Suc_diff_Suc is_blank_def diff_diff_left numeral_3_eq_3)
  next
    case stop
    then show ?thesis by (subst iron_skip_whitespace.simps) auto
  qed
qed

lemma newline_covers:
  assumes "iron_peek_char l = NL"
  shows "lx_src (lex_newline l) = lx_src l" "lx_pos (lex_newline l) = Suc (lx_pos l)" "lx_pos l < length (lx_src l)"
  using assms peek_inside [of l] by (auto simp: lex_newline_def)

text \<open>Induction over the rounds, with the blanks already skipped.\<close>

lemma rounds_induct [case_names cancel eof newline token]:
  assumes "\<And>k l. cancel k \<Longrightarrow> P k l
       ([iron_make_token l IRON_TOK_EOF None (lx_line l) (lx_col l) 0],
        lex_diag al IRON_DIAG_NOTE IRON_ERR_CANCELLED ''compilation cancelled'' (lx_line l) (lx_col l) (lx_line l) (lx_col l) l)"
    and "\<And>k l l1. \<not> cancel k \<Longrightarrow> l1 = iron_skip_whitespace l \<Longrightarrow> iron_peek_char l1 = NUL \<Longrightarrow>
       P k l ([iron_make_token l1 IRON_TOK_EOF None (lx_line l1) (lx_col l1) 0], l1)"
    and "\<And>k l l1 ts l'. \<not> cancel k \<Longrightarrow> l1 = iron_skip_whitespace l \<Longrightarrow> iron_peek_char l1 = NL \<Longrightarrow>
       P (Suc k) (lex_newline l1) (ts, l') \<Longrightarrow>
       P k l ((iron_make_token (lex_newline l1) IRON_TOK_NEWLINE None (lx_line l1) (lx_col l1) 1)\<lparr>tok_offset := of_nat (lx_pos l1)\<rparr> # ts, l')"
    and "\<And>k l l1 t l2 ts l'. \<not> cancel k \<Longrightarrow> l1 = iron_skip_whitespace l \<Longrightarrow> iron_peek_char l1 \<noteq> NUL \<Longrightarrow> iron_peek_char l1 \<noteq> NL \<Longrightarrow>
       iron_lex_token al l1 = (t, l2) \<Longrightarrow> P (Suc k) l2 (ts, l') \<Longrightarrow>
       P k l (t\<lparr>tok_offset := of_nat (lx_pos l1)\<rparr> # ts, l')"
  shows "P k l (lex_rounds al cancel k l)"
  using assms
proof (induction al cancel k l rule: lex_rounds.induct)
  case (1 al cancel k l)
  let ?l1 = "iron_skip_whitespace l"
  consider (cancel) "cancel k" | (eof) "\<not> cancel k" "iron_peek_char ?l1 = NUL" | (newline) "\<not> cancel k" "iron_peek_char ?l1 = NL"
    | (token) "\<not> cancel k" "iron_peek_char ?l1 \<noteq> NUL" "iron_peek_char ?l1 \<noteq> NL"
    by blast
  then show ?case
  proof cases
    case cancel
    then show ?thesis
      using "1.prems"(1) [of k l] by (subst lex_rounds.simps) (simp add: Let_def iron_make_token_def lex_diag_def)
  next
    case eof
    then show ?thesis
      using "1.prems"(2) [of k ?l1 l] by (subst lex_rounds.simps) (simp add: Let_def)
  next
    case newline
    obtain ts l' where r: "lex_rounds al cancel (Suc k) (lex_newline ?l1) = (ts, l')"
      by (cases "lex_rounds al cancel (Suc k) (lex_newline ?l1)")
    have "P (Suc k) (lex_newline ?l1) (ts, l')"
      using "1.IH"(1) [OF newline(1) refl refl _ newline(2) refl refl] "1.prems" newline(2) r by simp
    then show ?thesis
      using newline r "1.prems"(3) [OF newline(1) refl newline(2)] newline_covers [OF newline(2)]
      by (subst lex_rounds.simps) (simp add: Let_def)
  next
    case token
    obtain t l2 where t: "iron_lex_token al ?l1 = (t, l2)"
      by (cases "iron_lex_token al ?l1")
    obtain ts l' where r: "lex_rounds al cancel (Suc k) l2 = (ts, l')"
      by (cases "lex_rounds al cancel (Suc k) l2")
    have "P (Suc k) l2 (ts, l')"
      using "1.IH"(2) [OF token(1) refl refl token(2,3) refl] "1.prems" t r by simp
    then show ?thesis
      using token t r "1.prems"(4) [OF token(1) refl token(2,3) t] by (subst lex_rounds.simps) (simp add: Let_def)
  qed
qed

lemma eof_Cons:
  assumes "\<exists>us u. ts = us @ [u] \<and> tok_kind u = IRON_TOK_EOF \<and> list_all (\<lambda>t. tok_kind t \<noteq> IRON_TOK_EOF) us"
    and "tok_kind t \<noteq> IRON_TOK_EOF"
  shows "\<exists>us u. t # ts = us @ [u] \<and> tok_kind u = IRON_TOK_EOF \<and> list_all (\<lambda>t. tok_kind t \<noteq> IRON_TOK_EOF) us"
proof -
  obtain us u where "ts = us @ [u]" "tok_kind u = IRON_TOK_EOF" "list_all (\<lambda>t. tok_kind t \<noteq> IRON_TOK_EOF) us"
    using assms(1) by blast
  then show ?thesis
    using assms(2) by (intro exI [of _ "t # us"] exI [of _ u]) simp
qed

text \<open>C12: Whatever the source and whenever the lexing is cancelled, the token list ends with an end-of-file token
  and has no other: the parser always finds its terminator, and only at the end.\<close>

theorem lex_all_one_eof:
  "\<exists>ts t. fst (iron_lex_all al cancel l) = ts @ [t] \<and> tok_kind t = IRON_TOK_EOF \<and>
     list_all (\<lambda>t. tok_kind t \<noteq> IRON_TOK_EOF) ts"
  unfolding iron_lex_all_def
proof (induction rule: rounds_induct)
  case (token k l l1 t l2 ts l')
  have "tok_kind t \<noteq> IRON_TOK_EOF"
    using token_lexer.scan_covers [of l1 al] token by (simp add: covers_def)
  then show ?case
    using eof_Cons [of ts "t\<lparr>tok_offset := of_nat (lx_pos l1)\<rparr>"] token by simp
next
  case (newline k l l1 ts l')
  then show ?case
    using eof_Cons [of ts] by (simp add: iron_make_token_def)
qed (auto simp: iron_make_token_def)

lemma rounds_tile:
  assumes "lx_pos l \<le> length (lx_src l)" "length (lx_src l) < 2 ^ 32" "NUL \<notin> set (lx_src l)" "\<forall>k. \<not> cancel k"
  shows "tiles (lx_src l) (lx_pos l) (fst (lex_rounds al cancel k l))"
  using assms
proof (induction rule: rounds_induct)
  case (eof k l l1)
  have s: "lx_src l1 = lx_src l" "lx_pos l \<le> lx_pos l1" "lx_pos l1 \<le> length (lx_src l)"
    using lx_stepD(1,2,3) [OF skip_ws_step [of l]] eof by auto
  then have "lx_pos l1 = length (lx_src l)"
    using eof peek_NUL_end [of l1] by simp
  then show ?case
    using s eof skip_ws_blanks [of l] by (simp add: iron_make_token_def unat_of_nat_small)
next
  case (newline k l l1 ts l')
  have s: "lx_src l1 = lx_src l" "lx_pos l \<le> lx_pos l1" "lx_pos l1 < length (lx_src l)"
    using lx_stepD(1,2) [OF skip_ws_step [of l]] newline newline_covers(3) [of l1] by auto
  have "lx_src (lex_newline l1) = lx_src l" "lx_pos (lex_newline l1) = Suc (lx_pos l1)"
    using newline_covers [of l1] newline s by auto
  then show ?case
    using s newline skip_ws_blanks [of l] by (simp add: iron_make_token_def unat_of_nat_small)
next
  case (token k l l1 t l2 ts l')
  have s: "lx_src l1 = lx_src l" "lx_pos l \<le> lx_pos l1" "lx_pos l1 < length (lx_src l)"
    using lx_stepD(1,2) [OF skip_ws_step [of l]] token peek_inside [of l1] by auto
  have c: "lx_src l2 = lx_src l" "lx_pos l1 < lx_pos l2" "lx_pos l2 \<le> length (lx_src l)"
      "tok_len t = of_nat (lx_pos l2 - lx_pos l1)" "tok_kind t \<noteq> IRON_TOK_EOF"
    using token_lexer.scan_covers [of l1 al] token s by (auto simp: covers_def)
  have "unat (tok_len t) = lx_pos l2 - lx_pos l1" "unat (of_nat (lx_pos l1) :: u32) = lx_pos l1"
    unfolding c(4) using c s token.prems(2) by (auto intro!: unat_of_nat_small simp del: of_nat_diff)
  then show ?case
    using s c token skip_ws_blanks [of l] by (simp add: Let_def)
qed auto

text \<open>C10: The tokens of a source are lossless: every byte is inside exactly one token or is a blank (space, tab,
  carriage return, byte-order mark) between two of them; tokens are non-empty, in order and disjoint, and the
  end-of-file token stands at the end of the source.\<close>

theorem lex_all_lossless:
  assumes "length src < 2 ^ 32" "NUL \<notin> set src"
  shows "tiles src 0 (fst (iron_lex_all al (\<lambda>_. False) (iron_lexer_create fl src filename diags sources)))"
proof -
  let ?l = "iron_lexer_create fl src filename diags sources"
  have "lx_src ?l = src" "lx_pos ?l = 0"
    using assms(2) by (auto simp: iron_lexer_create_def takeWhile_eq_all_conv)
  then show ?thesis
    using rounds_tile [of ?l "\<lambda>_. False" al 0] assms by (simp add: iron_lex_all_def)
qed

theorem lex_all_lossless_witness:
  "tiles ''val x = 1'' 0 (fst (iron_lex_all (\<lambda>_. True) (\<lambda>_. False) (plain_lexer ''val x = 1'')))"
  by (rule lex_all_lossless) simp_all

section \<open>Positions\<close>

text \<open>User text from the first line on: the gate honours no marker anywhere in it.\<close>

definition user_text :: "Iron_Lexer \<Rightarrow> bool" where
  "user_text l \<longleftrightarrow> tracked l \<and> no_escaped_newline (lx_src l) \<and> length (lx_src l) + 1 < 2 ^ 32 \<and> lx_pos l \<le> length (lx_src l) \<and>
     \<not> g_test_mode (lx_file_markers l) \<and> \<not> g_packed (lx_file_markers l) \<and> g_user_start (lx_file_markers l) \<le> 1"

lemma line_of_bound: "1 \<le> line_of s i" "line_of s i \<le> length s + 1"
proof -
  have "length (filter (\<lambda>c. c = NL) (take i s)) \<le> length (take i s)"
    by (rule length_filter_le)
  then show "1 \<le> line_of s i" "line_of s i \<le> length s + 1"
    by (auto simp: line_of_def)
qed

lemma user_text_quiet: "user_text l \<Longrightarrow> quiet l"
proof -
  assume u: "user_text l"
  let ?n = "line_of (lx_src l) (lx_pos l)"
  have "unat (of_nat ?n :: u32) = ?n"
    using u line_of_bound(2) [of "lx_src l" "lx_pos l"] by (intro unat_of_nat_small) (simp add: user_text_def)
  then have "1 \<le> (of_nat ?n :: u32)"
    using line_of_bound(1) [of "lx_src l" "lx_pos l"] by (simp add: word_le_nat_alt)
  then show ?thesis
    using u by (auto simp: user_text_def quiet_def tracked_def)
qed

lemma user_text_step:
  assumes "user_text l" "lx_step l l'"
  shows "user_text l'"
proof -
  have "lx_src l' = lx_src l" "lx_file_markers l' = lx_file_markers l" "tracked l'" "lx_pos l' \<le> length (lx_src l)"
    using assms lx_stepD(1,3,7,9) [OF assms(2)] by (auto simp: user_text_def)
  then show ?thesis
    using assms(1) by (simp add: user_text_def)
qed

definition located :: "Iron_Lexer \<Rightarrow> Iron_Token \<Rightarrow> bool" where
  "located l t \<longleftrightarrow> tok_line t = of_nat (line_of (lx_src l) (unat (tok_offset t))) \<and>
     tok_col t = of_nat (col_of (lx_src l) (unat (tok_offset t))) \<and>
     tok_filename t = lx_filename l \<and> tok_from_stdlib_prepend t = lx_in_stdlib_prepend l"

lemma located_step: "lx_step l l' \<Longrightarrow> located l' t = located l t"
  by (simp add: located_def lx_step_def)

lemma located_at:
  assumes "user_text l" "lx_pos l \<le> length (lx_src l)" "tok_line t = lx_line l" "tok_col t = lx_col l" "tok_offset t = of_nat (lx_pos l)"
    "tok_filename t = lx_filename l" "tok_from_stdlib_prepend t = lx_in_stdlib_prepend l"
  shows "located l t"
proof -
  have "unat (of_nat (lx_pos l) :: u32) = lx_pos l"
    using assms(1,2) by (intro unat_of_nat_small) (simp add: user_text_def)
  then show ?thesis
    using assms by (simp add: located_def user_text_def tracked_def)
qed

lemma rounds_located:
  assumes "user_text l"
  shows "list_all (located l) (fst (lex_rounds al cancel k l))"
  using assms
proof (induction rule: rounds_induct)
  case (cancel k l)
  then show ?case
    by (auto simp: iron_make_token_def user_text_def intro!: located_at)
next
  case (eof k l l1)
  have s: "lx_step l l1" using eof skip_ws_step by simp
  then have "located l1 (iron_make_token l1 IRON_TOK_EOF None (lx_line l1) (lx_col l1) 0)"
    using user_text_step [OF eof.prems s] by (auto simp: iron_make_token_def user_text_def intro!: located_at)
  then show ?case using located_step [OF s] by simp
next
  case (newline k l l1 ts l')
  have s: "lx_step l l1" "lx_step l1 (lex_newline l1)" using newline skip_ws_step newline_step by auto
  note u = user_text_step [OF newline.prems s(1)]
  have "located l1 ((iron_make_token (lex_newline l1) IRON_TOK_NEWLINE None (lx_line l1) (lx_col l1) 1)\<lparr>tok_offset := of_nat (lx_pos l1)\<rparr>)"
    using u newline_covers(3) [of l1] newline by (auto simp: iron_make_token_def lex_newline_def intro!: located_at)
  moreover have "list_all (located l) ts"
    using newline.IH [OF user_text_step [OF u s(2)]] located_step [OF s(2)] located_step [OF s(1)] by simp
  ultimately show ?case using located_step [OF s(1)] by simp
next
  case (token k l l1 t l2 ts l')
  have s1: "lx_step l l1" using token skip_ws_step by simp
  note u = user_text_step [OF token.prems s1]
  have c: "covers l1 (t, l2)" "plain l1 (t, l2)"
    using token_lexer.scan_covers [of l1 al] token_lexer.scan_plain [of l1 al] token user_text_quiet [OF u] by auto
  then have s2: "lx_step l1 l2" by (simp add: plain_def)
  have "located l1 (t\<lparr>tok_offset := of_nat (lx_pos l1)\<rparr>)"
    using u c peek_inside [of l1] token by (auto simp: covers_def plain_def intro!: located_at)
  moreover have "list_all (located l) ts"
    using token.IH [OF user_text_step [OF u s2]] located_step [OF s2] located_step [OF s1] by simp
  ultimately show ?case using located_step [OF s1] by simp
qed

lemma lexed_located:
  assumes "no_escaped_newline src" "length src + 1 < 2 ^ 32" "NUL \<notin> set src" "\<not> marker_test_mode fl"
  shows "list_all (\<lambda>t. tok_line t = of_nat (line_of src (unat (tok_offset t))) \<and>
      tok_col t = of_nat (col_of src (unat (tok_offset t))) \<and> tok_filename t = filename \<and> \<not> tok_from_stdlib_prepend t)
    (fst (iron_lex_all al cancel (iron_lexer_create fl src filename diags sources)))"
proof -
  let ?l = "iron_lexer_create fl src filename diags sources"
  have e: "takeWhile (\<lambda>c. c \<noteq> NUL) src = src" using assms(3) by (auto simp: takeWhile_eq_all_conv)
  have "user_text ?l"
    using assms(1,2,4) by (simp add: user_text_def iron_lexer_create_def e tracked_def iron_file_marker_gate_def)
  then have "list_all (located ?l) (fst (iron_lex_all al cancel ?l))"
    using rounds_located [of ?l al cancel 0] by (simp add: iron_lex_all_def)
  then show ?thesis
    by (simp add: located_def iron_lexer_create_def e list_all_iff)
qed

text \<open>C11: In user text, every token carries the line and column of its own first byte, counted from the text, and
  the name of the file it was read from: no comment of the source can move the lexer to another file, in
  any cancellation. A backslash right before a line break is excluded: inside a string literal the
  lexer steps over that line break without counting it.\<close>

theorem lex_all_positions:
  assumes "no_escaped_newline src" "length src + 1 < 2 ^ 32" "NUL \<notin> set src" "\<not> marker_test_mode fl"
  shows "list_all (\<lambda>t. tok_line t = of_nat (line_of src (unat (tok_offset t))) \<and>
      tok_col t = of_nat (col_of src (unat (tok_offset t))) \<and> tok_filename t = filename \<and> \<not> tok_from_stdlib_prepend t)
    (fst (iron_lex_all al cancel (iron_lexer_create fl src filename diags sources)))"
  using assms by (rule lexed_located)

theorem lex_all_positions_witness:
  "list_all (\<lambda>t. tok_line t = of_nat (line_of (''a'' @ [NL] @ ''// @file: b'' @ [NL] @ ''c'') (unat (tok_offset t))) \<and>
      tok_col t = of_nat (col_of (''a'' @ [NL] @ ''// @file: b'' @ [NL] @ ''c'') (unat (tok_offset t))) \<and>
      tok_filename t = Some ''m.iron'' \<and> \<not> tok_from_stdlib_prepend t)
    (fst (iron_lex_all (\<lambda>_. True) (\<lambda>_. False) (iron_lexer_create \<lparr>marker_test_mode = False, marker_packed_source = True\<rparr>
       (''a'' @ [NL] @ ''// @file: b'' @ [NL] @ ''c'') (Some ''m.iron'') iron_diaglist_create ([], 0))))"
  by (rule lex_all_positions) (simp_all add: no_escaped_newline_def)

end
