(* ===== verification/Encoding.thy ===== *)
theory Encoding
  imports Prelude
begin

unbundle bit_operations_syntax

text \<open>
  Hexadecimal and base64 (src/stdlib/iron\_encoding.c). A byte string is a list of characters; shifts
  and masks work on 32-bit words as in the C code. The buffers the raw routines write are exact or large
  enough, and decoding inverts encoding.
\<close>

section \<open>Results\<close>

datatype enc_error = INVALID_CHARACTER | INVALID_LENGTH | INVALID_PADDING

definition IRON_ERR_ENCODING :: "enc_error \<Rightarrow> int" where
  "IRON_ERR_ENCODING e = (case e of INVALID_CHARACTER \<Rightarrow> 9100 | INVALID_LENGTH \<Rightarrow> 9101 | INVALID_PADDING \<Rightarrow> 9102)"

record Iron_DecodeResult =
  dr_data :: string
  dr_error :: int
  dr_error_message :: string

definition enc_ok :: "string \<Rightarrow> Iron_DecodeResult" where
  "enc_ok data = \<lparr>dr_data = data, dr_error = 0, dr_error_message = []\<rparr>"

definition enc_fail :: "enc_error \<Rightarrow> string \<Rightarrow> nat \<Rightarrow> Iron_DecodeResult" where
  "enc_fail cd what at =
     \<lparr>dr_data = [], dr_error = IRON_ERR_ENCODING cd, dr_error_message =
        (case cd of
           INVALID_CHARACTER \<Rightarrow> ''invalid '' @ what @ '' character at byte '' @ dec at
         | INVALID_LENGTH \<Rightarrow> ''invalid '' @ what @ '' length''
         | INVALID_PADDING \<Rightarrow> ''invalid '' @ what @ '' padding at byte '' @ dec at)\<rparr>"

section \<open>Hexadecimal\<close>

definition hex_alphabet :: string where
  "hex_alphabet = ''0123456789abcdef''"

definition byte :: "char \<Rightarrow> u32" where
  "byte c = of_nat (code c)"

text \<open>The low eight bits of a word, as a character: the casts to \<^verbatim>\<open>char\<close> and \<^verbatim>\<open>uint8_t\<close>.\<close>

definition to_char :: "u32 \<Rightarrow> char" where
  "to_char w = char_of (unat w)"

definition Iron_hex_encode :: "string \<Rightarrow> string" where
  "Iron_hex_encode data =
     concat (map (\<lambda>c. [hex_alphabet ! unat (drop_bit 4 (byte c)), hex_alphabet ! unat (byte c AND 15)]) data)"

definition hex_value :: "char \<Rightarrow> u32 option" where
  "hex_value c =
     (if 48 \<le> code c \<and> code c \<le> 57 then Some (byte c - 48)
      else if 97 \<le> code c \<and> code c \<le> 102 then Some (byte c - 97 + 10)
      else if 65 \<le> code c \<and> code c \<le> 70 then Some (byte c - 65 + 10)
      else None)"

text \<open>The first byte with a property, for the scan that reports a bad character.\<close>

fun find_index :: "(char \<Rightarrow> bool) \<Rightarrow> string \<Rightarrow> nat option" where
  "find_index P [] = None"
| "find_index P (c # cs) = (if P c then Some 0 else map_option Suc (find_index P cs))"

fun hex_pairs :: "string \<Rightarrow> string" where
  "hex_pairs (a # b # cs) = to_char (push_bit 4 (the (hex_value a)) OR the (hex_value b)) # hex_pairs cs"
| "hex_pairs _ = []"

definition Iron_hex_decode :: "string \<Rightarrow> Iron_DecodeResult" where
  "Iron_hex_decode text =
     (case find_index (\<lambda>c. hex_value c = None) text of
        Some i \<Rightarrow> enc_fail INVALID_CHARACTER ''hex'' i
      | None \<Rightarrow> if length text mod 2 \<noteq> 0 then enc_fail INVALID_LENGTH ''hex'' (length text)
                else enc_ok (hex_pairs text))"

section \<open>Base64\<close>

definition b64_std :: string where
  "b64_std = ''ABCDEFGHIJKLMNOPQRSTUVWXYZabcdefghijklmnopqrstuvwxyz0123456789+/''"

definition b64_url :: string where
  "b64_url = ''ABCDEFGHIJKLMNOPQRSTUVWXYZabcdefghijklmnopqrstuvwxyz0123456789-_''"

definition alpha :: "bool \<Rightarrow> string" where
  "alpha url = (if url then b64_url else b64_std)"

definition iron_base64_encoded_len :: "nat \<Rightarrow> bool \<Rightarrow> nat" where
  "iron_base64_encoded_len len pad =
     (if pad then (len + 2) div 3 * 4
      else len div 3 * 4 + (if len mod 3 = 0 then 0 else len mod 3 + 1))"

definition sextet :: "bool \<Rightarrow> u32 \<Rightarrow> nat \<Rightarrow> char" where
  "sextet url v k = alpha url ! unat (drop_bit k v AND 63)"

fun iron_base64_encode_raw :: "bool \<Rightarrow> bool \<Rightarrow> string \<Rightarrow> string" where
  "iron_base64_encode_raw url pad (a # b # c # rest) =
     (let v = push_bit 16 (byte a) OR push_bit 8 (byte b) OR byte c in
      [sextet url v 18, sextet url v 12, sextet url v 6, sextet url v 0] @ iron_base64_encode_raw url pad rest)"
| "iron_base64_encode_raw url pad [a] =
     (let v = push_bit 16 (byte a) in
      [sextet url v 18, sextet url v 12] @ (if pad then ''=='' else []))"
| "iron_base64_encode_raw url pad [a, b] =
     (let v = push_bit 16 (byte a) OR push_bit 8 (byte b) in
      [sextet url v 18, sextet url v 12, sextet url v 6] @ (if pad then ''='' else []))"
| "iron_base64_encode_raw url pad [] = []"

definition b64_value :: "bool \<Rightarrow> char \<Rightarrow> u32 option" where
  "b64_value url c =
     (if 65 \<le> code c \<and> code c \<le> 90 then Some (byte c - 65)
      else if 97 \<le> code c \<and> code c \<le> 122 then Some (byte c - 97 + 26)
      else if 48 \<le> code c \<and> code c \<le> 57 then Some (byte c - 48 + 52)
      else if url then (if c = CHR ''-'' then Some 62 else if c = CHR ''_'' then Some 63 else None)
      else (if c = CHR ''+'' then Some 62 else if c = CHR ''/'' then Some 63 else None))"

text \<open>At most two trailing padding characters are taken off.\<close>

definition strip_pad :: "string \<Rightarrow> string \<times> nat" where
  "strip_pad s =
     (if s \<noteq> [] \<and> last s = CHR ''='' then
        let s1 = butlast s in
        if s1 \<noteq> [] \<and> last s1 = CHR ''='' then (butlast s1, 2) else (s1, 1)
      else (s, 0))"

abbreviation val64 :: "bool \<Rightarrow> char \<Rightarrow> u32" where
  "val64 url c \<equiv> the (b64_value url c)"

fun b64_groups :: "bool \<Rightarrow> string \<Rightarrow> string" where
  "b64_groups url (a # b # c # d # rest) =
     (let v = push_bit 18 (val64 url a) OR push_bit 12 (val64 url b) OR push_bit 6 (val64 url c) OR val64 url d in
      [to_char (drop_bit 16 v), to_char (drop_bit 8 v), to_char v] @ b64_groups url rest)"
| "b64_groups url [a, b] =
     (let v = push_bit 18 (val64 url a) OR push_bit 12 (val64 url b) in [to_char (drop_bit 16 v)])"
| "b64_groups url [a, b, c] =
     (let v = push_bit 18 (val64 url a) OR push_bit 12 (val64 url b) OR push_bit 6 (val64 url c) in
      [to_char (drop_bit 16 v), to_char (drop_bit 8 v)])"
| "b64_groups url _ = []"

text \<open>The decoder: an error with the byte it is reported at, or the bytes written to the buffer.\<close>

definition iron_base64_decode_raw :: "bool \<Rightarrow> bool \<Rightarrow> string \<Rightarrow> (enc_error \<times> nat) + string" where
  "iron_base64_decode_raw url require_pad text =
     (case strip_pad text of (data, pad) \<Rightarrow>
        let data_len = length data; rem = data_len mod 4 in
        case find_index (\<lambda>c. b64_value url c = None) data of
          Some i \<Rightarrow> Inl (if data ! i = CHR ''='' then INVALID_PADDING else INVALID_CHARACTER, i)
        | None \<Rightarrow>
            if rem = 1 then Inl (INVALID_LENGTH, data_len)
            else if (pad > 0 \<or> require_pad) \<and> pad \<noteq> (if rem = 0 then 0 else 4 - rem)
            then Inl (INVALID_PADDING, data_len)
            else Inr (b64_groups url data))"

definition b64_encode :: "bool \<Rightarrow> bool \<Rightarrow> string \<Rightarrow> string" where
  "b64_encode url pad data = iron_base64_encode_raw url pad data"

definition b64_decode :: "bool \<Rightarrow> bool \<Rightarrow> string \<Rightarrow> Iron_DecodeResult" where
  "b64_decode url require_pad text =
     (case iron_base64_decode_raw url require_pad text of
        Inl (cd, bad) \<Rightarrow> enc_fail cd (if url then ''base64url'' else ''base64'') bad
      | Inr data \<Rightarrow> enc_ok data)"

definition Iron_base64_encode :: "string \<Rightarrow> string" where
  "Iron_base64_encode data = b64_encode False True data"

definition Iron_base64_decode :: "string \<Rightarrow> Iron_DecodeResult" where
  "Iron_base64_decode text = b64_decode False True text"

definition Iron_base64_url_encode :: "string \<Rightarrow> string" where
  "Iron_base64_url_encode data = b64_encode True False data"

definition Iron_base64_url_decode :: "string \<Rightarrow> Iron_DecodeResult" where
  "Iron_base64_url_decode text = b64_decode True False text"

section \<open>Bytes and words\<close>

lemma byte_unat [simp]: "unat (byte c) = code c"
  unfolding byte_def using code_less [of c] by (intro unat_of_nat_small) simp

lemma byte_less: "byte c < 256"
  using code_less [of c] by (simp add: word_less_nat_alt)

lemma to_char_byte [simp]: "to_char (byte c) = c"
  by (simp add: to_char_def code_def)

lemma to_char_take: "to_char (take_bit 8 w) = to_char w"
  by (simp add: to_char_def unsigned_take_bit_eq char_of_def bit_take_bit_iff)

lemma byte_bit: "8 \<le> n \<Longrightarrow> \<not> bit (byte c) n"
  using byte_less [of c] bit_below_power [of "byte c" 8 n] by simp

lemma mask_15: "(15::u32) = mask 4" and mask_63: "(63::u32) = mask 6"
  by (simp_all add: mask_eq_exp_minus_1)

lemma to_charI:
  assumes "\<And>n. n < 8 \<Longrightarrow> bit w n = bit (byte c) n"
  shows "to_char w = c"
proof -
  have "take_bit 8 w = byte c"
    by (rule bit_word_eqI) (metis assms bit_take_bit_iff byte_bit not_less)
  then show ?thesis
    using to_char_take [of w] by simp
qed

lemma find_index_None: "find_index P s = None \<longleftrightarrow> list_all (\<lambda>c. \<not> P c) s"
  by (induction s) auto

lemma find_index_Some:
  "find_index P s = Some i \<Longrightarrow> i < length s \<and> P (s ! i) \<and> (\<forall>j<i. \<not> P (s ! j))"
proof (induction s arbitrary: i)
  case (Cons c cs)
  then show ?case
    by (cases "P c") (auto simp: nth_Cons' less_Suc_eq_0_disj split: if_splits)
qed simp

section \<open>The contract of an encoding\<close>

locale codec =
  fixes encode :: "string \<Rightarrow> string" and decode :: "string \<Rightarrow> Iron_DecodeResult"
  assumes decode_encode: "decode (encode data) = enc_ok data"
begin

lemma encode_inj: "encode a = encode b \<Longrightarrow> a = b"
  by (metis decode_encode enc_ok_def Iron_DecodeResult.ext_inject)

lemma encode_accepted: "dr_error (decode (encode data)) = 0"
  by (simp add: decode_encode enc_ok_def)

end

section \<open>Hexadecimal round trip\<close>

lemma hex_digits_values: "map hex_value hex_alphabet = map (\<lambda>k. Some (of_nat k)) [0..<16]"
  by (simp add: hex_alphabet_def hex_value_def byte_def code_def upt_conv_Cons)

lemma hex_value_digit: "k < 16 \<Longrightarrow> hex_value (hex_alphabet ! k) = Some (of_nat k)"
proof -
  assume k: "k < 16"
  have "length hex_alphabet = 16" by (simp add: hex_alphabet_def)
  then show ?thesis
    using k arg_cong [OF hex_digits_values, of "\<lambda>xs. xs ! k"] by simp
qed

lemma unat_drop: "unat (drop_bit n (w :: u32)) = unat w div 2 ^ n"
  unfolding unat_drop_bit_eq by (simp add: drop_bit_eq_div)

lemma high_nibble: "unat (drop_bit 4 (byte c)) < 16"
  using code_less [of c] by (simp only: unat_drop byte_unat) simp

lemma low_nibble: "unat (byte c AND 15) < 16"
  using and_mask_below [of 4 "byte c"] by (simp add: mask_15 word_less_nat_alt)

lemma nibbles_join: "to_char (push_bit 4 (drop_bit 4 (byte c)) OR (byte c AND 15)) = c"
  by (rule to_charI) (auto simp: bit_simps mask_15)

lemma hex_pairs_encode: "hex_pairs (Iron_hex_encode data) = data"
  by (induction data)
     (simp_all add: Iron_hex_encode_def hex_value_digit high_nibble low_nibble nibbles_join)

lemma hex_encode_valid: "list_all (\<lambda>c. hex_value c \<noteq> None) (Iron_hex_encode data)"
  by (induction data) (simp_all add: Iron_hex_encode_def hex_value_digit high_nibble low_nibble)

lemma hex_encode_length: "length (Iron_hex_encode data) = 2 * length data"
  by (induction data) (simp_all add: Iron_hex_encode_def)

interpretation hex: codec Iron_hex_encode Iron_hex_decode
proof
  show "Iron_hex_decode (Iron_hex_encode data) = enc_ok data" for data
    using hex_encode_valid [of data] find_index_None [of "\<lambda>c. hex_value c = None" "Iron_hex_encode data"]
    by (simp add: Iron_hex_decode_def hex_pairs_encode hex_encode_length)
qed

text \<open>Hexadecimal decoding inverts encoding for every byte string, and the decoder accepts exactly the texts of
  even length over the hexadecimal digits of either case; an odd length is reported only when every character is
  a digit, so a bad character takes precedence.\<close>

theorem hex_roundtrip:
  "Iron_hex_decode (Iron_hex_encode data) = enc_ok data \<and>
   (dr_error (Iron_hex_decode text) = 0 \<longleftrightarrow> even (length text) \<and> list_all (\<lambda>c. hex_value c \<noteq> None) text) \<and>
   (dr_error (Iron_hex_decode text) = 9101 \<longleftrightarrow> odd (length text) \<and> list_all (\<lambda>c. hex_value c \<noteq> None) text)"
proof -
  have "find_index (\<lambda>c. hex_value c = None) text = None \<longleftrightarrow> list_all (\<lambda>c. hex_value c \<noteq> None) text"
    by (simp add: find_index_None)
  then have "(dr_error (Iron_hex_decode text) = 0 \<longleftrightarrow> even (length text) \<and> list_all (\<lambda>c. hex_value c \<noteq> None) text) \<and>
      (dr_error (Iron_hex_decode text) = 9101 \<longleftrightarrow> odd (length text) \<and> list_all (\<lambda>c. hex_value c \<noteq> None) text)"
    by (cases "find_index (\<lambda>c. hex_value c = None) text")
       (auto simp: Iron_hex_decode_def enc_ok_def enc_fail_def IRON_ERR_ENCODING_def odd_iff_mod_2_eq_one)
  then show ?thesis
    by (simp only: hex.decode_encode simp_thms)
qed

section \<open>Base64 round trip\<close>

lemma b64_alphabet: "map (b64_value url) (alpha url) = map (\<lambda>k. Some (of_nat k)) [0..<64]"
  by (cases url) (simp_all add: alpha_def b64_std_def b64_url_def b64_value_def byte_def code_def upt_conv_Cons)

lemma b64_value_digit: "k < 64 \<Longrightarrow> b64_value url (alpha url ! k) = Some (of_nat k)"
proof -
  assume k: "k < 64"
  have "length (alpha url) = 64"
    using arg_cong [OF b64_alphabet [of url], of length] by simp
  then show ?thesis
    using k arg_cong [OF b64_alphabet [of url], of "\<lambda>xs. xs ! k"] by simp
qed

lemma sextet_index: "unat ((w :: u32) AND 63) < 64"
  using and_mask_below [of 6 w] by (simp add: mask_63 word_less_nat_alt)

lemma sextet_value [simp]: "b64_value url (sextet url v k) = Some (drop_bit k v AND 63)"
  by (simp add: sextet_def b64_value_digit sextet_index)

text \<open>Cutting a 24-bit word into sextets and joining them again.\<close>

definition six :: "nat \<Rightarrow> u32 \<Rightarrow> u32" where
  "six k v = push_bit k (drop_bit k v AND 63)"

lemma bit_six: "n < 32 \<Longrightarrow> bit (six k v) n \<longleftrightarrow> k \<le> n \<and> n < k + 6 \<and> bit v n"
  unfolding six_def mask_63 by (auto simp: bit_simps simp del: push_bit_and)

lemma join_sextets:
  assumes "\<And>n. 24 \<le> n \<Longrightarrow> \<not> bit v n"
  shows "six 18 v OR six 12 v OR six 6 v OR six 0 v = v"
proof (rule bit_word_eqI)
  fix n assume n: "n < LENGTH(32)"
  then show "bit (six 18 v OR six 12 v OR six 6 v OR six 0 v) n = bit v n"
    using assms [of n] by (auto simp: bit_or_iff bit_six)
qed

lemma bytes_of_word:
  assumes "v = push_bit 16 (byte a) OR push_bit 8 (byte b) OR byte c"
  shows "to_char (drop_bit 16 v) = a" "to_char (drop_bit 8 v) = b" "to_char v = c" "24 \<le> n \<Longrightarrow> \<not> bit v n"
proof -
  show "to_char (drop_bit 16 v) = a" "to_char (drop_bit 8 v) = b" "to_char v = c"
    by (rule to_charI, simp add: assms bit_simps byte_bit)+
  show "24 \<le> n \<Longrightarrow> \<not> bit v n"
    by (simp add: assms bit_simps byte_bit)
qed

lemma NUL_byte: "byte NUL = 0"
  by (simp add: byte_def code_def)

lemma groups_3:
  assumes v: "v = push_bit 16 (byte a) OR push_bit 8 (byte b) OR byte c"
  shows "b64_groups url (sextet url v 18 # sextet url v 12 # sextet url v 6 # sextet url v 0 # rest) = a # b # c # b64_groups url rest"
  using join_sextets [of v] bytes_of_word [OF v] by (simp add: six_def Let_def)

lemma six_zero: "six k v = 0" if "\<And>n. k \<le> n \<Longrightarrow> n < k + 6 \<Longrightarrow> \<not> bit v n"
  using that by (intro bit_word_eqI) (auto simp: bit_six)

lemma groups_1:
  assumes v: "v = push_bit 16 (byte a)"
  shows "b64_groups url [sextet url v 18, sextet url v 12] = [a]"
proof -
  have v': "v = push_bit 16 (byte a) OR push_bit 8 (byte NUL) OR byte NUL"
    using v by (simp add: NUL_byte)
  have "six 6 v = 0" "six 0 v = 0"
    by (intro six_zero; simp add: v bit_simps)+
  then have "six 18 v OR six 12 v = v"
    using join_sextets [of v] bytes_of_word(4) [OF v'] by simp
  then show ?thesis
    using bytes_of_word(1) [OF v'] by (simp add: six_def Let_def)
qed

lemma groups_2:
  assumes v: "v = push_bit 16 (byte a) OR push_bit 8 (byte b)"
  shows "b64_groups url [sextet url v 18, sextet url v 12, sextet url v 6] = [a, b]"
proof -
  have v': "v = push_bit 16 (byte a) OR push_bit 8 (byte b) OR byte NUL"
    using v by (simp add: NUL_byte)
  have "six 0 v = 0"
    by (intro six_zero) (simp add: v bit_simps)
  then have "six 18 v OR six 12 v OR six 6 v = v"
    using join_sextets [of v] bytes_of_word(4) [OF v'] by simp
  then show ?thesis
    using bytes_of_word(1,2) [OF v'] by (simp add: six_def Let_def)
qed

text \<open>The characters of an encoding, without its padding.\<close>

fun b64_body :: "bool \<Rightarrow> string \<Rightarrow> string" where
  "b64_body url (a # b # c # rest) =
     (let v = push_bit 16 (byte a) OR push_bit 8 (byte b) OR byte c in
      [sextet url v 18, sextet url v 12, sextet url v 6, sextet url v 0] @ b64_body url rest)"
| "b64_body url [a] = (let v = push_bit 16 (byte a) in [sextet url v 18, sextet url v 12])"
| "b64_body url [a, b] = (let v = push_bit 16 (byte a) OR push_bit 8 (byte b) in [sextet url v 18, sextet url v 12, sextet url v 6])"
| "b64_body url [] = []"

definition b64_padding :: "nat \<Rightarrow> nat" where
  "b64_padding n = (if n mod 3 = 1 then 2 else if n mod 3 = 2 then 1 else 0)"

lemma encode_body:
  "iron_base64_encode_raw url pad data = b64_body url data @ (if pad then replicate (b64_padding (length data)) CHR ''='' else [])"
  by (induction url pad data rule: iron_base64_encode_raw.induct) (auto simp: Let_def b64_padding_def numeral_2_eq_2)

lemma body_valid: "list_all (\<lambda>c. b64_value url c \<noteq> None) (b64_body url data)"
  by (induction url data rule: b64_body.induct) (auto simp: Let_def)

lemma body_groups: "b64_groups url (b64_body url data) = data"
  by (induction url data rule: b64_body.induct) (simp_all add: Let_def groups_3 [OF refl] groups_1 [OF refl] groups_2 [OF refl] del: b64_groups.simps(1-3))

lemma body_length: "length (b64_body url data) = length data div 3 * 4 + (if length data mod 3 = 0 then 0 else length data mod 3 + 1)"
proof (induction url data rule: b64_body.induct)
  case (1 url a b c rest)
  have "(3 + n) div 3 = n div 3 + 1" "(3 + n) mod 3 = n mod 3" for n :: nat
    by simp_all
  then show ?case using 1 by (simp add: Let_def)
qed (simp_all add: Let_def)

text \<open>A body never ends in padding, and its padding completes the last quantum.\<close>

lemma pad_not_digit: "b64_value url CHR ''='' = None"
  by (cases url) (simp_all add: b64_value_def code_def)

lemma strip_padding:
  assumes "list_all (\<lambda>c. b64_value url c \<noteq> None) s" "k \<le> 2"
  shows "strip_pad (s @ replicate k CHR ''='') = (s, k)"
proof -
  have "s = [] \<or> last s \<noteq> CHR ''=''"
    using assms(1) pad_not_digit [of url] by (cases s rule: rev_cases) auto
  moreover have "k = 0 \<or> k = 1 \<or> k = 2" using assms(2) by auto
  ultimately show ?thesis
    by (auto simp: strip_pad_def numeral_2_eq_2 butlast_append)
qed

lemma thirds: obtains q r where "n = 3 * q + r" "r = 0 \<or> r = 1 \<or> r = (2::nat)" "n div 3 = q" "n mod 3 = r" "(n + 2) div 3 = q + (if r = 0 then 0 else 1)"
proof
  let ?q = "n div 3" and ?r = "n mod 3"
  show n: "n = 3 * ?q + ?r" and r: "?r = 0 \<or> ?r = 1 \<or> ?r = 2" and "n div 3 = ?q" "n mod 3 = ?r"
    by auto
  have "(3 * ?q + (?r + 2)) div 3 = ?q + (?r + 2) div 3"
    by (rule div_mult_self4) simp
  then show "(n + 2) div 3 = ?q + (if ?r = 0 then 0 else 1)"
    using r n by (auto simp: add.assoc)
qed

lemma quad_mod: "r < 4 \<Longrightarrow> (q * 4 + r) mod 4 = (r::nat)"
  by (metis mod_less mod_mult_self3)

lemma body_rem:
  "length (b64_body url data) mod 4 \<noteq> 1"
  "(if length (b64_body url data) mod 4 = 0 then 0 else 4 - length (b64_body url data) mod 4) = b64_padding (length data)"
proof -
  obtain q r where q: "length data div 3 = q" "length data mod 3 = r" "r = 0 \<or> r = 1 \<or> r = 2"
    using thirds by blast
  then have "length (b64_body url data) mod 4 = (if r = 0 then 0 else r + 1)"
    unfolding body_length q using quad_mod [of "if r = 0 then 0 else r + 1" q] by auto
  then show "length (b64_body url data) mod 4 \<noteq> 1"
    "(if length (b64_body url data) mod 4 = 0 then 0 else 4 - length (b64_body url data) mod 4) = b64_padding (length data)"
    using q(3) unfolding b64_padding_def q(2) by auto
qed

lemma decode_encode_raw:
  assumes "require_pad \<Longrightarrow> pad"
  shows "iron_base64_decode_raw url require_pad (iron_base64_encode_raw url pad data) = Inr data"
proof -
  let ?b = "b64_body url data" and ?k = "if pad then b64_padding (length data) else 0"
  have "?k \<le> 2" by (simp add: b64_padding_def)
  then have "strip_pad (iron_base64_encode_raw url pad data) = (?b, ?k)"
    using strip_padding [OF body_valid, of ?k url data] by (simp add: encode_body split: if_splits)
  moreover have "find_index (\<lambda>c. b64_value url c = None) ?b = None"
    using body_valid [of url data] by (simp add: find_index_None)
  moreover have "\<not> ((?k > 0 \<or> require_pad) \<and> ?k \<noteq> (if length ?b mod 4 = 0 then 0 else 4 - length ?b mod 4))"
    using assms body_rem(2) [of url data] by auto
  ultimately show ?thesis
    using body_rem(1) [of url data] by (simp add: iron_base64_decode_raw_def Let_def body_groups)
qed

interpretation base64: codec Iron_base64_encode Iron_base64_decode
  by unfold_locales (simp add: Iron_base64_encode_def Iron_base64_decode_def b64_encode_def b64_decode_def decode_encode_raw)

interpretation base64_url: codec Iron_base64_url_encode Iron_base64_url_decode
  by unfold_locales (simp add: Iron_base64_url_encode_def Iron_base64_url_decode_def b64_encode_def b64_decode_def decode_encode_raw)

text \<open>C16: Base64 decoding inverts encoding for every byte string, in the padded standard alphabet and in the
  unpadded URL alphabet; two byte strings with the same encoding are equal.\<close>

theorem base64_roundtrip:
  "Iron_base64_decode (Iron_base64_encode data) = enc_ok data \<and>
   Iron_base64_url_decode (Iron_base64_url_encode data) = enc_ok data \<and>
   (Iron_base64_encode data = Iron_base64_encode data' \<longleftrightarrow> data = data') \<and>
   (Iron_base64_url_encode data = Iron_base64_url_encode data' \<longleftrightarrow> data = data')"
  using base64.encode_inj base64_url.encode_inj base64.decode_encode base64_url.decode_encode by metis

lemma groups_length: "length (b64_groups url s) = length s div 4 * 3 + (if length s mod 4 \<le> 1 then 0 else length s mod 4 - 1)"
proof (induction url s rule: b64_groups.induct)
  case (1 url a b c d rest)
  have "(4 + n) div 4 = n div 4 + 1" "(4 + n) mod 4 = n mod 4" for n :: nat
    by simp_all
  then show ?case using 1 by (simp add: Let_def)
qed (simp_all add: Let_def)

lemma strip_pad_length: "strip_pad s = (d, k) \<Longrightarrow> length d \<le> length s"
  by (auto simp: strip_pad_def Let_def split: if_splits)

text \<open>The raw routines stay inside their buffers: an encoding has exactly the announced length (so the result
  string is filled to its last byte), and a decoding writes at most \<open>len / 4 * 3 + 3\<close> bytes.\<close>

theorem base64_buffers:
  "length (iron_base64_encode_raw url pad data) = iron_base64_encoded_len (length data) pad \<and>
   (case iron_base64_decode_raw url require_pad text of
      Inl (e, at) \<Rightarrow> at \<le> length text
    | Inr out \<Rightarrow> length out \<le> length text div 4 * 3 + 3)"
proof
  obtain q r where q: "length data div 3 = q" "length data mod 3 = r" "r = 0 \<or> r = 1 \<or> r = 2" "(length data + 2) div 3 = q + (if r = 0 then 0 else 1)"
    using thirds by metis
  then show "length (iron_base64_encode_raw url pad data) = iron_base64_encoded_len (length data) pad"
    unfolding encode_body iron_base64_encoded_len_def length_append body_length b64_padding_def q(1,2,4) by auto
  obtain d k where d: "strip_pad text = (d, k)" by (cases "strip_pad text")
  have dl: "length d \<le> length text" using strip_pad_length [OF d] .
  then have "length d div 4 \<le> length text div 4" by (rule div_le_mono)
  then have out: "length (b64_groups url d) \<le> length text div 4 * 3 + 3"
    unfolding groups_length by (auto intro!: add_mono)
  show "case iron_base64_decode_raw url require_pad text of
      Inl (e, at) \<Rightarrow> at \<le> length text | Inr out \<Rightarrow> length out \<le> length text div 4 * 3 + 3"
  proof (cases "find_index (\<lambda>c. b64_value url c = None) d")
    case None
    then show ?thesis using dl out by (simp add: iron_base64_decode_raw_def d Let_def)
  next
    case (Some i)
    then show ?thesis using dl find_index_Some [OF Some] by (simp add: iron_base64_decode_raw_def d Let_def)
  qed
qed

end
