(* ===== verification/Sha256.thy ===== *)
theory Sha256
  imports Prelude
begin

unbundle bit_operations_syntax

text \<open>
  The hash of document contents (src/lsp/store/sha256.c): the streaming context with its 64-byte buffer,
  and the proof that it computes the hash of FIPS 180-4, for any contents the buffer had before.
\<close>

section \<open>The code\<close>

definition k256 :: "u32 list" where
  "k256 = concat [
    [0x428a2f98, 0x71374491, 0xb5c0fbcf, 0xe9b5dba5, 0x3956c25b, 0x59f111f1, 0x923f82a4, 0xab1c5ed5],
    [0xd807aa98, 0x12835b01, 0x243185be, 0x550c7dc3, 0x72be5d74, 0x80deb1fe, 0x9bdc06a7, 0xc19bf174],
    [0xe49b69c1, 0xefbe4786, 0x0fc19dc6, 0x240ca1cc, 0x2de92c6f, 0x4a7484aa, 0x5cb0a9dc, 0x76f988da],
    [0x983e5152, 0xa831c66d, 0xb00327c8, 0xbf597fc7, 0xc6e00bf3, 0xd5a79147, 0x06ca6351, 0x14292967],
    [0x27b70a85, 0x2e1b2138, 0x4d2c6dfc, 0x53380d13, 0x650a7354, 0x766a0abb, 0x81c2c92e, 0x92722c85],
    [0xa2bfe8a1, 0xa81a664b, 0xc24b8b70, 0xc76c51a3, 0xd192e819, 0xd6990624, 0xf40e3585, 0x106aa070],
    [0x19a4c116, 0x1e376c08, 0x2748774c, 0x34b0bcb5, 0x391c0cb3, 0x4ed8aa4a, 0x5b9cca4f, 0x682e6ff3],
    [0x748f82ee, 0x78a5636f, 0x84c87814, 0x8cc70208, 0x90befffa, 0xa4506ceb, 0xbef9a3f7, 0xc67178f2]]"

definition ROTR :: "u32 \<Rightarrow> nat \<Rightarrow> u32" where
  "ROTR x n = drop_bit n x OR push_bit (32 - n) x"

definition EP0 :: "u32 \<Rightarrow> u32" where
  "EP0 x = ROTR x 2 XOR ROTR x 13 XOR ROTR x 22"

definition EP1 :: "u32 \<Rightarrow> u32" where
  "EP1 x = ROTR x 6 XOR ROTR x 11 XOR ROTR x 25"

definition SIG0 :: "u32 \<Rightarrow> u32" where
  "SIG0 x = ROTR x 7 XOR ROTR x 18 XOR drop_bit 3 x"

definition SIG1 :: "u32 \<Rightarrow> u32" where
  "SIG1 x = ROTR x 17 XOR ROTR x 19 XOR drop_bit 10 x"

definition CH :: "u32 \<Rightarrow> u32 \<Rightarrow> u32 \<Rightarrow> u32" where
  "CH x y z = (x AND y) XOR (NOT x AND z)"

definition MAJ :: "u32 \<Rightarrow> u32 \<Rightarrow> u32 \<Rightarrow> u32" where
  "MAJ x y z = (x AND y) XOR (x AND z) XOR (y AND z)"

record SHA256_CTX =
  c_data :: "u8 list"
  c_datalen :: u32
  c_bitlen :: u64
  c_state :: "u32 list"

text \<open>The message schedule: sixteen words of the block, then forty-eight computed ones.\<close>

definition word_at :: "u8 list \<Rightarrow> nat \<Rightarrow> u32" where
  "word_at data j = push_bit 24 (ucast (data ! j)) OR push_bit 16 (ucast (data ! (j + 1)))
     OR push_bit 8 (ucast (data ! (j + 2))) OR ucast (data ! (j + 3))"

definition schedule :: "u8 list \<Rightarrow> u32 list" where
  "schedule data =
     foldl (\<lambda>m i. m @ [SIG1 (m ! (i - 2)) + m ! (i - 7) + SIG0 (m ! (i - 15)) + m ! (i - 16)])
       (map (\<lambda>i. word_at data (4 * i)) [0..<16]) [16..<64]"

text \<open>One round on the eight working variables.\<close>

type_synonym vars = "u32 \<times> u32 \<times> u32 \<times> u32 \<times> u32 \<times> u32 \<times> u32 \<times> u32"

fun sha_round :: "u32 \<Rightarrow> u32 \<Rightarrow> vars \<Rightarrow> vars" where
  "sha_round k m (a, b, c, d, e, f, g, h) =
     (let t1 = h + EP1 e + CH e f g + k + m; t2 = EP0 a + MAJ a b c in
      (t1 + t2, a, b, c, d + t1, e, f, g))"

definition sha256_compress :: "u32 list \<Rightarrow> u8 list \<Rightarrow> u32 list" where
  "sha256_compress s data =
     (let m = schedule data in
      case foldl (\<lambda>v i. sha_round (k256 ! i) (m ! i) v) (s ! 0, s ! 1, s ! 2, s ! 3, s ! 4, s ! 5, s ! 6, s ! 7) [0..<64] of
        (a, b, c, d, e, f, g, h) \<Rightarrow>
          [s ! 0 + a, s ! 1 + b, s ! 2 + c, s ! 3 + d, s ! 4 + e, s ! 5 + f, s ! 6 + g, s ! 7 + h])"

definition sha256_transform :: "SHA256_CTX \<Rightarrow> SHA256_CTX" where
  "sha256_transform ctx = ctx\<lparr>c_state := sha256_compress (c_state ctx) (c_data ctx)\<rparr>"

definition initial_state :: "u32 list" where
  "initial_state = [0x6a09e667, 0xbb67ae85, 0x3c6ef372, 0xa54ff53a, 0x510e527f, 0x9b05688c, 0x1f83d9ab, 0x5be0cd19]"

text \<open>The buffer of the context on the stack has whatever contents the memory had.\<close>

definition sha256_init :: "u8 list \<Rightarrow> SHA256_CTX" where
  "sha256_init garbage = \<lparr>c_data = garbage, c_datalen = 0, c_bitlen = 0, c_state = initial_state\<rparr>"

definition sha256_byte :: "u8 \<Rightarrow> SHA256_CTX \<Rightarrow> SHA256_CTX" where
  "sha256_byte b ctx =
     (let ctx1 = ctx\<lparr>c_data := (c_data ctx)[unat (c_datalen ctx) := b], c_datalen := c_datalen ctx + 1\<rparr> in
      if c_datalen ctx1 = 64
      then (sha256_transform ctx1)\<lparr>c_bitlen := c_bitlen ctx1 + 512, c_datalen := 0\<rparr>
      else ctx1)"

definition sha256_update :: "u8 list \<Rightarrow> SHA256_CTX \<Rightarrow> SHA256_CTX" where
  "sha256_update data ctx = foldl (\<lambda>c b. sha256_byte b c) ctx data"

text \<open>Writing bytes from an index on.\<close>

fun put :: "nat \<Rightarrow> u8 list \<Rightarrow> u8 list \<Rightarrow> u8 list" where
  "put i [] d = d"
| "put i (b # bs) d = put (Suc i) bs (d[i := b])"

definition bitlen_bytes :: "u64 \<Rightarrow> u8 list" where
  "bitlen_bytes n = map (\<lambda>k. ucast (drop_bit (8 * k) n AND 0xff)) [7, 6, 5, 4, 3, 2, 1, 0]"

definition digest :: "u32 list \<Rightarrow> u8 list" where
  "digest s = concat (map (\<lambda>w. map (\<lambda>i. ucast (drop_bit (24 - i * 8) w AND 0xff)) [0..<4]) (take 8 s))"

definition sha256_final :: "SHA256_CTX \<Rightarrow> u8 list" where
  "sha256_final ctx =
     (let i = unat (c_datalen ctx);
          ctx1 = (if c_datalen ctx < 56
                  then ctx\<lparr>c_data := put i (0x80 # replicate (55 - i) 0) (c_data ctx)\<rparr>
                  else let c1 = sha256_transform (ctx\<lparr>c_data := put i (0x80 # replicate (63 - i) 0) (c_data ctx)\<rparr>) in
                    c1\<lparr>c_data := put 0 (replicate 56 0) (c_data c1)\<rparr>);
          bitlen = c_bitlen ctx1 + ucast (c_datalen ctx1 * 8);
          ctx2 = sha256_transform (ctx1\<lparr>c_bitlen := bitlen, c_data := put 56 (bitlen_bytes bitlen) (c_data ctx1)\<rparr>) in
      digest (c_state ctx2))"

definition ilsp_sha256 :: "u8 list \<Rightarrow> u8 list \<Rightarrow> u8 list" where
  "ilsp_sha256 garbage data = sha256_final (sha256_update data (sha256_init garbage))"

definition ilsp_sha256_hex :: "u8 list \<Rightarrow> string" where
  "ilsp_sha256_hex dg =
     concat (map (\<lambda>b. [''0123456789abcdef'' ! unat (drop_bit 4 b AND 0x0f), ''0123456789abcdef'' ! unat (b AND 0x0f)]) (take 32 dg))"

section \<open>The standard\<close>

text \<open>FIPS 180-4: rotation, the schedule as a recurrence, padding, and the blocks in order.\<close>

definition sigma0 :: "u32 \<Rightarrow> u32" where
  "sigma0 x = word_rotr 7 x XOR word_rotr 18 x XOR drop_bit 3 x"

definition sigma1 :: "u32 \<Rightarrow> u32" where
  "sigma1 x = word_rotr 17 x XOR word_rotr 19 x XOR drop_bit 10 x"

definition Sigma0 :: "u32 \<Rightarrow> u32" where
  "Sigma0 x = word_rotr 2 x XOR word_rotr 13 x XOR word_rotr 22 x"

definition Sigma1 :: "u32 \<Rightarrow> u32" where
  "Sigma1 x = word_rotr 6 x XOR word_rotr 11 x XOR word_rotr 25 x"

fun W :: "u8 list \<Rightarrow> nat \<Rightarrow> u32" where
  "W blk t = (if t < 16 then word_at blk (4 * t)
     else sigma1 (W blk (t - 2)) + W blk (t - 7) + sigma0 (W blk (t - 15)) + W blk (t - 16))"

declare W.simps [simp del]

fun fips_round :: "u32 \<Rightarrow> u32 \<Rightarrow> vars \<Rightarrow> vars" where
  "fips_round k w (a, b, c, d, e, f, g, h) =
     (let T1 = h + Sigma1 e + CH e f g + k + w; T2 = Sigma0 a + MAJ a b c in (T1 + T2, a, b, c, d + T1, e, f, g))"

definition fips_compress :: "u32 list \<Rightarrow> u8 list \<Rightarrow> u32 list" where
  "fips_compress s blk =
     (case foldl (\<lambda>v t. fips_round (k256 ! t) (W blk t) v) (s ! 0, s ! 1, s ! 2, s ! 3, s ! 4, s ! 5, s ! 6, s ! 7) [0..<64] of
        (a, b, c, d, e, f, g, h) \<Rightarrow>
          [s ! 0 + a, s ! 1 + b, s ! 2 + c, s ! 3 + d, s ! 4 + e, s ! 5 + f, s ! 6 + g, s ! 7 + h])"

function absorb :: "u32 list \<Rightarrow> u8 list \<Rightarrow> u32 list" where
  "absorb s xs = (if length xs < 64 then s else absorb (fips_compress s (take 64 xs)) (drop 64 xs))"
  by pat_completeness auto
termination
  by (relation "measure (\<lambda>(s, xs). length xs)") auto

declare absorb.simps [simp del]

text \<open>A one bit, zeros up to 56 bytes modulo 64, and the length in bits.\<close>

definition padding :: "nat \<Rightarrow> u8 list" where
  "padding n = 0x80 # replicate ((119 - n mod 64) mod 64) 0 @ bitlen_bytes (of_nat (8 * n))"

definition fips_sha256 :: "u8 list \<Rightarrow> u8 list" where
  "fips_sha256 msg = digest (absorb initial_state (msg @ padding (length msg)))"

section \<open>The code computes the standard\<close>

lemma ROTR_rotr: "0 < n \<Longrightarrow> n < 32 \<Longrightarrow> ROTR x n = word_rotr n x"
proof (rule bit_word_eqI)
  fix i assume n: "0 < n" "n < 32" and i: "i < LENGTH(32)"
  have "(i + n) mod 32 = (if i + n < 32 then i + n else i + n - 32)"
    using n i by (simp add: mod_if)
  moreover have "\<not> bit x j" if "32 \<le> j" for j
    using that bit_imp_le_length [of x j] by auto
  ultimately show "bit (ROTR x n) i = bit (word_rotr n x) i"
    using n i by (auto simp: ROTR_def bit_simps bit_word_rotr_iff add.commute)
qed

lemma sigma_eq [simp]: "SIG0 = sigma0" "SIG1 = sigma1" "EP0 = Sigma0" "EP1 = Sigma1"
  by (simp_all add: fun_eq_iff SIG0_def SIG1_def EP0_def EP1_def sigma0_def sigma1_def Sigma0_def Sigma1_def ROTR_rotr)

lemma schedule_prefix:
  "16 \<le> n \<Longrightarrow> foldl (\<lambda>m i. m @ [SIG1 (m ! (i - 2)) + m ! (i - 7) + SIG0 (m ! (i - 15)) + m ! (i - 16)])
     (map (\<lambda>i. word_at data (4 * i)) [0..<16]) [16..<n] = map (W data) [0..<n]"
proof (induction n rule: nat_induct_at_least)
  case base
  then show ?case by (auto simp: W.simps)
next
  case (Suc n)
  then show ?case by (simp add: W.simps [of data n])
qed

lemma schedule_eq: "schedule data = map (W data) [0..<64]"
  unfolding schedule_def by (rule schedule_prefix) simp

lemma round_eq: "sha_round k m v = fips_round k m v"
  by (induction k m v rule: sha_round.induct) (simp add: Let_def)

lemma compress_eq: "sha256_compress = fips_compress"
proof (intro ext)
  fix s data
  have "foldl (\<lambda>v i. sha_round (k256 ! i) (schedule data ! i) v) v0 xs = foldl (\<lambda>v t. fips_round (k256 ! t) (W data t) v) v0 xs"
    if "set xs \<subseteq> {0..<64}" for v0 xs
    using that by (induction xs arbitrary: v0) (auto simp: schedule_eq round_eq)
  then show "sha256_compress s data = fips_compress s data"
    by (simp add: sha256_compress_def fips_compress_def Let_def)
qed

text \<open>Blocks.\<close>

lemma absorb_short: "length xs < 64 \<Longrightarrow> absorb s xs = s"
  by (simp add: absorb.simps)

lemma absorb_block: "length b = 64 \<Longrightarrow> absorb s (b @ xs) = absorb (fips_compress s b) xs"
  by (subst absorb.simps) simp

lemma absorb_append: "length xs mod 64 = 0 \<Longrightarrow> absorb s (xs @ ys) = absorb (absorb s xs) ys"
proof (induction s xs rule: absorb.induct)
  case (1 s xs)
  show ?case
  proof (cases "length xs < 64")
    case True
    then have "xs = []" using "1.prems" by simp
    then show ?thesis by (simp add: absorb_short)
  next
    case False
    then have d: "length (drop 64 xs) mod 64 = 0"
      using "1.prems" by (simp add: mod_if [of "length xs"])
    have "xs = take 64 xs @ drop 64 xs" "length (take 64 xs) = 64"
      using False by simp_all
    then show ?thesis
      using "1.IH" [OF False d] absorb_block [of "take 64 xs" s] by (metis append.assoc)
  qed
qed

text \<open>What the context holds after some bytes.\<close>

definition ctx_inv :: "u8 list \<Rightarrow> SHA256_CTX \<Rightarrow> bool" where
  "ctx_inv msg ctx \<longleftrightarrow> (\<exists>full rest. msg = full @ rest \<and> length full mod 64 = 0 \<and> length rest < 64 \<and>
     length (c_data ctx) = 64 \<and> take (length rest) (c_data ctx) = rest \<and>
     c_datalen ctx = of_nat (length rest) \<and> c_bitlen ctx = of_nat (8 * length full) \<and>
     c_state ctx = absorb initial_state full)"

lemma init_inv: "length garbage = 64 \<Longrightarrow> ctx_inv [] (sha256_init garbage)"
  by (simp add: ctx_inv_def sha256_init_def absorb_short)

lemma byte_inv:
  assumes "ctx_inv msg ctx"
  shows "ctx_inv (msg @ [b]) (sha256_byte b ctx)"
proof -
  obtain full rest where i: "msg = full @ rest" "length full mod 64 = 0" "length rest < 64"
     "length (c_data ctx) = 64" "take (length rest) (c_data ctx) = rest"
     "c_datalen ctx = of_nat (length rest)" "c_bitlen ctx = of_nat (8 * length full)" "c_state ctx = absorb initial_state full"
    using assms unfolding ctx_inv_def by (elim exE conjE) (rule that)
  have u: "unat (c_datalen ctx) = length rest"
    using i(3,6) by (simp add: unat_of_nat_small)
  have d: "take (Suc (length rest)) ((c_data ctx)[length rest := b]) = rest @ [b]"
    using i(3,4,5) by (simp add: take_Suc_conv_app_nth)
  have e: "c_datalen ctx + 1 = 64 \<longleftrightarrow> length rest = 63"
  proof -
    have q: "c_datalen ctx + 1 = of_nat (Suc (length rest))"
      by (simp add: i(6))
    have "unat (c_datalen ctx + 1) = Suc (length rest)"
      unfolding q using i(3) by (intro unat_of_nat_small) simp
    then show ?thesis by (simp only: word_unat_eq_iff) simp
  qed
  show ?thesis
  proof (cases "length rest = 63")
    case True
    let ?blk = "rest @ [b]"
    have l: "length ?blk = 64" using True by simp
    have "(c_data ctx)[63 := b] = ?blk"
      using d True i(4) by simp
    then have "sha256_byte b ctx = ctx\<lparr>c_data := ?blk, c_datalen := 0, c_bitlen := c_bitlen ctx + 512,
        c_state := fips_compress (c_state ctx) ?blk\<rparr>"
      using e True u by (simp add: sha256_byte_def Let_def sha256_transform_def compress_eq)
    moreover have "absorb initial_state (full @ ?blk) = fips_compress (absorb initial_state full) ?blk"
      using absorb_append [OF i(2), of initial_state ?blk] absorb_block [OF l, of _ "[]"] by (simp add: absorb_short)
    moreover have "length (full @ ?blk) mod 64 = 0"
      using i(2) l by simp
    moreover have "(of_nat (8 * length full) :: u64) + 512 = of_nat (8 * length (full @ ?blk))"
      using l by (simp add: True)
    ultimately show ?thesis
      unfolding ctx_inv_def i(1) by (intro exI [of _ "full @ ?blk"] exI [of _ "[]"]) (simp add: i(7,8) True)
  next
    case False
    then have "sha256_byte b ctx = ctx\<lparr>c_data := (c_data ctx)[length rest := b], c_datalen := c_datalen ctx + 1\<rparr>"
      using e u by (simp add: sha256_byte_def Let_def)
    then show ?thesis
      unfolding ctx_inv_def using i False d
      by (intro exI [of _ full] exI [of _ "rest @ [b]"]) (auto simp: add.commute)
  qed
qed

lemma update_inv: "ctx_inv msg ctx \<Longrightarrow> ctx_inv (msg @ data) (sha256_update data ctx)"
proof (induction data arbitrary: msg ctx)
  case (Cons b bs)
  then show ?case using Cons.IH [OF byte_inv [OF Cons.prems, of b]] by (simp add: sha256_update_def)
qed (simp add: sha256_update_def)

lemma ucast_of_unat: "(ucast (w :: u32) :: u64) = of_nat (unat w)"
  by transfer simp

lemma put_append: "length a = i \<Longrightarrow> length b = length bs \<Longrightarrow> put i bs (a @ b @ c) = a @ bs @ c"
proof (induction bs arbitrary: i a b)
  case (Cons x bs)
  then obtain y ys where b: "b = y # ys" by (cases b) auto
  show ?case
    using Cons.IH [of "a @ [x]" "Suc i" ys] Cons.prems b by (simp add: list_update_append)
qed simp

lemma put_tail:
  assumes "length d = n" "take i d = rest" "length rest = i" "i + length bs = n"
  shows "put i bs d = rest @ bs"
  using put_append [of rest i "drop i d" bs "[]"] assms by (metis append.right_neutral append_take_drop_id length_drop diff_add_inverse)

lemma put_mid:
  assumes "length d = n" "take i d = rest" "length rest = i" "i + length bs \<le> n"
  shows "put i bs d = rest @ bs @ drop (i + length bs) d"
proof -
  have "d = rest @ take (length bs) (drop i d) @ drop (i + length bs) d"
    using assms(2) by (metis append_take_drop_id drop_drop add.commute)
  moreover have "length (take (length bs) (drop i d)) = length bs"
    using assms by simp
  ultimately show ?thesis
    using put_append [of rest i "take (length bs) (drop i d)" bs "drop (i + length bs) d"] assms(3) by simp
qed

lemma bitlen_length [simp]: "length (bitlen_bytes n) = 8"
  by (simp add: bitlen_bytes_def)

lemma padding_split:
  "r < 56 \<Longrightarrow> (119 - r) mod 64 = 55 - r" "56 \<le> r \<Longrightarrow> r < 64 \<Longrightarrow> (119 - r) mod 64 = (63 - r) + 56"
  for r :: nat
  by (auto simp: mod_if)

lemma final_eq:
  assumes "ctx_inv msg ctx"
  shows "sha256_final ctx = fips_sha256 msg"
proof -
  obtain full rest where i: "msg = full @ rest" "length full mod 64 = 0" "length rest < 64"
     "length (c_data ctx) = 64" "take (length rest) (c_data ctx) = rest"
     "c_datalen ctx = of_nat (length rest)" "c_bitlen ctx = of_nat (8 * length full)" "c_state ctx = absorb initial_state full"
    using assms unfolding ctx_inv_def by (elim exE conjE) (rule that)
  let ?r = "length rest" and ?len = "bitlen_bytes (of_nat (8 * length msg))"
  have u: "unat (c_datalen ctx) = ?r"
    using i(3,6) by (simp add: unat_of_nat_small)
  have small: "c_datalen ctx < 56 \<longleftrightarrow> ?r < 56"
    using u by (simp add: word_less_nat_alt)
  have "unat (c_datalen ctx * 8) = ?r * 8"
    unfolding i(6) using i(3) unat_of_nat_small [of "?r * 8", where 'a = 32] by simp
  then have "(ucast (c_datalen ctx * 8) :: u64) = of_nat (8 * ?r)"
    by (simp add: ucast_of_unat mult.commute)
  then have bl: "c_bitlen ctx + ucast (c_datalen ctx * 8) = of_nat (8 * length msg)"
    by (simp add: i(1,7) algebra_simps)
  have m: "length msg mod 64 = ?r"
    using i(1,2,3) by (simp add: mod_add_eq [symmetric, of "length full"])
  show ?thesis
  proof (cases "?r < 56")
    case True
    let ?p = "0x80 # replicate (55 - ?r) (0::u8)"
    have "put ?r ?p (c_data ctx) = rest @ ?p @ drop 56 (c_data ctx)"
      using put_mid [OF i(4,5) refl, of ?p] True by simp
    moreover have "put 56 ?len (rest @ ?p @ drop 56 (c_data ctx)) = (rest @ ?p) @ ?len"
      using put_append [of "rest @ ?p" 56 "drop 56 (c_data ctx)" ?len "[]"] True i(4) by simp
    ultimately have "sha256_final ctx = digest (fips_compress (absorb initial_state full) (rest @ ?p @ ?len))"
      using True small u bl i(8) by (simp add: sha256_final_def Let_def sha256_transform_def compress_eq)
    moreover have "absorb initial_state (msg @ padding (length msg)) = fips_compress (absorb initial_state full) (rest @ ?p @ ?len)"
    proof -
      have "msg @ padding (length msg) = full @ (rest @ ?p @ ?len) @ []"
        unfolding padding_def m padding_split(1) [OF True] by (simp add: i(1))
      moreover have "length (rest @ ?p @ ?len) = 64"
        using True by simp
      ultimately show ?thesis
        using absorb_append [OF i(2)] by (simp only: absorb_block) (simp add: absorb_short)
    qed
    ultimately show ?thesis by (simp add: fips_sha256_def)
  next
    case False
    let ?p = "0x80 # replicate (63 - ?r) (0::u8)" and ?z = "replicate 56 (0::u8)"
    have f: "put ?r ?p (c_data ctx) = rest @ ?p"
      using put_tail [OF i(4,5) refl, of ?p] i(3) by simp
    have "put 0 ?z (rest @ ?p) = ?z @ drop 56 (rest @ ?p)"
      using put_mid [of "rest @ ?p" 64 0 "[]" ?z] i(3) by (simp)
    moreover have "put 56 ?len (?z @ drop 56 (rest @ ?p)) = ?z @ ?len"
      using put_append [of ?z 56 "drop 56 (rest @ ?p)" ?len "[]"] i(3) by (simp)
    ultimately have "sha256_final ctx = digest (fips_compress (fips_compress (absorb initial_state full) (rest @ ?p)) (?z @ ?len))"
      using False small u bl i(8) f by (simp add: sha256_final_def Let_def sha256_transform_def compress_eq)
    moreover have "absorb initial_state (msg @ padding (length msg)) =
        fips_compress (fips_compress (absorb initial_state full) (rest @ ?p)) (?z @ ?len)"
    proof -
      have z: "replicate ((119 - ?r) mod 64) (0::u8) = replicate (63 - ?r) 0 @ ?z"
        using False i(3) by (simp only: padding_split(2) not_less replicate_add)
      have "msg @ padding (length msg) = full @ (rest @ ?p) @ (?z @ ?len) @ []"
        unfolding padding_def m using z by (simp add: i(1))
      moreover have "length (rest @ ?p) = 64" "length (?z @ ?len) = 64"
        using i(3) by simp_all
      ultimately show ?thesis
        using absorb_append [OF i(2)] by (simp only: absorb_block absorb_short) (simp add: absorb_short)
    qed
    ultimately show ?thesis by (simp add: fips_sha256_def)
  qed
qed

text \<open>C17: The streaming implementation computes the SHA-256 hash of FIPS 180-4 (message padding, blocks in order, the
  schedule recurrence and the round function with true rotations) for every message and whatever the
  context's buffer contained before; splitting the message over several updates does not change it.\<close>

theorem sha256_is_fips:
  assumes "length garbage = 64"
  shows "ilsp_sha256 garbage data = fips_sha256 data \<and>
    sha256_final (sha256_update b (sha256_update a (sha256_init garbage))) = fips_sha256 (a @ b)"
proof -
  note u = update_inv [OF init_inv [OF assms]]
  show ?thesis
    using final_eq [OF u, of data] final_eq [OF update_inv [OF u], of b a] by (simp add: ilsp_sha256_def)
qed

theorem sha256_is_fips_witness:
  "ilsp_sha256 (replicate 64 0xAA) [0x61, 0x62, 0x63] = fips_sha256 [0x61, 0x62, 0x63]"
  using sha256_is_fips [of "replicate 64 0xAA" "[0x61, 0x62, 0x63]"] by simp

end
