(* ===== verification/Lsp_Position.thy ===== *)
theory Lsp_Position
  imports Lexer_Base
begin

text \<open>
  Positions in the language server: the line index (src/lsp/store/line\_index.c), the columns of the
  negotiated encoding (src/lsp/store/utf.c), and the translation of the compiler's spans
  (src/lsp/facade/span.c).
\<close>

section \<open>Line index\<close>

text \<open>A missing array is the empty list.\<close>

fun line_starts :: "nat \<Rightarrow> string \<Rightarrow> u32 list" where
  "line_starts i [] = []"
| "line_starts i (c # cs) = (if c = NL then of_nat (i + 1) # line_starts (i + 1) cs else line_starts (i + 1) cs)"

definition ilsp_line_index_rebuild :: "string \<Rightarrow> u32 list" where
  "ilsp_line_index_rebuild text = 0 # line_starts 0 text"

function search_line :: "u32 list \<Rightarrow> nat \<Rightarrow> nat \<Rightarrow> nat \<Rightarrow> nat" where
  "search_line starts off lo hi =
     (if lo < hi then
        let mid = lo + (hi - lo + 1) div 2 in
        if unat (starts ! mid) \<le> off then search_line starts off mid hi else search_line starts off lo (mid - 1)
      else lo)"
  by pat_completeness auto
termination
  by (relation "measure (\<lambda>(starts, off, lo, hi). hi - lo)") (auto simp: Let_def)

declare search_line.simps [simp del]

definition ilsp_line_of_byte :: "u32 list \<Rightarrow> nat \<Rightarrow> u32" where
  "ilsp_line_of_byte starts off =
     (if starts = [] then 0
      else if unat (last starts) \<le> off then of_nat (length starts - 1)
      else of_nat (search_line starts off 0 (length starts - 1)))"

definition ilsp_byte_of_line :: "u32 list \<Rightarrow> u32 \<Rightarrow> nat" where
  "ilsp_byte_of_line starts line =
     (if starts = [] then 0
      else if unat line \<ge> length starts then unat (last starts)
      else unat (starts ! unat line))"

section \<open>Columns\<close>

text \<open>Bytes and UTF-16 units of the character a lead byte begins.\<close>

definition classify :: "char \<Rightarrow> nat \<times> nat" where
  "classify ch =
     (let c = code ch in
      if c < 0x80 then (1, 1) else if c < 0xC0 then (1, 1) else if c < 0xE0 then (2, 1)
      else if c < 0xF0 then (3, 1) else (4, 2))"

lemma classify_pos: "classify c = (nb, nu) \<Longrightarrow> 0 < nb \<and> 0 < nu"
  by (auto simp: classify_def Let_def split: if_splits)

function utf16_walk :: "string \<Rightarrow> nat \<Rightarrow> nat \<Rightarrow> u32 \<Rightarrow> u32" where
  "utf16_walk line target i col =
     (if i < target then
        (case classify (line ! i) of (nbytes, nunits) \<Rightarrow>
           if i + nbytes > target then col + of_nat nunits
           else utf16_walk line target (i + nbytes) (col + of_nat nunits))
      else col)"
  by pat_completeness auto
termination
  by (relation "measure (\<lambda>(line, target, i, col). target - i)") (auto dest: classify_pos [OF sym])

declare utf16_walk.simps [simp del]

definition ilsp_utf8_byte_to_utf16_column :: "string \<Rightarrow> nat \<Rightarrow> u32" where
  "ilsp_utf8_byte_to_utf16_column line target_byte = utf16_walk line (min target_byte (length line)) 0 0"

function byte_walk :: "string \<Rightarrow> u32 \<Rightarrow> nat \<Rightarrow> u32 \<Rightarrow> nat" where
  "byte_walk line target i col =
     (if i < length line \<and> col < target then
        (case classify (line ! i) of (nbytes, nunits) \<Rightarrow>
           if i + nbytes > length line then length line
           else byte_walk line target (i + nbytes) (col + of_nat nunits))
      else i)"
  by pat_completeness auto
termination
  by (relation "measure (\<lambda>(line, target, i, col). length line - i)") (auto dest: classify_pos [OF sym])

declare byte_walk.simps [simp del]

definition ilsp_utf16_column_to_utf8_byte :: "string \<Rightarrow> u32 \<Rightarrow> nat" where
  "ilsp_utf16_column_to_utf8_byte line target_col = min (byte_walk line target_col 0 0) (length line)"

function round_walk :: "string \<Rightarrow> nat \<Rightarrow> nat \<Rightarrow> nat" where
  "round_walk line target i =
     (if i < target then
        (case classify (line ! i) of (nbytes, nunits) \<Rightarrow>
           if i + nbytes > length line then length line else round_walk line target (i + nbytes))
      else i)"
  by pat_completeness auto
termination
  by (relation "measure (\<lambda>(line, target, i). target - i)") (auto dest: classify_pos [OF sym])

declare round_walk.simps [simp del]

definition utf8_round_up :: "string \<Rightarrow> nat \<Rightarrow> nat" where
  "utf8_round_up line target = (if target \<ge> length line then length line else round_walk line target 0)"

definition ilsp_utf8_byte_to_utf8_column :: "string \<Rightarrow> nat \<Rightarrow> u32" where
  "ilsp_utf8_byte_to_utf8_column line target_byte = of_nat (utf8_round_up line target_byte)"

definition ilsp_utf8_column_to_utf8_byte :: "string \<Rightarrow> u32 \<Rightarrow> nat" where
  "ilsp_utf8_column_to_utf8_byte line target_col = utf8_round_up line (unat target_col)"

section \<open>Spans\<close>

record IronLsp_Document =
  doc_text :: string
  doc_line_idx :: "u32 list"

datatype IronLsp_PositionEncoding = ILSP_ENC_UTF8 | ILSP_ENC_UTF16

record IronLsp_Position =
  lsp_line :: u32
  lsp_character :: u32

record IronLsp_Range =
  r_start :: IronLsp_Position
  r_end :: IronLsp_Position

definition line_byte_range :: "IronLsp_Document \<Rightarrow> u32 \<Rightarrow> nat \<times> nat" where
  "line_byte_range doc line0 =
     (let len = length (doc_text doc);
          start = min (ilsp_byte_of_line (doc_line_idx doc) line0) len;
          next0 = ilsp_byte_of_line (doc_line_idx doc) (line0 + 1);
          next1 = (if next0 = 0 \<and> line0 \<noteq> 0 then len else next0);
          next = min next1 len;
          end1 = (if next > start then next - 1 else len);
          end2 = (if end1 < start then start else end1);
          end3 = (if end2 > start \<and> doc_text doc ! (end2 - 1) = CR then end2 - 1 else end2) in
      (start, end3 - start))"

definition convert_endpoint :: "IronLsp_Document \<Rightarrow> u32 \<Rightarrow> u32 \<Rightarrow> bool \<Rightarrow> IronLsp_PositionEncoding \<Rightarrow> IronLsp_Position" where
  "convert_endpoint doc iron_line iron_col0 is_exclusive_end0 enc =
     (let line0 = (if iron_line = 0 then 0 else iron_line - 1);
          nlines0 = (if doc_line_idx doc = [] then 1 else of_nat (length (doc_line_idx doc)) :: u32);
          nlines = (if nlines0 = 0 then 1 else nlines0);
          past = (line0 \<ge> nlines);
          line = (if past then nlines - 1 else line0);
          iron_col = (if past then 0xFFFFFFFF else iron_col0);
          is_exclusive_end = (if past then False else is_exclusive_end0) in
      case line_byte_range doc line of (line_start, line_len) \<Rightarrow>
        let line_ptr = take line_len (drop line_start (doc_text doc));
            byte_col0 = (if iron_col = 0 then 0 else if is_exclusive_end then iron_col else iron_col - 1);
            byte_col = (if unat byte_col0 > line_len then of_nat line_len else byte_col0) in
        \<lparr>lsp_line = line, lsp_character =
           (case enc of ILSP_ENC_UTF8 \<Rightarrow> ilsp_utf8_byte_to_utf8_column line_ptr (unat byte_col)
            | ILSP_ENC_UTF16 \<Rightarrow> ilsp_utf8_byte_to_utf16_column line_ptr (unat byte_col))\<rparr>)"

definition ilsp_span_to_lsp_range :: "Iron_Span \<Rightarrow> IronLsp_Document \<Rightarrow> IronLsp_PositionEncoding \<Rightarrow> IronLsp_Range" where
  "ilsp_span_to_lsp_range span doc enc =
     (let s = convert_endpoint doc (sp_line span) (sp_col span) False enc;
          e = convert_endpoint doc (sp_end_line span) (sp_end_col span) True enc in
      \<lparr>r_start = s, r_end = (if sp_end_line span = 0 \<and> sp_line span \<noteq> 0 then s else e)\<rparr>)"

text \<open>The span of a token, as the parser reports it (src/parser/parser.c).\<close>

definition iron_token_span :: "string option \<Rightarrow> Iron_Token \<Rightarrow> Iron_Span" where
  "iron_token_span p_filename t =
     iron_span_make (if tok_filename t \<noteq> None then tok_filename t else p_filename)
       (tok_line t) (tok_col t) (tok_line t) (tok_col t + (if tok_len t > 0 then tok_len t - 1 else 0))"

section \<open>The line index is exact\<close>

abbreviation newlines :: "string \<Rightarrow> nat" where
  "newlines s \<equiv> length (filter (\<lambda>c. c = NL) s)"

text \<open>The starts as numbers.\<close>

fun nat_starts :: "nat \<Rightarrow> string \<Rightarrow> nat list" where
  "nat_starts i [] = []"
| "nat_starts i (c # cs) = (if c = NL then (i + 1) # nat_starts (i + 1) cs else nat_starts (i + 1) cs)"

lemma line_starts_nat: "line_starts i s = map of_nat (nat_starts i s)"
  by (induction s arbitrary: i) auto

lemma nat_starts_range: "x \<in> set (nat_starts i s) \<Longrightarrow> i < x \<and> x \<le> i + length s"
  by (induction s arbitrary: i) (fastforce split: if_splits)+

lemma nat_starts_sorted: "sorted_wrt (<) (nat_starts i s)"
  by (induction s arbitrary: i) (auto dest: nat_starts_range)

lemma nat_starts_count: "length (filter (\<lambda>x. x \<le> i + b) (nat_starts i s)) = newlines (take b s)"
proof (induction s arbitrary: i b)
  case (Cons c cs)
  show ?case
  proof (cases b)
    case 0
    have "filter (\<lambda>x. x \<le> i) (nat_starts i (c # cs)) = []"
      using nat_starts_range [of _ i "c # cs"] by (fastforce simp: filter_empty_conv simp del: nat_starts.simps)
    then show ?thesis using 0 by simp
  next
    case (Suc b')
    then show ?thesis using Cons.IH [of "i + 1" b'] by simp
  qed
qed simp

lemma nat_starts_length: "length (nat_starts i s) = newlines s"
  by (induction s arbitrary: i) auto

definition index_nats :: "string \<Rightarrow> nat list" where
  "index_nats s = 0 # nat_starts 0 s"

lemma index_nats_sorted: "sorted_wrt (<) (index_nats s)"
  using nat_starts_sorted [of 0 s] nat_starts_range [of _ 0 s] by (auto simp: index_nats_def)

lemma index_nats_length: "length (index_nats s) = Suc (newlines s)"
  by (simp add: index_nats_def nat_starts_length)

lemma rebuild_nth:
  assumes "length s < 2 ^ 32" "k < length (ilsp_line_index_rebuild s)"
  shows "unat (ilsp_line_index_rebuild s ! k) = index_nats s ! k"
proof (cases k)
  case (Suc j)
  have j: "j < length (nat_starts 0 s)"
    using assms(2) Suc by (simp add: ilsp_line_index_rebuild_def line_starts_nat)
  then have "nat_starts 0 s ! j \<le> length s"
    using nat_starts_range [of "nat_starts 0 s ! j" 0 s] by simp
  then show ?thesis
    using Suc j assms(1) by (simp add: ilsp_line_index_rebuild_def line_starts_nat index_nats_def unat_of_nat_small)
qed (simp add: ilsp_line_index_rebuild_def index_nats_def)

lemma rebuild_length [simp]: "length (ilsp_line_index_rebuild s) = length (index_nats s)"
  by (simp add: ilsp_line_index_rebuild_def index_nats_def line_starts_nat)

text \<open>The binary search brackets the offset.\<close>

lemma search_brackets:
  assumes "lo \<le> hi" "hi < length starts" "unat (starts ! lo) \<le> off" "\<forall>k. hi < k \<and> k < length starts \<longrightarrow> off < unat (starts ! k)"
    and "\<forall>i j. i < j \<and> j < length starts \<longrightarrow> unat (starts ! i) < unat (starts ! j)"
  shows "search_line starts off lo hi < length starts \<and> unat (starts ! search_line starts off lo hi) \<le> off \<and>
    (\<forall>k. search_line starts off lo hi < k \<and> k < length starts \<longrightarrow> off < unat (starts ! k))"
  using assms
proof (induction starts off lo hi rule: search_line.induct)
  case (1 starts off lo hi)
  show ?case
  proof (cases "lo < hi")
    case False
    then have "lo = hi" using "1.prems" by simp
    then show ?thesis using "1.prems" by (subst (1 2 3) search_line.simps) auto
  next
    case True
    define mid where "mid = lo + (hi - lo + 1) div 2"
    have mid: "lo < mid" "mid \<le> hi" using True by (auto simp: mid_def)
    show ?thesis
    proof (cases "unat (starts ! mid) \<le> off")
      case below: True
      then have "search_line starts off lo hi = search_line starts off mid hi"
        using True by (subst search_line.simps) (simp add: Let_def mid_def)
      then show ?thesis
        using "1.IH"(1) [OF True mid_def below] "1.prems" mid below by simp
    next
      case above: False
      then have "search_line starts off lo hi = search_line starts off lo (mid - 1)"
        using True by (subst search_line.simps) (simp add: Let_def mid_def)
      moreover have "off < unat (starts ! k)" if "mid - 1 < k" "k < length starts" for k
      proof (cases "k = mid")
        case False
        then have "unat (starts ! mid) < unat (starts ! k)"
          using that "1.prems"(5) by auto
        then show ?thesis using above by simp
      qed (use above in simp)
      ultimately show ?thesis
        using "1.IH"(2) [OF True mid_def above] "1.prems" mid by simp
    qed
  qed
qed

lemma sorted_bracket:
  assumes "sorted_wrt (<) xs" "r < length xs" "xs ! r \<le> (off :: nat)" "\<forall>k. r < k \<and> k < length xs \<longrightarrow> off < xs ! k"
  shows "length (filter (\<lambda>x. x \<le> off) xs) = Suc r"
proof -
  have "xs ! i \<le> off \<longleftrightarrow> i \<le> r" if "i < length xs" for i
  proof (cases "i \<le> r")
    case True
    then have "xs ! i \<le> xs ! r"
      using assms(1,2) sorted_wrt_nth_less [of "(<)" xs i r] by (cases "i = r") auto
    then show ?thesis using True assms(3) by simp
  next
    case False
    then show ?thesis using assms(4) that by (meson not_le)
  qed
  then have "{i. i < length xs \<and> xs ! i \<le> off} = {..r}"
    using assms(2) by auto
  then show ?thesis
    by (simp add: length_filter_conv_card)
qed

text \<open>The line index is exact: for every offset the binary search returns the number of line breaks before it
  (offsets past the end belong to the last line), and the start it records for a line maps back to that
  line.\<close>

theorem line_index_exact:
  assumes "length text < 2 ^ 32"
  shows "ilsp_line_of_byte (ilsp_line_index_rebuild text) off = of_nat (newlines (take off text)) \<and>
    (k \<le> newlines text \<longrightarrow>
      ilsp_line_of_byte (ilsp_line_index_rebuild text) (ilsp_byte_of_line (ilsp_line_index_rebuild text) (of_nat k)) = of_nat k)"
proof -
  let ?S = "ilsp_line_index_rebuild text" and ?N = "index_nats text"
  have ne: "?S \<noteq> []" by (simp add: ilsp_line_index_rebuild_def)
  have nth: "unat (?S ! i) = ?N ! i" if "i < length ?N" for i
    using rebuild_nth [OF assms] that by simp
  have srt: "\<forall>i j. i < j \<and> j < length ?S \<longrightarrow> unat (?S ! i) < unat (?S ! j)"
    using sorted_wrt_nth_less [OF index_nats_sorted] nth by auto
  have n: "length ?N = Suc (newlines text)" by (rule index_nats_length)
  have cnt: "length (filter (\<lambda>x. x \<le> b) ?N) = Suc (newlines (take b text))" for b
    using nat_starts_count [of 0 b "text"] by (simp add: index_nats_def)
  have line: "ilsp_line_of_byte ?S b = of_nat (newlines (take b text))" for b
  proof (cases "unat (last ?S) \<le> b")
    case True
    have "unat (last ?S) = ?N ! newlines text"
      using ne nth n by (simp add: last_conv_nth)
    then have "length (filter (\<lambda>x. x \<le> b) ?N) = Suc (newlines text)"
      using True n by (intro sorted_bracket index_nats_sorted) auto
    then show ?thesis using True ne n cnt [of b] by (simp add: ilsp_line_of_byte_def)
  next
    case False
    let ?r = "search_line ?S b 0 (length ?S - 1)"
    have "?r < length ?S \<and> unat (?S ! ?r) \<le> b \<and> (\<forall>k. ?r < k \<and> k < length ?S \<longrightarrow> b < unat (?S ! k))"
      by (intro search_brackets srt) (use n in \<open>auto simp: ilsp_line_index_rebuild_def\<close>)
    then have "length (filter (\<lambda>x. x \<le> b) ?N) = Suc ?r"
      using nth by (intro sorted_bracket index_nats_sorted) auto
    then show ?thesis using False ne cnt [of b] by (simp add: ilsp_line_of_byte_def)
  qed
  moreover have "ilsp_line_of_byte ?S (ilsp_byte_of_line ?S (of_nat k)) = of_nat k" if "k \<le> newlines text"
  proof -
    have "k < 2 ^ 32" using assms that length_filter_le [of "\<lambda>c. c = NL" "text"] by linarith
    then have u: "unat (of_nat k :: u32) = k" by (intro unat_of_nat_small) simp
    then have b: "ilsp_byte_of_line ?S (of_nat k) = ?N ! k"
      using ne that n nth by (simp add: ilsp_byte_of_line_def)
    have "length (filter (\<lambda>x. x \<le> ?N ! k) ?N) = Suc k"
      using that n sorted_wrt_nth_less [OF index_nats_sorted, of k _ "text"] by (intro sorted_bracket index_nats_sorted) auto
    then show ?thesis unfolding b line using cnt [of "?N ! k"] by simp
  qed
  ultimately show ?thesis by blast
qed

theorem line_index_exact_witness:
  "ilsp_line_of_byte (ilsp_line_index_rebuild (''a'' @ [NL] @ ''bc'' @ [NL])) 3 = 1"
  using line_index_exact [of "''a'' @ [NL] @ ''bc'' @ [NL]" 3 0] by simp

section \<open>Columns are those of the encoding\<close>

text \<open>UTF-16 code units of a character.\<close>

definition utf16_units :: "nat \<Rightarrow> nat" where
  "utf16_units cp = (if cp < 0x10000 then 1 else 2)"

abbreviation utf16_len :: "nat list \<Rightarrow> nat" where
  "utf16_len cps \<equiv> sum_list (map utf16_units cps)"

abbreviation utf8s :: "nat list \<Rightarrow> string" where
  "utf8s cps \<equiv> concat (map utf8 cps)"

lemma utf8_not_empty: "utf8 cp \<noteq> []"
  by (simp add: utf8_def)

lemma code_chr_of [simp]: "n < 256 \<Longrightarrow> code (chr_of n) = n"
  by (simp add: chr_of_def code_def)

lemma classify_utf8:
  assumes "cp < 0x110000"
  shows "classify (hd (utf8 cp)) = (length (utf8 cp), utf16_units cp)"
  using assms by (auto simp: utf8_def classify_def utf16_units_def Let_def less_mult_imp_div_less div_less_iff_less_mult not_less)

lemma classify_at:
  assumes "line = utf8s ps @ utf8 cp @ zs" "cp < 0x110000"
  shows "classify (line ! length (utf8s ps)) = (length (utf8 cp), utf16_units cp)"
  using classify_utf8 [OF assms(2)] assms(1) utf8_not_empty [of cp] by (simp add: nth_append hd_conv_nth)

text \<open>Each walk passes one whole character at a time.\<close>

lemma utf16_walk_chars:
  assumes "line = utf8s ps @ utf8s qs @ zs" "\<forall>cp\<in>set qs. cp < 0x110000" "length (utf8s (ps @ qs)) \<le> target"
  shows "utf16_walk line target (length (utf8s ps)) col = utf16_walk line target (length (utf8s (ps @ qs))) (col + of_nat (utf16_len qs))"
  using assms
proof (induction qs arbitrary: ps col)
  case (Cons q qs)
  have c: "classify (line ! length (utf8s ps)) = (length (utf8 q), utf16_units q)"
    using Cons.prems by (intro classify_at) auto
  have "length (utf8s ps) < target"
    using Cons.prems(3) utf8_not_empty [of q] by (cases "utf8 q") auto
  then have "utf16_walk line target (length (utf8s ps)) col =
      utf16_walk line target (length (utf8s (ps @ [q]))) (col + of_nat (utf16_units q))"
    using c Cons.prems(3) by (subst utf16_walk.simps) simp
  then show ?case
    using Cons.IH [of "ps @ [q]" "col + of_nat (utf16_units q)"] Cons.prems by (simp add: add.assoc)
qed simp

lemma round_walk_chars:
  assumes "line = utf8s ps @ utf8s qs @ zs" "\<forall>cp\<in>set qs. cp < 0x110000" "length (utf8s (ps @ qs)) \<le> target"
  shows "round_walk line target (length (utf8s ps)) = round_walk line target (length (utf8s (ps @ qs)))"
  using assms
proof (induction qs arbitrary: ps)
  case (Cons q qs)
  have c: "classify (line ! length (utf8s ps)) = (length (utf8 q), utf16_units q)"
    using Cons.prems by (intro classify_at) auto
  have "length (utf8s ps) < target"
    using Cons.prems(3) utf8_not_empty [of q] by (cases "utf8 q") auto
  then have "round_walk line target (length (utf8s ps)) = round_walk line target (length (utf8s (ps @ [q])))"
    using c Cons.prems(1) by (subst round_walk.simps) simp
  then show ?case
    using Cons.IH [of "ps @ [q]"] Cons.prems by simp
qed simp

lemma utf16_len_pos: "utf16_len (q # qs) > 0"
  by (simp add: utf16_units_def)

lemma of_nat_less_u32: "a < b \<Longrightarrow> b < 2 ^ 32 \<Longrightarrow> (of_nat a :: u32) < of_nat b"
  by (simp add: word_less_nat_alt unat_of_nat_small)

lemma of_nat_pos_u32: "0 < b \<Longrightarrow> b < 2 ^ 32 \<Longrightarrow> (of_nat b :: u32) > 0"
  using of_nat_less_u32 [of 0 b] by simp

lemma unat_u32: "n < 2 ^ 32 \<Longrightarrow> unat (of_nat n :: u32) = n"
  by (rule unat_of_nat_small) simp

lemma byte_walk_chars:
  assumes "line = utf8s ps @ utf8s qs @ zs" "\<forall>cp\<in>set qs. cp < 0x110000" "utf16_len (ps @ qs) < 2 ^ 32"
  shows "byte_walk line (of_nat (utf16_len (ps @ qs))) (length (utf8s ps)) (of_nat (utf16_len ps)) = length (utf8s (ps @ qs))"
  using assms
proof (induction qs arbitrary: ps)
  case Nil
  then show ?case by (subst byte_walk.simps) simp
next
  case (Cons q qs)
  have c: "classify (line ! length (utf8s ps)) = (length (utf8 q), utf16_units q)"
    using Cons.prems by (intro classify_at) auto
  have "(of_nat (utf16_len ps) :: u32) < of_nat (utf16_len (ps @ q # qs))"
    using Cons.prems(3) utf16_len_pos [of q qs] by (intro of_nat_less_u32) (simp_all del: sum_list_eq_0_iff)
  moreover have "length (utf8s ps) < length line"
    using Cons.prems(1) utf8_not_empty [of q] by (cases "utf8 q") auto
  ultimately have "byte_walk line (of_nat (utf16_len (ps @ q # qs))) (length (utf8s ps)) (of_nat (utf16_len ps)) =
      byte_walk line (of_nat (utf16_len (ps @ q # qs))) (length (utf8s (ps @ [q]))) (of_nat (utf16_len (ps @ [q])))"
    using c Cons.prems(1) by (subst byte_walk.simps) simp
  then show ?case
    using Cons.IH [of "ps @ [q]"] Cons.prems by simp
qed

lemma utf16_column_boundary:
  assumes "line = utf8s ps @ zs" "\<forall>cp\<in>set ps. cp < 0x110000"
  shows "ilsp_utf8_byte_to_utf16_column line (length (utf8s ps)) = of_nat (utf16_len ps)"
  using utf16_walk_chars [of line "[]" ps zs "length (utf8s ps)" 0] assms
  by (simp add: ilsp_utf8_byte_to_utf16_column_def utf16_walk.simps [of _ "length (utf8s ps)" "length (utf8s ps)"])

lemma utf16_column_inside:
  assumes "line = utf8s ps @ utf8 cp @ zs" "\<forall>x\<in>set (ps @ [cp]). x < 0x110000" "0 < j" "j \<le> length (utf8 cp)"
  shows "ilsp_utf8_byte_to_utf16_column line (length (utf8s ps) + j) = of_nat (utf16_len (ps @ [cp]))"
proof -
  let ?t = "length (utf8s ps) + j"
  have c: "classify (line ! length (utf8s ps)) = (length (utf8 cp), utf16_units cp)"
    using assms by (intro classify_at) auto
  have "utf16_walk line ?t 0 0 = utf16_walk line ?t (length (utf8s ps)) (of_nat (utf16_len ps))"
    using utf16_walk_chars [of line "[]" ps "utf8 cp @ zs" ?t 0] assms by simp
  also have "\<dots> = of_nat (utf16_len (ps @ [cp]))"
    using c assms(3,4) by (subst utf16_walk.simps) (auto simp: utf16_walk.simps [of _ n n for n] simp del: add_is_0)
  finally show ?thesis
    using assms(1,4) by (simp add: ilsp_utf8_byte_to_utf16_column_def)
qed

lemma utf8_round_up_inside:
  assumes "line = utf8s ps @ utf8 cp @ zs" "\<forall>x\<in>set (ps @ [cp]). x < 0x110000" "0 < j" "j \<le> length (utf8 cp)"
  shows "utf8_round_up line (length (utf8s ps) + j) = length (utf8s (ps @ [cp]))"
proof (cases "length (utf8s ps) + j \<ge> length line")
  case True
  then have "zs = []" using assms(1,4) by (cases zs) auto
  then show ?thesis using True assms(1) by (simp add: utf8_round_up_def)
next
  case False
  let ?t = "length (utf8s ps) + j"
  have c: "classify (line ! length (utf8s ps)) = (length (utf8 cp), utf16_units cp)"
    using assms by (intro classify_at) auto
  have "round_walk line ?t 0 = round_walk line ?t (length (utf8s ps))"
    using round_walk_chars [of line "[]" ps "utf8 cp @ zs" ?t] assms by simp
  also have "\<dots> = length (utf8s (ps @ [cp]))"
    using c assms(1,3,4) by (subst round_walk.simps) (simp add: round_walk.simps [of _ ?t "length (utf8s ps) + length (utf8 cp)"])
  finally show ?thesis using False by (simp add: utf8_round_up_def)
qed

text \<open>C19: Columns of the language server are those of the encoding, in both directions: an offset at or inside the
  bytes of a character has the UTF-16 column after that character, that column leads back to the byte after the character,
  and the UTF-8 columns are the byte offsets rounded up to a character.\<close>

theorem columns_exact:
  assumes "line = utf8s ps @ utf8 cp @ zs" "\<forall>x\<in>set (ps @ [cp]). x < 0x110000" "0 < j" "j \<le> length (utf8 cp)"
    and "length line < 2 ^ 32"
  shows "ilsp_utf8_byte_to_utf16_column line (length (utf8s ps) + j) = of_nat (utf16_len (ps @ [cp])) \<and>
    ilsp_utf16_column_to_utf8_byte line (of_nat (utf16_len (ps @ [cp]))) = length (utf8s (ps @ [cp])) \<and>
    unat (ilsp_utf8_byte_to_utf8_column line (length (utf8s ps) + j)) = length (utf8s (ps @ [cp])) \<and>
    ilsp_utf8_column_to_utf8_byte line (of_nat (length (utf8s ps) + j)) = length (utf8s (ps @ [cp]))"
proof -
  have units: "utf16_units x \<le> length (utf8 x)" for x by (simp add: utf16_units_def utf8_def)
  have "utf16_len (ps @ [cp]) \<le> length (utf8s (ps @ [cp]))"
    unfolding length_concat map_map comp_def using units by (rule sum_list_mono)
  then have "utf16_len (ps @ [cp]) < 2 ^ 32" using assms(1,5) by simp
  then have "ilsp_utf16_column_to_utf8_byte line (of_nat (utf16_len (ps @ [cp]))) = length (utf8s (ps @ [cp]))"
    using byte_walk_chars [of line "[]" "ps @ [cp]" zs] assms(1,2)
    by (simp add: ilsp_utf16_column_to_utf8_byte_def)
  moreover have "unat (of_nat (length (utf8s ps) + j) :: u32) = length (utf8s ps) + j"
    using assms(1,4,5) by (intro unat_u32) simp
  moreover have "unat (of_nat (length (utf8s (ps @ [cp]))) :: u32) = length (utf8s (ps @ [cp]))"
    using assms(1,5) by (intro unat_u32) simp
  ultimately show ?thesis
    using utf16_column_inside [OF assms(1-4)] utf8_round_up_inside [OF assms(1-4)]
    by (simp only: ilsp_utf8_byte_to_utf8_column_def ilsp_utf8_column_to_utf8_byte_def simp_thms)
qed

theorem columns_exact_witness:
  "ilsp_utf8_byte_to_utf16_column (utf8 0x61 @ utf8 0x1F600 @ utf8 0x62) (Suc (Suc (Suc 0))) = 3"
  using columns_exact [where ps = "[0x61]" and cp = "0x1F600" and zs = "utf8 0x62" and j = 2, OF refl]
  by (simp add: utf8_def utf16_units_def)

section \<open>Spans become ranges of the text\<close>

lemma nat_starts_append: "nat_starts i (a @ s) = nat_starts i a @ nat_starts (i + length a) s"
  by (induction a arbitrary: i) auto

lemma nat_starts_none: "NL \<notin> set s \<Longrightarrow> nat_starts i s = []"
  by (induction s arbitrary: i) auto

text \<open>The line that starts after \<open>a\<close>.\<close>

lemma index_nats_line:
  assumes "a = [] \<or> last a = NL"
  shows "index_nats (a @ s) ! newlines a = length a"
proof -
  have "index_nats (a @ s) = index_nats a @ nat_starts (length a) s"
    by (simp add: index_nats_def nat_starts_append)
  moreover have "last (index_nats a) = length a"
    using assms by (cases a rule: rev_cases) (auto simp: index_nats_def nat_starts_append)
  moreover have "index_nats a \<noteq> []" by (simp add: index_nats_def)
  ultimately show ?thesis
    using index_nats_length [of a] by (simp add: nth_append last_conv_nth)
qed

lemma byte_of_line_nat:
  assumes "length s + 1 < 2 ^ 32" "k \<le> length s + 1"
  shows "ilsp_byte_of_line (ilsp_line_index_rebuild s) (of_nat k) = index_nats s ! min k (newlines s)"
proof -
  have "unat (of_nat k :: u32) = k" using assms by (intro unat_u32) simp
  moreover have "ilsp_line_index_rebuild s \<noteq> []" by (simp add: ilsp_line_index_rebuild_def)
  ultimately show ?thesis
    using rebuild_nth [of s] assms(1) index_nats_length [of s] by (auto simp: ilsp_byte_of_line_def last_conv_nth min_def)
qed

lemma next_line_start:
  assumes "a = [] \<or> last a = NL" "NL \<notin> set p"
  shows "index_nats (a @ p @ b) ! min (newlines a + 1) (newlines (a @ p @ b)) =
    (case nat_starts (length (a @ p)) b of [] \<Rightarrow> length a | n # _ \<Rightarrow> n)"
proof -
  have i: "index_nats (a @ p @ b) = index_nats a @ nat_starts (length (a @ p)) b"
    using assms(2) by (simp add: index_nats_def nat_starts_append nat_starts_none)
  have "newlines p = 0" using assms(2) by (auto simp: filter_empty_conv)
  then have n: "newlines (a @ p @ b) = newlines a + length (nat_starts (length (a @ p)) b)"
    by (simp add: nat_starts_length)
  show ?thesis
  proof (cases "nat_starts (length (a @ p)) b")
    case Nil
    then show ?thesis using n index_nats_line [OF assms(1), of "p @ b"] by simp
  next
    case (Cons m ms)
    then show ?thesis using n unfolding i by (simp add: nth_append index_nats_length)
  qed
qed

abbreviation doc_of :: "string \<Rightarrow> IronLsp_Document" where
  "doc_of s \<equiv> \<lparr>doc_text = s, doc_line_idx = ilsp_line_index_rebuild s\<rparr>"

text \<open>The range of a line reaches every position of the line before its terminator.\<close>

lemma line_byte_range_eq:
  assumes "ilsp_byte_of_line (doc_line_idx doc) l = st" "ilsp_byte_of_line (doc_line_idx doc) (l + 1) = n"
    and "st \<le> length (doc_text doc)" "n = 0 \<longrightarrow> l = 0" "e = (if n > st then n - 1 else length (doc_text doc))" "n \<le> length (doc_text doc)"
  shows "line_byte_range doc l = (st, (if e > st \<and> doc_text doc ! (e - 1) = CR then e - 1 else e) - st)"
proof -
  have n1: "(if n = 0 \<and> l \<noteq> 0 then length (doc_text doc) else n) = n" using assms(4) by auto
  have e1: "(if e < st then st else e) = e" using assms(3,5) by auto
  have m: "min st (length (doc_text doc)) = st" "min n (length (doc_text doc)) = n" using assms(3,6) by simp_all
  show ?thesis
    unfolding line_byte_range_def Let_def assms(1,2) n1 m assms(5) [symmetric] e1 by (rule refl)
qed

lemma line_range_covers:
  assumes "s = a @ p @ b" "a = [] \<or> last a = NL" "NL \<notin> set p" "p \<noteq> [] \<longrightarrow> last p \<noteq> CR" "length s + 1 < 2 ^ 32"
  shows "\<exists>n. line_byte_range (doc_of s) (of_nat (newlines a)) = (length a, n) \<and> length p \<le> n \<and> n \<le> length s"
proof -
  have le: "newlines a \<le> length a" by (rule length_filter_le)
  then have start: "ilsp_byte_of_line (ilsp_line_index_rebuild s) (of_nat (newlines a)) = length a"
    using byte_of_line_nat [OF assms(5), of "newlines a"] index_nats_line [OF assms(2), of "p @ b"] le assms(1) by (simp add: min_def)
  have "ilsp_byte_of_line (ilsp_line_index_rebuild s) (of_nat (newlines a) + 1) =
      index_nats s ! min (newlines a + 1) (newlines s)"
    using byte_of_line_nat [OF assms(5), of "newlines a + 1"] le assms(1) by (simp add: add.commute)
  then have nxt: "ilsp_byte_of_line (ilsp_line_index_rebuild s) (of_nat (newlines a) + 1) =
      (case nat_starts (length (a @ p)) b of [] \<Rightarrow> length a | n # _ \<Rightarrow> n)"
    using next_line_start [OF assms(2,3), of b] assms(1) by simp
  have zero: "of_nat (newlines a) = (0 :: u32)" if "a = []" using that by simp
  have cr: "s ! (length a + length p - Suc 0) \<noteq> CR" if "p \<noteq> []"
    using that assms(1,4) by (cases p rule: rev_cases) (auto simp: nth_append)
  define e where "e = (case nat_starts (length (a @ p)) b of [] \<Rightarrow> length s | n # _ \<Rightarrow> n - 1)"
  have e: "length (a @ p) \<le> e" "e \<le> length s"
    using nat_starts_range [of _ "length (a @ p)" b] assms(1)
    by (auto simp: e_def split: list.split) fastforce+
  have "line_byte_range (doc_of s) (of_nat (newlines a)) =
      (length a, (if e > length a \<and> s ! (e - 1) = CR then e - 1 else e) - length a)"
  proof (cases "nat_starts (length (a @ p)) b")
    case Nil
    then show ?thesis
      using line_byte_range_eq [where doc = "doc_of s" and l = "of_nat (newlines a)" and st = "length a" and n = "length a" and e = e]
        start nxt zero assms(1) by (simp add: e_def)
  next
    case (Cons m ms)
    have "length (a @ p) < m" "m \<le> length s"
      using nat_starts_range [of m "length (a @ p)" b] Cons assms(1) by simp_all
    then show ?thesis
      using line_byte_range_eq [where doc = "doc_of s" and l = "of_nat (newlines a)" and st = "length a" and n = m and e = e]
        start nxt Cons assms(1) by (simp add: e_def)
  qed
  moreover have "length p \<le> (if e > length a \<and> s ! (e - 1) = CR then e - 1 else e) - length a"
    using e(1) cr by (cases "e = length (a @ p)") (auto split: if_splits)
  ultimately show ?thesis using e(2) by auto
qed

lemma utf8_round_up_boundary:
  assumes "line = utf8s ps @ zs" "\<forall>cp\<in>set ps. cp < 0x110000"
  shows "utf8_round_up line (length (utf8s ps)) = length (utf8s ps)"
proof (cases ps rule: rev_cases)
  case Nil
  then show ?thesis by (auto simp: utf8_round_up_def round_walk.simps)
next
  case (snoc qs q)
  then show ?thesis
    using utf8_round_up_inside [of line qs q zs "length (utf8 q)"] assms utf8_not_empty [of q] by simp
qed

definition lsp_column :: "IronLsp_PositionEncoding \<Rightarrow> nat list \<Rightarrow> u32" where
  "lsp_column enc ps = (case enc of ILSP_ENC_UTF8 \<Rightarrow> of_nat (length (utf8s ps)) | ILSP_ENC_UTF16 \<Rightarrow> of_nat (utf16_len ps))"

lemma convert_endpoint_eq:
  assumes "l \<noteq> 0" "doc_line_idx doc \<noteq> []" "l - 1 < of_nat (length (doc_line_idx doc))" "line_byte_range doc (l - 1) = (st, n)"
    and "(if c = 0 then 0 else if ex then c else c - 1) = B" "unat B \<le> n"
  shows "convert_endpoint doc l c ex enc = \<lparr>lsp_line = l - 1, lsp_character =
     (case enc of ILSP_ENC_UTF8 \<Rightarrow> ilsp_utf8_byte_to_utf8_column (take n (drop st (doc_text doc))) (unat B)
      | ILSP_ENC_UTF16 \<Rightarrow> ilsp_utf8_byte_to_utf16_column (take n (drop st (doc_text doc))) (unat B))\<rparr>"
proof -
  have "(of_nat (length (doc_line_idx doc)) :: u32) \<noteq> 0" using assms(3) word_not_simps(1) by metis
  moreover have "\<not> n < unat B" "\<not> of_nat (length (doc_line_idx doc)) \<le> l - 1" using assms(3,6) by simp_all
  ultimately show ?thesis
    unfolding convert_endpoint_def Let_def using assms(1-5) by (simp only: if_False if_True prod.case simp_thms)
qed

lemma endpoint_exact:
  assumes "s = a @ utf8s ps @ b" "a = [] \<or> last a = NL" "NL \<notin> set (utf8s ps)" "utf8s ps \<noteq> [] \<longrightarrow> last (utf8s ps) \<noteq> CR"
    and "length s + 1 < 2 ^ 32" "\<forall>cp\<in>set ps. cp < 0x110000"
    and "(if c = 0 then 0 else if ex then c else c - 1) = of_nat (length (utf8s ps))"
  shows "convert_endpoint (doc_of s) (of_nat (newlines a + 1)) c ex enc =
    \<lparr>lsp_line = of_nat (newlines a), lsp_character = lsp_column enc ps\<rparr>"
proof -
  obtain n where n: "line_byte_range (doc_of s) (of_nat (newlines a)) = (length a, n)" "length (utf8s ps) \<le> n" "n \<le> length s"
    using line_range_covers [OF assms(1-5)] by blast
  have le: "newlines a \<le> newlines s" "newlines s \<le> length s" using assms(1) length_filter_le [of "\<lambda>c. c = NL" s] by simp_all
  have one: "unat (of_nat (newlines a + 1) :: u32) = newlines a + 1" using le assms(5) by (intro unat_u32) linarith
  then have nz: "(of_nat (newlines a + 1) :: u32) \<noteq> 0" by (metis Suc_eq_plus1 nat.distinct(1) unat_0)
  have idx: "(of_nat (length (ilsp_line_index_rebuild s)) :: u32) = of_nat (newlines s + 1)" by (simp add: index_nats_length)
  have lt: "(of_nat (newlines a) :: u32) < of_nat (newlines s + 1)" using le assms(5) by (intro of_nat_less_u32) linarith+
  have u: "unat (of_nat (length (utf8s ps)) :: u32) = length (utf8s ps)" using assms(1,5) by (intro unat_u32) simp
  obtain zs where zs: "take n (drop (length a) s) = utf8s ps @ zs" using n(2) assms(1) by (auto simp: take_append)
  have "doc_line_idx (doc_of s) \<noteq> []" by (simp add: ilsp_line_index_rebuild_def)
  then have "convert_endpoint (doc_of s) (of_nat (newlines a + 1)) c ex enc =
    \<lparr>lsp_line = of_nat (newlines a), lsp_character =
       (case enc of ILSP_ENC_UTF8 \<Rightarrow> ilsp_utf8_byte_to_utf8_column (utf8s ps @ zs) (length (utf8s ps))
        | ILSP_ENC_UTF16 \<Rightarrow> ilsp_utf8_byte_to_utf16_column (utf8s ps @ zs) (length (utf8s ps)))\<rparr>"
    using convert_endpoint_eq [where doc = "doc_of s" and st = "length a", OF nz _ _ _ assms(7), of n enc] lt n zs u idx
    by (simp split: IronLsp_PositionEncoding.splits)
  then show ?thesis
    using utf16_column_boundary [OF refl assms(6), of zs] utf8_round_up_boundary [OF refl assms(6), of zs]
    by (auto simp: ilsp_utf8_byte_to_utf8_column_def lsp_column_def split: IronLsp_PositionEncoding.splits)
qed

lemma line_of_after:
  assumes "a = [] \<or> last a = NL" "NL \<notin> set p"
  shows "line_of (a @ p @ b) (length (a @ p)) = newlines a + 1" "col_of (a @ p @ b) (length (a @ p)) = length p + 1"
proof -
  have p: "filter (\<lambda>c. c = NL) p = []" "takeWhile (\<lambda>c. c \<noteq> NL) (rev p) = rev p"
    using assms(2) by (auto simp: filter_empty_conv takeWhile_eq_all_conv)
  have "takeWhile (\<lambda>c. c \<noteq> NL) (rev a) = []"
    using assms(1) by (cases a rule: rev_cases) auto
  then show "line_of (a @ p @ b) (length (a @ p)) = newlines a + 1" "col_of (a @ p @ b) (length (a @ p)) = length p + 1"
    using p assms(2) by (simp_all add: line_of_def col_of_def takeWhile_append)
qed

text \<open>The range of a token on the text of its characters.\<close>

lemma token_range:
  assumes s: "s = a @ utf8s ps @ utf8s qs @ b" "a = [] \<or> last a = NL" "length s + 1 < 2 ^ 32"
    and cps: "qs \<noteq> []" "\<forall>cp\<in>set (ps @ qs). cp < 0x110000" "NL \<notin> set (utf8s (ps @ qs))" "CR \<notin> set (utf8s (ps @ qs))"
    and t: "tok_line t = of_nat (line_of s (length (a @ utf8s ps)))" "tok_col t = of_nat (col_of s (length (a @ utf8s ps)))"
      "tok_len t = of_nat (length (utf8s qs))"
  shows "ilsp_span_to_lsp_range (iron_token_span f t) (doc_of s) enc =
    \<lparr>r_start = \<lparr>lsp_line = of_nat (newlines a), lsp_character = lsp_column enc ps\<rparr>,
     r_end = \<lparr>lsp_line = of_nat (newlines a), lsp_character = lsp_column enc (ps @ qs)\<rparr>\<rparr>"
proof -
  have line: "tok_line t = of_nat (newlines a + 1)" and col: "tok_col t = of_nat (length (utf8s ps) + 1)"
    using line_of_after [OF s(2), of "utf8s ps" "utf8s qs @ b"] cps(3) t(1,2) s(1) by simp_all
  have q: "0 < length (utf8s qs)" using cps(1) utf8_not_empty by (cases qs) auto
  have small: "length (utf8s (ps @ qs)) + 1 < 2 ^ 32" using s(1,3) by simp
  have len: "tok_len t > 0" unfolding t(3) using q small by (intro of_nat_pos_u32) auto
  have start: "convert_endpoint (doc_of s) (tok_line t) (tok_col t) False enc =
      \<lparr>lsp_line = of_nat (newlines a), lsp_character = lsp_column enc ps\<rparr>"
  proof -
    have "CR \<notin> set (utf8s ps)" "NL \<notin> set (utf8s ps)" using cps(3,4) by auto
    then have "utf8s ps \<noteq> [] \<longrightarrow> last (utf8s ps) \<noteq> CR" "NL \<notin> set (utf8s ps)" using last_in_set by metis+
    moreover have "tok_col t > 0" unfolding col using small by (intro of_nat_pos_u32) auto
    then have "tok_col t \<noteq> 0" by auto
    then have "(if tok_col t = 0 then 0 else if False then tok_col t else tok_col t - 1) = of_nat (length (utf8s ps))"
      unfolding col by (simp only: if_False) simp
    ultimately show ?thesis
      unfolding line using endpoint_exact [OF s(1,2) _ _ s(3), of "tok_col t" False enc] cps(2) by auto
  qed
  have "tok_col t + (tok_len t - 1) = of_nat (length (utf8s (ps @ qs)))"
    unfolding col t(3) by simp
  moreover have "(of_nat (length (utf8s (ps @ qs))) :: u32) > 0"
    using q small by (intro of_nat_pos_u32) auto
  ultimately have c: "(if tok_col t + (tok_len t - 1) = 0 then 0 else if True then tok_col t + (tok_len t - 1)
      else tok_col t + (tok_len t - 1) - 1) = of_nat (length (utf8s (ps @ qs)))" by simp
  have l: "utf8s (ps @ qs) \<noteq> [] \<longrightarrow> last (utf8s (ps @ qs)) \<noteq> CR" using cps(4) last_in_set by metis
  have fin: "convert_endpoint (doc_of s) (tok_line t) (tok_col t + (tok_len t - 1)) True enc =
      \<lparr>lsp_line = of_nat (newlines a), lsp_character = lsp_column enc (ps @ qs)\<rparr>"
    unfolding line by (rule endpoint_exact [OF _ s(2) cps(3) l s(3) cps(2) c, of b]) (simp add: s(1))
  have "unat (tok_line t) = newlines a + 1"
    unfolding line using s(1,3) le_trans [OF length_filter_le [of "\<lambda>c. c = NL" a], of "length s"] by (intro unat_u32) simp
  then have "tok_line t \<noteq> 0" by auto
  then show ?thesis
    using start fin len by (simp add: ilsp_span_to_lsp_range_def iron_token_span_def iron_span_make_def Let_def)
qed

end
