(* ===== verification/Frame.thy ===== *)
theory Frame
  imports Prelude
begin

text \<open>
  The framing of the language server's protocol (src/lsp/transport/frame.c) and the reader that drives
  it (src/lsp/transport/reader.c). The buffer of the parser is the list of its live bytes; its capacity
  is kept because growth may fail. What the reader pulls from its source is a list of events.
\<close>

section \<open>The parser\<close>

definition ILSP_FRAME_INITIAL_CAPACITY :: nat where
  "ILSP_FRAME_INITIAL_CAPACITY = 4096"

definition ILSP_FRAME_MAX_MESSAGE_SIZE :: nat where
  "ILSP_FRAME_MAX_MESSAGE_SIZE = 10 * 1024 * 1024"

definition SIZE_MAX :: nat where
  "SIZE_MAX = 2 ^ 64 - 1"

datatype IronLsp_FrameState = ILSP_FRAME_STATE_HEADERS | ILSP_FRAME_STATE_BODY

datatype IronLsp_FrameResult =
    ILSP_FRAME_RESULT_NEED_MORE
  | ILSP_FRAME_RESULT_COMPLETE
  | ILSP_FRAME_RESULT_ERROR_OVERSIZED
  | ILSP_FRAME_RESULT_ERROR_MALFORMED

record IronLsp_FrameParser =
  fp_state :: IronLsp_FrameState
  fp_buf :: string
  fp_buf_cap :: nat
  fp_content_length :: nat
  fp_body_start :: nat
  fp_have_content_length :: bool

definition ilsp_frame_init :: "malloc_ok \<Rightarrow> IronLsp_FrameParser" where
  "ilsp_frame_init al =
     \<lparr>fp_state = ILSP_FRAME_STATE_HEADERS, fp_buf = [],
      fp_buf_cap = (if al ILSP_FRAME_INITIAL_CAPACITY then ILSP_FRAME_INITIAL_CAPACITY else 0),
      fp_content_length = 0, fp_body_start = 0, fp_have_content_length = False\<rparr>"

definition ilsp_frame_destroy :: "IronLsp_FrameParser \<Rightarrow> IronLsp_FrameParser" where
  "ilsp_frame_destroy p =
     \<lparr>fp_state = ILSP_FRAME_STATE_HEADERS, fp_buf = [], fp_buf_cap = 0, fp_content_length = 0, fp_body_start = 0,
      fp_have_content_length = False\<rparr>"

text \<open>The doubling; a capacity of zero does not reach it.\<close>

function grow_cap :: "nat \<Rightarrow> nat \<Rightarrow> nat" where
  "grow_cap needed new_cap =
     (if new_cap < needed then
        (if new_cap > SIZE_MAX div 2 then needed
         else if new_cap = 0 then needed else grow_cap needed (new_cap * 2))
      else new_cap)"
  by pat_completeness auto
termination
  by (relation "measure (\<lambda>(needed, new_cap). needed - new_cap)") auto

declare grow_cap.simps [simp del]

definition frame_reserve :: "malloc_ok \<Rightarrow> nat \<Rightarrow> IronLsp_FrameParser \<Rightarrow> IronLsp_FrameParser option" where
  "frame_reserve al needed p =
     (if needed \<le> fp_buf_cap p then Some p
      else let new_cap = grow_cap needed (if fp_buf_cap p \<noteq> 0 then fp_buf_cap p else ILSP_FRAME_INITIAL_CAPACITY) in
        if al new_cap then Some (p\<lparr>fp_buf_cap := new_cap\<rparr>) else None)"

definition tolower :: "char \<Rightarrow> char" where
  "tolower c = (if 65 \<le> code c \<and> code c \<le> 90 then char_of (code c + 32) else c)"

definition header_name_matches :: "string \<Rightarrow> string \<Rightarrow> bool" where
  "header_name_matches line prefix \<longleftrightarrow>
     length prefix \<le> length line \<and> map tolower (take (length prefix) line) = map tolower prefix"

text \<open>The end of the line that begins at an offset: the offset of its terminator and of the next line.\<close>

fun line_end_from :: "nat \<Rightarrow> string \<Rightarrow> (nat \<times> nat) option" where
  "line_end_from i [] = None"
| "line_end_from i (c # cs) =
     (if c = CR then (case cs of [] \<Rightarrow> None | d # _ \<Rightarrow> if d = NL then Some (i, i + 2) else None)
      else if c = NL then Some (i, i + 1)
      else line_end_from (i + 1) cs)"

definition find_line_end :: "IronLsp_FrameParser \<Rightarrow> nat \<Rightarrow> (nat \<times> nat) option" where
  "find_line_end p from = line_end_from from (drop from (fp_buf p))"

text \<open>
  \<^verbatim>\<open>strtoull\<close> in base ten on a C string: white space, an optional sign, digits. \<open>None\<close> when there is no
  digit; otherwise the value (the largest on overflow, negated modulo the width after a minus sign) and the
  text after the digits.
\<close>

definition isspace :: "char \<Rightarrow> bool" where
  "isspace c \<longleftrightarrow> code c = 32 \<or> (9 \<le> code c \<and> code c \<le> 13)"

definition strtoull_dec :: "string \<Rightarrow> (nat \<times> string) option" where
  "strtoull_dec s =
     (let s1 = dropWhile isspace s;
          neg = (s1 \<noteq> [] \<and> hd s1 = CHR ''-'');
          s2 = (if s1 \<noteq> [] \<and> (hd s1 = CHR ''-'' \<or> hd s1 = CHR ''+'') then tl s1 else s1);
          ds = takeWhile isdigit s2;
          n = dec_value ds in
      if ds = [] then None
      else Some (if n > 2 ^ 64 - 1 then 2 ^ 64 - 1 else if neg then (2 ^ 64 - n) mod 2 ^ 64 else n, dropWhile isdigit s2))"

abbreviation is_wsp :: "char \<Rightarrow> bool" where
  "is_wsp c \<equiv> c = CHR '' '' \<or> c = TAB"

text \<open>
  One header line that is not blank: an error code, or the length it announces when it is a
  \<^verbatim>\<open>Content-Length\<close>. The value is copied to a buffer of 32 bytes and read as a C string.
\<close>

definition header_line :: "string \<Rightarrow> int + nat option" where
  "header_line line =
     (if CHR '':'' \<notin> set line then Inl (- 3)
      else let name = takeWhile (\<lambda>c. c \<noteq> CHR '':'') line in
        if header_name_matches name ''Content-Length'' then
          let val = dropWhile is_wsp (drop (length name + 1) line) in
          if length val = 0 \<or> length val \<ge> 32 then Inl (- 3)
          else (case strtoull_dec (takeWhile (\<lambda>c. c \<noteq> NUL) val) of
                  None \<Rightarrow> Inl (- 3)
                | Some (v, endp) \<Rightarrow>
                    if \<not> list_all is_wsp endp then Inl (- 3)
                    else if v > ILSP_FRAME_MAX_MESSAGE_SIZE then Inl (- 2)
                    else Inr (Some v))
        else Inr None)"

lemma line_end_bounds: "line_end_from i s = Some (e, n) \<Longrightarrow> i \<le> e \<and> e < n \<and> n \<le> i + length s"
  by (induction i s rule: line_end_from.induct) (auto split: if_splits list.splits)

lemma find_line_end_bounds: "find_line_end p from = Some (e, n) \<Longrightarrow> from \<le> e \<and> e < n \<and> n \<le> max from (length (fp_buf p))"
  unfolding find_line_end_def by (drule line_end_bounds) auto

function parse_headers_from :: "nat \<Rightarrow> IronLsp_FrameParser \<Rightarrow> int \<times> IronLsp_FrameParser" where
  "parse_headers_from cursor p =
     (if cursor < length (fp_buf p) then
        (case find_line_end p cursor of
           None \<Rightarrow> (- 1, p)
         | Some (line_end, next_start) \<Rightarrow>
             if line_end - cursor = 0 then
               (if \<not> fp_have_content_length p then (- 3, p)
                else (0, p\<lparr>fp_state := ILSP_FRAME_STATE_BODY, fp_body_start := next_start\<rparr>))
             else (case header_line (take (line_end - cursor) (drop cursor (fp_buf p))) of
                     Inl rc \<Rightarrow> (rc, p)
                   | Inr None \<Rightarrow> parse_headers_from next_start p
                   | Inr (Some v) \<Rightarrow>
                       parse_headers_from next_start (p\<lparr>fp_content_length := v, fp_have_content_length := True\<rparr>)))
      else (- 1, p))"
  by pat_completeness auto
termination
  by (relation "measure (\<lambda>(cursor, p). length (fp_buf p) - cursor)") (auto dest!: find_line_end_bounds)

declare parse_headers_from.simps [simp del]

text \<open>The loop one line at a time.\<close>

lemma parse_headers_more:
  "\<not> cursor < length (fp_buf p) \<or> find_line_end p cursor = None \<Longrightarrow> parse_headers_from cursor p = (- 1, p)"
  by (subst parse_headers_from.simps) auto

lemma parse_headers_blank:
  assumes "cursor < length (fp_buf p)" "find_line_end p cursor = Some (cursor, n)"
  shows "parse_headers_from cursor p = (if fp_have_content_length p
    then (0, p\<lparr>fp_state := ILSP_FRAME_STATE_BODY, fp_body_start := n\<rparr>) else (- 3, p))"
  using assms by (subst parse_headers_from.simps) simp

lemma parse_headers_line:
  assumes "cursor < length (fp_buf p)" "find_line_end p cursor = Some (e, n)" "cursor < e"
  shows "parse_headers_from cursor p = (case header_line (take (e - cursor) (drop cursor (fp_buf p))) of
      Inl rc \<Rightarrow> (rc, p)
    | Inr None \<Rightarrow> parse_headers_from n p
    | Inr (Some v) \<Rightarrow> parse_headers_from n (p\<lparr>fp_content_length := v, fp_have_content_length := True\<rparr>))"
  using assms by (subst parse_headers_from.simps) simp

definition frame_parse_headers :: "IronLsp_FrameParser \<Rightarrow> int \<times> IronLsp_FrameParser" where
  "frame_parse_headers p = parse_headers_from 0 p"

text \<open>Feeding: the result, the message when there is one, and the parser afterwards.\<close>

definition ilsp_frame_feed :: "malloc_ok \<Rightarrow> string \<Rightarrow> IronLsp_FrameParser \<Rightarrow> IronLsp_FrameResult \<times> string \<times> IronLsp_FrameParser" where
  "ilsp_frame_feed al inp p =
     (case (if length inp > 0 then map_option (\<lambda>q. q\<lparr>fp_buf := fp_buf q @ inp\<rparr>) (frame_reserve al (length (fp_buf p) + length inp) p)
            else Some p) of
        None \<Rightarrow> (ILSP_FRAME_RESULT_ERROR_MALFORMED, [], p)
      | Some p1 \<Rightarrow>
          (case (if fp_state p1 = ILSP_FRAME_STATE_HEADERS then frame_parse_headers p1 else (0, p1)) of
             (rc, p2) \<Rightarrow>
               if rc = - 1 then (ILSP_FRAME_RESULT_NEED_MORE, [], p2)
               else if rc = - 2 then (ILSP_FRAME_RESULT_ERROR_OVERSIZED, [], p2)
               else if rc = - 3 then (ILSP_FRAME_RESULT_ERROR_MALFORMED, [], p2)
               else if fp_state p2 = ILSP_FRAME_STATE_BODY \<and> length (fp_buf p2) - fp_body_start p2 \<ge> fp_content_length p2
               then (ILSP_FRAME_RESULT_COMPLETE, take (fp_content_length p2) (drop (fp_body_start p2) (fp_buf p2)), p2)
               else (ILSP_FRAME_RESULT_NEED_MORE, [], p2)))"

definition ilsp_frame_consume :: "IronLsp_FrameParser \<Rightarrow> IronLsp_FrameParser" where
  "ilsp_frame_consume p =
     (if fp_state p \<noteq> ILSP_FRAME_STATE_BODY then p
      else let consumed = min (fp_body_start p + fp_content_length p) (length (fp_buf p)) in
        p\<lparr>fp_buf := drop consumed (fp_buf p), fp_state := ILSP_FRAME_STATE_HEADERS, fp_content_length := 0,
          fp_body_start := 0, fp_have_content_length := False\<rparr>)"

section \<open>The reader\<close>

text \<open>
  The parser, the messages delivered to \<^verbatim>\<open>on_message\<close> so far and the shutdown flag, which another thread
  may set. Logging is left out.
\<close>

record IronLsp_Reader =
  rd_parser :: IronLsp_FrameParser
  rd_messages :: "string list"
  rd_shutdown :: bool

definition ilsp_reader_create :: "malloc_ok \<Rightarrow> IronLsp_Reader" where
  "ilsp_reader_create al = \<lparr>rd_parser = ilsp_frame_init al, rd_messages = [], rd_shutdown = False\<rparr>"

definition ilsp_reader_shutdown :: "IronLsp_Reader \<Rightarrow> IronLsp_Reader" where
  "ilsp_reader_shutdown r = r\<lparr>rd_shutdown := True\<rparr>"

lemma parse_headers_effect:
  "parse_headers_from cursor p = (rc, q) \<Longrightarrow> fp_state p = ILSP_FRAME_STATE_HEADERS \<Longrightarrow>
     fp_buf q = fp_buf p \<and> fp_buf_cap q = fp_buf_cap p \<and> (rc = 0 \<or> rc = - 1 \<or> rc = - 2 \<or> rc = - 3) \<and>
     (fp_state q = ILSP_FRAME_STATE_BODY \<longrightarrow> rc = 0 \<and> 0 < fp_body_start q \<and> fp_body_start q \<le> length (fp_buf q) \<and> fp_buf q \<noteq> [])"
proof (induction cursor p arbitrary: q rule: parse_headers_from.induct)
  case (1 cursor p)
  note IH = "1.IH" and eq = "1.prems"(1) and st = "1.prems"(2)
  consider (more) "\<not> cursor < length (fp_buf p) \<or> find_line_end p cursor = None"
    | (blank) n where "cursor < length (fp_buf p)" "find_line_end p cursor = Some (cursor, n)"
    | (line) e n where "cursor < length (fp_buf p)" "find_line_end p cursor = Some (e, n)" "cursor < e"
    using find_line_end_bounds by (metis le_neq_implies_less option.exhaust prod.exhaust)
  then show ?case
  proof cases
    case more
    then show ?thesis using eq st by (simp add: parse_headers_more)
  next
    case blank
    then show ?thesis
      using eq st find_line_end_bounds [OF blank(2)] by (auto simp: parse_headers_blank split: if_splits)
  next
    case line
    let ?h = "header_line (take (e - cursor) (drop cursor (fp_buf p)))"
    consider (err) rc' where "?h = Inl rc'" | (skip) "?h = Inr None" | (len) v where "?h = Inr (Some v)"
      by (metis option.exhaust sum.exhaust)
    then show ?thesis
    proof cases
      case err
      then have "rc' = - 2 \<or> rc' = - 3"
        by (auto simp: header_line_def Let_def split: if_splits option.splits)
      then show ?thesis using eq st err by (auto simp: parse_headers_line [OF line])
    next
      case skip
      then show ?thesis using IH(1) [OF line(1,2) refl _ skip] line(3) eq st by (auto simp: parse_headers_line [OF line])
    next
      case (len v)
      then have "parse_headers_from n (p\<lparr>fp_content_length := v, fp_have_content_length := True\<rparr>) = (rc, q)"
        using eq by (simp add: parse_headers_line [OF line])
      then show ?thesis using IH(2) [OF line(1,2) refl _ len refl, of q] line(3) st by auto
    qed
  qed
qed

definition pump_measure :: "IronLsp_FrameParser \<Rightarrow> nat" where
  "pump_measure p = 2 * length (fp_buf p) + (if fp_state p = ILSP_FRAME_STATE_BODY then 1 else 0)"

lemma feed_consume_shrinks:
  assumes "ilsp_frame_feed al [] p = (ILSP_FRAME_RESULT_COMPLETE, body, q)"
  shows "pump_measure (ilsp_frame_consume q) < pump_measure p"
proof (cases "fp_state p")
  case ILSP_FRAME_STATE_HEADERS
  obtain rc p2 where p2: "frame_parse_headers p = (rc, p2)" by (cases "frame_parse_headers p")
  then have "q = p2" "fp_state q = ILSP_FRAME_STATE_BODY"
    using assms ILSP_FRAME_STATE_HEADERS by (auto simp: ilsp_frame_feed_def split: if_splits)
  then show ?thesis
    using parse_headers_effect [OF p2 [unfolded frame_parse_headers_def] ILSP_FRAME_STATE_HEADERS] ILSP_FRAME_STATE_HEADERS
    by (auto simp: pump_measure_def ilsp_frame_consume_def Let_def)
next
  case ILSP_FRAME_STATE_BODY
  then have "q = p" using assms by (auto simp: ilsp_frame_feed_def split: if_splits)
  then show ?thesis using ILSP_FRAME_STATE_BODY by (simp add: pump_measure_def ilsp_frame_consume_def Let_def)
qed

text \<open>One feed with its delivery, then the messages that are left in the buffer.\<close>

function reader_pump_remaining :: "malloc_ok \<Rightarrow> IronLsp_Reader \<Rightarrow> IronLsp_Reader" where
  "reader_pump_remaining al r =
     (case ilsp_frame_feed al [] (rd_parser r) of
        (fr, body, p) \<Rightarrow>
          if fr = ILSP_FRAME_RESULT_COMPLETE
          then reader_pump_remaining al (r\<lparr>rd_messages := rd_messages r @ [body], rd_parser := ilsp_frame_consume p\<rparr>)
          else if fr = ILSP_FRAME_RESULT_NEED_MORE then r\<lparr>rd_parser := p\<rparr>
          else r\<lparr>rd_parser := p, rd_shutdown := True\<rparr>)"
  by pat_completeness auto
termination
  by (relation "measure (\<lambda>(al, r). pump_measure (rd_parser r))") (auto dest: feed_consume_shrinks [OF sym])

declare reader_pump_remaining.simps [simp del]

definition reader_chunk :: "malloc_ok \<Rightarrow> string \<Rightarrow> IronLsp_Reader \<Rightarrow> IronLsp_Reader" where
  "reader_chunk al chunk r =
     (case ilsp_frame_feed al chunk (rd_parser r) of
        (fr, body, p) \<Rightarrow>
          if fr = ILSP_FRAME_RESULT_COMPLETE
          then reader_pump_remaining al (r\<lparr>rd_messages := rd_messages r @ [body], rd_parser := ilsp_frame_consume p\<rparr>)
          else if fr = ILSP_FRAME_RESULT_NEED_MORE then r\<lparr>rd_parser := p\<rparr>
          else r\<lparr>rd_parser := p, rd_shutdown := True\<rparr>)"

text \<open>
  What an iteration of the thread meets: bytes, the end of the input, a read error, or a shutdown request of another thread before it.
  The code pulls between 1 and 4096 bytes at a time; a chunk here has any length, and the theorems hold for every way of cutting
  the stream into chunks, those of at most 4096 bytes among them.
\<close>

datatype pull = Bytes string | End_Of_Input | Read_Error | Shutdown_Request

fun reader_thread_main :: "malloc_ok \<Rightarrow> pull list \<Rightarrow> IronLsp_Reader \<Rightarrow> IronLsp_Reader" where
  "reader_thread_main al [] r = r"
| "reader_thread_main al (e # es) r =
     (if rd_shutdown r then r
      else case e of
        Bytes chunk \<Rightarrow> if chunk \<noteq> [] then reader_thread_main al es (reader_chunk al chunk r) else r\<lparr>rd_shutdown := True\<rparr>
      | End_Of_Input \<Rightarrow> r\<lparr>rd_shutdown := True\<rparr>
      | Read_Error \<Rightarrow> r\<lparr>rd_shutdown := True\<rparr>
      | Shutdown_Request \<Rightarrow> reader_thread_main al es (ilsp_reader_shutdown r))"

section \<open>Messages on the wire\<close>

text \<open>Header lines with their terminators, the blank line, the body.\<close>

definition eol :: "bool \<Rightarrow> string" where
  "eol crlf = (if crlf then [CR, NL] else [NL])"

datatype message = Message (m_headers: "(string \<times> bool) list") (m_blank: bool) (m_body: string)

definition header_bytes :: "(string \<times> bool) list \<Rightarrow> bool \<Rightarrow> string" where
  "header_bytes hs b = concat (map (\<lambda>(l, e). l @ eol e) hs) @ eol b"

definition line_bytes :: "(string \<times> bool) list \<Rightarrow> string" where
  "line_bytes hs = concat (map (\<lambda>(l, e). l @ eol e) hs)"

lemma header_bytes_lines: "header_bytes hs b = line_bytes hs @ [] @ eol b"
  by (simp add: header_bytes_def line_bytes_def)

definition frame_bytes :: "message \<Rightarrow> string" where
  "frame_bytes m = header_bytes (m_headers m) (m_blank m) @ m_body m"

abbreviation wire :: "message list \<Rightarrow> string" where
  "wire ms \<equiv> concat (map frame_bytes ms)"

definition header_ok :: "string \<Rightarrow> bool" where
  "header_ok l \<longleftrightarrow> l \<noteq> [] \<and> CR \<notin> set l \<and> NL \<notin> set l \<and> (case header_line l of Inr _ \<Rightarrow> True | Inl _ \<Rightarrow> False)"

text \<open>The length the headers announce: the last \<^verbatim>\<open>Content-Length\<close> counts.\<close>

definition announce :: "nat option \<Rightarrow> string \<Rightarrow> nat option" where
  "announce a l = (case header_line l of Inr (Some v) \<Rightarrow> Some v | _ \<Rightarrow> a)"

definition message_ok :: "message \<Rightarrow> bool" where
  "message_ok m \<longleftrightarrow> list_all header_ok (map fst (m_headers m)) \<and>
     foldl announce None (map fst (m_headers m)) = Some (length (m_body m))"

lemma foldl_announce: "foldl announce a ls = (case foldl announce None ls of None \<Rightarrow> a | Some v \<Rightarrow> Some v)"
proof (induction ls rule: rev_induct)
  case (snoc l ls)
  then show ?case by (auto simp: announce_def split: option.splits sum.splits)
qed simp

lemma line_end_plain: "CR \<notin> set l \<Longrightarrow> NL \<notin> set l \<Longrightarrow> line_end_from i (l @ t) = line_end_from (i + length l) t"
  by (induction l arbitrary: i) auto

lemma find_line_end_at:
  assumes "fp_buf p = pre @ l @ eol e @ t" "CR \<notin> set l" "NL \<notin> set l"
  shows "find_line_end p (length pre) = Some (length (pre @ l), length (pre @ l @ eol e))"
  using assms by (simp add: find_line_end_def line_end_plain eol_def)

definition announced :: "IronLsp_FrameParser \<Rightarrow> nat option" where
  "announced p = (if fp_have_content_length p then Some (fp_content_length p) else None)"

text \<open>A line leaves the parser with the announcement it makes.\<close>

definition after_line :: "string \<Rightarrow> IronLsp_FrameParser \<Rightarrow> IronLsp_FrameParser" where
  "after_line l p = (case header_line l of
     Inr (Some v) \<Rightarrow> p\<lparr>fp_content_length := v, fp_have_content_length := True\<rparr> | _ \<Rightarrow> p)"

lemma after_line_fields [simp]:
  "fp_buf (after_line l p) = fp_buf p" "fp_state (after_line l p) = fp_state p" "fp_body_start (after_line l p) = fp_body_start p"
  "fp_buf_cap (after_line l p) = fp_buf_cap p" "announced (after_line l p) = announce (announced p) l"
  by (auto simp: after_line_def announced_def announce_def split: sum.splits option.splits)

lemma parse_good_line:
  assumes "fp_buf p = pre @ l @ eol e @ t" "header_ok l"
  shows "parse_headers_from (length pre) p = parse_headers_from (length (pre @ l @ eol e)) (after_line l p)"
proof -
  have "find_line_end p (length pre) = Some (length (pre @ l), length (pre @ l @ eol e))"
    using assms by (intro find_line_end_at) (auto simp: header_ok_def)
  moreover have "take (length (pre @ l) - length pre) (drop (length pre) (fp_buf p)) = l" "length pre < length (fp_buf p)" "l \<noteq> []"
    using assms by (auto simp: header_ok_def)
  ultimately show ?thesis
    using assms(2) parse_headers_line [of "length pre" p "length (pre @ l)"]
    by (auto simp: header_ok_def after_line_def split: sum.splits option.splits)
qed

text \<open>A whole header block.\<close>

lemma parse_block:
  assumes "fp_buf p = pre @ header_bytes hs b @ t" "list_all header_ok (map fst hs)" "foldl announce (announced p) (map fst hs) = Some n"
  shows "parse_headers_from (length pre) p =
    (0, p\<lparr>fp_state := ILSP_FRAME_STATE_BODY, fp_content_length := n, fp_have_content_length := True,
          fp_body_start := length (pre @ header_bytes hs b)\<rparr>)"
  using assms
proof (induction hs arbitrary: p pre)
  case Nil
  then have "find_line_end p (length pre) = Some (length pre, length (pre @ eol b))"
    using find_line_end_at [of p pre "[]" b t] by (simp add: header_bytes_def)
  moreover have "fp_have_content_length p" "fp_content_length p = n"
    using Nil.prems(3) by (auto simp: announced_def split: if_splits)
  moreover have "length pre < length (fp_buf p)" using Nil.prems(1) by (simp add: header_bytes_def eol_def)
  ultimately show ?case by (simp add: parse_headers_blank header_bytes_def)
next
  case (Cons h hs)
  obtain l e where h: "h = (l, e)" by (cases h)
  have "parse_headers_from (length pre) p = parse_headers_from (length (pre @ l @ eol e)) (after_line l p)"
    using Cons.prems h by (intro parse_good_line) (auto simp: header_bytes_def)
  also have "\<dots> = (0, (after_line l p)\<lparr>fp_state := ILSP_FRAME_STATE_BODY, fp_content_length := n, fp_have_content_length := True,
          fp_body_start := length ((pre @ l @ eol e) @ header_bytes hs b)\<rparr>)"
    using Cons.prems h by (intro Cons.IH) (auto simp: header_bytes_def)
  also have "\<dots> = (0, p\<lparr>fp_state := ILSP_FRAME_STATE_BODY, fp_content_length := n, fp_have_content_length := True,
          fp_body_start := length (pre @ header_bytes (h # hs) b)\<rparr>)"
    by (simp add: h header_bytes_def after_line_def split: sum.split option.split)
  finally show ?case .
qed

text \<open>A block that is cut anywhere asks for more.\<close>

lemma find_line_end_cut:
  assumes "fp_buf p = pre @ s" "s @ t = l @ eol e" "t \<noteq> []" "CR \<notin> set l" "NL \<notin> set l"
  shows "\<not> length pre < length (fp_buf p) \<or> find_line_end p (length pre) = None"
proof -
  have "(\<exists>u. l = s @ u) \<or> s = l @ [CR]"
    using assms(2,3) by (auto simp: append_eq_append_conv2 eol_def Cons_eq_append_conv append_eq_Cons_conv split: if_splits)
  then show ?thesis
  proof
    assume "\<exists>u. l = s @ u"
    then have "CR \<notin> set s" "NL \<notin> set s" using assms(4,5) by auto
    then show ?thesis using assms(1) line_end_plain [of s "length pre" "[]"] by (simp add: find_line_end_def)
  next
    assume "s = l @ [CR]"
    then show ?thesis using assms line_end_plain [of l "length pre" "[CR]"] by (simp add: find_line_end_def)
  qed
qed

lemma foldl_announce_None: "foldl announce a ls = None \<longleftrightarrow> a = None \<and> foldl announce None ls = None"
  using foldl_announce [of a ls] by (auto split: option.splits)

text \<open>
  The block may end in any line, a blank one or one that is not a header; a block that announces no length leaves no trace of one.
\<close>

lemma parse_cut:
  assumes "fp_buf p = pre @ s" "s @ t = line_bytes hs @ l @ eol b" "t \<noteq> []" "list_all header_ok (map fst hs)" "CR \<notin> set l" "NL \<notin> set l"
  shows "\<exists>q. parse_headers_from (length pre) p = (- 1, q) \<and> fp_buf q = fp_buf p \<and> fp_state q = fp_state p \<and>
    (foldl announce (announced p) (map fst hs) = None \<longrightarrow> announced q = None)"
  using assms
proof (induction hs arbitrary: p pre s)
  case Nil
  then show ?case
    using find_line_end_cut [of p pre s t l b] by (simp add: line_bytes_def parse_headers_more)
next
  case (Cons h hs)
  obtain k e where h: "h = (k, e)" by (cases h)
  have eq: "s @ t = (k @ eol e) @ line_bytes hs @ l @ eol b" using Cons.prems(2) h by (simp add: line_bytes_def)
  consider (inside) u where "s @ u = k @ eol e" "u \<noteq> []" | (past) s' where "s = (k @ eol e) @ s'" "s' @ t = line_bytes hs @ l @ eol b"
  proof -
    obtain us where us: "s = (k @ eol e) @ us \<and> us @ t = line_bytes hs @ l @ eol b \<or> s @ us = k @ eol e \<and> t = us @ line_bytes hs @ l @ eol b"
      using eq append_eq_append_conv2 [of s t "k @ eol e" "line_bytes hs @ l @ eol b"] by blast
    then show ?thesis using inside past by (cases "us = []") auto
  qed
  then show ?case
  proof cases
    case inside
    then have "parse_headers_from (length pre) p = (- 1, p)"
      using find_line_end_cut [of p pre s u k e] Cons.prems h by (simp add: parse_headers_more header_ok_def)
    then show ?thesis using foldl_announce_None [of "announced p" "map fst (h # hs)"] by simp
  next
    case past
    have "parse_headers_from (length pre) p = parse_headers_from (length (pre @ k @ eol e)) (after_line k p)"
      using Cons.prems past h by (intro parse_good_line) auto
    then show ?thesis
      using Cons.IH [of "after_line k p" "pre @ k @ eol e" s'] Cons.prems past h by auto
  qed
qed

section \<open>Delivery\<close>

text \<open>
  Between chunks the parser holds the beginning of the messages still to come: bytes of a header block, or a
  parsed block and bytes of its body.
\<close>

definition holding :: "message list \<Rightarrow> string \<Rightarrow> string \<Rightarrow> IronLsp_FrameParser \<Rightarrow> bool" where
  "holding ms tail rest p \<longleftrightarrow> fp_buf p @ rest = wire ms @ tail \<and>
     (fp_state p = ILSP_FRAME_STATE_BODY \<longrightarrow>
        (\<exists>m ms' s. ms = m # ms' \<and> fp_buf p = header_bytes (m_headers m) (m_blank m) @ s \<and>
           fp_body_start p = length (header_bytes (m_headers m) (m_blank m)) \<and> fp_content_length p = length (m_body m)))"

lemma holding_Nil: "holding [] tail rest p \<longleftrightarrow> fp_buf p @ rest = tail \<and> fp_state p = ILSP_FRAME_STATE_HEADERS"
  by (auto simp: holding_def intro: IronLsp_FrameState.exhaust)

lemma holding_more: "holding ms tail (c @ rest) p \<Longrightarrow> holding ms tail rest (p\<lparr>fp_buf_cap := cap, fp_buf := fp_buf p @ c\<rparr>)"
  by (fastforce simp: holding_def)

text \<open>A stream that ends with its last message.\<close>

abbreviation awaiting :: "message list \<Rightarrow> string \<Rightarrow> IronLsp_FrameParser \<Rightarrow> bool" where
  "awaiting ms \<equiv> holding ms []"

lemma announce_message: "message_ok m \<Longrightarrow> foldl announce a (map fst (m_headers m)) = Some (length (m_body m))"
  using foldl_announce [of a "map fst (m_headers m)"] by (simp add: message_ok_def)

lemma parse_message:
  assumes "message_ok m" "fp_buf p = header_bytes (m_headers m) (m_blank m) @ s"
  shows "frame_parse_headers p = (0, p\<lparr>fp_state := ILSP_FRAME_STATE_BODY, fp_content_length := length (m_body m),
    fp_have_content_length := True, fp_body_start := length (header_bytes (m_headers m) (m_blank m))\<rparr>)"
  using parse_block [of p "[]" "m_headers m" "m_blank m" s "length (m_body m)"] assms announce_message [OF assms(1)]
  by (simp add: message_ok_def frame_parse_headers_def)

text \<open>The next message is not complete.\<close>

definition incomplete :: "message list \<Rightarrow> IronLsp_FrameParser \<Rightarrow> bool" where
  "incomplete ms p \<longleftrightarrow> ms = [] \<or> length (fp_buf p) < length (frame_bytes (hd ms))"

text \<open>A feed without new bytes while a message is due: the message, or a request for more.\<close>

lemma feed_message:
  assumes "holding (m # ms) tail rest p" "message_ok m"
  shows "case ilsp_frame_feed al [] p of
      (fr, body, q) \<Rightarrow>
        (fr = ILSP_FRAME_RESULT_COMPLETE \<and> body = m_body m \<and> holding ms tail rest (ilsp_frame_consume q) \<and>
           \<not> fp_have_content_length (ilsp_frame_consume q)) \<or>
        (fr = ILSP_FRAME_RESULT_NEED_MORE \<and> holding (m # ms) tail rest q \<and> incomplete (m # ms) q)"
proof -
  let ?H = "header_bytes (m_headers m) (m_blank m)"
  have w: "fp_buf p @ rest = ?H @ m_body m @ wire ms @ tail" using assms(1) by (simp add: holding_def frame_bytes_def [of m])
  show ?thesis
  proof (cases "\<exists>s. fp_buf p = ?H @ s")
    case False
    then have st: "fp_state p = ILSP_FRAME_STATE_HEADERS"
      using assms(1) by (auto simp: holding_def intro: IronLsp_FrameState.exhaust)
    obtain t where t: "fp_buf p @ t = ?H" "t \<noteq> []"
      using w False by (auto simp: append_eq_append_conv2) (metis append_Nil2)
    have lt: "length (fp_buf p) < length (frame_bytes m)"
      using arg_cong [OF t(1), of length] t(2) by (cases t) (auto simp: frame_bytes_def)
    obtain q where q: "frame_parse_headers p = (- 1, q)" "fp_buf q = fp_buf p" "fp_state q = fp_state p"
      using parse_cut [of p "[]" "fp_buf p" t "m_headers m" "[]" "m_blank m"] t assms(2)
      by (auto simp: message_ok_def frame_parse_headers_def header_bytes_lines)
    then show ?thesis
      using st assms(1) lt by (simp add: ilsp_frame_feed_def holding_def incomplete_def)
  next
    case True
    then obtain s where s: "fp_buf p = ?H @ s" by blast
    then have sw: "s @ rest = m_body m @ wire ms @ tail" using w by simp
    define q where "q = (if fp_state p = ILSP_FRAME_STATE_HEADERS then p\<lparr>fp_state := ILSP_FRAME_STATE_BODY,
      fp_content_length := length (m_body m), fp_have_content_length := True, fp_body_start := length ?H\<rparr> else p)"
    have q: "fp_state q = ILSP_FRAME_STATE_BODY" "fp_buf q = ?H @ s" "fp_body_start q = length ?H" "fp_content_length q = length (m_body m)"
      using s assms(1) by (auto simp: q_def holding_def intro: IronLsp_FrameState.exhaust)
    have eq: "(if fp_state p = ILSP_FRAME_STATE_HEADERS then frame_parse_headers p else (0, p)) = (0, q)"
      using parse_message [OF assms(2) s] by (simp add: q_def)
    have feed: "ilsp_frame_feed al [] p = (if length (m_body m) \<le> length s
        then (ILSP_FRAME_RESULT_COMPLETE, take (length (m_body m)) s, q) else (ILSP_FRAME_RESULT_NEED_MORE, [], q))"
      using q by (simp add: ilsp_frame_feed_def eq)
    show ?thesis
    proof (cases "length (m_body m) \<le> length s")
      case True
      then have "take (length (m_body m)) s = m_body m" "drop (length (m_body m)) s @ rest = wire ms @ tail"
        using arg_cong [OF sw, of "take (length (m_body m))"] arg_cong [OF sw, of "drop (length (m_body m))"] by simp_all
      then show ?thesis
        using feed q True by (auto simp: ilsp_frame_consume_def Let_def holding_def)
    next
      case False
      then have "incomplete (m # ms) q" using q by (simp add: incomplete_def frame_bytes_def)
      moreover have "holding (m # ms) tail rest q" using q w s by (auto simp: holding_def frame_bytes_def)
      ultimately show ?thesis using feed False by simp
    qed
  qed
qed

lemma feed_awaiting:
  assumes "awaiting ms rest p" "list_all message_ok ms"
  shows "case ilsp_frame_feed al [] p of
      (fr, body, q) \<Rightarrow>
        (fr = ILSP_FRAME_RESULT_COMPLETE \<and> (\<exists>m ms'. ms = m # ms' \<and> body = m_body m \<and> awaiting ms' rest (ilsp_frame_consume q))) \<or>
        (fr = ILSP_FRAME_RESULT_NEED_MORE \<and> awaiting ms rest q \<and> incomplete ms q)"
proof (cases ms)
  case Nil
  then show ?thesis
    using assms(1) by (simp add: holding_Nil ilsp_frame_feed_def frame_parse_headers_def parse_headers_more incomplete_def)
next
  case (Cons m ms')
  then show ?thesis using feed_message [of m ms' "[]" rest p al] assms by (auto split: prod.splits)
qed

lemma pump_awaiting:
  assumes "awaiting ms rest (rd_parser r)" "list_all message_ok ms"
  shows "\<exists>ms1 ms2 q. ms = ms1 @ ms2 \<and> reader_pump_remaining al r = r\<lparr>rd_messages := rd_messages r @ map m_body ms1, rd_parser := q\<rparr> \<and>
    awaiting ms2 rest q \<and> incomplete ms2 q"
  using assms
proof (induction ms arbitrary: r)
  case (Cons m ms)
  obtain fr body q where f: "ilsp_frame_feed al [] (rd_parser r) = (fr, body, q)" by (metis prod_cases3)
  note fa = feed_awaiting [OF Cons.prems, of al, unfolded f prod.case]
  show ?case
  proof (cases "fr = ILSP_FRAME_RESULT_COMPLETE")
    case True
    let ?r = "r\<lparr>rd_messages := rd_messages r @ [m_body m], rd_parser := ilsp_frame_consume q\<rparr>"
    have b: "body = m_body m" "awaiting ms rest (ilsp_frame_consume q)" using fa True by auto
    then have "reader_pump_remaining al r = reader_pump_remaining al ?r"
      using f True by (subst reader_pump_remaining.simps) simp
    moreover obtain ms1 ms2 q' where "ms = ms1 @ ms2" "reader_pump_remaining al ?r = ?r\<lparr>rd_messages := rd_messages ?r @ map m_body ms1, rd_parser := q'\<rparr>"
        "awaiting ms2 rest q'" "incomplete ms2 q'"
      using Cons.IH [of ?r] b Cons.prems(2) by auto
    ultimately show ?thesis by (intro exI [of _ "m # ms1"] exI [of _ ms2] exI [of _ q']) simp
  next
    case False
    then have "reader_pump_remaining al r = r\<lparr>rd_parser := q\<rparr>"
      using f fa by (subst reader_pump_remaining.simps) auto
    then show ?thesis using fa False by (intro exI [of _ "[]"] exI [of _ "m # ms"] exI [of _ q]) auto
  qed
next
  case Nil
  obtain fr body q where f: "ilsp_frame_feed al [] (rd_parser r) = (fr, body, q)" by (metis prod_cases3)
  then have "reader_pump_remaining al r = r\<lparr>rd_parser := q\<rparr>" "awaiting [] rest q"
    using feed_awaiting [OF Nil, of al] by (auto simp: reader_pump_remaining.simps [of al r])
  then show ?case by (intro exI [of _ "[]"] exI [of _ q]) (simp add: incomplete_def)
qed

lemma feed_bytes:
  assumes "\<forall>n. al n" "chunk \<noteq> []"
  shows "\<exists>cap. ilsp_frame_feed al chunk p = ilsp_frame_feed al [] (p\<lparr>fp_buf_cap := cap, fp_buf := fp_buf p @ chunk\<rparr>)"
proof -
  obtain cap where "frame_reserve al (length (fp_buf p) + length chunk) p = Some (p\<lparr>fp_buf_cap := cap\<rparr>)"
    using assms(1) that [of "fp_buf_cap p"] by (cases "length (fp_buf p) + length chunk \<le> fp_buf_cap p") (auto simp: frame_reserve_def Let_def)
  then show ?thesis using assms(2) by (intro exI [of _ cap]) (simp add: ilsp_frame_feed_def)
qed

text \<open>A chunk is delivered as if it had been in the buffer.\<close>

lemma reader_chunk_pump:
  assumes "\<forall>n. al n" "chunk \<noteq> []"
  shows "\<exists>cap. reader_chunk al chunk r =
    reader_pump_remaining al (r\<lparr>rd_parser := (rd_parser r)\<lparr>fp_buf_cap := cap, fp_buf := fp_buf (rd_parser r) @ chunk\<rparr>\<rparr>)"
proof -
  obtain cap where "ilsp_frame_feed al chunk (rd_parser r) =
      ilsp_frame_feed al [] ((rd_parser r)\<lparr>fp_buf_cap := cap, fp_buf := fp_buf (rd_parser r) @ chunk\<rparr>)"
    using feed_bytes [OF assms] by blast
  then show ?thesis
    by (intro exI [of _ cap], subst reader_pump_remaining.simps) (simp add: reader_chunk_def split: prod.split)
qed

lemma thread_delivers:
  assumes "\<forall>n. al n" "[] \<notin> set chunks" "awaiting ms (concat chunks @ rest) (rd_parser r)" "incomplete ms (rd_parser r)"
    "list_all message_ok ms" "\<not> rd_shutdown r"
  shows "\<exists>ms1 ms2 q. ms = ms1 @ ms2 \<and> awaiting ms2 rest q \<and> incomplete ms2 q \<and>
    reader_thread_main al (map Bytes chunks) r = r\<lparr>rd_messages := rd_messages r @ map m_body ms1, rd_parser := q\<rparr>"
  using assms(2-)
proof (induction chunks arbitrary: ms r)
  case Nil
  then show ?case by (intro exI [of _ "[]"] exI [of _ ms] exI [of _ "rd_parser r"]) simp
next
  case (Cons c chunks)
  obtain cap where c: "reader_chunk al c r =
      reader_pump_remaining al (r\<lparr>rd_parser := (rd_parser r)\<lparr>fp_buf_cap := cap, fp_buf := fp_buf (rd_parser r) @ c\<rparr>\<rparr>)"
    using reader_chunk_pump [OF assms(1), of c r] Cons.prems(1) by auto
  let ?r = "r\<lparr>rd_parser := (rd_parser r)\<lparr>fp_buf_cap := cap, fp_buf := fp_buf (rd_parser r) @ c\<rparr>\<rparr>"
  have "awaiting ms (concat chunks @ rest) (rd_parser ?r)"
    using holding_more [of ms "[]" c "concat chunks @ rest" "rd_parser r" cap] Cons.prems(2) by simp
  from pump_awaiting [OF this Cons.prems(4), of al]
  obtain ms1 ms2 q where p: "ms = ms1 @ ms2" "awaiting ms2 (concat chunks @ rest) q" "incomplete ms2 q"
      "reader_chunk al c r = r\<lparr>rd_messages := rd_messages r @ map m_body ms1, rd_parser := q\<rparr>"
    using c by auto
  let ?r' = "r\<lparr>rd_messages := rd_messages r @ map m_body ms1, rd_parser := q\<rparr>"
  obtain ns1 ns2 q' where n: "ms2 = ns1 @ ns2" "awaiting ns2 rest q'" "incomplete ns2 q'"
      "reader_thread_main al (map Bytes chunks) ?r' = ?r'\<lparr>rd_messages := rd_messages ?r' @ map m_body ns1, rd_parser := q'\<rparr>"
    using Cons.IH [of ms2 ?r'] p Cons.prems by auto
  show ?case
    using p n Cons.prems by (intro exI [of _ "ms1 @ ns1"] exI [of _ ns2] exI [of _ q']) auto
qed

lemma reader_delivery:
  assumes "list_all message_ok ms" "concat chunks @ rest = wire ms" "[] \<notin> set chunks" "\<forall>n. al n"
  shows "\<exists>k \<le> length ms. \<exists>q. reader_thread_main al (map Bytes chunks) (ilsp_reader_create al) =
      \<lparr>rd_parser = q, rd_messages = map m_body (take k ms), rd_shutdown = False\<rparr> \<and>
    wire (take k ms) @ fp_buf q = concat chunks \<and> (k < length ms \<longrightarrow> length (fp_buf q) < length (frame_bytes (ms ! k)))"
proof -
  let ?r = "ilsp_reader_create al"
  have "awaiting ms (concat chunks @ rest) (rd_parser ?r)" "incomplete ms (rd_parser ?r)"
    using assms(2) by (auto simp: ilsp_reader_create_def ilsp_frame_init_def holding_def incomplete_def frame_bytes_def header_bytes_def eol_def)
  then obtain ms1 ms2 q where m: "ms = ms1 @ ms2" "awaiting ms2 rest q" "incomplete ms2 q"
      "reader_thread_main al (map Bytes chunks) ?r = ?r\<lparr>rd_messages := rd_messages ?r @ map m_body ms1, rd_parser := q\<rparr>"
    using thread_delivers [OF assms(4,3) _ _ assms(1), of rest ?r] by (auto simp: ilsp_reader_create_def)
  have "wire ms1 @ fp_buf q @ rest = concat chunks @ rest"
    using m(1,2) assms(2) by (simp add: holding_def)
  then have w: "wire ms1 @ fp_buf q = concat chunks" by (simp flip: append_assoc)
  have "length (fp_buf q) < length (frame_bytes (ms ! length ms1))" if "length ms1 < length ms"
    using that m(1,3) by (auto simp: incomplete_def nth_append hd_conv_nth)
  then show ?thesis
    using m w by (intro exI [of _ "length ms1"]) (auto simp: ilsp_reader_create_def)
qed

text \<open>C21: However the bytes of a sequence of messages are cut into chunks, the reader delivers the bodies in order, each as
  soon as its last byte has arrived and none before: after any part of the stream it has delivered exactly the messages that
  are complete, keeps the bytes after them, and goes on. Header lines other than Content-Length, either line
  terminator, and repeated Content-Length lines (the last counts) are covered.\<close>

theorem reader_delivers_exactly:
  assumes "list_all message_ok ms" "concat chunks @ rest = wire ms" "[] \<notin> set chunks" "\<forall>n. al n"
  shows "\<exists>k \<le> length ms. \<exists>q. reader_thread_main al (map Bytes chunks) (ilsp_reader_create al) =
      \<lparr>rd_parser = q, rd_messages = map m_body (take k ms), rd_shutdown = False\<rparr> \<and>
    wire (take k ms) @ fp_buf q = concat chunks \<and> (k < length ms \<longrightarrow> length (fp_buf q) < length (frame_bytes (ms ! k)))"
  using assms by (rule reader_delivery)

text \<open>The header the writer of the same server sends.\<close>

lemma dec_length: "n < 10 ^ k \<Longrightarrow> 0 < k \<Longrightarrow> length (dec n) \<le> k"
proof (induction n arbitrary: k rule: dec.induct)
  case (1 n)
  show ?case
  proof (cases "n < 10")
    case False
    then obtain j where j: "k = Suc j" "0 < j" using "1.prems" by (cases k; cases "k - 1") auto
    then have "length (dec (n div 10)) \<le> j" using "1.IH" False "1.prems" by (simp add: less_mult_imp_div_less mult.commute)
    then show ?thesis using False j by (subst dec.simps) simp
  qed (use "1.prems" in \<open>subst dec.simps; simp\<close>)
qed

lemma digit_not: "isdigit c \<Longrightarrow> \<not> isspace c \<and> c \<noteq> CHR ''-'' \<and> c \<noteq> CHR ''+'' \<and> c \<noteq> NUL \<and> c \<noteq> CHR '':'' \<and> \<not> is_wsp c \<and> c \<noteq> CR \<and> c \<noteq> NL"
  by (auto simp: isdigit_def isspace_def code_def)

lemma dec_head: "isdigit (hd (dec n))"
  using dec_digits [of n] dec_nonempty [of n] by (auto simp: list_all_iff)

lemma dropWhile_dec: "(\<And>c. isdigit c \<Longrightarrow> \<not> P c) \<Longrightarrow> dropWhile P (dec n) = dec n"
  using dec_head [of n] dec_nonempty [of n] by (cases "dec n") auto

lemma takeWhile_dec: "(\<And>c. isdigit c \<Longrightarrow> P c) \<Longrightarrow> takeWhile P (dec n) = dec n"
  using dec_digits [of n] by (auto simp: takeWhile_eq_all_conv list_all_iff)

lemma strtoull_dec_dec: "n < 2 ^ 64 \<Longrightarrow> strtoull_dec (dec n) = Some (n, [])"
proof -
  assume n: "n < 2 ^ 64"
  have "dropWhile isspace (dec n) = dec n" by (rule dropWhile_dec) (use digit_not in blast)
  moreover have "hd (dec n) \<noteq> CHR ''-''" "hd (dec n) \<noteq> CHR ''+''" using digit_not [OF dec_head] by simp_all
  moreover have tw: "takeWhile isdigit (dec n) = dec n" by (rule takeWhile_dec)
  moreover have "dropWhile isdigit (dec n) = []" using dec_digits [of n] by (simp add: list_all_iff)
  ultimately show ?thesis using n by (simp add: strtoull_dec_def Let_def tw)
qed

lemma header_line_content_length:
  assumes "n \<le> ILSP_FRAME_MAX_MESSAGE_SIZE"
  shows "header_line (''Content-Length: '' @ dec n) = Inr (Some n)"
proof -
  have "length (dec n) \<le> 8" using assms by (intro dec_length) (simp_all add: ILSP_FRAME_MAX_MESSAGE_SIZE_def)
  moreover have tw: "takeWhile (\<lambda>c. c \<noteq> NUL) (dec n) = dec n" by (rule takeWhile_dec) (use digit_not in blast)
  moreover have "dropWhile is_wsp (dec n) = dec n" by (rule dropWhile_dec) (use digit_not in blast)
  moreover have "strtoull_dec (dec n) = Some (n, [])"
    using assms by (intro strtoull_dec_dec) (simp add: ILSP_FRAME_MAX_MESSAGE_SIZE_def)
  ultimately show ?thesis
    using assms by (simp add: header_line_def header_name_matches_def Let_def tw)
qed

lemma header_ok_content_length:
  assumes "n \<le> ILSP_FRAME_MAX_MESSAGE_SIZE"
  shows "header_ok (''Content-Length: '' @ dec n)"
  using dec_digits [of n] digit_not header_line_content_length [OF assms] by (auto simp: header_ok_def list_all_iff)

theorem reader_delivers_exactly_witness:
  "\<exists>k \<le> 1. \<exists>q. reader_thread_main (\<lambda>_. True) (map Bytes [''Content-Le'', ''ngth: 2'' @ [CR, NL, CR, NL, CHR ''h''], ''i'']) (ilsp_reader_create (\<lambda>_. True)) =
      \<lparr>rd_parser = q, rd_messages = map m_body (take k [Message [(''Content-Length: 2'', True)] True ''hi'']), rd_shutdown = False\<rparr>"
proof -
  let ?m = "Message [(''Content-Length: 2'', True)] True ''hi''"
  have "dec 2 = ''2''" by code_simp
  then have "header_ok ''Content-Length: 2''" "announce None ''Content-Length: 2'' = Some 2"
    using header_ok_content_length [of 2] header_line_content_length [of 2] by (simp_all add: announce_def ILSP_FRAME_MAX_MESSAGE_SIZE_def)
  then have ok: "list_all message_ok [?m]" by (simp add: message_ok_def)
  have cat: "concat [''Content-Le'', ''ngth: 2'' @ [CR, NL, CR, NL, CHR ''h''], ''i''] @ [] = wire [?m]"
    by (simp add: frame_bytes_def header_bytes_def eol_def)
  have "[] \<notin> set [''Content-Le'', ''ngth: 2'' @ [CR, NL, CR, NL, CHR ''h''], ''i'']" "\<forall>n. (\<lambda>_. True) (n :: nat)" by simp_all
  from reader_delivers_exactly [OF ok cat this] show ?thesis unfolding list.size by auto
qed

section \<open>Errors and memory\<close>

text \<open>The capacity follows the bytes received.\<close>

lemma grow_cap_bounds: "needed \<le> grow_cap needed c \<and> grow_cap needed c \<le> max c (2 * needed)"
proof (induction needed c rule: grow_cap.induct)
  case (1 needed c)
  show ?case
  proof (cases "c < needed \<and> c \<le> SIZE_MAX div 2 \<and> c \<noteq> 0")
    case True
    then have "grow_cap needed c = grow_cap needed (c * 2)" by (subst grow_cap.simps) simp
    then show ?thesis using "1.IH" True by (auto simp: not_less)
  next
    case False
    then show ?thesis by (subst (1 2) grow_cap.simps) auto
  qed
qed

definition fits :: "nat \<Rightarrow> IronLsp_FrameParser \<Rightarrow> bool" where
  "fits n p \<longleftrightarrow> length (fp_buf p) \<le> fp_buf_cap p \<and> fp_buf_cap p \<le> max ILSP_FRAME_INITIAL_CAPACITY (2 * n) \<and> length (fp_buf p) \<le> n"

lemma fits_mono: "fits n p \<Longrightarrow> n \<le> k \<Longrightarrow> fits k p"
  by (auto simp: fits_def)

lemma fits_consume: "fits n p \<Longrightarrow> fits n (ilsp_frame_consume p)"
  by (auto simp: fits_def ilsp_frame_consume_def Let_def)

lemma fits_reserve:
  assumes "frame_reserve al (length (fp_buf p) + length c) p = Some q" "fits n p"
  shows "fits (n + length c) (q\<lparr>fp_buf := fp_buf q @ c\<rparr>)"
proof (cases "length (fp_buf p) + length c \<le> fp_buf_cap p")
  case True
  then show ?thesis using assms by (auto simp: frame_reserve_def fits_def)
next
  case False
  let ?need = "length (fp_buf p) + length c" and ?from = "if fp_buf_cap p \<noteq> 0 then fp_buf_cap p else ILSP_FRAME_INITIAL_CAPACITY"
  have "q = p\<lparr>fp_buf_cap := grow_cap ?need ?from\<rparr>"
    using False assms(1) by (auto simp: frame_reserve_def Let_def split: if_splits)
  then show ?thesis
    using grow_cap_bounds [of ?need ?from] assms(2) by (auto simp: fits_def split: if_splits)
qed

lemma fits_parse: "fits n p \<Longrightarrow> fp_state p = ILSP_FRAME_STATE_HEADERS \<Longrightarrow> fits n (snd (frame_parse_headers p))"
  using parse_headers_effect [of 0 p "fst (frame_parse_headers p)" "snd (frame_parse_headers p)"]
  by (simp add: fits_def frame_parse_headers_def)

lemma fits_feed:
  assumes "fits n p" "ilsp_frame_feed al c p = (fr, body, q)"
  shows "fits (n + length c) q"
proof (cases "c \<noteq> [] \<and> frame_reserve al (length (fp_buf p) + length c) p = None")
  case True
  then show ?thesis using assms by (auto simp: ilsp_frame_feed_def intro: fits_mono)
next
  case False
  define p1 where "p1 = (if c \<noteq> [] then (the (frame_reserve al (length (fp_buf p) + length c) p))\<lparr>fp_buf := fp_buf (the (frame_reserve al (length (fp_buf p) + length c) p)) @ c\<rparr> else p)"
  have f1: "fits (n + length c) p1"
    using False assms(1) fits_reserve [of al p c _ n] by (auto simp: p1_def)
  define p2 where "p2 = (if fp_state p1 = ILSP_FRAME_STATE_HEADERS then snd (frame_parse_headers p1) else p1)"
  have "q = p2"
    using assms(2) False by (auto simp: ilsp_frame_feed_def p1_def p2_def split: if_splits prod.splits)
  then show ?thesis using f1 fits_parse [OF f1] by (simp add: p2_def)
qed

lemma fits_pump: "fits n (rd_parser r) \<Longrightarrow> fits n (rd_parser (reader_pump_remaining al r))"
proof (induction al r rule: reader_pump_remaining.induct)
  case (1 al r)
  obtain fr body q where f: "ilsp_frame_feed al [] (rd_parser r) = (fr, body, q)" by (metis prod_cases3)
  have "fits n q" using fits_feed [OF "1.prems" f] by simp
  then show ?case
    using "1.IH" [OF f [symmetric] refl] fits_consume [of n q] f by (subst reader_pump_remaining.simps) simp
qed

lemma fits_chunk:
  assumes "fits n (rd_parser r)"
  shows "fits (n + length c) (rd_parser (reader_chunk al c r))"
proof -
  obtain fr body q where f: "ilsp_frame_feed al c (rd_parser r) = (fr, body, q)" by (metis prod_cases3)
  then show ?thesis
    using fits_feed [OF assms f] fits_consume fits_pump by (auto simp: reader_chunk_def)
qed

fun bytes_of :: "pull list \<Rightarrow> nat" where
  "bytes_of [] = 0"
| "bytes_of (Bytes c # es) = length c + bytes_of es"
| "bytes_of (_ # es) = bytes_of es"

lemma fits_thread: "fits n (rd_parser r) \<Longrightarrow> fits (n + bytes_of es) (rd_parser (reader_thread_main al es r))"
proof (induction al es r arbitrary: n rule: reader_thread_main.induct)
  case (2 al e es r)
  show ?case
  proof (cases e)
    case (Bytes c)
    then show ?thesis
      using "2.IH"(1) [of c "n + length c"] fits_chunk [OF "2.prems", of c al] fits_mono [OF "2.prems"] by (auto simp: add.assoc)
  qed (use "2.IH"(2) [of n] "2.prems" fits_mono [OF "2.prems"] in \<open>auto simp: ilsp_reader_shutdown_def\<close>)
qed (auto intro: fits_mono)

text \<open>C25: The memory of the parser follows the bytes received and never the length a header announces: after any input the
  live bytes are inside the buffer and the buffer has at most the initial capacity or twice the bytes received,
  whatever requests for memory are refused.\<close>

theorem reader_memory_bounded:
  "length (fp_buf (rd_parser (reader_thread_main al es (ilsp_reader_create al)))) \<le> fp_buf_cap (rd_parser (reader_thread_main al es (ilsp_reader_create al))) \<and>
   fp_buf_cap (rd_parser (reader_thread_main al es (ilsp_reader_create al))) \<le> max ILSP_FRAME_INITIAL_CAPACITY (2 * bytes_of es)"
proof -
  have "fits 0 (rd_parser (ilsp_reader_create al))"
    by (simp add: fits_def ilsp_reader_create_def ilsp_frame_init_def)
  from fits_thread [OF this, of es al] show ?thesis by (simp add: fits_def)
qed

lemma parse_good_lines:
  assumes "fp_buf p = pre @ line_bytes hs @ t" "list_all header_ok (map fst hs)"
  shows "\<exists>q. parse_headers_from (length pre) p = parse_headers_from (length (pre @ line_bytes hs)) q \<and> fp_buf q = fp_buf p \<and>
    fp_state q = fp_state p \<and> announced q = foldl announce (announced p) (map fst hs)"
  using assms
proof (induction hs arbitrary: p pre)
  case (Cons h hs)
  obtain l e where h: "h = (l, e)" by (cases h)
  have "parse_headers_from (length pre) p = parse_headers_from (length (pre @ l @ eol e)) (after_line l p)"
    using Cons.prems h by (intro parse_good_line) (auto simp: line_bytes_def)
  moreover have "fp_buf (after_line l p) = (pre @ l @ eol e) @ line_bytes hs @ t" "list_all header_ok (map fst hs)"
    using Cons.prems h by (auto simp: line_bytes_def)
  from Cons.IH [OF this] obtain q where "parse_headers_from (length (pre @ l @ eol e)) (after_line l p) =
      parse_headers_from (length ((pre @ l @ eol e) @ line_bytes hs)) q" "fp_buf q = fp_buf p" "fp_state q = fp_state p"
      "announced q = foldl announce (announced (after_line l p)) (map fst hs)"
    by auto
  ultimately show ?case by (intro exI [of _ q]) (simp add: h line_bytes_def)
qed (auto simp: line_bytes_def)

text \<open>A line the protocol refuses, or a blank line before any length.\<close>

definition refused :: "(string \<times> bool) list \<Rightarrow> string \<Rightarrow> int \<Rightarrow> bool" where
  "refused hs l rc \<longleftrightarrow> list_all header_ok (map fst hs) \<and>
     (if l = [] then foldl announce None (map fst hs) = None \<and> rc = - 3
      else CR \<notin> set l \<and> NL \<notin> set l \<and> header_line l = Inl rc)"

lemma feed_refused:
  assumes "refused hs l rc" "fp_buf p = line_bytes hs @ l @ eol e @ t" "fp_state p = ILSP_FRAME_STATE_HEADERS"
    "foldl announce None (map fst hs) = None \<longrightarrow> announced p = None"
  shows "\<exists>q. ilsp_frame_feed al [] p =
    (if rc = - 2 then ILSP_FRAME_RESULT_ERROR_OVERSIZED else ILSP_FRAME_RESULT_ERROR_MALFORMED, [], q)"
proof -
  obtain q where q: "frame_parse_headers p = parse_headers_from (length (line_bytes hs)) q" "fp_buf q = fp_buf p"
      "announced q = foldl announce (announced p) (map fst hs)"
    using parse_good_lines [of p "[]" hs "l @ eol e @ t"] assms by (auto simp: refused_def frame_parse_headers_def)
  have f: "find_line_end q (length (line_bytes hs)) = Some (length (line_bytes hs @ l), length (line_bytes hs @ l @ eol e))"
    using assms(1,2) q(2) by (intro find_line_end_at) (auto simp: refused_def split: if_splits)
  have lt: "length (line_bytes hs) < length (fp_buf q)" using assms(2) q(2) by (simp add: eol_def)
  have "parse_headers_from (length (line_bytes hs)) q = (rc, q)"
  proof (cases "l = []")
    case True
    then have "\<not> fp_have_content_length q" "rc = - 3"
      using assms(1,4) q(3) by (auto simp: refused_def announced_def split: if_splits)
    then show ?thesis using parse_headers_blank [OF lt] f True by simp
  next
    case False
    then show ?thesis
      using parse_headers_line [OF lt f] assms(1,2) q(2) by (simp add: refused_def)
  qed
  moreover have "rc = - 2 \<or> rc = - 3"
    using assms(1) by (auto simp: refused_def header_line_def Let_def split: if_splits option.splits)
  ultimately show ?thesis using q(1) assms(3) by (auto simp: ilsp_frame_feed_def)
qed

lemma thread_stopped: "rd_shutdown r \<Longrightarrow> reader_thread_main al es r = r"
  by (cases es) simp_all

text \<open>
  The parser before the refused line: messages still to come, then the good lines and the refused one. Until the line is
  whole, the parser asks for more, and a block without a length leaves it without one.
\<close>

definition bad_block :: "(string \<times> bool) list \<Rightarrow> string \<Rightarrow> bool \<Rightarrow> string" where
  "bad_block hs l e = line_bytes hs @ l @ eol e"

definition doomed :: "message list \<Rightarrow> (string \<times> bool) list \<Rightarrow> string \<Rightarrow> string \<Rightarrow> IronLsp_FrameParser \<Rightarrow> bool" where
  "doomed ms hs tail rest p \<longleftrightarrow> holding ms tail rest p \<and>
     (ms = [] \<longrightarrow> foldl announce None (map fst hs) = None \<longrightarrow> announced p = None)"

lemma refused_plain: "refused hs l rc \<Longrightarrow> list_all header_ok (map fst hs) \<and> CR \<notin> set l \<and> NL \<notin> set l"
  by (auto simp: refused_def split: if_splits)

text \<open>After the last message: an error once the line is there, a request for more before.\<close>

lemma feed_bad_block:
  assumes "refused hs l rc" "doomed [] hs (bad_block hs l e @ t) rest p"
  shows "case ilsp_frame_feed al [] p of
      (fr, body, q) \<Rightarrow>
        fr = ILSP_FRAME_RESULT_ERROR_OVERSIZED \<or> fr = ILSP_FRAME_RESULT_ERROR_MALFORMED \<or>
        (fr = ILSP_FRAME_RESULT_NEED_MORE \<and> doomed [] hs (bad_block hs l e @ t) rest q \<and> rest \<noteq> [])"
proof -
  have st: "fp_state p = ILSP_FRAME_STATE_HEADERS" and eq: "fp_buf p @ rest = bad_block hs l e @ t"
    and flag: "foldl announce None (map fst hs) = None \<longrightarrow> announced p = None"
    using assms(2) by (simp_all add: doomed_def holding_Nil)
  consider (whole) u where "fp_buf p = bad_block hs l e @ u" | (part) u where "fp_buf p @ u = bad_block hs l e" "u \<noteq> []" "rest = u @ t"
    using eq by (auto simp: append_eq_append_conv2) (metis append_Nil2)
  then show ?thesis
  proof cases
    case whole
    then show ?thesis using feed_refused [OF assms(1) _ st flag, of e u al] by (cases "rc = - 2") (auto simp: bad_block_def)
  next
    case part
    obtain q where q: "frame_parse_headers p = (- 1, q)" "fp_buf q = fp_buf p" "fp_state q = fp_state p"
        "foldl announce (announced p) (map fst hs) = None \<longrightarrow> announced q = None"
      using parse_cut [of p "[]" "fp_buf p" u hs l e] part refused_plain [OF assms(1)]
      by (auto simp: bad_block_def frame_parse_headers_def)
    then have "doomed [] hs (bad_block hs l e @ t) rest q"
      using st eq flag by (auto simp: doomed_def holding_Nil)
    then show ?thesis using q(1) st part by (simp add: ilsp_frame_feed_def)
  qed
qed

lemma doomed_message:
  assumes "doomed (m # ms) hs tail rest p" "message_ok m"
  shows "case ilsp_frame_feed al [] p of
      (fr, body, q) \<Rightarrow>
        (fr = ILSP_FRAME_RESULT_COMPLETE \<and> body = m_body m \<and> doomed ms hs tail rest (ilsp_frame_consume q)) \<or>
        (fr = ILSP_FRAME_RESULT_NEED_MORE \<and> doomed (m # ms) hs tail rest q \<and> rest \<noteq> [])"
proof -
  obtain fr body q where f: "ilsp_frame_feed al [] p = (fr, body, q)" by (metis prod_cases3)
  have "rest \<noteq> []" if "holding (m # ms) tail rest q" "incomplete (m # ms) q"
  proof
    assume "rest = []"
    then have "length (frame_bytes m) \<le> length (fp_buf q)" using that(1) by (simp add: holding_def)
    then show False using that(2) by (simp add: incomplete_def)
  qed
  then show ?thesis
    using feed_message [OF _ assms(2), of ms tail rest p al] assms(1) f by (auto simp: doomed_def announced_def)
qed

lemma pump_doomed:
  assumes "refused hs l rc" "list_all message_ok ms" "doomed ms hs (bad_block hs l e @ t) rest (rd_parser r)"
  shows "(\<exists>q. reader_pump_remaining al r = r\<lparr>rd_messages := rd_messages r @ map m_body ms, rd_parser := q, rd_shutdown := True\<rparr>) \<or>
    (\<exists>ms1 ms2 q. ms = ms1 @ ms2 \<and> reader_pump_remaining al r = r\<lparr>rd_messages := rd_messages r @ map m_body ms1, rd_parser := q\<rparr> \<and>
      doomed ms2 hs (bad_block hs l e @ t) rest q \<and> rest \<noteq> [])"
  using assms(2,3)
proof (induction ms arbitrary: r)
  case Nil
  obtain fr body q where f: "ilsp_frame_feed al [] (rd_parser r) = (fr, body, q)" by (metis prod_cases3)
  show ?case
    using feed_bad_block [OF assms(1) Nil(2), of al] f by (subst (1 2) reader_pump_remaining.simps) auto
next
  case (Cons m ms)
  obtain fr body q where f: "ilsp_frame_feed al [] (rd_parser r) = (fr, body, q)" by (metis prod_cases3)
  note fm = doomed_message [OF Cons.prems(2), of al, unfolded f prod.case]
  show ?case
  proof (cases "fr = ILSP_FRAME_RESULT_COMPLETE")
    case True
    let ?r = "r\<lparr>rd_messages := rd_messages r @ [m_body m], rd_parser := ilsp_frame_consume q\<rparr>"
    have b: "body = m_body m" "doomed ms hs (bad_block hs l e @ t) rest (rd_parser ?r)" using fm True Cons.prems(1) by auto
    then have "reader_pump_remaining al r = reader_pump_remaining al ?r"
      using f True by (subst reader_pump_remaining.simps) simp
    then show ?thesis
      using Cons.IH [OF _ b(2)] Cons.prems(1) by (auto intro: exI [of _ "m # _"])
  next
    case False
    then have "reader_pump_remaining al r = r\<lparr>rd_parser := q\<rparr>"
      using f fm Cons.prems(1) by (subst reader_pump_remaining.simps) auto
    then show ?thesis using fm False Cons.prems(1) by (intro disjI2 exI [of _ "[]"] exI [of _ "m # ms"] exI [of _ q]) auto
  qed
qed

lemma thread_doomed:
  assumes "\<forall>n. al n" "refused hs l rc" "[] \<notin> set chunks" "chunks \<noteq> []" "list_all message_ok ms"
    "doomed ms hs (bad_block hs l e @ t) (concat chunks) (rd_parser r)" "\<not> rd_shutdown r"
  shows "\<exists>q. reader_thread_main al (map Bytes chunks @ es) r = r\<lparr>rd_messages := rd_messages r @ map m_body ms, rd_parser := q, rd_shutdown := True\<rparr>"
  using assms(3-)
proof (induction chunks arbitrary: ms r)
  case (Cons c chunks)
  obtain cap where c: "reader_chunk al c r =
      reader_pump_remaining al (r\<lparr>rd_parser := (rd_parser r)\<lparr>fp_buf_cap := cap, fp_buf := fp_buf (rd_parser r) @ c\<rparr>\<rparr>)"
    using reader_chunk_pump [OF assms(1), of c r] Cons.prems(1) by auto
  let ?r = "r\<lparr>rd_parser := (rd_parser r)\<lparr>fp_buf_cap := cap, fp_buf := fp_buf (rd_parser r) @ c\<rparr>\<rparr>"
  have main: "reader_thread_main al (map Bytes (c # chunks) @ es) r = reader_thread_main al (map Bytes chunks @ es) (reader_chunk al c r)"
    using Cons.prems(1,5) by auto
  have "doomed ms hs (bad_block hs l e @ t) (concat chunks) (rd_parser ?r)"
    using holding_more [of ms "bad_block hs l e @ t" c "concat chunks" "rd_parser r" cap] Cons.prems(4) by (auto simp: doomed_def announced_def)
  from pump_doomed [OF assms(2) Cons.prems(3) this, of al] show ?case
  proof (elim disjE exE conjE)
    fix q
    assume "reader_pump_remaining al ?r = ?r\<lparr>rd_messages := rd_messages ?r @ map m_body ms, rd_parser := q, rd_shutdown := True\<rparr>"
    then show ?thesis unfolding main c by (intro exI [of _ q]) (simp add: thread_stopped)
  next
    fix ms1 ms2 q
    assume p: "ms = ms1 @ ms2" "reader_pump_remaining al ?r = ?r\<lparr>rd_messages := rd_messages ?r @ map m_body ms1, rd_parser := q\<rparr>"
      "doomed ms2 hs (bad_block hs l e @ t) (concat chunks) q" "concat chunks \<noteq> []"
    let ?r' = "r\<lparr>rd_messages := rd_messages r @ map m_body ms1, rd_parser := q\<rparr>"
    have "chunks \<noteq> []" using p(4) by auto
    then have "\<exists>q'. reader_thread_main al (map Bytes chunks @ es) ?r' = ?r'\<lparr>rd_messages := rd_messages ?r' @ map m_body ms2, rd_parser := q', rd_shutdown := True\<rparr>"
      using Cons.IH [of ms2 ?r'] p(1,3) Cons.prems by simp
    then show ?thesis unfolding main c using p(1,2) by auto
  qed
qed simp

text \<open>C24: A framing error ends the stream, however the bytes are cut into chunks: when, after any number of complete messages, a header
  line is malformed or announces more than ten megabytes, or the headers end without a length, the messages before it are delivered,
  the reader shuts down, and nothing that follows is delivered, neither the rest of the chunk nor later input. The cut may
  fall anywhere, inside a message, a line or a line terminator; allocation does not fail.\<close>

theorem reader_stops_at_error:
  assumes "list_all message_ok ms" "refused hs l rc" "concat chunks = wire ms @ line_bytes hs @ l @ eol e @ t" "[] \<notin> set chunks" "\<forall>n. al n"
  shows "\<exists>q. reader_thread_main al (map Bytes chunks @ es) (ilsp_reader_create al) =
    \<lparr>rd_parser = q, rd_messages = map m_body ms, rd_shutdown = True\<rparr>"
proof -
  let ?r = "ilsp_reader_create al"
  have "chunks \<noteq> []" using assms(3) by (auto simp: eol_def split: if_splits)
  moreover have "doomed ms hs (bad_block hs l e @ t) (concat chunks) (rd_parser ?r)"
    using assms(3) by (simp add: doomed_def holding_def bad_block_def announced_def ilsp_reader_create_def ilsp_frame_init_def)
  ultimately have "\<exists>q. reader_thread_main al (map Bytes chunks @ es) ?r = ?r\<lparr>rd_messages := rd_messages ?r @ map m_body ms, rd_parser := q, rd_shutdown := True\<rparr>"
    using thread_doomed [OF assms(5,2,4) _ assms(1), of e t ?r es] by (simp add: ilsp_reader_create_def)
  then show ?thesis by (simp add: ilsp_reader_create_def)
qed

text \<open>A message, then a line without a colon, in chunks that cut both.\<close>

theorem reader_stops_at_error_witness:
  "\<exists>q. reader_thread_main (\<lambda>_. True)
      (map Bytes [''Content-Leng'', ''th: 2'' @ [CR, NL, CR, NL] @ ''h'', ''ino co'', ''lon'' @ [CR], [NL] @ ''more''] @ [Bytes ''Content-Length: 0''])
      (ilsp_reader_create (\<lambda>_. True)) =
    \<lparr>rd_parser = q, rd_messages = [''hi''], rd_shutdown = True\<rparr>"
proof -
  let ?m = "Message [(''Content-Length: 2'', True)] True ''hi''"
  let ?cs = "[''Content-Leng'', ''th: 2'' @ [CR, NL, CR, NL] @ ''h'', ''ino co'', ''lon'' @ [CR], [NL] @ ''more'']"
  have "dec 2 = ''2''" by code_simp
  then have "header_ok ''Content-Length: 2''" "announce None ''Content-Length: 2'' = Some 2"
    using header_ok_content_length [of 2] header_line_content_length [of 2] by (simp_all add: announce_def ILSP_FRAME_MAX_MESSAGE_SIZE_def)
  then have ok: "list_all message_ok [?m]" by (simp add: message_ok_def)
  have bad: "refused [] ''no colon'' (- 3)" by (simp add: refused_def header_line_def)
  have cat: "concat ?cs = wire [?m] @ line_bytes [] @ ''no colon'' @ eol True @ ''more''"
    by (simp add: frame_bytes_def header_bytes_def line_bytes_def eol_def)
  have "[] \<notin> set ?cs" "\<forall>n. (\<lambda>_. True) (n :: nat)" by simp_all
  from reader_stops_at_error [OF ok bad cat this, of "[Bytes ''Content-Length: 0'']"] show ?thesis by simp
qed

text \<open>The name of a header is only compared up to the length of \<^verbatim>\<open>Content-Length\<close>: a longer name counts too.\<close>

lemma longer_name_counts: "header_line ''Content-Length-Hint: 5'' = Inr (Some 5)"
proof -
  have "strtoull_dec ''5'' = Some (5, [])"
    by (simp add: strtoull_dec_def Let_def isspace_def isdigit_def dec_value_def code_def)
  then show ?thesis by (simp add: header_line_def header_name_matches_def Let_def ILSP_FRAME_MAX_MESSAGE_SIZE_def)
qed

end
