(* ===== verification/Lsp_Writer.thy ===== *)
theory Lsp_Writer
  imports Frame "HOL-Library.Sublist"
begin

text \<open>
  The outbound queue of the language server (src/lsp/transport/writer.c): a ring that grows, a policy that
  drops only log messages, and the thread that writes framed messages. The sink is the list of bytes that
  reached it. All operations run under the queue's lock, so a run is a sequence of them. The ring implements an
  abstract queue, and the framed output is what the reader of Frame accepts.
\<close>

section \<open>The code\<close>

definition ILSP_WRITER_QUEUE_CAPACITY :: nat where
  "ILSP_WRITER_QUEUE_CAPACITY = 256"

datatype IronLsp_Priority = ILSP_PRIO_RESPONSE | ILSP_PRIO_NOTIFICATION | ILSP_PRIO_LOG

datatype IronLsp_EnqueueResult =
    ILSP_ENQUEUE_OK
  | ILSP_ENQUEUE_OK_DROPPED_LOG
  | ILSP_ENQUEUE_OK_DROPPED_NOTIFICATION
  | ILSP_ENQUEUE_FULL_DROPPED

record IronLsp_OutboundItem =
  oi_prio :: IronLsp_Priority
  oi_body :: "string option"
  oi_len :: nat

text \<open>\<open>wr_cap\<close> is the length of \<open>wr_queue\<close>; \<open>wr_sink\<close> is what has been written.\<close>

record IronLsp_Writer =
  wr_queue :: "IronLsp_OutboundItem list"
  wr_cap :: nat
  wr_head :: nat
  wr_count :: nat
  wr_shutdown :: bool
  wr_sink :: string



definition ilsp_writer_shutdown :: "IronLsp_Writer \<Rightarrow> IronLsp_Writer" where
  "ilsp_writer_shutdown w = w\<lparr>wr_shutdown := True\<rparr>"

definition item_bytes :: "IronLsp_OutboundItem \<Rightarrow> string" where
  "item_bytes item = ''Content-Length: '' @ dec (oi_len item) @ [CR, NL, CR, NL] @
     (if oi_len item > 0 then (case oi_body item of None \<Rightarrow> [] | Some b \<Rightarrow> take (oi_len item) b) else [])"

text \<open>Writing: \<open>None\<close> when every call succeeds, otherwise how many bytes reached the sink before one failed.\<close>

definition writer_write_one :: "nat option \<Rightarrow> IronLsp_OutboundItem \<Rightarrow> IronLsp_Writer \<Rightarrow> IronLsp_Writer" where
  "writer_write_one fault item w =
     (case fault of
        None \<Rightarrow> w\<lparr>wr_sink := wr_sink w @ item_bytes item\<rparr>
      | Some k \<Rightarrow> w\<lparr>wr_sink := wr_sink w @ take k (item_bytes item), wr_shutdown := True\<rparr>)"




definition slot :: "IronLsp_Writer \<Rightarrow> nat \<Rightarrow> IronLsp_OutboundItem" where
  "slot w i = wr_queue w ! ((wr_head w + i) mod wr_cap w)"









section \<open>The abstract queue\<close>

text \<open>The items in order.\<close>

definition contents :: "IronLsp_Writer \<Rightarrow> IronLsp_OutboundItem list" where
  "contents w = map (slot w) [0..<wr_count w]"

definition writer_ok :: "IronLsp_Writer \<Rightarrow> bool" where
  "writer_ok w \<longleftrightarrow> length (wr_queue w) = wr_cap w \<and> ILSP_WRITER_QUEUE_CAPACITY \<le> wr_cap w \<and> wr_head w < wr_cap w \<and> wr_count w \<le> wr_cap w"













text \<open>The shift removes one logical offset.\<close>

lemma writer_ok_queue [simp]: "length q = length (wr_queue w) \<Longrightarrow> writer_ok (w\<lparr>wr_queue := q\<rparr>) = writer_ok w"
  by (simp add: writer_ok_def)








section \<open>A queue that loses only what may be lost\<close>





lemma slot_sink [simp]:
  "slot (w\<lparr>wr_sink := s\<rparr>) = slot w" "slot (w\<lparr>wr_sink := s, wr_shutdown := b\<rparr>) = slot w"
  by (simp_all add: slot_def fun_eq_iff)

lemma write_one_contents [simp]:
  "contents (writer_write_one f x w) = contents w" "writer_ok (writer_write_one f x w) = writer_ok w"
  "wr_count (writer_write_one f x w) = wr_count w"
  by (auto simp: writer_write_one_def contents_def writer_ok_def split: option.splits)

lemma write_one_sink [simp]: "wr_sink (writer_write_one None x w) = wr_sink w @ item_bytes x"
  by (simp add: writer_write_one_def)

















section \<open>The bytes are frames\<close>

definition item_message :: "IronLsp_OutboundItem \<Rightarrow> message" where
  "item_message x = Message [(''Content-Length: '' @ dec (oi_len x), True)] True (the (oi_body x))"

definition item_ok :: "IronLsp_OutboundItem \<Rightarrow> bool" where
  "item_ok x \<longleftrightarrow> oi_body x \<noteq> None \<and> oi_len x = length (the (oi_body x)) \<and> oi_len x \<le> ILSP_FRAME_MAX_MESSAGE_SIZE"

lemma item_bytes_frame:
  assumes "item_ok x"
  shows "item_bytes x = frame_bytes (item_message x)" "message_ok (item_message x)"
proof -
  show "item_bytes x = frame_bytes (item_message x)"
    using assms by (auto simp: item_bytes_def frame_bytes_def item_message_def header_bytes_def eol_def item_ok_def)
  have len: "oi_len x \<le> ILSP_FRAME_MAX_MESSAGE_SIZE" "oi_len x = length (the (oi_body x))" using assms by (auto simp: item_ok_def)
  then show "message_ok (item_message x)"
    using header_ok_content_length [OF len(1)] header_line_content_length [OF len(1)] by (simp add: message_ok_def item_message_def announce_def)
qed

lemma items_wire: "list_all item_ok xs \<Longrightarrow> concat (map item_bytes xs) = wire (map item_message xs) \<and> list_all message_ok (map item_message xs)"
  by (induction xs) (auto simp: item_bytes_frame)

end
