(* ===== verification/Ast_Worker.thy ===== *)
theory Ast_Worker
  imports Prelude
begin

text \<open>
  The worker of a document in the language server: its coalescing mailbox (src/lsp/workers/mailbox.c), its loop
  with debouncing and crash recovery (src/lsp/workers/ast\_worker.c), and the handlers that post requests and
  answer the ones left over (src/lsp/server/handlers\_document.c). The mailbox operations run under its lock,
  so the worker and the handlers interleave operation by operation: a labelled step relation. What an analysis
  does is outside; a step says whether it returned, crashed, or found no memory for its snapshot.
\<close>

section \<open>The mailbox\<close>

datatype IronLsp_MailboxMsgKind = ILSP_MSG_NONE | ILSP_MSG_COMPILE | ILSP_MSG_PULL_DIAGNOSTIC | ILSP_MSG_SHUTDOWN

text \<open>A cancellation flag is named by its address.\<close>

record IronLsp_MailboxMsg =
  mm_kind :: IronLsp_MailboxMsgKind
  mm_version :: int
  mm_cancel_flag :: "addr option"
  mm_pull_request_id :: "string option"

record IronLsp_Mailbox =
  mb_shutdown_flag :: bool
  mb_compile_has :: bool
  mb_pull_has :: bool
  mb_shutdown_has :: bool
  mb_compile :: IronLsp_MailboxMsg
  mb_pull :: IronLsp_MailboxMsg

definition zero_msg :: IronLsp_MailboxMsg where
  "zero_msg = \<lparr>mm_kind = ILSP_MSG_NONE, mm_version = 0, mm_cancel_flag = None, mm_pull_request_id = None\<rparr>"

definition ilsp_mailbox_create :: IronLsp_Mailbox where
  "ilsp_mailbox_create = \<lparr>mb_shutdown_flag = False, mb_compile_has = False, mb_pull_has = False, mb_shutdown_has = False,
     mb_compile = zero_msg, mb_pull = zero_msg\<rparr>"

definition ilsp_mailbox_post_compile :: "int \<Rightarrow> addr option \<Rightarrow> IronLsp_Mailbox \<Rightarrow> IronLsp_Mailbox" where
  "ilsp_mailbox_post_compile version cancel_flag m =
     m\<lparr>mb_compile := \<lparr>mm_kind = ILSP_MSG_COMPILE, mm_version = version, mm_cancel_flag = cancel_flag, mm_pull_request_id = None\<rparr>,
       mb_compile_has := True\<rparr>"

text \<open>\<open>mem\<close>: the copy of the request id could be allocated. The displaced id comes back.\<close>

definition ilsp_mailbox_post_pull :: "bool \<Rightarrow> int \<Rightarrow> string \<Rightarrow> IronLsp_Mailbox \<Rightarrow> string option \<times> IronLsp_Mailbox" where
  "ilsp_mailbox_post_pull mem version request_id m =
     ((if mb_pull_has m then mm_pull_request_id (mb_pull m) else None),
      m\<lparr>mb_pull := \<lparr>mm_kind = ILSP_MSG_PULL_DIAGNOSTIC, mm_version = version, mm_cancel_flag = None,
                    mm_pull_request_id = (if mem then Some request_id else None)\<rparr>,
        mb_pull_has := True\<rparr>)"

definition ilsp_mailbox_take_pull :: "IronLsp_Mailbox \<Rightarrow> string option \<times> IronLsp_Mailbox" where
  "ilsp_mailbox_take_pull m =
     (if mb_pull_has m
      then (mm_pull_request_id (mb_pull m), m\<lparr>mb_pull := (mb_pull m)\<lparr>mm_pull_request_id := None\<rparr>, mb_pull_has := False\<rparr>)
      else (None, m))"

definition ilsp_mailbox_post_shutdown :: "IronLsp_Mailbox \<Rightarrow> IronLsp_Mailbox" where
  "ilsp_mailbox_post_shutdown m = m\<lparr>mb_shutdown_flag := True, mb_shutdown_has := True\<rparr>"

abbreviation occupied :: "IronLsp_Mailbox \<Rightarrow> bool" where
  "occupied m \<equiv> mb_shutdown_has m \<or> mb_pull_has m \<or> mb_compile_has m"

text \<open>\<open>None\<close>: the caller waits.\<close>

definition ilsp_mailbox_dequeue :: "IronLsp_Mailbox \<Rightarrow> (IronLsp_MailboxMsg \<times> IronLsp_Mailbox) option" where
  "ilsp_mailbox_dequeue m =
     (if \<not> occupied m then None
      else if mb_shutdown_has m
      then Some (\<lparr>mm_kind = ILSP_MSG_SHUTDOWN, mm_version = 0, mm_cancel_flag = None, mm_pull_request_id = None\<rparr>, m\<lparr>mb_shutdown_has := False\<rparr>)
      else if mb_pull_has m
      then Some (mb_pull m, m\<lparr>mb_pull := (mb_pull m)\<lparr>mm_pull_request_id := None\<rparr>, mb_pull_has := False\<rparr>)
      else Some (mb_compile m, m\<lparr>mb_compile_has := False\<rparr>))"

text \<open>The timed wait: an occupied mailbox returns at once; \<open>rc\<close> is how the wait on the condition ends otherwise.\<close>

definition IRON_TIMEDWAIT_OK :: int where
  "IRON_TIMEDWAIT_OK = 0"

definition IRON_TIMEDWAIT_EXPIRED :: int where
  "IRON_TIMEDWAIT_EXPIRED = 1"

definition ilsp_mailbox_timedwait_ms :: "int \<Rightarrow> IronLsp_Mailbox \<Rightarrow> int" where
  "ilsp_mailbox_timedwait_ms rc m = (if occupied m then IRON_TIMEDWAIT_OK else rc)"

definition ilsp_mailbox_shutdown_pending :: "IronLsp_Mailbox \<Rightarrow> bool" where
  "ilsp_mailbox_shutdown_pending m = mb_shutdown_flag m"

section \<open>The worker\<close>

text \<open>Where the thread is: at the blocking dequeue of the loop, in the debounce window of a compile request, or gone.\<close>

datatype place = At_Dequeue | Debouncing IronLsp_MailboxMsg | Exited

text \<open>
  The document's part: strikes, quarantine, mailbox; then what the worker has done: the responses to pull requests
  (an empty or a full report) and the versions compiled, the latest first.
\<close>

datatype report = Empty_Report | Full_Report

record worker =
  wk_mailbox :: IronLsp_Mailbox
  wk_place :: place
  wk_abort_count :: u32
  wk_quarantined :: bool
  wk_responses :: "(string \<times> report) list"
  wk_compiled :: "int list"

definition worker_start :: worker where
  "worker_start = \<lparr>wk_mailbox = ilsp_mailbox_create, wk_place = At_Dequeue, wk_abort_count = 0, wk_quarantined = False,
     wk_responses = [], wk_compiled = []\<rparr>"

datatype analysis = Returned | Crashed | No_Snapshot

definition respond :: "report \<Rightarrow> string option \<Rightarrow> worker \<Rightarrow> worker" where
  "respond r rid w = (case rid of None \<Rightarrow> w | Some i \<Rightarrow> w\<lparr>wk_responses := (i, r) # wk_responses w\<rparr>)"

definition ilsp_worker_handle_abort_strike :: "u32 \<Rightarrow> worker \<Rightarrow> worker" where
  "ilsp_worker_handle_abort_strike strike w = (if strike = 1 then w else w\<lparr>wk_quarantined := True\<rparr>)"

definition abort_strike :: "worker \<Rightarrow> worker" where
  "abort_strike w =
     (let w1 = w\<lparr>wk_abort_count := wk_abort_count w + 1\<rparr> in ilsp_worker_handle_abort_strike (wk_abort_count w1) w1)"

definition worker_pull :: "analysis \<Rightarrow> string option \<Rightarrow> worker \<Rightarrow> worker" where
  "worker_pull an rid w =
     (case an of No_Snapshot \<Rightarrow> w | Returned \<Rightarrow> respond Full_Report rid w | Crashed \<Rightarrow> abort_strike w)"

definition worker_compile :: "analysis \<Rightarrow> IronLsp_MailboxMsg \<Rightarrow> worker \<Rightarrow> worker" where
  "worker_compile an msg w =
     (case an of
        No_Snapshot \<Rightarrow> w
      | Returned \<Rightarrow> w\<lparr>wk_compiled := mm_version msg # wk_compiled w\<rparr>
      | Crashed \<Rightarrow> abort_strike w)"

text \<open>One message at the top of the loop.\<close>

definition worker_message :: "analysis \<Rightarrow> IronLsp_MailboxMsg \<Rightarrow> worker \<Rightarrow> worker" where
  "worker_message an msg w =
     (if mm_kind msg = ILSP_MSG_SHUTDOWN then w\<lparr>wk_place := Exited\<rparr>
      else if wk_quarantined w then respond Empty_Report (mm_pull_request_id msg) w
      else if mm_kind msg = ILSP_MSG_COMPILE then w\<lparr>wk_place := Debouncing msg\<rparr>
      else if mm_kind msg = ILSP_MSG_PULL_DIAGNOSTIC then worker_pull an (mm_pull_request_id msg) w
      else w)"

text \<open>One message inside the debounce window.\<close>

definition debounce_message :: "analysis \<Rightarrow> IronLsp_MailboxMsg \<Rightarrow> IronLsp_MailboxMsg \<Rightarrow> worker \<Rightarrow> worker" where
  "debounce_message an msg next w =
     (if mm_kind next = ILSP_MSG_SHUTDOWN then w\<lparr>wk_place := Exited\<rparr>
      else if mm_kind next = ILSP_MSG_COMPILE
      then (if mm_version next \<ge> mm_version msg then w\<lparr>wk_place := Debouncing next\<rparr> else w)
      else if mm_kind next = ILSP_MSG_PULL_DIAGNOSTIC then worker_pull an (mm_pull_request_id next) w
      else w)"

text \<open>
  The thread runs until its next blocking call: it takes a message when there is one; in the debounce window it
  runs the compile when the wait times out with the mailbox empty (a wake-up without a message waits at the dequeue for
  the next one and adds no behaviour). \<open>None\<close>: it waits.
\<close>

definition ilsp_ast_worker_main :: "analysis \<Rightarrow> worker \<Rightarrow> worker option" where
  "ilsp_ast_worker_main an w =
     (case wk_place w of
        Exited \<Rightarrow> None
      | At_Dequeue \<Rightarrow>
          (case ilsp_mailbox_dequeue (wk_mailbox w) of
             None \<Rightarrow> None
           | Some (msg, m) \<Rightarrow> Some (worker_message an msg (w\<lparr>wk_mailbox := m\<rparr>)))
      | Debouncing msg \<Rightarrow>
          if ilsp_mailbox_timedwait_ms IRON_TIMEDWAIT_EXPIRED (wk_mailbox w) \<noteq> IRON_TIMEDWAIT_OK
          then Some ((worker_compile an msg w)\<lparr>wk_place := At_Dequeue\<rparr>)
          else (case ilsp_mailbox_dequeue (wk_mailbox w) of
                  None \<Rightarrow> None
                | Some (next, m) \<Rightarrow> Some (debounce_message an msg next (w\<lparr>wk_mailbox := m\<rparr>))))"

lemma worker_main_eq:
  "ilsp_ast_worker_main an w =
     (case wk_place w of
        Exited \<Rightarrow> None
      | At_Dequeue \<Rightarrow>
          (case ilsp_mailbox_dequeue (wk_mailbox w) of
             None \<Rightarrow> None
           | Some (msg, m) \<Rightarrow> Some (worker_message an msg (w\<lparr>wk_mailbox := m\<rparr>)))
      | Debouncing msg \<Rightarrow>
          (case ilsp_mailbox_dequeue (wk_mailbox w) of
             None \<Rightarrow> Some ((worker_compile an msg w)\<lparr>wk_place := At_Dequeue\<rparr>)
           | Some (next, m) \<Rightarrow> Some (debounce_message an msg next (w\<lparr>wk_mailbox := m\<rparr>))))"
  by (auto simp: ilsp_ast_worker_main_def ilsp_mailbox_timedwait_ms_def IRON_TIMEDWAIT_OK_def IRON_TIMEDWAIT_EXPIRED_def
      ilsp_mailbox_dequeue_def split: place.splits)

section \<open>The handlers\<close>

definition handle_pull_request :: "bool \<Rightarrow> int \<Rightarrow> string \<Rightarrow> worker \<Rightarrow> worker" where
  "handle_pull_request mem version rid w =
     (case ilsp_mailbox_post_pull mem version rid (wk_mailbox w) of
        (displaced, m) \<Rightarrow> respond Empty_Report displaced (w\<lparr>wk_mailbox := m\<rparr>))"

definition answer_pending_pull :: "worker \<Rightarrow> worker" where
  "answer_pending_pull w =
     (case ilsp_mailbox_take_pull (wk_mailbox w) of (rid, m) \<Rightarrow> respond Empty_Report rid (w\<lparr>wk_mailbox := m\<rparr>))"

text \<open>What happens next: an edit, a pull request, the close of the document, or the worker runs.\<close>

datatype event = Edit int "addr option" | Pull_Request bool int string | Close | Close_Join | Work analysis

inductive worker_step :: "worker \<Rightarrow> event \<Rightarrow> worker \<Rightarrow> bool" where
  edit: "worker_step w (Edit v c) (w\<lparr>wk_mailbox := ilsp_mailbox_post_compile v c (wk_mailbox w)\<rparr>)"
| pull_request: "worker_step w (Pull_Request mem v rid) (handle_pull_request mem v rid w)"
| close: "worker_step w Close (w\<lparr>wk_mailbox := ilsp_mailbox_post_shutdown (wk_mailbox w)\<rparr>)"
| close_join: "wk_place w = Exited \<Longrightarrow> worker_step w Close_Join (answer_pending_pull w)"
| work: "ilsp_ast_worker_main an w = Some w' \<Longrightarrow> worker_step w (Work an) w'"

section \<open>Every request is answered\<close>

fun posted :: "event list \<Rightarrow> string list" where
  "posted [] = []"
| "posted (Pull_Request _ _ rid # es) = rid # posted es"
| "posted (_ # es) = posted es"

text \<open>Events that may lose a request: no memory for its id, no snapshot, a crash of the analysis.\<close>

definition failing :: "event \<Rightarrow> bool" where
  "failing e \<longleftrightarrow> (case e of Pull_Request mem _ _ \<Rightarrow> \<not> mem | Work an \<Rightarrow> an \<noteq> Returned | _ \<Rightarrow> False)"

abbreviation failures :: "event list \<Rightarrow> nat" where
  "failures es \<equiv> length (filter failing es)"

definition ids :: "string option \<Rightarrow> string multiset" where
  "ids rid = (case rid of None \<Rightarrow> {#} | Some i \<Rightarrow> {#i#})"

definition pending :: "worker \<Rightarrow> string multiset" where
  "pending w = (if mb_pull_has (wk_mailbox w) then ids (mm_pull_request_id (mb_pull (wk_mailbox w))) else {#})"

definition answered :: "worker \<Rightarrow> string multiset" where
  "answered w = mset (map fst (wk_responses w))"

text \<open>Compile requests carry no request id, and messages have the kind of their slot.\<close>

definition mailbox_ok :: "IronLsp_Mailbox \<Rightarrow> bool" where
  "mailbox_ok m \<longleftrightarrow> (mb_compile_has m \<longrightarrow> mm_kind (mb_compile m) = ILSP_MSG_COMPILE \<and> mm_pull_request_id (mb_compile m) = None) \<and>
     (mb_pull_has m \<longrightarrow> mm_kind (mb_pull m) = ILSP_MSG_PULL_DIAGNOSTIC)"

lemma respond_fields [simp]:
  "wk_mailbox (respond r rid w) = wk_mailbox w" "wk_place (respond r rid w) = wk_place w" "wk_compiled (respond r rid w) = wk_compiled w"
  "answered (respond r rid w) = answered w + ids rid" "pending (respond r rid w) = pending w"
  by (auto simp: respond_def answered_def pending_def ids_def split: option.splits)

lemma abort_strike_fields [simp]:
  "wk_mailbox (abort_strike w) = wk_mailbox w" "wk_place (abort_strike w) = wk_place w" "wk_responses (abort_strike w) = wk_responses w"
  "wk_compiled (abort_strike w) = wk_compiled w" "answered (abort_strike w) = answered w" "pending (abort_strike w) = pending w"
  by (auto simp: abort_strike_def ilsp_worker_handle_abort_strike_def Let_def answered_def pending_def)

lemma worker_fields [simp]:
  "answered (w\<lparr>wk_mailbox := m\<rparr>) = answered w" "answered (w\<lparr>wk_place := p\<rparr>) = answered w"
  "pending (w\<lparr>wk_place := p\<rparr>) = pending w"
  "answered (w\<lparr>wk_compiled := c\<rparr>) = answered w" "pending (w\<lparr>wk_compiled := c\<rparr>) = pending w"
  by (simp_all add: answered_def pending_def)

text \<open>The work on one message answers its request or fails.\<close>

definition handled :: "analysis \<Rightarrow> string multiset \<Rightarrow> worker \<Rightarrow> worker \<Rightarrow> bool" where
  "handled an i w w' \<longleftrightarrow> wk_mailbox w' = wk_mailbox w \<and> (\<exists>lost. answered w + i = answered w' + lost \<and>
     size lost \<le> (if an = Returned then 0 else 1))"

lemma handledI: "wk_mailbox w' = wk_mailbox w \<Longrightarrow> answered w' = answered w + i \<Longrightarrow> handled an i w w'"
  by (auto simp: handled_def intro!: exI [of _ "{#}"])

lemma pull_handled: "handled an (ids rid) w (worker_pull an rid w)"
proof (cases an)
  case Returned
  then show ?thesis by (simp add: worker_pull_def handledI)
qed (auto simp: worker_pull_def handled_def ids_def split: option.splits)

lemma message_handled:
  assumes "mm_kind msg = ILSP_MSG_PULL_DIAGNOSTIC \<or> mm_pull_request_id msg = None"
  shows "handled an (ids (mm_pull_request_id msg)) w (worker_message an msg w)"
    and "handled an (ids (mm_pull_request_id msg)) w (debounce_message an old msg w)"
  using assms pull_handled [of an "mm_pull_request_id msg" w]
  by (auto simp: worker_message_def debounce_message_def ids_def intro!: handledI)

lemma dequeue_law:
  assumes "mailbox_ok m" "ilsp_mailbox_dequeue m = Some (msg, m')"
  shows "mailbox_ok m'" "mm_kind msg = ILSP_MSG_PULL_DIAGNOSTIC \<or> mm_pull_request_id msg = None"
    "pending (w\<lparr>wk_mailbox := m\<rparr>) = pending (w\<lparr>wk_mailbox := m'\<rparr>) + ids (mm_pull_request_id msg)"
  using assms by (auto simp: ilsp_mailbox_dequeue_def mailbox_ok_def pending_def ids_def split: if_splits option.splits)

lemma work_law:
  assumes "mailbox_ok (wk_mailbox w)" "ilsp_ast_worker_main an w = Some w'"
  shows "mailbox_ok (wk_mailbox w') \<and> (\<exists>lost. answered w + pending w = answered w' + pending w' + lost \<and> size lost \<le> (if an = Returned then 0 else 1))"
proof -
  have main: ?thesis if d: "ilsp_mailbox_dequeue (wk_mailbox w) = Some (msg, m)"
    and h: "handled an (ids (mm_pull_request_id msg)) (w\<lparr>wk_mailbox := m\<rparr>) w'" for msg m
  proof -
    note l = dequeue_law [OF assms(1) d]
    have mb: "wk_mailbox w' = m" using h by (simp add: handled_def)
    then have "pending w' = pending (w\<lparr>wk_mailbox := m\<rparr>)" by (simp add: pending_def)
    then have "pending w = pending w' + ids (mm_pull_request_id msg)" using l(3) [of w] by (simp add: pending_def)
    then show ?thesis using h l(1) mb by (auto simp: handled_def ac_simps)
  qed
  show ?thesis
  proof (cases "wk_place w")
    case At_Dequeue
    then obtain msg m where d: "ilsp_mailbox_dequeue (wk_mailbox w) = Some (msg, m)" "w' = worker_message an msg (w\<lparr>wk_mailbox := m\<rparr>)"
      using assms(2) by (auto simp: worker_main_eq split: option.splits)
    then show ?thesis using message_handled(1) [OF dequeue_law(2) [OF assms(1) d(1)]] main by blast
  next
    case (Debouncing msg)
    show ?thesis
    proof (cases "ilsp_mailbox_dequeue (wk_mailbox w)")
      case None
      then have "answered w' = answered w" "pending w' = pending w" "wk_mailbox w' = wk_mailbox w"
        using assms(2) Debouncing by (auto simp: worker_main_eq worker_compile_def split: analysis.splits)
      then show ?thesis using assms(1) by (auto intro!: exI [of _ "{#}"])
    next
      case (Some p)
      then obtain nx m where d: "ilsp_mailbox_dequeue (wk_mailbox w) = Some (nx, m)" "w' = debounce_message an msg nx (w\<lparr>wk_mailbox := m\<rparr>)"
        using assms(2) Debouncing by (cases p) (auto simp: worker_main_eq)
      then show ?thesis using message_handled(2) [OF dequeue_law(2) [OF assms(1) d(1)]] main by blast
    qed
  qed (use assms(2) in \<open>simp add: worker_main_eq\<close>)
qed

lemma pull_request_law:
  assumes "mailbox_ok (wk_mailbox w)"
  shows "mailbox_ok (wk_mailbox (handle_pull_request mem v rid w)) \<and>
    answered w + pending w + {#rid#} = answered (handle_pull_request mem v rid w) + pending (handle_pull_request mem v rid w) + (if mem then {#} else {#rid#})"
  using assms
  by (auto simp: handle_pull_request_def ilsp_mailbox_post_pull_def mailbox_ok_def pending_def ids_def split: option.splits)

lemma close_join_law:
  assumes "mailbox_ok (wk_mailbox w)"
  shows "mailbox_ok (wk_mailbox (answer_pending_pull w))" "pending (answer_pending_pull w) = {#}"
    "answered (answer_pending_pull w) = answered w + pending w" "wk_place (answer_pending_pull w) = wk_place w"
  using assms
  by (auto simp: answer_pending_pull_def ilsp_mailbox_take_pull_def mailbox_ok_def pending_def ids_def split: option.splits)

text \<open>One step accounts for the requests.\<close>

lemma step_law:
  assumes "worker_step w e w'" "mailbox_ok (wk_mailbox w)"
  shows "mailbox_ok (wk_mailbox w') \<and> (\<exists>lost. mset (posted [e]) + answered w + pending w = answered w' + pending w' + lost \<and> size lost \<le> failures [e])"
  using assms(1)
proof (cases rule: worker_step.cases)
  case (pull_request mem v rid)
  then show ?thesis
    using pull_request_law [OF assms(2), of mem v rid] by (auto simp: failing_def ac_simps intro!: exI [of _ "if mem then {#} else {#rid#}"])
next
  case (work an)
  then show ?thesis using work_law [OF assms(2), of an w'] by (auto simp: failing_def split: if_splits)
next
  case close_join
  then show ?thesis using close_join_law [OF assms(2)] by (auto intro!: exI [of _ "{#}"])
qed (use assms(2) in \<open>auto simp: mailbox_ok_def ilsp_mailbox_post_compile_def ilsp_mailbox_post_shutdown_def pending_def intro!: exI [of _ "{#}"]\<close>)

lemma posted_Cons: "mset (posted (e # es)) = mset (posted [e]) + mset (posted es)"
  by (cases e) auto

lemma runs_account:
  assumes "runs worker_step worker_start es w"
  shows "mailbox_ok (wk_mailbox w) \<and> (\<exists>lost. mset (posted es) = answered w + pending w + lost \<and> size lost \<le> failures es)"
  using assms
proof (induction rule: runs.induct)
  case runs_init
  then show ?case by (simp add: worker_start_def mailbox_ok_def ilsp_mailbox_create_def answered_def pending_def)
next
  case (runs_step es s e t)
  then obtain l1 where l1: "mset (posted es) = answered s + pending s + l1" "size l1 \<le> failures es" by blast
  obtain l2 where l2: "mset (posted [e]) + answered s + pending s = answered t + pending t + l2" "size l2 \<le> failures [e]"
    using step_law [OF runs_step.hyps(2)] runs_step.IH by blast
  have "mset (posted (e # es)) = (mset (posted [e]) + answered s + pending s) + l1"
    unfolding posted_Cons [of e es] l1(1) by (simp add: ac_simps)
  then have "mset (posted (e # es)) = answered t + pending t + (l1 + l2)" unfolding l2(1) by (simp add: ac_simps)
  moreover have "size (l1 + l2) \<le> failures (e # es)" using l1(2) l2(2) by (auto split: if_splits)
  ultimately show ?case using step_law [OF runs_step.hyps(2)] runs_step.IH by blast
qed

lemma shutdown_exits:
  assumes "mb_shutdown_has (wk_mailbox w)" "wk_place w \<noteq> Exited"
  shows "\<exists>w'. ilsp_ast_worker_main an w = Some w' \<and> wk_place w' = Exited"
  using assms by (cases "wk_place w")
    (auto simp: worker_main_eq ilsp_mailbox_dequeue_def worker_message_def debounce_message_def)



text \<open>C28: Closing a document answers everything: from any state the document can reach without crashes or refused allocations, the
  close makes the worker leave at its next step, and after the handler has taken the pending request every request
  ever posted has exactly one response.\<close>

theorem close_answers_all:
  assumes "runs worker_step worker_start es w" "failures es = 0" "wk_place w \<noteq> Exited"
  shows "\<exists>w'. ilsp_ast_worker_main Returned (w\<lparr>wk_mailbox := ilsp_mailbox_post_shutdown (wk_mailbox w)\<rparr>) = Some w' \<and>
    wk_place w' = Exited \<and> mset (map fst (wk_responses (answer_pending_pull w'))) = mset (posted es)"
proof -
  let ?w = "w\<lparr>wk_mailbox := ilsp_mailbox_post_shutdown (wk_mailbox w)\<rparr>"
  have r: "runs worker_step worker_start (Close # es) ?w"
    by (rule runs_step [OF assms(1)], rule worker_step.close)
  obtain w' where w': "ilsp_ast_worker_main Returned ?w = Some w'" "wk_place w' = Exited"
    using shutdown_exits [of ?w Returned] assms(3) by (auto simp: ilsp_mailbox_post_shutdown_def)
  have "runs worker_step worker_start (Work Returned # Close # es) w'"
    by (rule runs_step [OF r], rule worker_step.work, rule w'(1))
  from runs_account [OF this] obtain lost where "mailbox_ok (wk_mailbox w')" "mset (posted es) = answered w' + pending w' + lost" "size lost \<le> 0"
    using assms(2) by (auto simp: failing_def)
  then show ?thesis using w' close_join_law [of w'] by (auto simp: answered_def)
qed

theorem close_answers_all_witness:
  "\<exists>w'. ilsp_ast_worker_main Returned ((handle_pull_request True 1 ''a'' worker_start)\<lparr>wk_mailbox :=
      ilsp_mailbox_post_shutdown (wk_mailbox (handle_pull_request True 1 ''a'' worker_start))\<rparr>) = Some w' \<and>
    wk_place w' = Exited \<and> mset (map fst (wk_responses (answer_pending_pull w'))) = mset (posted [Pull_Request True 1 ''a''])"
proof (rule close_answers_all)
  show "runs worker_step worker_start [Pull_Request True 1 ''a''] (handle_pull_request True 1 ''a'' worker_start)"
    by (rule runs_single) (rule worker_step.pull_request)
qed (simp_all add: failing_def handle_pull_request_def worker_start_def ilsp_mailbox_post_pull_def)

text \<open>A crash during the analysis of a pull request leaves it without a response.\<close>

lemma crash_loses_request:
  "\<exists>w. runs worker_step worker_start [Work Crashed, Pull_Request True 1 ''a''] w \<and> wk_responses w = [] \<and> pending w = {#}"
proof -
  let ?w = "handle_pull_request True 1 ''a'' worker_start"
  obtain w where w: "ilsp_ast_worker_main Crashed ?w = Some w" "wk_responses w = []" "pending w = {#}"
    by (auto simp: worker_main_eq handle_pull_request_def worker_start_def ilsp_mailbox_post_pull_def ilsp_mailbox_create_def
        ilsp_mailbox_dequeue_def worker_message_def worker_pull_def respond_def pending_def)
  have "runs worker_step worker_start [Pull_Request True 1 ''a''] ?w" by (rule runs_single) (rule worker_step.pull_request)
  then have "runs worker_step worker_start [Work Crashed, Pull_Request True 1 ''a''] w" by (rule runs_step) (rule worker_step.work, rule w(1))
  then show ?thesis using w by blast
qed

section \<open>The newest version is compiled\<close>

fun edits :: "event list \<Rightarrow> int list" where
  "edits [] = []"
| "edits (Edit v _ # es) = v # edits es"
| "edits (_ # es) = edits es"

text \<open>The newest version is in the mailbox or with the worker.\<close>

definition tracks :: "int list \<Rightarrow> worker \<Rightarrow> bool" where
  "tracks vs w \<longleftrightarrow> mailbox_ok (wk_mailbox w) \<and>
     (mb_compile_has (wk_mailbox w) \<longrightarrow> vs \<noteq> [] \<and> mm_version (mb_compile (wk_mailbox w)) = hd vs) \<and>
     (\<forall>msg. wk_place w = Debouncing msg \<longrightarrow> mm_version msg \<in> set vs \<and> (\<not> mb_compile_has (wk_mailbox w) \<longrightarrow> mm_version msg = hd vs))"

lemma tracks_pull [simp]: "tracks vs (worker_pull an rid w) = tracks vs w"
  by (auto simp: worker_pull_def tracks_def split: analysis.splits)

lemma tracks_respond [simp]: "tracks vs (respond r rid w) = tracks vs w"
  by (simp add: tracks_def)

lemma dequeue_cases:
  assumes "ilsp_mailbox_dequeue m = Some (msg, m')"
  obtains (shutdown) "mm_kind msg = ILSP_MSG_SHUTDOWN" "m' = m\<lparr>mb_shutdown_has := False\<rparr>"
  | (pull) "mb_pull_has m" "msg = mb_pull m" "m' = m\<lparr>mb_pull := (mb_pull m)\<lparr>mm_pull_request_id := None\<rparr>, mb_pull_has := False\<rparr>"
  | (compile) "mb_compile_has m" "msg = mb_compile m" "m' = m\<lparr>mb_compile_has := False\<rparr>"
  using assms by (auto simp: ilsp_mailbox_dequeue_def split: if_splits)

lemma tracks_work:
  assumes "tracks vs w" "sorted_wrt (\<ge>) vs" "ilsp_ast_worker_main an w = Some w'"
  shows "tracks vs w'"
proof (cases "wk_place w")
  case At_Dequeue
  then obtain msg m where d: "ilsp_mailbox_dequeue (wk_mailbox w) = Some (msg, m)" "w' = worker_message an msg (w\<lparr>wk_mailbox := m\<rparr>)"
    using assms(3) by (auto simp: worker_main_eq split: option.splits)
  from d(1) show ?thesis
  proof (cases rule: dequeue_cases)
    case shutdown
    then show ?thesis using assms(1) by (simp add: d(2) worker_message_def tracks_def mailbox_ok_def)
  next
    case pull
    then have "tracks vs (w\<lparr>wk_mailbox := m\<rparr>)" "mm_kind msg = ILSP_MSG_PULL_DIAGNOSTIC"
      using assms(1) At_Dequeue by (auto simp: tracks_def mailbox_ok_def)
    then show ?thesis by (simp add: d(2) worker_message_def)
  next
    case compile
    then have "mm_kind msg = ILSP_MSG_COMPILE" "mm_version msg = hd vs" "vs \<noteq> []" "tracks vs (w\<lparr>wk_mailbox := m\<rparr>)"
      using assms(1) At_Dequeue by (auto simp: tracks_def mailbox_ok_def)
    then show ?thesis by (auto simp: d(2) worker_message_def tracks_def)
  qed
next
  case (Debouncing old)
  show ?thesis
  proof (cases "ilsp_mailbox_dequeue (wk_mailbox w)")
    case None
    then show ?thesis
      using assms(1,3) Debouncing by (auto simp: worker_main_eq worker_compile_def tracks_def split: analysis.splits)
  next
    case (Some p)
    then obtain nx m where d: "ilsp_mailbox_dequeue (wk_mailbox w) = Some (nx, m)" "w' = debounce_message an old nx (w\<lparr>wk_mailbox := m\<rparr>)"
      using assms(3) Debouncing by (cases p) (auto simp: worker_main_eq)
    have "mm_version old \<le> hd vs"
      using assms(1,2) Debouncing by (cases vs) (auto simp: tracks_def)
    from d(1) show ?thesis
    proof (cases rule: dequeue_cases)
      case shutdown
      then show ?thesis using assms(1) by (simp add: d(2) debounce_message_def tracks_def mailbox_ok_def)
    next
      case pull
      then have "tracks vs (w\<lparr>wk_mailbox := m\<rparr>)" "mm_kind nx = ILSP_MSG_PULL_DIAGNOSTIC"
        using assms(1) by (auto simp: tracks_def mailbox_ok_def)
      then show ?thesis by (simp add: d(2) debounce_message_def)
    next
      case compile
      then have "mm_kind nx = ILSP_MSG_COMPILE" "mm_version nx = hd vs" "vs \<noteq> []" "mailbox_ok m" "\<not> mb_compile_has m"
        using assms(1) by (auto simp: tracks_def mailbox_ok_def)
      then show ?thesis using \<open>mm_version old \<le> hd vs\<close> by (auto simp: d(2) debounce_message_def tracks_def)
    qed
  qed
qed (use assms(3) in \<open>simp add: worker_main_eq\<close>)

lemma tracks_step:
  assumes "worker_step w e w'" "tracks (edits es) w" "sorted_wrt (\<ge>) (edits (e # es))"
  shows "tracks (edits (e # es)) w'"
  using assms(1)
proof (cases rule: worker_step.cases)
  case (edit v c)
  then show ?thesis using assms(2) by (auto simp: tracks_def ilsp_mailbox_post_compile_def mailbox_ok_def)
next
  case (pull_request mem v rid)
  then show ?thesis using assms(2) by (auto simp: handle_pull_request_def ilsp_mailbox_post_pull_def tracks_def mailbox_ok_def)
next
  case close
  then show ?thesis using assms(2) by (auto simp: tracks_def ilsp_mailbox_post_shutdown_def mailbox_ok_def)
next
  case close_join
  then show ?thesis using assms(2) by (auto simp: answer_pending_pull_def ilsp_mailbox_take_pull_def tracks_def mailbox_ok_def)
next
  case (work an)
  then show ?thesis using tracks_work [OF assms(2) _ work(2)] assms(3) by simp
qed

lemma edits_tail: "sorted_wrt (\<ge>) (edits (e # es)) \<Longrightarrow> sorted_wrt (\<ge>) (edits es)"
  by (cases e) auto

lemma runs_tracks: "runs worker_step worker_start es w \<Longrightarrow> sorted_wrt (\<ge>) (edits es) \<Longrightarrow> tracks (edits es) w"
proof (induction rule: runs.induct)
  case runs_init
  then show ?case by (simp add: tracks_def worker_start_def ilsp_mailbox_create_def mailbox_ok_def)
next
  case (runs_step es s e t)
  then show ?case using tracks_step edits_tail by blast
qed

text \<open>C29: The debounce never compiles a stale version: when the versions of the edits do not decrease, the compile that runs at the
  end of the window is the one of the latest edit, whatever edits, pull requests and coalescing happened
  meanwhile.\<close>

theorem newest_version_compiled:
  assumes "runs worker_step worker_start es w" "sorted_wrt (\<ge>) (edits es)" "wk_place w = Debouncing msg" "\<not> occupied (wk_mailbox w)"
  shows "\<exists>w'. ilsp_ast_worker_main Returned w = Some w' \<and> wk_compiled w' = hd (edits es) # wk_compiled w \<and> wk_place w' = At_Dequeue"
proof -
  have "tracks (edits es) w" using runs_tracks [OF assms(1,2)] .
  then have "mm_version msg = hd (edits es)" using assms(3,4) by (simp add: tracks_def)
  then show ?thesis
    using assms(3,4) by (simp add: worker_main_eq ilsp_mailbox_dequeue_def worker_compile_def)
qed

theorem newest_version_compiled_witness:
  "\<exists>w w'. runs worker_step worker_start [Work Returned, Edit 3 None, Edit 2 None] w \<and>
    ilsp_ast_worker_main Returned w = Some w' \<and> wk_compiled w' = [3]"
proof -
  let ?w = "worker_start\<lparr>wk_mailbox := ilsp_mailbox_post_compile 3 None (ilsp_mailbox_post_compile 2 None ilsp_mailbox_create)\<rparr>"
  let ?m = "\<lparr>mm_kind = ILSP_MSG_COMPILE, mm_version = 3, mm_cancel_flag = None, mm_pull_request_id = None\<rparr>"
  let ?v = "worker_start\<lparr>wk_mailbox := ilsp_mailbox_post_compile 2 None (wk_mailbox worker_start)\<rparr>"
  have one: "runs worker_step worker_start [Edit 2 None] ?v" by (rule runs_single) (rule worker_step.edit)
  have "runs worker_step worker_start [Edit 3 None, Edit 2 None] (?v\<lparr>wk_mailbox := ilsp_mailbox_post_compile 3 None (wk_mailbox ?v)\<rparr>)"
    by (rule runs_step [OF one]) (rule worker_step.edit)
  then have "runs worker_step worker_start [Edit 3 None, Edit 2 None] ?w" by (simp add: worker_start_def)
  moreover obtain w where w: "ilsp_ast_worker_main Returned ?w = Some w" "wk_place w = Debouncing ?m" "\<not> occupied (wk_mailbox w)" "wk_compiled w = []"
    by (auto simp: worker_main_eq worker_start_def ilsp_mailbox_dequeue_def ilsp_mailbox_post_compile_def ilsp_mailbox_create_def worker_message_def)
  ultimately have r: "runs worker_step worker_start [Work Returned, Edit 3 None, Edit 2 None] w"
    by - (rule runs_step, assumption, rule worker_step.work)
  have "sorted_wrt (\<ge>) (edits [Work Returned, Edit 3 None, Edit 2 None])" by simp
  from newest_version_compiled [OF r this w(2,3)] show ?thesis using r w(4) by auto
qed

end
