(* ===== verification/Lir.thy ===== *)
theory Lir
  imports Prelude
begin

text \<open>
  The lowered intermediate representation (lir.h, lir.c) as the analyses over it read it: types,
  instructions with their payload, blocks with their edges, functions with their table of values, and the
  appending of an instruction, which keeps the table true. Below the data stands what an instruction does
  when the program runs: values and slots hold 64-bit words, arithmetic of the generic integer types wraps,
  and what the representation leaves open (the result of a call, a slot whose address the program holds)
  may be anything at any moment.
\<close>

section \<open>Types, instructions, blocks, functions\<close>

type_synonym vid = nat
type_synonym bid = nat

abbreviation (input) IRON_LIR_VALUE_INVALID :: vid where "IRON_LIR_VALUE_INVALID \<equiv> 0"
abbreviation (input) IRON_LIR_BLOCK_INVALID :: bid where "IRON_LIR_BLOCK_INVALID \<equiv> 0"

record object_decl =
  od_name :: "string option"
  od_fields :: "string option list"

text \<open>The types the analyses tell apart: the two generic integers, and objects with their declaration.\<close>

datatype iron_type =
    IRON_TYPE_INT
  | IRON_TYPE_UINT
  | IRON_TYPE_OBJECT "object_decl option"
  | IRON_TYPE_OTHER

datatype cmp_kind = IRON_LIR_EQ | IRON_LIR_NEQ | IRON_LIR_LT | IRON_LIR_LTE | IRON_LIR_GT | IRON_LIR_GTE

text \<open>The instructions, those the analyses never look into as one.\<close>

datatype lir_op =
    IRON_LIR_CONST_INT u64
  | IRON_LIR_ADD vid vid
  | IRON_LIR_SUB vid vid
  | IRON_LIR_MUL vid vid
  | IRON_LIR_CMP cmp_kind vid vid
  | IRON_LIR_ALLOCA (alloc_type: "iron_type option") (name_hint: "string option") (global_name: "string option")
  | IRON_LIR_LOAD vid
  | IRON_LIR_STORE vid vid
  | IRON_LIR_GET_FIELD vid "string option"
  | IRON_LIR_SET_FIELD vid "string option" vid
  | IRON_LIR_GET_INDEX vid
  | IRON_LIR_JUMP bid
  | IRON_LIR_BRANCH vid bid bid
  | IRON_LIR_SWITCH vid bid "bid list"
  | IRON_LIR_RETURN vid bool
  | IRON_LIR_CALL (func_decl: "string option") (func_ptr: vid) (args: "vid list") (self_by_addr: bool) (args_by_addr: "bool list")
  | IRON_LIR_CAST vid
  | IRON_LIR_CONSTRUCT "iron_type option" "vid list"
  | IRON_LIR_FUNC_REF "string option"
  | IRON_LIR_MAKE_CLOSURE "vid list"
  | IRON_LIR_SPAWN "vid list"
  | IRON_LIR_PARALLEL_FOR "vid list"
  | IRON_LIR_PHI (phi_values: "vid list") (phi_preds: "bid list")
  | IRON_LIR_ADDR_OF vid
  | IRON_LIR_PTR_LOAD vid
  | IRON_LIR_PTR_STORE vid vid
  | IRON_LIR_PTR_OFFSET vid
  | IRON_LIR_PTR_DIFF vid vid
  | IRON_LIR_OTHER

record lir_instr =
  i_id :: vid
  i_type :: "iron_type option"
  i_op :: lir_op

record lir_block =
  b_id :: bid
  b_label :: "string option"
  b_instrs :: "lir_instr list"
  b_preds :: "bid list"
  b_succs :: "bid list"

record lir_func =
  f_name :: "string option"
  f_is_extern :: bool
  f_blocks :: "lir_block list"
  f_next_value_id :: vid
  f_value_table :: "lir_instr option list"
  f_captures :: "string option list"

text \<open>The instructions of a function, block by block.\<close>

definition fn_instrs :: "lir_func \<Rightarrow> lir_instr list" where
  "fn_instrs fn = concat (map b_instrs (f_blocks fn))"

section \<open>Appending an instruction\<close>

text \<open>
  An instruction that produces a value takes the next identifier and its place in the table of values, which
  grows to hold it; any other instruction has the invalid identifier.
\<close>

definition alloc_instr :: "nat \<Rightarrow> lir_op \<Rightarrow> iron_type option \<Rightarrow> bool \<Rightarrow> lir_func \<Rightarrow> lir_func" where
  "alloc_instr bi op ty produces_value fn =
    (let id = (if produces_value then f_next_value_id fn else IRON_LIR_VALUE_INVALID);
         instr = \<lparr>i_id = id, i_type = ty, i_op = op\<rparr>;
         fn = (if produces_value then
                 let tab = f_value_table fn @ replicate (Suc id - length (f_value_table fn)) None
                 in fn\<lparr>f_next_value_id := Suc id, f_value_table := tab[id := Some instr]\<rparr>
               else fn);
         blk = f_blocks fn ! bi
     in fn\<lparr>f_blocks := (f_blocks fn)[bi := blk\<lparr>b_instrs := b_instrs blk @ [instr]\<rparr>]\<rparr>)"

text \<open>The instruction that produces a value, when there is one: a parameter has none.\<close>

definition lookup_value_instr :: "lir_func \<Rightarrow> vid \<Rightarrow> lir_instr option" where
  "lookup_value_instr fn v =
    (if v = IRON_LIR_VALUE_INVALID \<or> length (f_value_table fn) \<le> v then None else f_value_table fn ! v)"

text \<open>
  The table is true: every instruction with an identifier stands in the table under it, and the table holds
  nothing at or above the next identifier.
\<close>

definition values_ok :: "lir_func \<Rightarrow> bool" where
  "values_ok fn \<longleftrightarrow> 0 < f_next_value_id fn \<and> length (f_value_table fn) \<le> f_next_value_id fn \<and>
    list_all (\<lambda>i. i_id i \<noteq> 0 \<longrightarrow> lookup_value_instr fn (i_id i) = Some i) (fn_instrs fn)"

lemma fn_instrs_append:
  assumes "bi < length (f_blocks fn)"
  shows "set (fn_instrs (fn\<lparr>f_blocks := (f_blocks fn)[bi := (f_blocks fn ! bi)\<lparr>b_instrs := b_instrs (f_blocks fn ! bi) @ [i]\<rparr>]\<rparr>)) =
    insert i (set (fn_instrs fn))"
proof -
  have "f_blocks fn = take bi (f_blocks fn) @ f_blocks fn ! bi # drop (Suc bi) (f_blocks fn)"
    using assms by (rule id_take_nth_drop)
  then have "fn_instrs fn = concat (map b_instrs (take bi (f_blocks fn))) @ b_instrs (f_blocks fn ! bi) @ concat (map b_instrs (drop (Suc bi) (f_blocks fn)))"
    unfolding fn_instrs_def by (metis concat.simps(2) concat_append list.simps(9) map_append)
  then show ?thesis
    using assms by (auto simp: fn_instrs_def upd_conv_take_nth_drop)
qed

theorem alloc_instr_values_ok:
  assumes "values_ok fn" "bi < length (f_blocks fn)"
  shows "values_ok (alloc_instr bi op ty produces_value fn)"
proof (cases produces_value)
  case False
  then show ?thesis
    using assms fn_instrs_append [OF assms(2), of "\<lparr>i_id = 0, i_type = ty, i_op = op\<rparr>"]
    by (auto simp: alloc_instr_def values_ok_def list_all_iff lookup_value_instr_def Let_def)
next
  case True
  let ?id = "f_next_value_id fn"
  let ?i = "\<lparr>i_id = ?id, i_type = ty, i_op = op\<rparr>"
  let ?tab = "(f_value_table fn @ replicate (Suc ?id - length (f_value_table fn)) None)[?id := Some ?i]"
  have old: "i_id j < length (f_value_table fn)" if "j \<in> set (fn_instrs fn)" "i_id j \<noteq> 0" for j
    using that assms(1) by (fastforce simp: values_ok_def list_all_iff lookup_value_instr_def split: if_splits)
  have "set (fn_instrs (alloc_instr bi op ty produces_value fn)) = insert ?i (set (fn_instrs fn))"
    using True fn_instrs_append [of bi "fn\<lparr>f_next_value_id := Suc ?id, f_value_table := ?tab\<rparr>" ?i] assms(2)
    by (simp add: alloc_instr_def Let_def) (simp add: fn_instrs_def)
  moreover have "length ?tab = Suc ?id" "f_value_table (alloc_instr bi op ty produces_value fn) = ?tab"
    using assms(1) True by (auto simp: values_ok_def alloc_instr_def Let_def)
  ultimately show ?thesis
    using assms old True
    by (fastforce simp: values_ok_def list_all_iff lookup_value_instr_def alloc_instr_def Let_def nth_append nth_list_update)
qed

section \<open>What the instructions do\<close>

definition local_is_generic_integer :: "iron_type option \<Rightarrow> bool" where
  "local_is_generic_integer ty \<longleftrightarrow> ty = Some IRON_TYPE_INT \<or> ty = Some IRON_TYPE_UINT"

text \<open>The identifier of an alloca names a slot; reading it reads the slot.\<close>

definition is_slot :: "lir_func \<Rightarrow> vid \<Rightarrow> bool" where
  "is_slot fn v \<longleftrightarrow> (case lookup_value_instr fn v of Some i \<Rightarrow> is_IRON_LIR_ALLOCA (i_op i) | None \<Rightarrow> False)"

text \<open>The slot the address of a value is an address of: loads, casts, fields and elements lead back to it.\<close>

fun storage_parent :: "lir_op \<Rightarrow> vid option" where
  "storage_parent (IRON_LIR_LOAD p) = Some p"
| "storage_parent (IRON_LIR_CAST v) = Some v"
| "storage_parent (IRON_LIR_GET_FIELD ob fld) = Some ob"
| "storage_parent (IRON_LIR_GET_INDEX arr) = Some arr"
| "storage_parent _ = None"

inductive storage_path :: "lir_func \<Rightarrow> vid \<Rightarrow> vid \<Rightarrow> bool" for fn where
  sp_here: "storage_path fn v v"
| sp_back: "lookup_value_instr fn v = Some d \<Longrightarrow> storage_parent (i_op d) = Some u \<Longrightarrow> storage_path fn u a \<Longrightarrow> storage_path fn v a"

text \<open>The values whose storage an instruction hands out.\<close>

fun hands_out :: "lir_func \<Rightarrow> lir_op \<Rightarrow> vid set" where
  "hands_out fn (IRON_LIR_ADDR_OF t) = {a. storage_path fn t a}"
| "hands_out fn (IRON_LIR_CALL fd fp as self by_addr) =
    {a. self \<and> as \<noteq> [] \<and> a = hd as} \<union> {as ! k | k. k < length as \<and> k < length by_addr \<and> by_addr ! k}"
| "hands_out fn (IRON_LIR_MAKE_CLOSURE cs) = set cs"
| "hands_out fn (IRON_LIR_SPAWN cs) = set cs"
| "hands_out fn (IRON_LIR_PARALLEL_FOR cs) = set cs"
| "hands_out fn _ = {}"

definition local_alloca_is_capture_alias :: "lir_func \<Rightarrow> lir_op \<Rightarrow> bool" where
  "local_alloca_is_capture_alias fn op \<longleftrightarrow>
    (case name_hint op of None \<Rightarrow> False | Some n \<Rightarrow> list_ex (\<lambda>c. c = Some n) (f_captures fn))"

text \<open>
  Storage that may change at any moment: what the function hands out, the slots of module-level bindings and
  of captured variables, and slots that do not hold a generic integer, which the words here do not describe.
\<close>

definition unstable :: "lir_func \<Rightarrow> vid \<Rightarrow> bool" where
  "unstable fn v \<longleftrightarrow> (\<exists>i\<in>set (fn_instrs fn). v \<in> hands_out fn (i_op i)) \<or>
    (\<exists>i. lookup_value_instr fn v = Some i \<and> is_IRON_LIR_ALLOCA (i_op i) \<and>
      (\<not> local_is_generic_integer (alloc_type (i_op i)) \<or> global_name (i_op i) \<noteq> None \<or> local_alloca_is_capture_alias fn (i_op i)))"

record lir_state =
  ls_block :: nat
  ls_pc :: nat
  ls_prev :: bid
  ls_vals :: "vid \<Rightarrow> u64 option"
  ls_slots :: "vid \<Rightarrow> u64 option"

definition read_value :: "lir_func \<Rightarrow> lir_state \<Rightarrow> vid \<Rightarrow> u64 option" where
  "read_value fn s v = (if is_slot fn v then ls_slots s v else ls_vals s v)"

definition value_type :: "lir_func \<Rightarrow> vid \<Rightarrow> iron_type option" where
  "value_type fn v = (case lookup_value_instr fn v of None \<Rightarrow> None
    | Some i \<Rightarrow> if is_IRON_LIR_ALLOCA (i_op i) then alloc_type (i_op i) else i_type i)"

text \<open>Comparison of two words: unsigned for the unsigned type, signed otherwise.\<close>

fun cmp_holds :: "bool \<Rightarrow> cmp_kind \<Rightarrow> u64 \<Rightarrow> u64 \<Rightarrow> bool" where
  "cmp_holds uns IRON_LIR_EQ a b \<longleftrightarrow> a = b"
| "cmp_holds uns IRON_LIR_NEQ a b \<longleftrightarrow> a \<noteq> b"
| "cmp_holds uns IRON_LIR_LT a b \<longleftrightarrow> (if uns then a < b else sint a < sint b)"
| "cmp_holds uns IRON_LIR_LTE a b \<longleftrightarrow> (if uns then a \<le> b else sint a \<le> sint b)"
| "cmp_holds uns IRON_LIR_GT a b \<longleftrightarrow> (if uns then b < a else sint b < sint a)"
| "cmp_holds uns IRON_LIR_GTE a b \<longleftrightarrow> (if uns then b \<le> a else sint b \<le> sint a)"

fun arith_op :: "lir_op \<Rightarrow> (vid \<times> (u64 \<Rightarrow> u64 \<Rightarrow> u64) \<times> vid) option" where
  "arith_op (IRON_LIR_ADD l r) = Some (l, (+), r)"
| "arith_op (IRON_LIR_SUB l r) = Some (l, (-), r)"
| "arith_op (IRON_LIR_MUL l r) = Some (l, (*), r)"
| "arith_op _ = None"

text \<open>
  The word an instruction computes. A constant, a sum, a difference, a product and a join of a generic
  integer type compute what they say; a comparison compares when its operands are generic integers of one
  type; a load of a slot reads it. Whatever else produces a value may produce any word.
\<close>

inductive computes :: "lir_func \<Rightarrow> lir_state \<Rightarrow> lir_instr \<Rightarrow> u64 \<Rightarrow> bool" for fn s where
  const: "i_op i = IRON_LIR_CONST_INT c \<Longrightarrow> local_is_generic_integer (i_type i) \<Longrightarrow> computes fn s i c"
| arith: "arith_op (i_op i) = Some (l, f, r) \<Longrightarrow> local_is_generic_integer (i_type i) \<Longrightarrow>
    read_value fn s l = Some a \<Longrightarrow> read_value fn s r = Some b \<Longrightarrow> computes fn s i (f a b)"
| compare: "i_op i = IRON_LIR_CMP k l r \<Longrightarrow> value_type fn l = value_type fn r \<Longrightarrow> local_is_generic_integer (value_type fn l) \<Longrightarrow>
    read_value fn s l = Some a \<Longrightarrow> read_value fn s r = Some b \<Longrightarrow>
    computes fn s i (if cmp_holds (value_type fn l = Some IRON_TYPE_UINT) k a b then 1 else 0)"
| phi: "i_op i = IRON_LIR_PHI vs ps \<Longrightarrow> local_is_generic_integer (i_type i) \<Longrightarrow> k < length vs \<Longrightarrow> k < length ps \<Longrightarrow>
    ps ! k = ls_prev s \<Longrightarrow> read_value fn s (vs ! k) = Some w \<Longrightarrow> computes fn s i w"
| load: "i_op i = IRON_LIR_LOAD p \<Longrightarrow> is_slot fn p \<Longrightarrow> ls_slots s p = Some w \<Longrightarrow> computes fn s i w"
| load_any: "i_op i = IRON_LIR_LOAD p \<Longrightarrow> \<not> is_slot fn p \<Longrightarrow> computes fn s i w"
| compare_any: "i_op i = IRON_LIR_CMP k l r \<Longrightarrow>
    \<not> (value_type fn l = value_type fn r \<and> local_is_generic_integer (value_type fn l)) \<Longrightarrow> computes fn s i w"
| other_type: "is_IRON_LIR_CONST_INT (i_op i) \<or> arith_op (i_op i) \<noteq> None \<or> is_IRON_LIR_PHI (i_op i) \<Longrightarrow>
    \<not> local_is_generic_integer (i_type i) \<Longrightarrow> computes fn s i w"
| opaque: "\<not> (is_IRON_LIR_CONST_INT (i_op i) \<or> arith_op (i_op i) \<noteq> None \<or> is_IRON_LIR_CMP (i_op i) \<or>
    is_IRON_LIR_PHI (i_op i) \<or> is_IRON_LIR_LOAD (i_op i) \<or> is_IRON_LIR_ALLOCA (i_op i)) \<Longrightarrow> computes fn s i w"

lemma computes_arith:
  assumes "arith_op (i_op i) = Some (l, f, r)" "local_is_generic_integer (i_type i)"
  shows "computes fn s i x \<longleftrightarrow> (\<exists>a b. read_value fn s l = Some a \<and> read_value fn s r = Some b \<and> x = f a b)"
proof
  show "computes fn s i x \<Longrightarrow> \<exists>a b. read_value fn s l = Some a \<and> read_value fn s r = Some b \<and> x = f a b"
    by (erule computes.cases) (use assms in auto)
qed (use assms computes.arith in blast)

lemma computes_compare:
  assumes "i_op i = IRON_LIR_CMP k l r" "value_type fn l = value_type fn r" "local_is_generic_integer (value_type fn l)"
  shows "computes fn s i x \<longleftrightarrow> (\<exists>a b. read_value fn s l = Some a \<and> read_value fn s r = Some b \<and>
    x = (if cmp_holds (value_type fn l = Some IRON_TYPE_UINT) k a b then 1 else 0))"
proof
  show "computes fn s i x \<Longrightarrow> \<exists>a b. read_value fn s l = Some a \<and> read_value fn s r = Some b \<and>
    x = (if cmp_holds (value_type fn l = Some IRON_TYPE_UINT) k a b then 1 else 0)"
    by (erule computes.cases) (use assms in auto)
qed (use assms computes.compare in blast)

lemma computes_const: "i_op i = IRON_LIR_CONST_INT c \<Longrightarrow> local_is_generic_integer (i_type i) \<Longrightarrow> computes fn s i x \<Longrightarrow> x = c"
  by (erule computes.cases) auto

lemma computes_load: "i_op i = IRON_LIR_LOAD p \<Longrightarrow> is_slot fn p \<Longrightarrow> computes fn s i x \<Longrightarrow> ls_slots s p = Some x"
  by (erule computes.cases) auto

text \<open>The effect of an instruction that is not a terminator.\<close>

inductive executes :: "lir_func \<Rightarrow> lir_state \<Rightarrow> lir_instr \<Rightarrow> lir_state \<Rightarrow> bool" for fn s where
  ex_alloca: "is_IRON_LIR_ALLOCA (i_op i) \<Longrightarrow> executes fn s i s"
| ex_store: "i_op i = IRON_LIR_STORE p v \<Longrightarrow> is_slot fn p \<Longrightarrow> read_value fn s v = Some w \<Longrightarrow>
    executes fn s i (s\<lparr>ls_slots := (ls_slots s)(p := Some w)\<rparr>)"
| ex_store_any: "i_op i = IRON_LIR_STORE p v \<Longrightarrow> \<not> is_slot fn p \<Longrightarrow> executes fn s i s"
| ex_value: "\<not> is_IRON_LIR_ALLOCA (i_op i) \<Longrightarrow> \<not> is_IRON_LIR_STORE (i_op i) \<Longrightarrow> i_id i \<noteq> 0 \<Longrightarrow> computes fn s i w \<Longrightarrow>
    executes fn s i (s\<lparr>ls_vals := (ls_vals s)(i_id i := Some w)\<rparr>)"
| ex_effect: "\<not> is_IRON_LIR_ALLOCA (i_op i) \<Longrightarrow> \<not> is_IRON_LIR_STORE (i_op i) \<Longrightarrow> i_id i = 0 \<Longrightarrow> executes fn s i s"

definition local_block_index :: "lir_func \<Rightarrow> bid \<Rightarrow> nat option" where
  "local_block_index fn b = List.find (\<lambda>k. b_id (f_blocks fn ! k) = b) [0..<length (f_blocks fn)]"

definition is_terminator :: "lir_op \<Rightarrow> bool" where
  "is_terminator op \<longleftrightarrow> is_IRON_LIR_JUMP op \<or> is_IRON_LIR_BRANCH op \<or> is_IRON_LIR_SWITCH op \<or> is_IRON_LIR_RETURN op"

text \<open>The block a terminator goes to.\<close>

inductive goes_to :: "lir_func \<Rightarrow> lir_state \<Rightarrow> lir_op \<Rightarrow> bid \<Rightarrow> bool" for fn s where
  "goes_to fn s (IRON_LIR_JUMP t) t"
| "read_value fn s c = Some w \<Longrightarrow> goes_to fn s (IRON_LIR_BRANCH c t e) (if w \<noteq> 0 then t else e)"
| "t = d \<or> t \<in> set cs \<Longrightarrow> goes_to fn s (IRON_LIR_SWITCH v d cs) t"

text \<open>The instruction a state is about to execute.\<close>

definition current :: "lir_func \<Rightarrow> lir_state \<Rightarrow> lir_instr option" where
  "current fn s = (if ls_block s < length (f_blocks fn) \<and> ls_pc s < length (b_instrs (f_blocks fn ! ls_block s))
    then Some (b_instrs (f_blocks fn ! ls_block s) ! ls_pc s) else None)"

text \<open>Unstable storage changes by itself.\<close>

definition disturbed :: "lir_func \<Rightarrow> lir_state \<Rightarrow> lir_state \<Rightarrow> bool" where
  "disturbed fn s t \<longleftrightarrow> ls_block t = ls_block s \<and> ls_pc t = ls_pc s \<and> ls_prev t = ls_prev s \<and>
    (\<forall>v. \<not> unstable fn v \<longrightarrow> ls_vals t v = ls_vals s v \<and> ls_slots t v = ls_slots s v)"

inductive lir_step :: "lir_func \<Rightarrow> lir_state \<Rightarrow> lir_state \<Rightarrow> bool" for fn where
  step_instr: "current fn s = Some i \<Longrightarrow> \<not> is_terminator (i_op i) \<Longrightarrow> executes fn s i s1 \<Longrightarrow>
    disturbed fn (s1\<lparr>ls_pc := Suc (ls_pc s)\<rparr>) t \<Longrightarrow> lir_step fn s t"
| step_goto: "current fn s = Some i \<Longrightarrow> goes_to fn s (i_op i) b \<Longrightarrow> local_block_index fn b = Some j \<Longrightarrow>
    disturbed fn (s\<lparr>ls_block := j, ls_pc := 0, ls_prev := b_id (f_blocks fn ! ls_block s)\<rparr>) t \<Longrightarrow> lir_step fn s t"

text \<open>A call starts at the first block with its parameters, no value computed and no local slot written.\<close>

definition lir_initial :: "lir_func \<Rightarrow> lir_state \<Rightarrow> bool" where
  "lir_initial fn s \<longleftrightarrow> ls_block s = 0 \<and> ls_pc s = 0 \<and> ls_prev s = IRON_LIR_BLOCK_INVALID \<and>
    (\<forall>v. ls_vals s v \<noteq> None \<longrightarrow> lookup_value_instr fn v = None \<or> unstable fn v) \<and>
    (\<forall>v. ls_slots s v \<noteq> None \<longrightarrow> unstable fn v)"

inductive lir_reachable :: "lir_func \<Rightarrow> lir_state \<Rightarrow> bool" for fn where
  reach_start: "lir_initial fn s \<Longrightarrow> lir_reachable fn s"
| reach_step: "lir_reachable fn s \<Longrightarrow> lir_step fn s t \<Longrightarrow> lir_reachable fn t"

section \<open>Running a function\<close>

text \<open>
  One run among those the relation allows: what the representation leaves open is asked of a function, and no
  storage is disturbed.
\<close>

definition exec_value :: "lir_func \<Rightarrow> (vid \<Rightarrow> u64) \<Rightarrow> lir_state \<Rightarrow> lir_instr \<Rightarrow> u64 option" where
  "exec_value fn ask s i =
    (case i_op i of
       IRON_LIR_CONST_INT c \<Rightarrow> Some (if local_is_generic_integer (i_type i) then c else ask (i_id i))
     | IRON_LIR_CMP k l r \<Rightarrow>
         if value_type fn l = value_type fn r \<and> local_is_generic_integer (value_type fn l) then
           case (read_value fn s l, read_value fn s r) of
             (Some a, Some b) \<Rightarrow> Some (if cmp_holds (value_type fn l = Some IRON_TYPE_UINT) k a b then 1 else 0)
           | _ \<Rightarrow> None
         else Some (ask (i_id i))
     | IRON_LIR_LOAD p \<Rightarrow> if is_slot fn p then ls_slots s p else Some (ask (i_id i))
     | IRON_LIR_PHI vs ps \<Rightarrow>
         if local_is_generic_integer (i_type i) then
           case map_of (zip ps vs) (ls_prev s) of None \<Rightarrow> None | Some v \<Rightarrow> read_value fn s v
         else Some (ask (i_id i))
     | op \<Rightarrow> (case arith_op op of
         Some (l, f, r) \<Rightarrow>
           if local_is_generic_integer (i_type i) then
             case (read_value fn s l, read_value fn s r) of (Some a, Some b) \<Rightarrow> Some (f a b) | _ \<Rightarrow> None
           else Some (ask (i_id i))
       | None \<Rightarrow> Some (ask (i_id i))))"

definition exec_goto :: "lir_func \<Rightarrow> lir_state \<Rightarrow> bid \<Rightarrow> lir_state" where
  "exec_goto fn s b = (case local_block_index fn b of
      None \<Rightarrow> s
    | Some j \<Rightarrow> s\<lparr>ls_block := j, ls_pc := 0, ls_prev := b_id (f_blocks fn ! ls_block s)\<rparr>)"

definition exec_step :: "lir_func \<Rightarrow> (vid \<Rightarrow> u64) \<Rightarrow> lir_state \<Rightarrow> lir_state" where
  "exec_step fn ask s =
    (case current fn s of
       None \<Rightarrow> s
     | Some i \<Rightarrow> (case i_op i of
         IRON_LIR_JUMP t \<Rightarrow> exec_goto fn s t
       | IRON_LIR_BRANCH c t e \<Rightarrow> (case read_value fn s c of None \<Rightarrow> s | Some w \<Rightarrow> exec_goto fn s (if w \<noteq> 0 then t else e))
       | IRON_LIR_SWITCH v d cs \<Rightarrow> exec_goto fn s d
       | IRON_LIR_RETURN v void \<Rightarrow> s
       | IRON_LIR_ALLOCA ty nm gl \<Rightarrow> s\<lparr>ls_pc := Suc (ls_pc s)\<rparr>
       | IRON_LIR_STORE p v \<Rightarrow>
           if is_slot fn p then
             case read_value fn s v of None \<Rightarrow> s | Some w \<Rightarrow> s\<lparr>ls_slots := (ls_slots s)(p := Some w), ls_pc := Suc (ls_pc s)\<rparr>
           else s\<lparr>ls_pc := Suc (ls_pc s)\<rparr>
       | _ \<Rightarrow>
           if i_id i = 0 then s\<lparr>ls_pc := Suc (ls_pc s)\<rparr>
           else case exec_value fn ask s i of
             None \<Rightarrow> s
           | Some w \<Rightarrow> s\<lparr>ls_vals := (ls_vals s)(i_id i := Some w), ls_pc := Suc (ls_pc s)\<rparr>))"

lemma exec_value_computes:
  assumes "exec_value fn ask s i = Some w" "\<not> is_IRON_LIR_ALLOCA (i_op i)"
  shows "computes fn s i w"
proof (cases "i_op i")
  case (IRON_LIR_CONST_INT c)
  then show ?thesis using assms(1) by (auto simp: exec_value_def computes.const computes.other_type)
next
  case (IRON_LIR_CMP k l r)
  then show ?thesis
    using assms(1) by (auto simp: exec_value_def computes_compare computes.compare_any split: if_splits option.splits)
next
  case (IRON_LIR_LOAD p)
  then show ?thesis using assms(1) by (auto simp: exec_value_def computes.load computes.load_any split: if_splits)
next
  case (IRON_LIR_PHI vs ps)
  show ?thesis
  proof (cases "local_is_generic_integer (i_type i)")
    case True
    then obtain v where v: "map_of (zip ps vs) (ls_prev s) = Some v" "read_value fn s v = Some w"
      using assms(1) IRON_LIR_PHI by (auto simp: exec_value_def split: option.splits)
    then have "(ls_prev s, v) \<in> set (zip ps vs)" by (blast dest: map_of_SomeD)
    then obtain k where "k < length ps" "k < length vs" "ps ! k = ls_prev s" "vs ! k = v" by (auto simp: in_set_zip)
    then show ?thesis using computes.phi [OF IRON_LIR_PHI True, of k] v(2) by simp
  qed (use assms(1) IRON_LIR_PHI in \<open>auto simp: exec_value_def computes.other_type\<close>)
next
  case (IRON_LIR_ADD l r)
  then show ?thesis
    using assms(1) computes.other_type [of i fn s w]
    by (cases "local_is_generic_integer (i_type i)") (auto simp: exec_value_def computes_arith [of i l "(+)" r] split: option.splits)
next
  case (IRON_LIR_SUB l r)
  then show ?thesis
    using assms(1) computes.other_type [of i fn s w]
    by (cases "local_is_generic_integer (i_type i)") (auto simp: exec_value_def computes_arith [of i l "(-)" r] split: option.splits)
next
  case (IRON_LIR_MUL l r)
  then show ?thesis
    using assms(1) computes.other_type [of i fn s w]
    by (cases "local_is_generic_integer (i_type i)") (auto simp: exec_value_def computes_arith [of i l "(*)" r] split: option.splits)
qed (use assms(2) in \<open>simp_all add: computes.opaque\<close>)

lemma disturbed_refl [simp]: "disturbed fn s s"
  by (simp add: disturbed_def)

lemma exec_goto_step:
  assumes "current fn s = Some i" "goes_to fn s (i_op i) b"
  shows "exec_goto fn s b = s \<or> lir_step fn s (exec_goto fn s b)"
  using step_goto [OF assms] by (auto simp: exec_goto_def split: option.splits)

lemma exec_step_step: "exec_step fn ask s = s \<or> lir_step fn s (exec_step fn ask s)"
proof (cases "current fn s")
  case (Some i)
  note go = exec_goto_step [OF Some]
  have instr: "lir_step fn s (s1\<lparr>ls_pc := Suc (ls_pc s)\<rparr>)" if "executes fn s i s1" "\<not> is_terminator (i_op i)" for s1
    using step_instr [OF Some that(2,1) disturbed_refl] .
  have val: "exec_step fn ask s = s \<or> lir_step fn s (exec_step fn ask s)"
    if "exec_step fn ask s = (if i_id i = 0 then s\<lparr>ls_pc := Suc (ls_pc s)\<rparr> else case exec_value fn ask s i of None \<Rightarrow> s
      | Some w \<Rightarrow> s\<lparr>ls_vals := (ls_vals s)(i_id i := Some w), ls_pc := Suc (ls_pc s)\<rparr>)"
      "\<not> is_IRON_LIR_ALLOCA (i_op i)" "\<not> is_IRON_LIR_STORE (i_op i)" "\<not> is_terminator (i_op i)"
  proof (cases "i_id i = 0 \<or> exec_value fn ask s i = None")
    case True
    then show ?thesis using that instr [OF ex_effect [OF that(2,3)] that(4)] by (auto split: if_splits)
  next
    case False
    then obtain w where w: "exec_value fn ask s i = Some w" "i_id i \<noteq> 0" by auto
    then show ?thesis using that(1) instr [OF ex_value [OF that(2,3) w(2) exec_value_computes [OF w(1) that(2)]] that(4)] by simp
  qed
  show ?thesis
  proof (cases "i_op i")
    case (IRON_LIR_JUMP t)
    then show ?thesis using go [of t] Some by (simp add: exec_step_def goes_to.intros)
  next
    case (IRON_LIR_BRANCH c t e)
    have "exec_goto fn s (if w \<noteq> 0 then t else e) = s \<or> lir_step fn s (exec_goto fn s (if w \<noteq> 0 then t else e))"
      if "read_value fn s c = Some w" for w
      using go goes_to.intros(2) [OF that] IRON_LIR_BRANCH by metis
    then show ?thesis using Some IRON_LIR_BRANCH by (cases "read_value fn s c") (simp_all add: exec_step_def)
  next
    case (IRON_LIR_SWITCH v d cs)
    then show ?thesis using go [of d] Some by (simp add: exec_step_def goes_to.intros)
  next
    case (IRON_LIR_RETURN v void)
    then show ?thesis using Some by (simp add: exec_step_def)
  next
    case (IRON_LIR_ALLOCA ty nm gl)
    then show ?thesis using instr [OF ex_alloca] Some by (simp add: exec_step_def is_terminator_def)
  next
    case (IRON_LIR_STORE p v)
    then show ?thesis
      using instr [OF ex_store [OF IRON_LIR_STORE]] instr [OF ex_store_any [OF IRON_LIR_STORE]] Some
      by (cases "is_slot fn p"; cases "read_value fn s v") (simp_all add: exec_step_def is_terminator_def)
  qed (rule val; simp add: exec_step_def Some is_terminator_def)+
qed (simp add: exec_step_def)

fun exec_steps :: "lir_func \<Rightarrow> (vid \<Rightarrow> u64) \<Rightarrow> nat \<Rightarrow> lir_state \<Rightarrow> lir_state" where
  "exec_steps fn ask 0 s = s"
| "exec_steps fn ask (Suc n) s = exec_steps fn ask n (exec_step fn ask s)"

definition lir_start :: lir_state where
  "lir_start = \<lparr>ls_block = 0, ls_pc = 0, ls_prev = IRON_LIR_BLOCK_INVALID, ls_vals = (\<lambda>_. None), ls_slots = (\<lambda>_. None)\<rparr>"

lemma exec_reachable: "lir_reachable fn (exec_steps fn ask n lir_start)"
proof -
  have "lir_reachable fn s \<Longrightarrow> lir_reachable fn (exec_steps fn ask n s)" for s
  proof (induction n arbitrary: s)
    case (Suc n)
    then show ?case using exec_step_step [of fn ask s] reach_step by (metis exec_steps.simps(2))
  qed simp
  moreover have "lir_reachable fn lir_start" by (rule reach_start) (simp add: lir_initial_def lir_start_def)
  ultimately show ?thesis by blast
qed

end
