(* ===== verification/Value_Range.thy ===== *)
theory Value_Range
  imports Lir
begin

text \<open>
  The ranges of value\_range.c: an interval of 64-bit integers or the unknown range, the interval arithmetic
  that gives up where a bound would overflow, the narrowing of a range by a comparison with a constant, and
  the choice of the smallest C type that holds a range.
\<close>

section \<open>Ranges\<close>

record value_range =
  vr_min :: int
  vr_max :: int
  is_top :: bool

abbreviation (input) INT8_MIN :: int where "INT8_MIN \<equiv> - 128"
abbreviation (input) INT8_MAX :: int where "INT8_MAX \<equiv> 127"
abbreviation (input) INT16_MIN :: int where "INT16_MIN \<equiv> - 32768"
abbreviation (input) INT16_MAX :: int where "INT16_MAX \<equiv> 32767"
abbreviation (input) INT32_MIN :: int where "INT32_MIN \<equiv> - 2147483648"
abbreviation (input) INT32_MAX :: int where "INT32_MAX \<equiv> 2147483647"
abbreviation (input) UINT8_MAX :: int where "UINT8_MAX \<equiv> 255"
abbreviation (input) UINT16_MAX :: int where "UINT16_MAX \<equiv> 65535"
abbreviation (input) UINT32_MAX :: int where "UINT32_MAX \<equiv> 4294967295"
abbreviation (input) INT64_MIN :: int where "INT64_MIN \<equiv> - 9223372036854775808"
abbreviation (input) INT64_MAX :: int where "INT64_MAX \<equiv> 9223372036854775807"

definition RANGE_TOP :: value_range where
  "RANGE_TOP = \<lparr>vr_min = 0, vr_max = 0, is_top = True\<rparr>"

definition range_const :: "int \<Rightarrow> value_range" where
  "range_const val = \<lparr>vr_min = val, vr_max = val, is_top = False\<rparr>"

definition range_of :: "int \<Rightarrow> int \<Rightarrow> value_range" where
  "range_of lo hi = \<lparr>vr_min = lo, vr_max = hi, is_top = False\<rparr>"

text \<open>The overflow-checked arithmetic of the compiler: no result when it does not fit 64 bits.\<close>

definition i64 :: "int \<Rightarrow> bool" where
  "i64 x \<longleftrightarrow> INT64_MIN \<le> x \<and> x \<le> INT64_MAX"

definition checked :: "int \<Rightarrow> int option" where
  "checked x = (if i64 x then Some x else None)"

definition select_narrowed_type :: "int \<Rightarrow> int \<Rightarrow> string option" where
  "select_narrowed_type mn mx =
    (if 0 \<le> mn then
       if mx \<le> UINT8_MAX then Some ''uint8_t''
       else if mx \<le> UINT16_MAX then Some ''uint16_t''
       else if mx \<le> UINT32_MAX then Some ''uint32_t''
       else None
     else if INT8_MIN \<le> mn \<and> mx \<le> INT8_MAX then Some ''int8_t''
     else if INT16_MIN \<le> mn \<and> mx \<le> INT16_MAX then Some ''int16_t''
     else if INT32_MIN \<le> mn \<and> mx \<le> INT32_MAX then Some ''int32_t''
     else None)"

definition select_local_narrowed_type :: "iron_type option \<Rightarrow> value_range \<Rightarrow> string option" where
  "select_local_narrowed_type kind r =
    (if is_top r then None
     else if kind = Some IRON_TYPE_UINT then
       if vr_min r < 0 then None
       else if vr_max r mod 2 ^ 64 \<le> UINT8_MAX then Some ''uint8_t''
       else if vr_max r mod 2 ^ 64 \<le> UINT16_MAX then Some ''uint16_t''
       else if vr_max r mod 2 ^ 64 \<le> UINT32_MAX then Some ''uint32_t''
       else None
     else if kind = Some IRON_TYPE_INT then
       if INT8_MIN \<le> vr_min r \<and> vr_max r \<le> INT8_MAX then Some ''int8_t''
       else if INT16_MIN \<le> vr_min r \<and> vr_max r \<le> INT16_MAX then Some ''int16_t''
       else if INT32_MIN \<le> vr_min r \<and> vr_max r \<le> INT32_MAX then Some ''int32_t''
       else None
     else None)"

definition range_union :: "value_range \<Rightarrow> value_range \<Rightarrow> value_range" where
  "range_union a b =
    (if is_top a \<or> is_top b then RANGE_TOP
     else range_of (if vr_min a < vr_min b then vr_min a else vr_min b) (if vr_max a > vr_max b then vr_max a else vr_max b))"

definition range_intersect :: "value_range \<Rightarrow> value_range \<Rightarrow> value_range" where
  "range_intersect a b =
    (if is_top a then b
     else if is_top b then a
     else let lo = (if vr_min a > vr_min b then vr_min a else vr_min b);
              hi = (if vr_max a < vr_max b then vr_max a else vr_max b)
          in if lo > hi then RANGE_TOP else range_of lo hi)"

definition range_add :: "value_range \<Rightarrow> value_range \<Rightarrow> value_range" where
  "range_add a b =
    (if is_top a \<or> is_top b then RANGE_TOP
     else case (checked (vr_min a + vr_min b), checked (vr_max a + vr_max b)) of
       (Some lo, Some hi) \<Rightarrow> range_of lo hi
     | _ \<Rightarrow> RANGE_TOP)"

definition range_sub :: "value_range \<Rightarrow> value_range \<Rightarrow> value_range" where
  "range_sub a b =
    (if is_top a \<or> is_top b then RANGE_TOP
     else case (checked (vr_min a - vr_max b), checked (vr_max a - vr_min b)) of
       (Some lo, Some hi) \<Rightarrow> range_of lo hi
     | _ \<Rightarrow> RANGE_TOP)"

text \<open>The least and the greatest of the four products.\<close>

definition range_mul :: "value_range \<Rightarrow> value_range \<Rightarrow> value_range" where
  "range_mul a b =
    (if is_top a \<or> is_top b then RANGE_TOP
     else case (checked (vr_min a * vr_min b), checked (vr_min a * vr_max b), checked (vr_max a * vr_min b), checked (vr_max a * vr_max b)) of
       (Some p0, Some p1, Some p2, Some p3) \<Rightarrow>
         range_of (foldl (\<lambda>lo p. if p < lo then p else lo) p0 [p1, p2, p3]) (foldl (\<lambda>hi p. if p > hi then p else hi) p0 [p1, p2, p3])
     | _ \<Rightarrow> RANGE_TOP)"

text \<open>
  The ranges of a variable in the two targets of a branch on \<^theory_text>\<open>var cmp const\<close>, from the range
  known before it; an empty range is unknown.
\<close>

definition narrow_from_comparison :: "cmp_kind \<Rightarrow> value_range \<Rightarrow> int \<Rightarrow> value_range \<times> value_range" where
  "narrow_from_comparison k r c =
    (let e = (if is_top r then range_of INT64_MIN INT64_MAX else r);
         mn = vr_min e; mx = vr_max e;
         cm1 = (if c = INT64_MIN then INT64_MIN else c - 1);
         cp1 = (if c = INT64_MAX then INT64_MAX else c + 1);
         (t, f) = (case k of
             IRON_LIR_LT \<Rightarrow> (range_of mn (if cm1 < mx then cm1 else mx), range_of (if c > mn then c else mn) mx)
           | IRON_LIR_LTE \<Rightarrow> (range_of mn (if c < mx then c else mx), range_of (if cp1 > mn then cp1 else mn) mx)
           | IRON_LIR_GT \<Rightarrow> (range_of (if cp1 > mn then cp1 else mn) mx, range_of mn (if c < mx then c else mx))
           | IRON_LIR_GTE \<Rightarrow> (range_of (if c > mn then c else mn) mx, range_of mn (if cm1 < mx then cm1 else mx))
           | IRON_LIR_EQ \<Rightarrow> (range_const c, e)
           | IRON_LIR_NEQ \<Rightarrow> (e, range_const c));
         valid = (\<lambda>x. if \<not> is_top x \<and> vr_min x > vr_max x then RANGE_TOP else x)
     in (valid t, valid f))"

section \<open>What a range says\<close>

definition in_range :: "int \<Rightarrow> value_range \<Rightarrow> bool" where
  "in_range x r \<longleftrightarrow> is_top r \<or> vr_min r \<le> x \<and> x \<le> vr_max r"

text \<open>The values of a C integer type.\<close>

definition c_type_holds :: "string \<Rightarrow> int \<Rightarrow> bool" where
  "c_type_holds ty x \<longleftrightarrow>
    ty = ''uint8_t'' \<and> 0 \<le> x \<and> x < 2 ^ 8 \<or> ty = ''uint16_t'' \<and> 0 \<le> x \<and> x < 2 ^ 16 \<or> ty = ''uint32_t'' \<and> 0 \<le> x \<and> x < 2 ^ 32 \<or>
    ty = ''int8_t'' \<and> - (2 ^ 7) \<le> x \<and> x < 2 ^ 7 \<or> ty = ''int16_t'' \<and> - (2 ^ 15) \<le> x \<and> x < 2 ^ 15 \<or>
    ty = ''int32_t'' \<and> - (2 ^ 31) \<le> x \<and> x < 2 ^ 31"

named_theorems range_simps \<open>the definitions of the interval arithmetic\<close>

declare RANGE_TOP_def [range_simps] range_of_def [range_simps] range_const_def [range_simps] in_range_def [range_simps]
  checked_def [range_simps]

lemma range_top_simps [simp]:
  "is_top RANGE_TOP" "in_range x RANGE_TOP" "\<not> is_top (range_const c)" "in_range x (range_const c) \<longleftrightarrow> x = c" "\<not> is_top (range_of a b)"
  by (auto simp: range_simps)

lemma sint_i64 [simp]: "i64 (sint (w :: u64))"
  using sint_ge [of w] sint_lt [of w] by (auto simp: i64_def)

lemma sint_word_i64: "i64 x \<Longrightarrow> sint (word_of_int x :: u64) = x"
  by (simp add: i64_def signed_take_bit_int_eq_self_iff signed_of_int)

lemma range_unionI:
  "in_range x a \<Longrightarrow> in_range x (range_union a b)" "in_range x b \<Longrightarrow> in_range x (range_union a b)"
  by (auto simp: range_union_def range_simps)

lemma range_union_top [simp]: "is_top (range_union a b) \<longleftrightarrow> is_top a \<or> is_top b"
  by (simp add: range_union_def)

lemma range_arith_top:
  "is_top a \<or> is_top b \<Longrightarrow> is_top (range_add a b)" "is_top a \<or> is_top b \<Longrightarrow> is_top (range_sub a b)" "is_top a \<or> is_top b \<Longrightarrow> is_top (range_mul a b)"
  by (auto simp: range_add_def range_sub_def range_mul_def)

text \<open>A product lies between the least and the greatest product of the ends.\<close>

lemma mul_between:
  fixes x y a b c d :: int
  assumes "a \<le> x" "x \<le> b" "c \<le> y" "y \<le> d"
  shows "min (min (a * c) (a * d)) (min (b * c) (b * d)) \<le> x * y" "x * y \<le> max (max (a * c) (a * d)) (max (b * c) (b * d))"
proof -
  have ends: "min (k * c) (k * d) \<le> k * y \<and> k * y \<le> max (k * c) (k * d)" for k
    using assms(3,4) by (cases "0 \<le> k") (auto simp: min_le_iff_disj le_max_iff_disj mult_left_mono mult_left_mono_neg)
  have "min (a * y) (b * y) \<le> x * y \<and> x * y \<le> max (a * y) (b * y)"
    using assms(1,2) by (cases "0 \<le> y") (auto simp: min_le_iff_disj le_max_iff_disj mult_right_mono mult_right_mono_neg)
  then show "min (min (a * c) (a * d)) (min (b * c) (b * d)) \<le> x * y" "x * y \<le> max (max (a * c) (a * d)) (max (b * c) (b * d))"
    using ends [of a] ends [of b] by (auto simp: min_def max_def split: if_splits)
qed

text \<open>The interval arithmetic bounds the wrapping arithmetic of 64-bit words.\<close>

lemma range_add_sound:
  assumes "in_range (sint a) r" "in_range (sint (b :: u64)) q"
  shows "in_range (sint (a + b)) (range_add r q)"
proof (cases "is_top (range_add r q)")
  case False
  then have "i64 (vr_min r + vr_min q)" "i64 (vr_max r + vr_max q)" "range_add r q = range_of (vr_min r + vr_min q) (vr_max r + vr_max q)"
    "\<not> is_top r" "\<not> is_top q"
    by (auto simp: range_add_def checked_def split: if_splits)
  moreover from this have "i64 (sint a + sint b)" using assms by (auto simp: in_range_def i64_def)
  moreover have "sint (a + b) = sint (word_of_int (sint a + sint b) :: u64)" by simp
  ultimately show ?thesis using assms sint_word_i64 [of "sint a + sint b"] by (auto simp: in_range_def range_of_def)
qed (simp add: in_range_def)

lemma range_sub_sound:
  assumes "in_range (sint a) r" "in_range (sint (b :: u64)) q"
  shows "in_range (sint (a - b)) (range_sub r q)"
proof (cases "is_top (range_sub r q)")
  case False
  then have "i64 (vr_min r - vr_max q)" "i64 (vr_max r - vr_min q)" "range_sub r q = range_of (vr_min r - vr_max q) (vr_max r - vr_min q)"
    "\<not> is_top r" "\<not> is_top q"
    by (auto simp: range_sub_def checked_def split: if_splits)
  moreover from this have "i64 (sint a - sint b)" using assms by (auto simp: in_range_def i64_def)
  moreover have "sint (a - b) = sint (word_of_int (sint a - sint b) :: u64)" by simp
  ultimately show ?thesis using assms sint_word_i64 [of "sint a - sint b"] by (auto simp: in_range_def range_of_def)
qed (simp add: in_range_def)

lemma foldl_less: "foldl (\<lambda>lo p. if p < lo then p else lo) (a :: int) [b, c, d] = min (min a b) (min c d)"
  "foldl (\<lambda>hi p. if p > hi then p else hi) (a :: int) [b, c, d] = max (max a b) (max c d)"
  by (simp_all add: min_def max_def)

lemma range_mul_ends:
  assumes "\<not> is_top (range_mul r q)"
  shows "\<not> is_top r" "\<not> is_top q"
    "i64 (vr_min r * vr_min q)" "i64 (vr_min r * vr_max q)" "i64 (vr_max r * vr_min q)" "i64 (vr_max r * vr_max q)"
    "vr_min (range_mul r q) = min (min (vr_min r * vr_min q) (vr_min r * vr_max q)) (min (vr_max r * vr_min q) (vr_max r * vr_max q))"
    "vr_max (range_mul r q) = max (max (vr_min r * vr_min q) (vr_min r * vr_max q)) (max (vr_max r * vr_min q) (vr_max r * vr_max q))"
  using assms unfolding range_mul_def foldl_less checked_def by (auto simp: range_of_def split: if_splits)

lemma i64_min_max: "i64 a \<Longrightarrow> i64 b \<Longrightarrow> i64 (min a b) \<and> i64 (max a b)"
  by (simp add: min_def max_def)

lemma range_mul_i64:
  assumes "\<not> is_top (range_mul r q)"
  shows "i64 (vr_min (range_mul r q)) \<and> i64 (vr_max (range_mul r q))"
  unfolding range_mul_ends(7,8) [OF assms] using range_mul_ends(3-6) [OF assms] i64_min_max by blast

lemma range_mul_sound:
  assumes "in_range (sint a) r" "in_range (sint (b :: u64)) q"
  shows "in_range (sint (a * b)) (range_mul r q)"
proof (cases "is_top (range_mul r q)")
  case False
  note e = range_mul_ends [OF False]
  have "vr_min r \<le> sint a" "sint a \<le> vr_max r" "vr_min q \<le> sint b" "sint b \<le> vr_max q"
    using assms e(1,2) unfolding in_range_def by blast+
  from mul_between [OF this] have m: "vr_min (range_mul r q) \<le> sint a * sint b" "sint a * sint b \<le> vr_max (range_mul r q)"
    unfolding e(7,8) .
  then have "i64 (sint a * sint b)" using range_mul_i64 [OF False] unfolding i64_def by linarith
  then have "sint (a * b) = sint a * sint b" using sint_word_i64 [of "sint a * sint b"] by simp
  then show ?thesis using m by (simp add: in_range_def)
qed (simp add: in_range_def)

lemmas range_arith_sound = range_add_sound range_sub_sound range_mul_sound

text \<open>The type ladders.\<close>

lemma select_narrowed_type_holds:
  "select_narrowed_type lo hi = Some ty \<Longrightarrow> lo \<le> x \<Longrightarrow> x \<le> hi \<Longrightarrow> c_type_holds ty x"
  by (auto simp: select_narrowed_type_def c_type_holds_def split: if_splits)

lemma uint_of_nonneg: "0 \<le> sint (w :: u64) \<Longrightarrow> uint w = sint w"
  using sint_lt [of w] by (simp add: uint_sint take_bit_int_eq_self)

lemma select_local_narrowed_type_holds:
  fixes w :: u64
  assumes "select_local_narrowed_type k r = Some ty" "in_range (sint w) r" "is_top r \<or> i64 (vr_max r)"
  shows "c_type_holds ty (if k = Some IRON_TYPE_UINT then uint w else sint w)"
proof (cases "k = Some IRON_TYPE_UINT")
  case True
  then have "\<not> is_top r" "0 \<le> vr_min r" using assms(1) by (auto simp: select_local_narrowed_type_def split: if_splits)
  moreover from this have "0 \<le> sint w" "sint w \<le> vr_max r" using assms(2) by (auto simp: in_range_def)
  moreover from this have "uint w = sint w" by (simp add: uint_of_nonneg)
  moreover have "vr_max r mod 2 ^ 64 = vr_max r" using calculation assms(3) by (auto simp: i64_def)
  ultimately show ?thesis
    using assms(1) True by (auto simp: select_local_narrowed_type_def c_type_holds_def split: if_splits)
next
  case False
  then show ?thesis
    using assms(1,2) by (auto simp: select_local_narrowed_type_def c_type_holds_def in_range_def split: if_splits)
qed

end
