(* ===== verification/Local_Range.thy ===== *)
theory Local_Range
  imports Value_Range
begin

text \<open>
  The range proof for the locals of a function (value\_range.c, P7): which slots can be observed through an
  address, the memoised evaluation of the ranges of values and slots, in which a cycle is the unknown range,
  and what the tables it leaves behind say of every run of the function.
\<close>

section \<open>Observable slots\<close>

definition local_value_count :: "lir_func \<Rightarrow> nat" where
  "local_value_count fn =
    (if length (f_value_table fn) > f_next_value_id fn then length (f_value_table fn) else f_next_value_id fn)"

text \<open>The walk from the target of an address back to its slot, at most 32 steps of it.\<close>

fun local_storage_walk :: "lir_func \<Rightarrow> nat \<Rightarrow> vid \<Rightarrow> vid list" where
  "local_storage_walk fn 0 cur = []"
| "local_storage_walk fn (Suc depth) cur =
    (if cur = IRON_LIR_VALUE_INVALID \<or> local_value_count fn \<le> cur then []
     else cur # (case lookup_value_instr fn cur of
       None \<Rightarrow> []
     | Some d \<Rightarrow> (case storage_parent (i_op d) of None \<Rightarrow> [] | Some u \<Rightarrow> local_storage_walk fn depth u)))"

text \<open>The values an instruction rejects.\<close>

fun local_rejects :: "lir_func \<Rightarrow> lir_op \<Rightarrow> vid list" where
  "local_rejects fn (IRON_LIR_ADDR_OF t) = local_storage_walk fn 32 t"
| "local_rejects fn (IRON_LIR_CALL fd fp as self by_addr) =
    (if self \<and> as \<noteq> [] then [hd as] else []) @ map fst (filter snd (zip as by_addr))"
| "local_rejects fn (IRON_LIR_MAKE_CLOSURE cs) = cs"
| "local_rejects fn (IRON_LIR_SPAWN cs) = cs"
| "local_rejects fn (IRON_LIR_PARALLEL_FOR cs) = cs"
| "local_rejects fn (IRON_LIR_PTR_LOAD fp) = [fp]"
| "local_rejects fn (IRON_LIR_PTR_STORE fp v) = [fp, v]"
| "local_rejects fn (IRON_LIR_PTR_OFFSET p) = [p]"
| "local_rejects fn (IRON_LIR_PTR_DIFF a b) = [a, b]"
| "local_rejects fn _ = []"

record local_ctx =
  lc_value_ranges :: "vid \<Rightarrow> value_range"
  lc_alloca_ranges :: "vid \<Rightarrow> value_range"
  lc_eligible :: "vid \<Rightarrow> bool"
  lc_observable :: "vid \<Rightarrow> bool"
  lc_value_state :: "vid \<Rightarrow> nat"
  lc_alloca_state :: "vid \<Rightarrow> nat"

definition reject_alloca :: "lir_func \<Rightarrow> vid \<Rightarrow> local_ctx \<Rightarrow> local_ctx" where
  "reject_alloca fn v c =
    (if v \<noteq> IRON_LIR_VALUE_INVALID \<and> v < local_value_count fn
     then c\<lparr>lc_eligible := (lc_eligible c)(v := False), lc_observable := (lc_observable c)(v := True)\<rparr>
     else c)"

definition local_mark_observable_allocas :: "lir_func \<Rightarrow> local_ctx \<Rightarrow> local_ctx" where
  "local_mark_observable_allocas fn = fold (\<lambda>i. fold (reject_alloca fn) (local_rejects fn (i_op i))) (fn_instrs fn)"

text \<open>The slots that may be narrowed: generic integers of the function itself.\<close>

definition local_eligible_alloca :: "lir_func \<Rightarrow> lir_instr \<Rightarrow> bool" where
  "local_eligible_alloca fn i \<longleftrightarrow> is_IRON_LIR_ALLOCA (i_op i) \<and> i_id i < local_value_count fn \<and>
    local_is_generic_integer (alloc_type (i_op i)) \<and> global_name (i_op i) = None \<and> \<not> local_alloca_is_capture_alias fn (i_op i)"

definition local_ctx_init :: "lir_func \<Rightarrow> local_ctx" where
  "local_ctx_init fn = local_mark_observable_allocas fn
    \<lparr>lc_value_ranges = (\<lambda>_. RANGE_TOP), lc_alloca_ranges = (\<lambda>_. RANGE_TOP),
     lc_eligible = fold (\<lambda>i e. if local_eligible_alloca fn i then e(i_id i := True) else e) (fn_instrs fn) (\<lambda>_. False),
     lc_observable = (\<lambda>_. False), lc_value_state = (\<lambda>_. 0), lc_alloca_state = (\<lambda>_. 0)\<rparr>"

section \<open>Evaluation\<close>

text \<open>The union over a list of values, evaluated in order until it is unknown; nothing found is unknown too.\<close>

fun union_loop :: "('c \<Rightarrow> vid \<Rightarrow> (value_range \<times> 'c) option) \<Rightarrow> 'c \<Rightarrow> vid list \<Rightarrow> value_range option \<Rightarrow> (value_range \<times> 'c) option" where
  "union_loop ev c [] acc = Some (case acc of None \<Rightarrow> RANGE_TOP | Some r \<Rightarrow> r, c)"
| "union_loop ev c (v # vs) acc =
    (case ev c v of
       None \<Rightarrow> None
     | Some (r, c) \<Rightarrow>
         let r = (case acc of None \<Rightarrow> r | Some a \<Rightarrow> range_union a r)
         in if is_top r then Some (r, c) else union_loop ev c vs (Some r))"

text \<open>Two operands, in the order the C compiler chooses for the arguments of a call.\<close>

definition eval_two :: "bool \<Rightarrow> ('c \<Rightarrow> vid \<Rightarrow> (value_range \<times> 'c) option) \<Rightarrow> (value_range \<Rightarrow> value_range \<Rightarrow> value_range) \<Rightarrow>
    'c \<Rightarrow> vid \<Rightarrow> vid \<Rightarrow> (value_range \<times> 'c) option" where
  "eval_two left_first ev f c l r =
    (if left_first then
       case ev c l of None \<Rightarrow> None | Some (a, c) \<Rightarrow> (case ev c r of None \<Rightarrow> None | Some (b, c) \<Rightarrow> Some (f a b, c))
     else
       case ev c r of None \<Rightarrow> None | Some (b, c) \<Rightarrow> (case ev c l of None \<Rightarrow> None | Some (a, c) \<Rightarrow> Some (f a b, c)))"

definition stored_values :: "lir_func \<Rightarrow> vid \<Rightarrow> vid list" where
  "stored_values fn a = List.map_filter (\<lambda>i. case i_op i of IRON_LIR_STORE p v \<Rightarrow> if p = a then Some v else None | _ \<Rightarrow> None) (fn_instrs fn)"

text \<open>
  The two evaluators call each other; the fuel bounds the depth of the calls, and its end is None.
\<close>

fun local_eval_value :: "nat \<Rightarrow> bool \<Rightarrow> lir_func \<Rightarrow> local_ctx \<Rightarrow> vid \<Rightarrow> (value_range \<times> local_ctx) option"
and local_eval_alloca :: "nat \<Rightarrow> bool \<Rightarrow> lir_func \<Rightarrow> local_ctx \<Rightarrow> vid \<Rightarrow> (value_range \<times> local_ctx) option" where
  "local_eval_value 0 lf fn c v = None"
| "local_eval_value (Suc fuel) lf fn c v =
    (if v = IRON_LIR_VALUE_INVALID \<or> local_value_count fn \<le> v then Some (RANGE_TOP, c)
     else if lc_observable c v then Some (RANGE_TOP, c)
     else if lc_value_state c v = 2 then Some (lc_value_ranges c v, c)
     else if lc_value_state c v = 1 then Some (RANGE_TOP, c)
     else case lookup_value_instr fn v of
       None \<Rightarrow> Some (RANGE_TOP, c)
     | Some i \<Rightarrow>
         (let c = c\<lparr>lc_value_state := (lc_value_state c)(v := 1)\<rparr>;
              res = (case i_op i of
                  IRON_LIR_CONST_INT x \<Rightarrow> Some (range_const (sint x), c)
                | IRON_LIR_ALLOCA ty nm gl \<Rightarrow> local_eval_alloca fuel lf fn c v
                | IRON_LIR_LOAD p \<Rightarrow> local_eval_alloca fuel lf fn c p
                | IRON_LIR_ADD l r \<Rightarrow> eval_two lf (\<lambda>c v. local_eval_value fuel lf fn c v) range_add c l r
                | IRON_LIR_SUB l r \<Rightarrow> eval_two lf (\<lambda>c v. local_eval_value fuel lf fn c v) range_sub c l r
                | IRON_LIR_MUL l r \<Rightarrow> eval_two lf (\<lambda>c v. local_eval_value fuel lf fn c v) range_mul c l r
                | IRON_LIR_PHI vs ps \<Rightarrow> union_loop (\<lambda>c v. local_eval_value fuel lf fn c v) c vs None
                | _ \<Rightarrow> Some (RANGE_TOP, c))
          in case res of
            None \<Rightarrow> None
          | Some (r, c) \<Rightarrow> Some (r, c\<lparr>lc_value_ranges := (lc_value_ranges c)(v := r), lc_value_state := (lc_value_state c)(v := 2)\<rparr>)))"
| "local_eval_alloca 0 lf fn c a = None"
| "local_eval_alloca (Suc fuel) lf fn c a =
    (if a = IRON_LIR_VALUE_INVALID \<or> local_value_count fn \<le> a \<or> \<not> lc_eligible c a then Some (RANGE_TOP, c)
     else if lc_alloca_state c a = 2 then Some (lc_alloca_ranges c a, c)
     else if lc_alloca_state c a = 1 then Some (RANGE_TOP, c)
     else case union_loop (\<lambda>c v. local_eval_value fuel lf fn c v) (c\<lparr>lc_alloca_state := (lc_alloca_state c)(a := 1)\<rparr>) (stored_values fn a) None of
         None \<Rightarrow> None
       | Some (r, c) \<Rightarrow> Some (r, c\<lparr>lc_alloca_ranges := (lc_alloca_ranges c)(a := r), lc_alloca_state := (lc_alloca_state c)(a := 2)\<rparr>))"

text \<open>The evaluation of every value, in the order of the identifiers.\<close>

fun local_eval_all :: "nat \<Rightarrow> bool \<Rightarrow> lir_func \<Rightarrow> local_ctx \<Rightarrow> vid list \<Rightarrow> local_ctx option" where
  "local_eval_all fuel lf fn c [] = Some c"
| "local_eval_all fuel lf fn c (v # vs) =
    (case local_eval_value fuel lf fn c v of None \<Rightarrow> None | Some (_, c) \<Rightarrow> local_eval_all fuel lf fn c vs)"

section \<open>The evaluation returns\<close>

text \<open>Entries once touched keep their state and their range.\<close>

definition extends :: "local_ctx \<Rightarrow> local_ctx \<Rightarrow> bool" where
  "extends c d \<longleftrightarrow> lc_eligible d = lc_eligible c \<and> lc_observable d = lc_observable c \<and>
    (\<forall>v. lc_value_state c v \<in> {1, 2} \<longrightarrow> lc_value_state d v = lc_value_state c v \<and> lc_value_ranges d v = lc_value_ranges c v) \<and>
    (\<forall>a. lc_alloca_state c a \<in> {1, 2} \<longrightarrow> lc_alloca_state d a = lc_alloca_state c a \<and> lc_alloca_ranges d a = lc_alloca_ranges c a)"

lemma extends_refl [simp, intro]: "extends c c"
  by (simp add: extends_def)

lemma extends_trans [trans]: "extends a b \<Longrightarrow> extends b c \<Longrightarrow> extends a c"
  by (auto simp: extends_def)

lemma union_loop_extends:
  assumes "\<And>c v r d. ev c v = Some (r, d) \<Longrightarrow> extends c d"
  shows "union_loop ev c vs acc = Some (r, d) \<Longrightarrow> extends c d"
  by (induction vs arbitrary: c acc)
    (auto simp: Let_def split: option.splits prod.splits if_splits dest: assms intro: extends_trans)

lemma eval_two_extends:
  assumes "\<And>c v r d. ev c v = Some (r, d) \<Longrightarrow> extends c d"
  shows "eval_two lf ev f c l r = Some (x, d) \<Longrightarrow> extends c d"
  by (auto simp: eval_two_def split: option.splits prod.splits if_splits dest: assms intro: extends_trans)

text \<open>Marking an untouched entry, evaluating, and completing it.\<close>

lemma extends_value_done:
  assumes "lc_value_state c v \<notin> {1, 2}" "extends (c\<lparr>lc_value_state := (lc_value_state c)(v := 1)\<rparr>) d"
  shows "extends c (d\<lparr>lc_value_ranges := (lc_value_ranges d)(v := r), lc_value_state := (lc_value_state d)(v := 2)\<rparr>)"
  using assms by (auto simp: extends_def)

lemma extends_alloca_done:
  assumes "lc_alloca_state c a \<notin> {1, 2}" "extends (c\<lparr>lc_alloca_state := (lc_alloca_state c)(a := 1)\<rparr>) d"
  shows "extends c (d\<lparr>lc_alloca_ranges := (lc_alloca_ranges d)(a := r), lc_alloca_state := (lc_alloca_state d)(a := 2)\<rparr>)"
  using assms by (auto simp: extends_def)

text \<open>What a value's instruction computes from the operands, as one expression.\<close>

definition local_eval_op :: "nat \<Rightarrow> bool \<Rightarrow> lir_func \<Rightarrow> local_ctx \<Rightarrow> vid \<Rightarrow> lir_op \<Rightarrow> (value_range \<times> local_ctx) option" where
  "local_eval_op fuel lf fn c v op =
    (case op of
        IRON_LIR_CONST_INT x \<Rightarrow> Some (range_const (sint x), c)
      | IRON_LIR_ALLOCA ty nm gl \<Rightarrow> local_eval_alloca fuel lf fn c v
      | IRON_LIR_LOAD p \<Rightarrow> local_eval_alloca fuel lf fn c p
      | IRON_LIR_ADD l r \<Rightarrow> eval_two lf (local_eval_value fuel lf fn) range_add c l r
      | IRON_LIR_SUB l r \<Rightarrow> eval_two lf (local_eval_value fuel lf fn) range_sub c l r
      | IRON_LIR_MUL l r \<Rightarrow> eval_two lf (local_eval_value fuel lf fn) range_mul c l r
      | IRON_LIR_PHI vs ps \<Rightarrow> union_loop (local_eval_value fuel lf fn) c vs None
      | _ \<Rightarrow> Some (RANGE_TOP, c))"

lemma eval_value_Suc:
  "local_eval_value (Suc fuel) lf fn c v =
    (if v = 0 \<or> local_value_count fn \<le> v \<or> lc_observable c v then Some (RANGE_TOP, c)
     else if lc_value_state c v = 2 then Some (lc_value_ranges c v, c)
     else if lc_value_state c v = 1 then Some (RANGE_TOP, c)
     else case lookup_value_instr fn v of
       None \<Rightarrow> Some (RANGE_TOP, c)
     | Some i \<Rightarrow> (case local_eval_op fuel lf fn (c\<lparr>lc_value_state := (lc_value_state c)(v := 1)\<rparr>) v (i_op i) of
            None \<Rightarrow> None
          | Some (r, c) \<Rightarrow> Some (r, c\<lparr>lc_value_ranges := (lc_value_ranges c)(v := r), lc_value_state := (lc_value_state c)(v := 2)\<rparr>)))"
  by (simp add: local_eval_op_def Let_def eta_contract_eq cong: option.case_cong lir_op.case_cong)

lemmas [simp del] = local_eval_value.simps(2)

text \<open>An evaluation of a value is one of these.\<close>

lemma eval_value_cases:
  assumes "local_eval_value (Suc fuel) lf fn c v = Some (r, d)"
  obtains (Top) "is_top r" "d = c"
  | (Memo) "v \<noteq> 0" "v < local_value_count fn" "\<not> lc_observable c v" "lc_value_state c v = 2" "r = lc_value_ranges c v" "d = c"
  | (Fresh) i e where "v \<noteq> 0" "v < local_value_count fn" "\<not> lc_observable c v" "lc_value_state c v \<notin> {1, 2}"
      "lookup_value_instr fn v = Some i"
      "local_eval_op fuel lf fn (c\<lparr>lc_value_state := (lc_value_state c)(v := 1)\<rparr>) v (i_op i) = Some (r, e)"
      "d = e\<lparr>lc_value_ranges := (lc_value_ranges e)(v := r), lc_value_state := (lc_value_state e)(v := 2)\<rparr>"
  using assms by (fastforce simp: eval_value_Suc split: if_splits option.splits prod.splits)

lemma eval_alloca_cases:
  assumes "local_eval_alloca (Suc fuel) lf fn c a = Some (r, d)"
  obtains (Top) "is_top r" "d = c"
  | (Memo) "a \<noteq> 0" "a < local_value_count fn" "lc_eligible c a" "lc_alloca_state c a = 2" "r = lc_alloca_ranges c a" "d = c"
  | (Fresh) e where "a \<noteq> 0" "a < local_value_count fn" "lc_eligible c a" "lc_alloca_state c a \<notin> {1, 2}"
      "union_loop (local_eval_value fuel lf fn) (c\<lparr>lc_alloca_state := (lc_alloca_state c)(a := 1)\<rparr>) (stored_values fn a) None = Some (r, e)"
      "d = e\<lparr>lc_alloca_ranges := (lc_alloca_ranges e)(a := r), lc_alloca_state := (lc_alloca_state e)(a := 2)\<rparr>"
  using assms by (fastforce simp: eta_contract_eq split: if_splits option.splits prod.splits)

lemma eval_op_extends:
  assumes "\<And>c v r d. local_eval_value fuel lf fn c v = Some (r, d) \<Longrightarrow> extends c d"
    "\<And>c v r d. local_eval_alloca fuel lf fn c v = Some (r, d) \<Longrightarrow> extends c d"
  shows "local_eval_op fuel lf fn c v op = Some (r, d) \<Longrightarrow> extends c d"
  by (cases op) (auto simp: local_eval_op_def dest: assms eval_two_extends [rotated] union_loop_extends [rotated] intro: assms)

lemma eval_extends:
  "local_eval_value fuel lf fn c v = Some (r, d) \<Longrightarrow> extends c d"
  "local_eval_alloca fuel lf fn c v = Some (r, d) \<Longrightarrow> extends c d"
proof (induction fuel arbitrary: c v r d)
  case (Suc fuel)
  have op: "extends c d" if "local_eval_op fuel lf fn c v op = Some (r, d)" for c v op r d
    using that by (rule eval_op_extends [rotated 2]) (fact Suc.IH)+
  have loop: "extends c d" if "union_loop (local_eval_value fuel lf fn) c vs acc = Some (r, d)" for c vs acc r d
    using that by (rule union_loop_extends [rotated]) (fact Suc.IH)
  { case 1 then show ?case
    proof (cases rule: eval_value_cases)
      case (Fresh i e)
      then show ?thesis using extends_value_done [OF Fresh(4) op [OF Fresh(6)]] by simp
    qed auto }
  { case 2 then show ?case
    proof (cases rule: eval_alloca_cases)
      case (Fresh e)
      then show ?thesis using extends_alloca_done [OF Fresh(4) loop [OF Fresh(5)]] by simp
    qed auto }
qed simp_all

lemma eval_op_ext: "local_eval_op fuel lf fn c v op = Some (r, d) \<Longrightarrow> extends c d"
  by (erule eval_op_extends [rotated 2]) (fact eval_extends)+

lemma eval_loop_ext: "union_loop (local_eval_value fuel lf fn) c vs acc = Some (r, d) \<Longrightarrow> extends c d"
  by (erule union_loop_extends [rotated]) (fact eval_extends)

text \<open>The entries still to be visited bound the depth.\<close>

definition unseen :: "lir_func \<Rightarrow> local_ctx \<Rightarrow> nat" where
  "unseen fn c = card {v. v < local_value_count fn \<and> lc_value_state c v \<notin> {1, 2}} + card {a. a < local_value_count fn \<and> lc_alloca_state c a \<notin> {1, 2}}"

lemma unseen_extends: "extends c d \<Longrightarrow> unseen fn d \<le> unseen fn c"
  unfolding unseen_def by (intro add_mono card_mono) (auto simp: extends_def)

lemma unseen_bound: "unseen fn c \<le> 2 * local_value_count fn"
proof -
  have "card {v. v < local_value_count fn \<and> P v} \<le> card {..<local_value_count fn}" for P
    by (intro card_mono) auto
  from add_mono [OF this this] show ?thesis by (simp add: unseen_def mult_2)
qed

lemma card_drop_one: "x < (n :: nat) \<Longrightarrow> P x \<Longrightarrow> \<not> Q x \<Longrightarrow> (\<And>v. Q v \<Longrightarrow> P v) \<Longrightarrow> card {v. v < n \<and> Q v} < card {v. v < n \<and> P v}"
  by (rule psubset_card_mono) auto

lemma unseen_value: "v < local_value_count fn \<Longrightarrow> lc_value_state c v \<notin> {1, 2} \<Longrightarrow> unseen fn (c\<lparr>lc_value_state := (lc_value_state c)(v := 1)\<rparr>) < unseen fn c"
  unfolding unseen_def by (intro add_less_le_mono card_drop_one [of v]) (auto split: if_splits)

lemma unseen_alloca: "a < local_value_count fn \<Longrightarrow> lc_alloca_state c a \<notin> {1, 2} \<Longrightarrow> unseen fn (c\<lparr>lc_alloca_state := (lc_alloca_state c)(a := 1)\<rparr>) < unseen fn c"
  unfolding unseen_def by (intro add_le_less_mono card_drop_one [of a]) (auto split: if_splits)

lemma union_loop_total:
  assumes "\<And>c v. unseen fn c < n \<Longrightarrow> ev c v \<noteq> None" "\<And>c v r d. ev c v = Some (r, d) \<Longrightarrow> extends c d"
  shows "unseen fn c < n \<Longrightarrow> union_loop ev c vs acc \<noteq> None"
proof (induction vs arbitrary: c acc)
  case (Cons v vs)
  obtain r d where r: "ev c v = Some (r, d)" using assms(1) [OF Cons.prems] by fastforce
  then have "unseen fn d < n" using unseen_extends [OF assms(2)] Cons.prems by (meson order_le_less_trans)
  then show ?case using r Cons.IH by (auto simp: Let_def)
qed simp

lemma eval_two_total:
  assumes "\<And>c v. unseen fn c < n \<Longrightarrow> ev c v \<noteq> None" "\<And>c v r d. ev c v = Some (r, d) \<Longrightarrow> extends c d" "unseen fn c < n"
  shows "eval_two lf ev f c l r \<noteq> None"
proof -
  have one: "\<exists>x d. ev c v = Some (x, d) \<and> unseen fn d < n" if u: "unseen fn c < n" for c v
  proof -
    obtain x d where "ev c v = Some (x, d)" using assms(1) [OF u, of v] by auto
    then show ?thesis using unseen_extends [OF assms(2)] u by (blast intro: order_le_less_trans)
  qed
  obtain x d y e where "ev c l = Some (x, d)" "unseen fn d < n" "ev c r = Some (y, e)" "unseen fn e < n"
    using one [OF assms(3)] by metis
  then show ?thesis using one [of d r] one [of e l] by (auto simp: eval_two_def)
qed

lemma eval_total:
  "unseen fn c < fuel \<Longrightarrow> local_eval_value fuel lf fn c v \<noteq> None"
  "unseen fn c < fuel \<Longrightarrow> local_eval_alloca fuel lf fn c v \<noteq> None"
proof (induction fuel arbitrary: c v)
  case (Suc fuel)
  have loop: "union_loop (local_eval_value fuel lf fn) c vs acc \<noteq> None" if "unseen fn c < fuel" for c vs acc
    using that by (rule union_loop_total [rotated 2]) (fact Suc.IH(1), fact eval_extends(1))
  have two: "eval_two lf (local_eval_value fuel lf fn) f c l r \<noteq> None" if "unseen fn c < fuel" for f c l r
    using that by (rule eval_two_total [rotated 2]) (fact Suc.IH(1), fact eval_extends(1))
  have op: "local_eval_op fuel lf fn c v op \<noteq> None" if "unseen fn c < fuel" for c v op
    using that Suc.IH two loop by (cases op) (simp_all add: local_eval_op_def)
  { case 1
    show ?case
    proof
      assume "local_eval_value (Suc fuel) lf fn c v = None"
      then obtain p where p: "v < local_value_count fn" "lc_value_state c v \<notin> {1, 2}"
          "local_eval_op fuel lf fn (c\<lparr>lc_value_state := (lc_value_state c)(v := 1)\<rparr>) v p = None"
        by (auto simp: eval_value_Suc split: if_splits option.splits)
      have "unseen fn c \<le> fuel" using 1 by simp
      from op [OF less_le_trans [OF unseen_value [OF p(1,2)] this], of v p] p(3) show False by contradiction
    qed }
  { case 2
    show ?case
    proof
      assume "local_eval_alloca (Suc fuel) lf fn c v = None"
      then have p: "v < local_value_count fn" "lc_alloca_state c v \<notin> {1, 2}"
          "union_loop (local_eval_value fuel lf fn) (c\<lparr>lc_alloca_state := (lc_alloca_state c)(v := 1)\<rparr>) (stored_values fn v) None = None"
        by (auto simp: eta_contract_eq split: if_splits option.splits)
      have "unseen fn c \<le> fuel" using 2 by simp
      from loop [OF less_le_trans [OF unseen_alloca [OF p(1,2)] this]] p(3) show False by contradiction
    qed }
qed simp_all

lemma eval_all_total: "unseen fn c < fuel \<Longrightarrow> local_eval_all fuel lf fn c vs \<noteq> None"
proof (induction vs arbitrary: c)
  case (Cons v vs)
  obtain r d where r: "local_eval_value fuel lf fn c v = Some (r, d)" using eval_total(1) [OF Cons.prems] by fastforce
  then have "unseen fn d < fuel" using unseen_extends [OF eval_extends(1) [OF r]] Cons.prems by (meson order_le_less_trans)
  then show ?case using r Cons.IH by simp
qed simp

section \<open>The tables are consistent\<close>

text \<open>A completed value or slot with a known range.\<close>

definition val_done :: "lir_func \<Rightarrow> local_ctx \<Rightarrow> vid \<Rightarrow> bool" where
  "val_done fn c v \<longleftrightarrow> v \<noteq> 0 \<and> v < local_value_count fn \<and> \<not> lc_observable c v \<and> lc_value_state c v = 2 \<and> \<not> is_top (lc_value_ranges c v)"

definition slot_done :: "lir_func \<Rightarrow> local_ctx \<Rightarrow> vid \<Rightarrow> bool" where
  "slot_done fn c a \<longleftrightarrow> a \<noteq> 0 \<and> a < local_value_count fn \<and> lc_eligible c a \<and> lc_alloca_state c a = 2 \<and> \<not> is_top (lc_alloca_ranges c a)"

definition within :: "value_range \<Rightarrow> value_range \<Rightarrow> bool" where
  "within r q \<longleftrightarrow> (\<forall>x. in_range x r \<longrightarrow> in_range x q)"

definition range_i64 :: "value_range \<Rightarrow> bool" where
  "range_i64 r \<longleftrightarrow> is_top r \<or> i64 (vr_min r) \<and> i64 (vr_max r)"

text \<open>A known range of a value follows from the known ranges of what it is computed from.\<close>

definition justified_op :: "lir_func \<Rightarrow> local_ctx \<Rightarrow> vid \<Rightarrow> lir_op \<Rightarrow> value_range \<Rightarrow> bool" where
  "justified_op fn c v op r \<longleftrightarrow>
    (case op of
        IRON_LIR_CONST_INT x \<Rightarrow> r = range_const (sint x)
      | IRON_LIR_ALLOCA ty nm gl \<Rightarrow> slot_done fn c v \<and> r = lc_alloca_ranges c v
      | IRON_LIR_LOAD p \<Rightarrow> slot_done fn c p \<and> r = lc_alloca_ranges c p
      | IRON_LIR_ADD l q \<Rightarrow> val_done fn c l \<and> val_done fn c q \<and> r = range_add (lc_value_ranges c l) (lc_value_ranges c q)
      | IRON_LIR_SUB l q \<Rightarrow> val_done fn c l \<and> val_done fn c q \<and> r = range_sub (lc_value_ranges c l) (lc_value_ranges c q)
      | IRON_LIR_MUL l q \<Rightarrow> val_done fn c l \<and> val_done fn c q \<and> r = range_mul (lc_value_ranges c l) (lc_value_ranges c q)
      | IRON_LIR_PHI vs ps \<Rightarrow> (\<forall>u\<in>set vs. val_done fn c u \<and> within (lc_value_ranges c u) r)
      | _ \<Rightarrow> False)"

definition justified_slot :: "lir_func \<Rightarrow> local_ctx \<Rightarrow> vid \<Rightarrow> value_range \<Rightarrow> bool" where
  "justified_slot fn c a r \<longleftrightarrow> (\<forall>u\<in>set (stored_values fn a). val_done fn c u \<and> within (lc_value_ranges c u) r)"

text \<open>Every known range is justified; those of the given slots rest on something else.\<close>

definition tables_ok :: "lir_func \<Rightarrow> vid set \<Rightarrow> local_ctx \<Rightarrow> bool" where
  "tables_ok fn F c \<longleftrightarrow>
    (\<forall>v. val_done fn c v \<longrightarrow> (\<exists>i. lookup_value_instr fn v = Some i \<and> justified_op fn c v (i_op i) (lc_value_ranges c v))) \<and>
    (\<forall>a. slot_done fn c a \<longrightarrow> a \<in> F \<or> justified_slot fn c a (lc_alloca_ranges c a)) \<and>
    (\<forall>v. range_i64 (lc_value_ranges c v) \<and> range_i64 (lc_alloca_ranges c v)) \<and>
    (\<forall>v. (is_top (lc_value_ranges c v) \<or> val_done fn c v) \<and> (is_top (lc_alloca_ranges c v) \<or> slot_done fn c v))"

definition keeps :: "lir_func \<Rightarrow> local_ctx \<Rightarrow> local_ctx \<Rightarrow> bool" where
  "keeps fn c d \<longleftrightarrow> (\<forall>v. val_done fn c v \<longrightarrow> val_done fn d v \<and> lc_value_ranges d v = lc_value_ranges c v) \<and>
    (\<forall>a. slot_done fn c a \<longrightarrow> slot_done fn d a \<and> lc_alloca_ranges d a = lc_alloca_ranges c a)"

lemma extends_keeps: "extends c d \<Longrightarrow> keeps fn c d"
  by (auto simp: extends_def keeps_def val_done_def slot_done_def)

lemma justified_op_keeps: "keeps fn c d \<Longrightarrow> justified_op fn c v op r \<Longrightarrow> justified_op fn d v op r"
  by (auto simp: keeps_def justified_op_def split: lir_op.splits)

lemma justified_slot_keeps: "keeps fn c d \<Longrightarrow> justified_slot fn c a r \<Longrightarrow> justified_slot fn d a r"
  by (auto simp: keeps_def justified_slot_def)

lemma range_i64_simps [simp]:
  "range_i64 RANGE_TOP" "range_i64 (range_const (sint (w :: u64)))"
  "range_i64 r \<Longrightarrow> range_i64 q \<Longrightarrow> range_i64 (range_union r q)"
  "range_i64 (range_add r q)" "range_i64 (range_sub r q)"
  by (auto simp: range_i64_def range_const_def range_union_def range_add_def range_sub_def range_of_def checked_def)

lemma range_i64_mul [simp]: "range_i64 (range_mul r q)"
  using range_mul_i64 by (auto simp: range_i64_def)

lemma within_union: "within r (range_union r q)" "within q (range_union r q)"
  by (auto simp: within_def intro: range_unionI)

lemma within_trans: "within a b \<Longrightarrow> within b c \<Longrightarrow> within a c"
  by (simp add: within_def)

lemma within_refl [simp]: "within r r"
  by (simp add: within_def)

text \<open>Marking an entry as visited changes no known range, and completing it adds one.\<close>

lemma tables_ok_same:
  assumes "tables_ok fn F c" "val_done fn d = val_done fn c" "slot_done fn d = slot_done fn c"
    and "lc_value_ranges d = lc_value_ranges c" "lc_alloca_ranges d = lc_alloca_ranges c"
  shows "tables_ok fn F d"
  using assms(1) unfolding tables_ok_def justified_op_def justified_slot_def assms(2-) .

lemma tables_ok_visit:
  assumes "tables_ok fn F c"
  shows "lc_value_state c v \<notin> {1, 2} \<Longrightarrow> tables_ok fn F (c\<lparr>lc_value_state := (lc_value_state c)(v := 1)\<rparr>)"
    "lc_alloca_state c v \<notin> {1, 2} \<Longrightarrow> tables_ok fn F (c\<lparr>lc_alloca_state := (lc_alloca_state c)(v := 1)\<rparr>)"
  by - (rule tables_ok_same [OF assms]; auto simp: val_done_def slot_done_def fun_eq_iff)+

lemma tables_ok_value:
  assumes "tables_ok fn F c" "lc_value_state c v = 1" "lookup_value_instr fn v = Some i" "range_i64 r"
    and j: "is_top r \<or> justified_op fn c v (i_op i) r" and v: "v \<noteq> 0" "v < local_value_count fn" "\<not> lc_observable c v"
  defines "d \<equiv> c\<lparr>lc_value_ranges := (lc_value_ranges c)(v := r), lc_value_state := (lc_value_state c)(v := 2)\<rparr>"
  shows "tables_ok fn F d"
proof -
  have k: "keeps fn c d" using assms(2) by (auto simp: keeps_def val_done_def slot_done_def d_def)
  have "val_done fn c u \<or> u = v \<and> \<not> is_top r" if "val_done fn d u" for u
    using that by (auto simp: val_done_def d_def split: if_splits)
  moreover have "slot_done fn d = slot_done fn c" "lc_alloca_ranges d = lc_alloca_ranges c" by (auto simp: slot_done_def d_def fun_eq_iff)
  moreover have "lc_value_ranges d u = (if u = v then r else lc_value_ranges c u)" for u by (simp add: d_def)
  moreover have "is_top r \<or> val_done fn d v" using v by (simp add: val_done_def d_def)
  ultimately show ?thesis
    using assms(1,3,4) j justified_op_keeps [OF k] justified_slot_keeps [OF k] k
    unfolding tables_ok_def keeps_def by (smt (verit, best))
qed

lemma tables_ok_alloca:
  assumes "tables_ok fn F c" "lc_alloca_state c a = 1" "range_i64 r"
    and j: "is_top r \<or> justified_slot fn c a r" and a: "a \<noteq> 0" "a < local_value_count fn" "lc_eligible c a"
  defines "d \<equiv> c\<lparr>lc_alloca_ranges := (lc_alloca_ranges c)(a := r), lc_alloca_state := (lc_alloca_state c)(a := 2)\<rparr>"
  shows "tables_ok fn F d"
proof -
  have k: "keeps fn c d" using assms(2) by (auto simp: keeps_def val_done_def slot_done_def d_def)
  have "slot_done fn c u \<or> u = a \<and> \<not> is_top r" if "slot_done fn d u" for u
    using that by (auto simp: slot_done_def d_def split: if_splits)
  moreover have "val_done fn d = val_done fn c" "lc_value_ranges d = lc_value_ranges c" by (auto simp: val_done_def d_def fun_eq_iff)
  moreover have "lc_alloca_ranges d u = (if u = a then r else lc_alloca_ranges c u)" for u by (simp add: d_def)
  moreover have "is_top r \<or> slot_done fn d a" using a by (simp add: slot_done_def d_def)
  ultimately show ?thesis
    using assms(1,3) j justified_op_keeps [OF k] justified_slot_keeps [OF k] k
    unfolding tables_ok_def keeps_def by (smt (verit, best))
qed

text \<open>What an evaluator promises of a value, and what the loop and the pair of operands make of it.\<close>

definition evaluator_ok :: "lir_func \<Rightarrow> vid set \<Rightarrow> (local_ctx \<Rightarrow> vid \<Rightarrow> (value_range \<times> local_ctx) option) \<Rightarrow> bool" where
  "evaluator_ok fn F ev \<longleftrightarrow> (\<forall>c v r d. tables_ok fn F c \<longrightarrow> ev c v = Some (r, d) \<longrightarrow>
    tables_ok fn F d \<and> extends c d \<and> range_i64 r \<and> (is_top r \<or> val_done fn d v \<and> lc_value_ranges d v = r))"

lemma evaluator_okD:
  assumes "evaluator_ok fn F ev" "tables_ok fn F c" "ev c v = Some (r, d)"
  shows "tables_ok fn F d" "extends c d" "range_i64 r" "is_top r \<or> val_done fn d v \<and> lc_value_ranges d v = r"
  using assms unfolding evaluator_ok_def by blast+

lemma union_loop_tables:
  assumes ev: "evaluator_ok fn F ev"
  shows "tables_ok fn F c \<Longrightarrow> pred_option range_i64 acc \<Longrightarrow> union_loop ev c vs acc = Some (r, d) \<Longrightarrow>
    tables_ok fn F d \<and> extends c d \<and> range_i64 r \<and>
    (is_top r \<or> (\<forall>u\<in>set vs. val_done fn d u \<and> within (lc_value_ranges d u) r) \<and> (\<forall>a. acc = Some a \<longrightarrow> within a r))"
proof (induction vs arbitrary: c acc)
  case Nil
  then show ?case by (auto split: option.splits)
next
  case (Cons v vs)
  obtain q e where q: "ev c v = Some (q, e)" using Cons.prems(3) by (auto split: option.splits)
  note e = evaluator_okD [OF ev Cons.prems(1) q]
  let ?r = "case acc of None \<Rightarrow> q | Some a \<Rightarrow> range_union a q"
  have i: "range_i64 ?r" using e(3) Cons.prems(2) by (cases acc) auto
  show ?case
  proof (cases "is_top ?r")
    case True
    then show ?thesis using Cons.prems(3) q e i by (simp add: Let_def)
  next
    case False
    then have "union_loop ev e vs (Some ?r) = Some (r, d)" using Cons.prems(3) q by (simp add: Let_def)
    note rest = Cons.IH [OF e(1) _ this]
    have top: "\<not> is_top q" and w: "within q ?r" "\<forall>a. acc = Some a \<longrightarrow> within a ?r"
      using False by (auto split: option.splits intro: within_union)
    have "keeps fn e d" using rest i by (intro extends_keeps) auto
    then have "val_done fn d v \<and> lc_value_ranges d v = q" using e(4) top by (auto simp: keeps_def)
    then show ?thesis using rest i w extends_trans [OF e(2)] by (auto intro: within_trans)
  qed
qed

lemma eval_two_tables:
  assumes ev: "evaluator_ok fn F ev" and t: "tables_ok fn F c" "eval_two lf ev f c l r = Some (x, d)"
    and f: "\<And>a b. is_top a \<or> is_top b \<Longrightarrow> is_top (f a b)"
  shows "tables_ok fn F d \<and> extends c d \<and>
    (is_top x \<or> val_done fn d l \<and> val_done fn d r \<and> x = f (lc_value_ranges d l) (lc_value_ranges d r))"
proof -
  have "tables_ok fn F d \<and> extends c d \<and> (is_top (g a b) \<or> val_done fn d u \<and> val_done fn d v \<and> g a b = g (lc_value_ranges d u) (lc_value_ranges d v))"
    if "ev c u = Some (a, e)" "ev e v = Some (b, d)" and g: "\<And>a b. is_top a \<or> is_top b \<Longrightarrow> is_top (g a b)" for u v a b e g
  proof -
    note 1 = evaluator_okD [OF ev t(1) that(1)]
    note 2 = evaluator_okD [OF ev 1(1) that(2)]
    have "is_top a \<or> val_done fn d u \<and> lc_value_ranges d u = a" using 1(4) extends_keeps [OF 2(2)] by (auto simp: keeps_def)
    then show ?thesis using 2 1 g extends_trans by blast
  qed
  note two = this
  show ?thesis
  proof (cases lf)
    case True
    then obtain a e b where *: "ev c l = Some (a, e)" "ev e r = Some (b, d)" "x = f a b"
      using t(2) by (auto simp: eval_two_def split: option.splits)
    show ?thesis using two [OF *(1,2), of f] f *(3) by blast
  next
    case False
    then obtain a e b where *: "ev c r = Some (a, e)" "ev e l = Some (b, d)" "x = f b a"
      using t(2) by (auto simp: eval_two_def split: option.splits)
    show ?thesis using two [OF *(1,2), of "\<lambda>a b. f b a"] f *(3) by blast
  qed
qed

lemma eval_op_tables:
  assumes v: "evaluator_ok fn F (local_eval_value fuel lf fn)"
    and a: "\<And>c a r d. tables_ok fn F c \<Longrightarrow> local_eval_alloca fuel lf fn c a = Some (r, d) \<Longrightarrow>
      tables_ok fn F d \<and> range_i64 r \<and> (is_top r \<or> slot_done fn d a \<and> lc_alloca_ranges d a = r)"
    and t: "tables_ok fn F c" "local_eval_op fuel lf fn c v op = Some (r, d)"
  shows "tables_ok fn F d \<and> range_i64 r \<and> (is_top r \<or> justified_op fn d v op r)"
proof -
  have two: "tables_ok fn F d \<and> (is_top r \<or> val_done fn d l \<and> val_done fn d q \<and> r = f (lc_value_ranges d l) (lc_value_ranges d q))"
    if "eval_two lf (local_eval_value fuel lf fn) f c l q = Some (r, d)" "\<And>a b. is_top a \<or> is_top b \<Longrightarrow> is_top (f a b)" for f l q
    using eval_two_tables [OF v t(1) that] by blast
  have i: "range_i64 r" if "eval_two lf (local_eval_value fuel lf fn) f c l q = Some (r, d)" "\<And>a b. range_i64 (f a b)" for f l q
    using that by (auto simp: eval_two_def split: if_splits option.splits)
  have loop: "tables_ok fn F d \<and> range_i64 r \<and> (is_top r \<or> (\<forall>u\<in>set vs. val_done fn d u \<and> within (lc_value_ranges d u) r))"
    if "union_loop (local_eval_value fuel lf fn) c vs None = Some (r, d)" for vs
    using union_loop_tables [OF v t(1) _ that] by auto
  show ?thesis
    using t(2)
  proof (cases op)
    case (IRON_LIR_ADD l q) then show ?thesis using two [of range_add l q] i [of range_add l q] t by (simp add: local_eval_op_def justified_op_def range_arith_top)
  next
    case (IRON_LIR_SUB l q) then show ?thesis using two [of range_sub l q] i [of range_sub l q] t by (simp add: local_eval_op_def justified_op_def range_arith_top)
  next
    case (IRON_LIR_MUL l q) then show ?thesis using two [of range_mul l q] i [of range_mul l q] t by (simp add: local_eval_op_def justified_op_def range_arith_top)
  next
    case (IRON_LIR_PHI vs ps) then show ?thesis using loop t by (simp add: local_eval_op_def justified_op_def)
  next
    case (IRON_LIR_LOAD p) then show ?thesis using a [OF t(1), of p r d] t by (auto simp: local_eval_op_def justified_op_def)
  next
    case (IRON_LIR_ALLOCA ty nm gl) then show ?thesis using a [OF t(1), of v r d] t by (auto simp: local_eval_op_def justified_op_def)
  qed (use t in \<open>auto simp: local_eval_op_def justified_op_def\<close>)
qed

theorem eval_tables:
  "evaluator_ok fn F (local_eval_value fuel lf fn)"
  "tables_ok fn F c \<Longrightarrow> local_eval_alloca fuel lf fn c a = Some (r, d) \<Longrightarrow>
    tables_ok fn F d \<and> range_i64 r \<and> (is_top r \<or> slot_done fn d a \<and> lc_alloca_ranges d a = r)"
proof (induction fuel arbitrary: c a r d)
  case 0
  { case 1 show ?case by (simp add: evaluator_ok_def) }
  { case 2 then show ?case by simp }
next
  case (Suc fuel)
  { case 1
    show ?case
      unfolding evaluator_ok_def
    proof (intro allI impI)
      fix c v r d assume t: "tables_ok fn F c" and e: "local_eval_value (Suc fuel) lf fn c v = Some (r, d)"
      from e show "tables_ok fn F d \<and> extends c d \<and> range_i64 r \<and> (is_top r \<or> val_done fn d v \<and> lc_value_ranges d v = r)"
      proof (cases rule: eval_value_cases)
        case Top
        then show ?thesis using t by (simp add: range_i64_def)
      next
        case Memo
        then show ?thesis using t by (auto simp: tables_ok_def val_done_def)
      next
        case (Fresh i b)
        have ext: "extends (c\<lparr>lc_value_state := (lc_value_state c)(v := 1)\<rparr>) b"
          using Fresh(6) by (rule eval_op_ext)
        then have "lc_value_state b v = 1" "lc_observable b v = lc_observable c v" by (auto simp: extends_def)
        moreover have "tables_ok fn F b \<and> range_i64 r \<and> (is_top r \<or> justified_op fn b v (i_op i) r)"
          by (rule eval_op_tables [OF Suc.IH(1) _ tables_ok_visit(1) [OF t Fresh(4)] Fresh(6)]) (fact Suc.IH(2))
        ultimately show ?thesis
          using tables_ok_value [of fn F b v i r] Fresh eval_extends(1) [OF e] by (auto simp: val_done_def)
      qed
    qed }
  { case 2
    from 2(2) show ?case
    proof (cases rule: eval_alloca_cases)
      case Top
      then show ?thesis using 2 by (simp add: range_i64_def)
    next
      case Memo
      then show ?thesis using 2 by (auto simp: tables_ok_def slot_done_def)
    next
      case (Fresh b)
      have "extends (c\<lparr>lc_alloca_state := (lc_alloca_state c)(a := 1)\<rparr>) b"
        using Fresh(5) by (rule eval_loop_ext)
      then have "lc_alloca_state b a = 1" "lc_eligible b a" using Fresh(3) by (auto simp: extends_def)
      moreover have "tables_ok fn F b \<and> range_i64 r \<and> (is_top r \<or> justified_slot fn b a r)"
        using union_loop_tables [OF Suc.IH(1) tables_ok_visit(2) [OF 2(1) Fresh(4)] _ Fresh(5)] by (auto simp: justified_slot_def)
      ultimately show ?thesis
        using tables_ok_alloca [of fn F b a r] Fresh by (auto simp: slot_done_def)
    qed }
qed

lemma eval_all_tables:
  "tables_ok fn F c \<Longrightarrow> local_eval_all fuel lf fn c vs = Some d \<Longrightarrow> tables_ok fn F d \<and> extends c d"
proof (induction vs arbitrary: c)
  case (Cons v vs)
  then obtain r e where e: "local_eval_value fuel lf fn c v = Some (r, e)" "local_eval_all fuel lf fn e vs = Some d"
    by (auto split: option.splits)
  note ok = evaluator_okD [OF eval_tables(1) Cons.prems(1) e(1)]
  show ?case using Cons.IH [OF ok(1) e(2)] ok(2) extends_trans by blast
qed simp

end
