(* ===== verification/Local_Sound.thy ===== *)
theory Local_Sound
  imports Local_Range
begin

text \<open>
  Consistent tables bound every run: in every reachable state of a function the words of its values and
  slots lie in the known ranges. What the tables take for granted of some slots is a hypothesis here; for
  the slots of loop counters the theory on induction slots discharges it.
\<close>

section \<open>The context before the evaluation\<close>

lemma reject_fold:
  "lc_observable (fold (reject_alloca fn) vs c) v \<longleftrightarrow> lc_observable c v \<or> v \<in> set vs \<and> v \<noteq> 0 \<and> v < local_value_count fn"
  "lc_eligible (fold (reject_alloca fn) vs c) v \<longleftrightarrow> lc_eligible c v \<and> \<not> (v \<in> set vs \<and> v \<noteq> 0 \<and> v < local_value_count fn)"
  "lc_value_ranges (fold (reject_alloca fn) vs c) = lc_value_ranges c" "lc_alloca_ranges (fold (reject_alloca fn) vs c) = lc_alloca_ranges c"
  "lc_value_state (fold (reject_alloca fn) vs c) = lc_value_state c" "lc_alloca_state (fold (reject_alloca fn) vs c) = lc_alloca_state c"
  by (induction vs arbitrary: c) (auto simp: reject_alloca_def)

lemma mark_fold:
  fixes js :: "lir_instr list" and fn :: lir_func
  defines "m \<equiv> fold (\<lambda>i. fold (reject_alloca fn) (local_rejects fn (i_op i)))"
  shows "lc_observable (m js c) v \<longleftrightarrow> lc_observable c v \<or> (\<exists>i\<in>set js. v \<in> set (local_rejects fn (i_op i))) \<and> v \<noteq> 0 \<and> v < local_value_count fn"
    "lc_eligible (m js c) v \<longleftrightarrow> lc_eligible c v \<and> \<not> ((\<exists>i\<in>set js. v \<in> set (local_rejects fn (i_op i))) \<and> v \<noteq> 0 \<and> v < local_value_count fn)"
    "lc_value_ranges (m js c) = lc_value_ranges c" "lc_alloca_ranges (m js c) = lc_alloca_ranges c"
    "lc_value_state (m js c) = lc_value_state c" "lc_alloca_state (m js c) = lc_alloca_state c"
  unfolding m_def by (induction js arbitrary: c) (auto simp: reject_fold)

lemma eligible_fold:
  "fold (\<lambda>i e. if local_eligible_alloca fn i then e(i_id i := True) else e) js e v \<longleftrightarrow>
    e v \<or> (\<exists>i\<in>set js. local_eligible_alloca fn i \<and> i_id i = v)"
  by (induction js arbitrary: e) auto

lemma ctx_init_simps:
  "lc_observable (local_ctx_init fn) v \<longleftrightarrow> (\<exists>i\<in>set (fn_instrs fn). v \<in> set (local_rejects fn (i_op i))) \<and> v \<noteq> 0 \<and> v < local_value_count fn"
  "lc_eligible (local_ctx_init fn) v \<longleftrightarrow> (\<exists>i\<in>set (fn_instrs fn). local_eligible_alloca fn i \<and> i_id i = v) \<and> \<not> lc_observable (local_ctx_init fn) v"
  "lc_value_ranges (local_ctx_init fn) = (\<lambda>_. RANGE_TOP)" "lc_alloca_ranges (local_ctx_init fn) = (\<lambda>_. RANGE_TOP)"
  "lc_value_state (local_ctx_init fn) = (\<lambda>_. 0)" "lc_alloca_state (local_ctx_init fn) = (\<lambda>_. 0)"
  by (auto simp: local_ctx_init_def local_mark_observable_allocas_def mark_fold eligible_fold)

lemma ctx_init_tables: "tables_ok fn F (local_ctx_init fn)"
  by (simp add: tables_ok_def val_done_def slot_done_def ctx_init_simps)

section \<open>Observable storage is marked\<close>

text \<open>The walk to the slot of every address ends within the 32 steps the analysis follows.\<close>

fun path_short :: "lir_func \<Rightarrow> nat \<Rightarrow> vid \<Rightarrow> bool" where
  "path_short fn 0 v = False"
| "path_short fn (Suc depth) v =
    (case lookup_value_instr fn v of
       None \<Rightarrow> True
     | Some d \<Rightarrow> (case storage_parent (i_op d) of None \<Rightarrow> True | Some u \<Rightarrow> path_short fn depth u))"

definition paths_short :: "lir_func \<Rightarrow> bool" where
  "paths_short fn \<longleftrightarrow> list_all (\<lambda>i. case i_op i of IRON_LIR_ADDR_OF t \<Rightarrow> path_short fn 32 t | _ \<Rightarrow> True) (fn_instrs fn)"

lemma lookup_below: "lookup_value_instr fn v = Some i \<Longrightarrow> v \<noteq> 0 \<and> v < local_value_count fn"
  by (auto simp: lookup_value_instr_def local_value_count_def split: if_splits)

lemma walk_complete:
  "storage_path fn v a \<Longrightarrow> path_short fn n v \<Longrightarrow> a \<noteq> 0 \<Longrightarrow> a < local_value_count fn \<Longrightarrow> a \<in> set (local_storage_walk fn n v)"
proof (induction arbitrary: n rule: storage_path.induct)
  case (sp_here v)
  then show ?case by (cases n) auto
next
  case (sp_back v d u a)
  then obtain k where k: "n = Suc k" by (cases n) auto
  then have "path_short fn k u" using sp_back by simp
  then show ?case using sp_back k lookup_below [OF sp_back.hyps(1)] by auto
qed

lemma hands_out_rejected:
  assumes "paths_short fn" "i \<in> set (fn_instrs fn)" "v \<in> hands_out fn (i_op i)" "v \<noteq> 0" "v < local_value_count fn"
  shows "v \<in> set (local_rejects fn (i_op i))"
proof (cases "i_op i")
  case (IRON_LIR_ADDR_OF t)
  then have "path_short fn 32 t" "storage_path fn t v" using assms(1-3) by (auto simp: paths_short_def list_all_iff)
  then show ?thesis using walk_complete assms(4,5) IRON_LIR_ADDR_OF by simp
next
  case (IRON_LIR_CALL fd fp as self by_addr)
  have "as ! k \<in> set (map fst (filter snd (zip as by_addr)))" if "k < length as" "k < length by_addr" "by_addr ! k" for k
    using that by (force simp: set_zip image_iff)
  then show ?thesis using assms(3) IRON_LIR_CALL by auto
qed (use assms(3) in auto)

lemma eligible_alloca:
  assumes "values_ok fn" "lc_eligible (local_ctx_init fn) a" "a \<noteq> 0"
  obtains i where "lookup_value_instr fn a = Some i" "local_eligible_alloca fn i"
  using assms by (auto simp: ctx_init_simps values_ok_def list_all_iff)

text \<open>Neither an eligible slot nor a value that is not observable changes by itself.\<close>

lemma eligible_stable:
  assumes "values_ok fn" "paths_short fn" "lc_eligible (local_ctx_init fn) a" "a \<noteq> 0"
  shows "\<not> unstable fn a" "is_slot fn a" "local_is_generic_integer (value_type fn a)"
proof -
  obtain i where i: "lookup_value_instr fn a = Some i" "local_eligible_alloca fn i" using eligible_alloca assms by blast
  have "\<not> lc_observable (local_ctx_init fn) a" using assms(3) by (simp add: ctx_init_simps)
  then show "\<not> unstable fn a"
    using i lookup_below [OF i(1)] hands_out_rejected [OF assms(2)] by (auto simp: unstable_def ctx_init_simps local_eligible_alloca_def)
  show "is_slot fn a" "local_is_generic_integer (value_type fn a)"
    using i by (auto simp: is_slot_def value_type_def local_eligible_alloca_def)
qed

lemma unobservable_stable:
  assumes "paths_short fn" "\<not> lc_observable (local_ctx_init fn) v" "v \<noteq> 0" "v < local_value_count fn" "\<not> is_slot fn v"
  shows "\<not> unstable fn v"
  using assms hands_out_rejected [OF assms(1)] by (auto simp: unstable_def ctx_init_simps is_slot_def)

section \<open>Every run stays in the ranges\<close>

text \<open>
  The types of the program: the operands of arithmetic and joins of a generic integer, and what is stored in
  a slot of one, are generic integers (or parameters).
\<close>

definition generic_operand :: "lir_func \<Rightarrow> vid \<Rightarrow> bool" where
  "generic_operand fn v \<longleftrightarrow> lookup_value_instr fn v = None \<or> local_is_generic_integer (value_type fn v)"

definition well_typed :: "lir_func \<Rightarrow> bool" where
  "well_typed fn \<longleftrightarrow> list_all (\<lambda>i. case i_op i of
      IRON_LIR_ADD l r \<Rightarrow> local_is_generic_integer (i_type i) \<longrightarrow> generic_operand fn l \<and> generic_operand fn r
    | IRON_LIR_SUB l r \<Rightarrow> local_is_generic_integer (i_type i) \<longrightarrow> generic_operand fn l \<and> generic_operand fn r
    | IRON_LIR_MUL l r \<Rightarrow> local_is_generic_integer (i_type i) \<longrightarrow> generic_operand fn l \<and> generic_operand fn r
    | IRON_LIR_PHI vs ps \<Rightarrow> local_is_generic_integer (i_type i) \<longrightarrow> list_all (generic_operand fn) vs
    | IRON_LIR_STORE p v \<Rightarrow> local_is_generic_integer (value_type fn p) \<longrightarrow> generic_operand fn v
    | _ \<Rightarrow> True) (fn_instrs fn)"

definition slot_fits :: "local_ctx \<Rightarrow> lir_state \<Rightarrow> vid \<Rightarrow> bool" where
  "slot_fits c s a \<longleftrightarrow> (\<forall>w. ls_slots s a = Some w \<longrightarrow> in_range (sint w) (lc_alloca_ranges c a))"

definition val_fits :: "local_ctx \<Rightarrow> lir_state \<Rightarrow> vid \<Rightarrow> bool" where
  "val_fits c s v \<longleftrightarrow> (\<forall>w. ls_vals s v = Some w \<longrightarrow> in_range (sint w) (lc_value_ranges c v))"

definition state_fits :: "lir_func \<Rightarrow> local_ctx \<Rightarrow> lir_state \<Rightarrow> bool" where
  "state_fits fn c s \<longleftrightarrow> (\<forall>a. slot_done fn c a \<longrightarrow> slot_fits c s a) \<and>
    (\<forall>v. val_done fn c v \<longrightarrow> \<not> is_slot fn v \<longrightarrow> local_is_generic_integer (value_type fn v) \<longrightarrow> val_fits c s v)"

text \<open>The tables of the analysis and the function they are of.\<close>

definition analysed :: "lir_func \<Rightarrow> vid set \<Rightarrow> local_ctx \<Rightarrow> bool" where
  "analysed fn F c \<longleftrightarrow> values_ok fn \<and> paths_short fn \<and> well_typed fn \<and> tables_ok fn F c \<and>
    lc_eligible c = lc_eligible (local_ctx_init fn) \<and> lc_observable c = lc_observable (local_ctx_init fn)"

lemma read_fits:
  assumes "analysed fn F c" "state_fits fn c s" "val_done fn c v" "generic_operand fn v" "read_value fn s v = Some w"
  shows "in_range (sint w) (lc_value_ranges c v)"
proof -
  obtain i where i: "lookup_value_instr fn v = Some i" "justified_op fn c v (i_op i) (lc_value_ranges c v)"
    using assms(1,3) by (auto simp: analysed_def tables_ok_def)
  show ?thesis
  proof (cases "is_slot fn v")
    case True
    then have "slot_done fn c v" "lc_value_ranges c v = lc_alloca_ranges c v"
      using i by (auto simp: is_slot_def justified_op_def split: lir_op.splits)
    then show ?thesis using assms(2,5) True by (auto simp: state_fits_def slot_fits_def read_value_def)
  next
    case False
    then show ?thesis using assms i(1) by (auto simp: state_fits_def val_fits_def read_value_def generic_operand_def)
  qed
qed

lemma slot_done_stable:
  assumes "analysed fn F c" "slot_done fn c a"
  shows "\<not> unstable fn a" "is_slot fn a" "local_is_generic_integer (value_type fn a)"
  using assms eligible_stable [of fn a] by (auto simp: analysed_def slot_done_def)

lemma val_done_stable: "analysed fn F c \<Longrightarrow> val_done fn c v \<Longrightarrow> \<not> is_slot fn v \<Longrightarrow> \<not> unstable fn v"
  using unobservable_stable [of fn v] by (auto simp: analysed_def val_done_def)

lemma current_instr: "current fn s = Some i \<Longrightarrow> i \<in> set (fn_instrs fn)"
  by (auto simp: current_def fn_instrs_def split: if_splits intro!: bexI [of _ "f_blocks fn ! ls_block s"])

text \<open>The word an instruction computes lies in the range of its value.\<close>

lemma computes_fits:
  assumes "analysed fn F c" "state_fits fn c s" "i \<in> set (fn_instrs fn)" "computes fn s i w"
    and v: "val_done fn c (i_id i)" "local_is_generic_integer (i_type i)"
  shows "in_range (sint w) (lc_value_ranges c (i_id i))"
proof -
  have "lookup_value_instr fn (i_id i) = Some i"
    using assms(1,3) v(1) by (auto simp: analysed_def values_ok_def list_all_iff val_done_def)
  then have j: "justified_op fn c (i_id i) (i_op i) (lc_value_ranges c (i_id i))"
    using assms(1) v(1) by (auto simp: analysed_def tables_ok_def)
  have ty: "case i_op i of
      IRON_LIR_ADD l r \<Rightarrow> generic_operand fn l \<and> generic_operand fn r
    | IRON_LIR_SUB l r \<Rightarrow> generic_operand fn l \<and> generic_operand fn r
    | IRON_LIR_MUL l r \<Rightarrow> generic_operand fn l \<and> generic_operand fn r
    | IRON_LIR_PHI vs ps \<Rightarrow> list_all (generic_operand fn) vs | _ \<Rightarrow> True"
    using assms(1,3) v(2) by (force simp: analysed_def well_typed_def list_all_iff split: lir_op.splits)
  note rd = read_fits [OF assms(1,2)]
  from assms(4) show ?thesis
  proof cases
    case (arith l f r a b)
    then show ?thesis
      using j ty rd [of l a] rd [of r b] by (cases "i_op i") (auto simp: justified_op_def intro: range_arith_sound)
  next
    case (phi vs ps k)
    then have "vs ! k \<in> set vs" by simp
    then show ?thesis using phi j ty rd [of "vs ! k" w] by (auto simp: justified_op_def within_def list_all_iff)
  next
    case (load p)
    then show ?thesis using j assms(2) by (auto simp: justified_op_def state_fits_def slot_fits_def)
  next
    case (load_any p)
    then show ?thesis using j slot_done_stable(2) [OF assms(1)] by (auto simp: justified_op_def)
  qed (use j v(2) in \<open>auto simp: justified_op_def split: lir_op.splits\<close>)
qed

lemma stored_fits:
  assumes "analysed fn F c" "state_fits fn c s" "i \<in> set (fn_instrs fn)" "i_op i = IRON_LIR_STORE p v"
    and "slot_done fn c p" "p \<notin> F" "read_value fn s v = Some w"
  shows "in_range (sint w) (lc_alloca_ranges c p)"
proof -
  have "v \<in> set (stored_values fn p)"
    using assms(3,4) by (force simp: stored_values_def List.map_filter_def)
  then have "val_done fn c v" "within (lc_value_ranges c v) (lc_alloca_ranges c p)"
    using assms(1,5,6) by (auto simp: analysed_def tables_ok_def justified_slot_def)
  moreover have "generic_operand fn v"
    using assms(1,3,4) slot_done_stable(3) [OF assms(1,5)] by (force simp: analysed_def well_typed_def list_all_iff)
  ultimately show ?thesis using read_fits [OF assms(1,2)] assms(7) by (auto simp: within_def)
qed

lemma disturbed_fits:
  assumes "analysed fn F c" "state_fits fn c s" "disturbed fn s t"
  shows "state_fits fn c t"
  using assms(2,3) slot_done_stable(1) [OF assms(1)] val_done_stable [OF assms(1)]
  by (auto simp: state_fits_def disturbed_def slot_fits_def val_fits_def)

lemma state_fits_move [simp]:
  "state_fits fn c (s\<lparr>ls_pc := k\<rparr>) = state_fits fn c s"
  "state_fits fn c (s\<lparr>ls_block := j, ls_pc := k, ls_prev := b\<rparr>) = state_fits fn c s"
  by (simp_all add: state_fits_def slot_fits_def val_fits_def)

lemma executes_fits:
  assumes "analysed fn F c" "state_fits fn c s" "i \<in> set (fn_instrs fn)" "executes fn s i t"
    and F: "\<And>a. a \<in> F \<Longrightarrow> slot_done fn c a \<Longrightarrow> slot_fits c t a"
  shows "state_fits fn c t"
  using assms(4)
proof cases
  case (ex_store p v w)
  have "slot_fits c t p" if "slot_done fn c p"
    using F [of p] stored_fits [OF assms(1-3) ex_store(2) that _ ex_store(4)] that ex_store(1) by (cases "p \<in> F") (auto simp: slot_fits_def)
  then show ?thesis using assms(2) ex_store(1) by (auto simp: state_fits_def slot_fits_def val_fits_def)
next
  case (ex_value w)
  have "value_type fn (i_id i) = i_type i" if "val_done fn c (i_id i)"
    using assms(1,3) that ex_value(2,4) by (auto simp: analysed_def values_ok_def list_all_iff value_type_def)
  then show ?thesis
    using assms(2) ex_value(1) computes_fits [OF assms(1-3) ex_value(5)] by (auto simp: state_fits_def slot_fits_def val_fits_def)
qed (use assms(2) in auto)

lemma executes_disturbed_fits:
  assumes "analysed fn F c" "state_fits fn c s" "i \<in> set (fn_instrs fn)" "executes fn s i s1"
    and "disturbed fn (s1\<lparr>ls_pc := k\<rparr>) t" and F: "\<And>a. a \<in> F \<Longrightarrow> slot_done fn c a \<Longrightarrow> slot_fits c t a"
  shows "state_fits fn c t"
proof -
  have "slot_fits c s1 a" if "a \<in> F" "slot_done fn c a" for a
    using F [OF that] slot_done_stable(1) [OF assms(1) that(2)] assms(5) by (auto simp: disturbed_def slot_fits_def)
  then have "state_fits fn c s1" using executes_fits [OF assms(1-4)] by blast
  then show ?thesis using disturbed_fits [OF assms(1) _ assms(5)] by simp
qed

lemma step_fits:
  assumes "analysed fn F c" "state_fits fn c s" "lir_step fn s t"
    and F: "\<And>a. a \<in> F \<Longrightarrow> slot_done fn c a \<Longrightarrow> slot_fits c t a"
  shows "state_fits fn c t"
  using assms(3)
proof cases
  case (step_instr i s1)
  then show ?thesis using executes_disturbed_fits [OF assms(1,2) current_instr [OF step_instr(1)] _ _ F] by blast
next
  case (step_goto i b j)
  then show ?thesis using disturbed_fits [OF assms(1) _ step_goto(4)] assms(2) by simp
qed

lemma initial_fits:
  assumes "analysed fn F c" "lir_initial fn s"
  shows "state_fits fn c s"
proof -
  have "lookup_value_instr fn v \<noteq> None" if "val_done fn c v" for v
    using assms(1) that by (auto simp: analysed_def tables_ok_def)
  then show ?thesis
    using assms(2) slot_done_stable(1) [OF assms(1)] val_done_stable [OF assms(1)]
    by (fastforce simp: state_fits_def lir_initial_def slot_fits_def val_fits_def)
qed

text \<open>The consequence: every reachable state fits, when the slots taken for granted do.\<close>

lemma reachable_fits:
  assumes "analysed fn F c" "lir_reachable fn s"
    and F: "\<And>s a. lir_reachable fn s \<Longrightarrow> a \<in> F \<Longrightarrow> slot_done fn c a \<Longrightarrow> slot_fits c s a"
  shows "state_fits fn c s"
  using assms(2)
proof induction
  case (reach_start s)
  then show ?case using initial_fits [OF assms(1)] by simp
next
  case (reach_step s t)
  then show ?case using step_fits [OF assms(1)] F lir_reachable.reach_step by blast
qed

end
