(* ===== verification/Dominators.thy ===== *)
theory Dominators
  imports Lir
begin

text \<open>
  Dominators of the blocks of a function (value\_range.c, local\_compute\_dominators): the marking of the
  reachable blocks with a stack of blocks still to visit, and the iteration that shrinks the rows of the table
  until nothing changes. The table is exact for every reachable block, and the iteration ends.
\<close>

section \<open>The code\<close>

text \<open>The indices of the edges of a block whose target exists.\<close>

definition succ_indices :: "lir_func \<Rightarrow> nat \<Rightarrow> nat list" where
  "succ_indices fn b = List.map_filter (local_block_index fn) (b_succs (f_blocks fn ! b))"

definition pred_indices :: "lir_func \<Rightarrow> nat \<Rightarrow> nat list" where
  "pred_indices fn b = List.map_filter (local_block_index fn) (b_preds (f_blocks fn ! b))"

lemma local_block_index_less: "local_block_index fn b = Some k \<Longrightarrow> k < length (f_blocks fn) \<and> b_id (f_blocks fn ! k) = b"
  by (auto simp: local_block_index_def find_Some_iff)

lemma edge_indices_less: "k \<in> set (succ_indices fn b) \<Longrightarrow> k < length (f_blocks fn)" "k \<in> set (pred_indices fn b) \<Longrightarrow> k < length (f_blocks fn)"
  by (auto simp: succ_indices_def pred_indices_def List.map_filter_def) (metis local_block_index_less option.sel)+

text \<open>
  A worklist of blocks: the top is taken off, and each of its neighbours that is not marked yet is marked and
  put on.
\<close>

definition push_unmarked :: "nat \<Rightarrow> bool list \<times> nat list \<Rightarrow> bool list \<times> nat list" where
  "push_unmarked nxt = (\<lambda>(marks, work).
    if nxt < length marks \<and> \<not> marks ! nxt then (marks[nxt := True], nxt # work) else (marks, work))"

text \<open>The marks still missing bound what the worklist can yet receive.\<close>

lemma push_measure:
  "fold push_unmarked ks (r, w) = (r', w') \<Longrightarrow> 2 * unmarked r' + length w' \<le> 2 * unmarked r + length w"
proof (induction ks arbitrary: r w)
  case (Cons k ks)
  obtain r1 w1 where k: "push_unmarked k (r, w) = (r1, w1)" by force
  have "2 * unmarked r1 + length w1 \<le> 2 * unmarked r + length w"
    using k unmarked_update [of k r] by (auto simp: push_unmarked_def split: if_splits)
  then show ?case using Cons.IH [of r1 w1] Cons.prems k by simp
qed simp

function mark_loop :: "(nat \<Rightarrow> nat list) \<Rightarrow> bool list \<Rightarrow> nat list \<Rightarrow> bool list" where
  "mark_loop next marks [] = marks"
| "mark_loop next marks (bi # rest) = (case fold push_unmarked (next bi) (marks, rest) of (r, w) \<Rightarrow> mark_loop next r w)"
  by pat_completeness auto
termination
proof (relation "measure (\<lambda>(next, r, w). 2 * unmarked r + length w)", goal_cases)
  case (2 "next" marks bi rest r w)
  from push_measure [OF 2 [symmetric]] show ?case by (simp add: 2 [symmetric])
qed simp

declare mark_loop.simps(2) [simp del]

text \<open>The first table: the entry has only itself, a reachable block every reachable block.\<close>

definition dom_init :: "lir_func \<Rightarrow> bool list \<Rightarrow> bool list list" where
  "dom_init fn reachable = (let n = length (f_blocks fn) in
    map (\<lambda>b. if \<not> reachable ! b then replicate n False
             else if b = 0 then (replicate n False)[0 := True]
             else reachable) [0..<n])"

text \<open>The row of a block: what dominates all its reachable predecessors, and itself.\<close>

definition dom_row :: "lir_func \<Rightarrow> bool list \<Rightarrow> bool list list \<Rightarrow> nat \<Rightarrow> bool list" where
  "dom_row fn reachable tab b =
    (let rows = map ((!) tab) (filter ((!) reachable) (pred_indices fn b));
         nxt = (case rows of [] \<Rightarrow> replicate (length (f_blocks fn)) False | r # rs \<Rightarrow> fold (\<lambda>row acc. map2 (\<and>) acc row) rs r)
     in nxt[b := True])"

definition dom_visit :: "lir_func \<Rightarrow> bool list \<Rightarrow> nat \<Rightarrow> bool list list \<times> bool \<Rightarrow> bool list list \<times> bool" where
  "dom_visit fn reachable b = (\<lambda>(tab, changed).
    if \<not> reachable ! b then (tab, changed)
    else let nxt = dom_row fn reachable tab b
         in if nxt \<noteq> tab ! b then (tab[b := nxt], True) else (tab, changed))"

definition dom_sweep :: "lir_func \<Rightarrow> bool list \<Rightarrow> bool list list \<Rightarrow> bool list list \<times> bool" where
  "dom_sweep fn reachable tab = fold (dom_visit fn reachable) [1..<length (f_blocks fn)] (tab, False)"

partial_function (option) dom_loop :: "lir_func \<Rightarrow> bool list \<Rightarrow> bool list list \<Rightarrow> bool list list option" where
  "dom_loop fn reachable tab =
    (case dom_sweep fn reachable tab of (tab, changed) \<Rightarrow> if changed then dom_loop fn reachable tab else Some tab)"

declare dom_loop.simps [code]

definition local_reachable :: "lir_func \<Rightarrow> bool list" where
  "local_reachable fn = (let n = length (f_blocks fn) in
    if n > 0 then mark_loop (succ_indices fn) ((replicate n False)[0 := True]) [0] else replicate n False)"

text \<open>The table, row by row, and the marks.\<close>

definition local_compute_dominators :: "lir_func \<Rightarrow> (bool list list \<times> bool list) option" where
  "local_compute_dominators fn =
    (let reachable = local_reachable fn
     in case dom_loop fn reachable (dom_init fn reachable) of None \<Rightarrow> None | Some tab \<Rightarrow> Some (tab, reachable))"

section \<open>Paths\<close>

definition edge :: "lir_func \<Rightarrow> nat \<Rightarrow> nat \<Rightarrow> bool" where
  "edge fn u v \<longleftrightarrow> u < length (f_blocks fn) \<and> v \<in> set (succ_indices fn u)"

text \<open>A path from the entry, by the blocks on it.\<close>

inductive cfg_path :: "lir_func \<Rightarrow> nat list \<Rightarrow> nat \<Rightarrow> bool" for fn where
  path_entry: "0 < length (f_blocks fn) \<Longrightarrow> cfg_path fn [0] 0"
| path_edge: "cfg_path fn xs u \<Longrightarrow> edge fn u v \<Longrightarrow> cfg_path fn (xs @ [v]) v"

definition dominates :: "lir_func \<Rightarrow> nat \<Rightarrow> nat \<Rightarrow> bool" where
  "dominates fn d b \<longleftrightarrow> (\<forall>xs. cfg_path fn xs b \<longrightarrow> d \<in> set xs)"

text \<open>The predecessor lists mirror the successor lists.\<close>

definition edges_ok :: "lir_func \<Rightarrow> bool" where
  "edges_ok fn \<longleftrightarrow> list_all (\<lambda>u. list_all (\<lambda>v. v \<in> set (succ_indices fn u) \<longleftrightarrow> u \<in> set (pred_indices fn v)) [0..<length (f_blocks fn)]) [0..<length (f_blocks fn)]"

lemma cfg_path_end: "cfg_path fn xs b \<Longrightarrow> b < length (f_blocks fn) \<and> b \<in> set xs"
  by (induction rule: cfg_path.induct) (auto simp: edge_def edge_indices_less)

lemma edges_okD: "edges_ok fn \<Longrightarrow> v < length (f_blocks fn) \<Longrightarrow> edge fn u v \<longleftrightarrow> u \<in> set (pred_indices fn v)"
  using edge_indices_less(2) [of u fn v] by (cases "u < length (f_blocks fn)") (auto simp: edges_ok_def edge_def list_all_iff)

section \<open>The worklist computes a closure\<close>

definition marks_edge :: "(nat \<Rightarrow> nat list) \<Rightarrow> nat \<Rightarrow> (nat \<times> nat) set" where
  "marks_edge next n = {(u, v). u < n \<and> v < n \<and> v \<in> set (next u)}"

lemma push_fold:
  assumes "fold push_unmarked ks (r, w) = (r', w')"
  shows "length r' = length r" "b < length r \<Longrightarrow> r' ! b \<longleftrightarrow> r ! b \<or> b \<in> set ks" "set w' = set w \<union> {b \<in> set ks. b < length r \<and> \<not> r ! b}"
proof -
  have "length r' = length r \<and> (\<forall>b < length r. r' ! b \<longleftrightarrow> r ! b \<or> b \<in> set ks) \<and> set w' = set w \<union> {b \<in> set ks. b < length r \<and> \<not> r ! b}"
    using assms
  proof (induction ks arbitrary: r w)
    case (Cons k ks)
    then show ?case
      using Cons.IH [of "r[k := True]" "k # w"] Cons.IH [of r w] by (auto simp: push_unmarked_def nth_list_update split: if_splits)
  qed simp
  then show "length r' = length r" "b < length r \<Longrightarrow> r' ! b \<longleftrightarrow> r ! b \<or> b \<in> set ks"
    "set w' = set w \<union> {b \<in> set ks. b < length r \<and> \<not> r ! b}" by blast+
qed

text \<open>What is on the worklist is marked; the neighbours of any other marked block are marked.\<close>

definition work_ok :: "(nat \<Rightarrow> nat list) \<Rightarrow> bool list \<Rightarrow> nat list \<Rightarrow> bool" where
  "work_ok next r w \<longleftrightarrow> (\<forall>b\<in>set w. b < length r \<and> r ! b) \<and>
    (\<forall>(u, v) \<in> marks_edge next (length r). r ! u \<longrightarrow> u \<notin> set w \<longrightarrow> r ! v)"

lemma work_ok_step:
  assumes "work_ok next r (bi # w)" "fold push_unmarked (next bi) (r, w) = (r', w')"
  shows "work_ok next r' w'"
proof -
  note p = push_fold [OF assms(2)]
  have "\<forall>b\<in>set w'. b < length r' \<and> r' ! b" using assms(1) p by (auto simp: work_ok_def)
  moreover have "r' ! v" if e: "(u, v) \<in> marks_edge next (length r')" and "r' ! u" "u \<notin> set w'" for u v
  proof -
    have v: "v < length r" "u < length r" "v \<in> set (next u)" using e p(1) by (auto simp: marks_edge_def)
    have "r ! u" "u \<notin> set w" using that p(2,3) v by auto
    then show ?thesis using assms(1) v p(1,2) e by (cases "u = bi") (auto simp: work_ok_def)
  qed
  ultimately show ?thesis by (auto simp: work_ok_def)
qed

lemma mark_loop_closed:
  "work_ok next r w \<Longrightarrow> work_ok next (mark_loop next r w) [] \<and> length (mark_loop next r w) = length r \<and> (\<forall>b < length r. r ! b \<longrightarrow> mark_loop next r w ! b)"
proof (induction "next" r w rule: mark_loop.induct)
  case (2 "next" r bi rest)
  obtain r' w' where f: "fold push_unmarked (next bi) (r, rest) = (r', w')" by force
  have "mark_loop next r (bi # rest) = mark_loop next r' w'" using f by (simp add: mark_loop.simps(2))
  then show ?case using 2(1) [OF f [symmetric] work_ok_step [OF 2(2) f]] push_fold [OF f] by simp
qed simp

lemma mark_loop_sound:
  "\<forall>b\<in>set w. b < length r \<Longrightarrow> (\<And>b. b < length r \<Longrightarrow> r ! b \<Longrightarrow> P b) \<Longrightarrow> (\<And>b. b \<in> set w \<Longrightarrow> P b) \<Longrightarrow>
    (\<And>u v. P u \<Longrightarrow> (u, v) \<in> marks_edge next (length r) \<Longrightarrow> P v) \<Longrightarrow> b < length r \<Longrightarrow> mark_loop next r w ! b \<Longrightarrow> P b"
proof (induction "next" r w rule: mark_loop.induct)
  case (2 "next" r bi rest)
  obtain r' w' where f: "fold push_unmarked (next bi) (r, rest) = (r', w')" by force
  note p = push_fold [OF f]
  have bi: "P bi" "bi < length r" using 2(2,4) by simp_all
  have n: "P v" if "v \<in> set (next bi)" "v < length r" for v
    using 2(5) [OF bi(1), of v] bi that by (simp add: marks_edge_def)
  show ?case
  proof (rule 2(1) [OF f [symmetric]])
    show "P b" if "b < length r'" "r' ! b" for b using that p(1,2) n 2(3) by auto
    show "P b" if "b \<in> set w'" for b using that p(3) n 2(4) by auto
    show "\<forall>b\<in>set w'. b < length r'" using p(1,3) 2(2) by auto
    show "P v" if "P u" "(u, v) \<in> marks_edge next (length r')" for u v using that p(1) 2(5) by simp
    show "b < length r'" "mark_loop next r' w' ! b" using p(1) 2(6,7) f by (simp_all add: mark_loop.simps(2))
  qed
qed simp

section \<open>The marks are the reachable blocks\<close>

lemma reachable_exact:
  "length (local_reachable fn) = length (f_blocks fn)"
  "b < length (f_blocks fn) \<Longrightarrow> local_reachable fn ! b \<longleftrightarrow> (\<exists>xs. cfg_path fn xs b)"
proof -
  let ?n = "length (f_blocks fn)"
  let ?r = "(replicate ?n False)[0 := True]"
  have ok: "work_ok (succ_indices fn) ?r [0]" if "0 < ?n"
    using that by (auto simp: work_ok_def marks_edge_def nth_list_update split: if_splits)
  note cl = mark_loop_closed [OF ok]
  show len: "length (local_reachable fn) = ?n"
    using cl by (auto simp: local_reachable_def Let_def)
  have "local_reachable fn ! b" if "cfg_path fn xs b" for xs b
    using that
  proof induction
    case path_entry
    then show ?case using cl by (auto simp: local_reachable_def Let_def)
  next
    case (path_edge xs u v)
    then have "0 < ?n" "u < ?n" "v < ?n" using edge_indices_less by (auto simp: edge_def)
    then have "(u, v) \<in> marks_edge (succ_indices fn) ?n" using path_edge by (auto simp: edge_def marks_edge_def)
    then show ?case using cl path_edge.IH \<open>0 < ?n\<close> by (auto simp: local_reachable_def Let_def work_ok_def)
  qed
  moreover have "\<exists>xs. cfg_path fn xs b" if "local_reachable fn ! b" "b < ?n"
  proof (rule mark_loop_sound [of "[0]" ?r "\<lambda>b. \<exists>xs. cfg_path fn xs b" "succ_indices fn" b])
    show "\<exists>xs. cfg_path fn xs v" if "\<exists>xs. cfg_path fn xs u" "(u, v) \<in> marks_edge (succ_indices fn) (length ?r)" for u v
      using that cfg_path.path_edge [of fn _ u v] by (auto simp: marks_edge_def edge_def)
  qed (use that in \<open>auto simp: local_reachable_def Let_def nth_list_update intro: path_entry split: if_splits\<close>)
  ultimately show "b < ?n \<Longrightarrow> local_reachable fn ! b \<longleftrightarrow> (\<exists>xs. cfg_path fn xs b)" by blast
qed

section \<open>The iteration\<close>

abbreviation (input) "nblocks fn \<equiv> length (f_blocks fn)"

definition table_shape :: "lir_func \<Rightarrow> bool list list \<Rightarrow> bool" where
  "table_shape fn tab \<longleftrightarrow> length tab = nblocks fn \<and> (\<forall>row\<in>set tab. length row = nblocks fn)"

text \<open>The reachable predecessors of a block.\<close>

definition live_preds :: "lir_func \<Rightarrow> nat \<Rightarrow> nat set" where
  "live_preds fn b = {p \<in> set (pred_indices fn b). local_reachable fn ! p}"

lemma and_rows:
  "length acc = n \<Longrightarrow> \<forall>row\<in>set rs. length row = n \<Longrightarrow>
    length (fold (\<lambda>row acc. map2 (\<and>) acc row) rs acc) = n \<and>
    (\<forall>d<n. fold (\<lambda>row acc. map2 (\<and>) acc row) rs acc ! d \<longleftrightarrow> acc ! d \<and> (\<forall>row\<in>set rs. row ! d))"
  by (induction rs arbitrary: acc) auto

lemma dom_row_nth:
  assumes "table_shape fn tab" "b < nblocks fn"
  shows "length (dom_row fn (local_reachable fn) tab b) = nblocks fn"
    "d < nblocks fn \<Longrightarrow> dom_row fn (local_reachable fn) tab b ! d \<longleftrightarrow> d = b \<or> live_preds fn b \<noteq> {} \<and> (\<forall>p\<in>live_preds fn b. tab ! p ! d)"
proof -
  define ps where "ps = filter ((!) (local_reachable fn)) (pred_indices fn b)"
  have ps: "set ps = live_preds fn b" by (auto simp: ps_def live_preds_def)
  have rows: "\<forall>row\<in>set (map ((!) tab) ps). length row = nblocks fn"
    using assms(1) edge_indices_less(2) by (auto simp: ps_def table_shape_def)
  have "length (dom_row fn (local_reachable fn) tab b) = nblocks fn \<and>
    (\<forall>d < nblocks fn. dom_row fn (local_reachable fn) tab b ! d \<longleftrightarrow> d = b \<or> live_preds fn b \<noteq> {} \<and> (\<forall>p\<in>live_preds fn b. tab ! p ! d))"
  proof (cases ps)
    case Nil
    then show ?thesis using assms(2) ps by (auto simp: dom_row_def ps_def [symmetric] nth_list_update)
  next
    case (Cons p qs)
    then show ?thesis
      using and_rows [of "tab ! p" "nblocks fn" "map ((!) tab) qs"] rows assms(2)
      by (auto simp: dom_row_def ps_def [symmetric] ps [symmetric] nth_list_update)
  qed
  then show "length (dom_row fn (local_reachable fn) tab b) = nblocks fn"
    "d < nblocks fn \<Longrightarrow> dom_row fn (local_reachable fn) tab b ! d \<longleftrightarrow> d = b \<or> live_preds fn b \<noteq> {} \<and> (\<forall>p\<in>live_preds fn b. tab ! p ! d)"
    by blast+
qed

text \<open>
  The invariant of the iteration: the table contains every dominator, and a row never gains an element from
  its predecessors.
\<close>

definition dom_inv :: "lir_func \<Rightarrow> bool list list \<Rightarrow> bool" where
  "dom_inv fn tab \<longleftrightarrow> table_shape fn tab \<and>
    (\<forall>b d. b < nblocks fn \<longrightarrow> d < nblocks fn \<longrightarrow>
      (tab ! b ! d \<longrightarrow> local_reachable fn ! b \<and> (b = 0 \<longrightarrow> d = 0)) \<and>
      (local_reachable fn ! b \<longrightarrow> dominates fn d b \<longrightarrow> tab ! b ! d) \<and>
      (b \<noteq> 0 \<longrightarrow> local_reachable fn ! b \<longrightarrow> dom_row fn (local_reachable fn) tab b ! d \<longrightarrow> tab ! b ! d))"

lemma dom_invD:
  assumes "dom_inv fn tab" "b < nblocks fn" "d < nblocks fn"
  shows "tab ! b ! d \<Longrightarrow> local_reachable fn ! b" "tab ! 0 ! d \<Longrightarrow> d = 0" "local_reachable fn ! b \<Longrightarrow> dominates fn d b \<Longrightarrow> tab ! b ! d"
    "b \<noteq> 0 \<Longrightarrow> local_reachable fn ! b \<Longrightarrow> dom_row fn (local_reachable fn) tab b ! d \<Longrightarrow> tab ! b ! d"
  using assms unfolding dom_inv_def by (metis gr_zeroI less_zeroE)+

lemma live_preds_edge:
  assumes "edges_ok fn" "b < nblocks fn"
  shows "p \<in> live_preds fn b \<longleftrightarrow> edge fn p b \<and> (\<exists>xs. cfg_path fn xs p)"
  using assms edges_okD [OF assms, of p] reachable_exact(2) [of p fn] edge_indices_less(2) by (auto simp: live_preds_def)

lemma live_preds_nonempty:
  assumes "edges_ok fn" "b < nblocks fn" "b \<noteq> 0" "local_reachable fn ! b"
  shows "live_preds fn b \<noteq> {}"
proof -
  obtain xs where "cfg_path fn xs b" using assms(2,4) reachable_exact(2) by blast
  then obtain u ys where "cfg_path fn ys u" "edge fn u b" using assms(3) by cases auto
  then show ?thesis using live_preds_edge [OF assms(1,2)] by blast
qed

text \<open>What dominates a block, other than itself, dominates its predecessors.\<close>

lemma dominates_preds:
  assumes "edges_ok fn" "b < nblocks fn" "dominates fn d b" "d \<noteq> b" "p \<in> live_preds fn b"
  shows "dominates fn d p"
  unfolding dominates_def
proof (intro allI impI)
  fix xs assume "cfg_path fn xs p"
  then have "cfg_path fn (xs @ [b]) b" using assms(1,2,5) path_edge by (auto simp: live_preds_edge)
  then show "d \<in> set xs" using assms(3,4) by (auto simp: dominates_def)
qed

lemma dom_row_mono:
  assumes "table_shape fn tab" "table_shape fn tab'" "b < nblocks fn" "d < nblocks fn"
    and "\<And>p. p < nblocks fn \<Longrightarrow> tab' ! p ! d \<Longrightarrow> tab ! p ! d"
  shows "dom_row fn (local_reachable fn) tab' b ! d \<Longrightarrow> dom_row fn (local_reachable fn) tab b ! d"
  using assms edge_indices_less(2) by (auto simp: dom_row_nth live_preds_def)

definition trues :: "bool list list \<Rightarrow> nat" where
  "trues tab = sum_list (map (\<lambda>row. length (filter (\<lambda>x. x) row)) tab)"

lemma filter_id_less:
  "length xs = length ys \<Longrightarrow> (\<And>k. k < length xs \<Longrightarrow> xs ! k \<Longrightarrow> ys ! k) \<Longrightarrow> xs \<noteq> ys \<Longrightarrow> length (filter (\<lambda>x. x) xs) < length (filter (\<lambda>x. x) ys)"
proof (induction xs ys rule: list_induct2)
  case (Cons x xs y ys)
  have "ys ! k" if "k < length xs" "xs ! k" for k using Cons.prems(1) [of "Suc k"] that by simp
  then have "xs = ys \<or> length (filter (\<lambda>x. x) xs) < length (filter (\<lambda>x. x) ys)" using Cons.IH by blast
  moreover have "x \<longrightarrow> y" using Cons.prems(1) [of 0] by simp
  ultimately show ?case using Cons.prems(2) by auto
qed simp

lemma trues_update:
  assumes "b < length tab" "length (filter (\<lambda>x. x) row) < length (filter (\<lambda>x. x) (tab ! b))"
  shows "trues (tab[b := row]) < trues tab"
proof -
  have "sum_list (map f (tab[b := row])) + f (tab ! b) = sum_list (map f tab) + f row" for f :: "bool list \<Rightarrow> nat"
    using assms(1) by (induction tab arbitrary: b) (auto simp: nth_Cons split: nat.splits)
  from this [of "\<lambda>row. length (filter (\<lambda>x. x) row)"] show ?thesis using assms(2) by (simp add: trues_def)
qed

text \<open>One visit of a block: nothing changes, or the table loses an entry.\<close>

lemma dom_visit_inv:
  assumes "edges_ok fn" "dom_inv fn tab" "b \<in> {1..<nblocks fn}" "local_reachable fn ! b"
    and row: "row = dom_row fn (local_reachable fn) tab b" "row \<noteq> tab ! b"
  shows "dom_inv fn (tab[b := row])" "trues (tab[b := row]) < trues tab"
proof -
  have sh: "table_shape fn tab" "length tab = nblocks fn" "length (tab ! b) = nblocks fn" "length row = nblocks fn"
    using assms(2,3) dom_row_nth(1) by (auto simp: dom_inv_def table_shape_def row(1))
  have le: "tab ! b ! d" if "d < nblocks fn" "row ! d" for d
    using dom_invD(4) [OF assms(2), of b d] that assms(3,4) row(1) by auto
  have sh': "table_shape fn (tab[b := row])"
    using sh set_update_subset_insert [of tab b row] by (auto simp: table_shape_def)
  have mono: "dom_row fn (local_reachable fn) (tab[b := row]) c ! d \<Longrightarrow> dom_row fn (local_reachable fn) tab c ! d"
    if "c < nblocks fn" "d < nblocks fn" for c d
  proof (rule dom_row_mono [OF sh(1) sh' that])
    show "tab ! p ! d" if "tab[b := row] ! p ! d" for p
      using that le [OF \<open>d < nblocks fn\<close>] by (cases "p = b"; cases "b < length tab") (auto simp: list_update_beyond)
  qed
  have "row ! d" if "dominates fn d b" "d < nblocks fn" for d
  proof -
    have "tab ! p ! d" if "p \<in> live_preds fn b" "d \<noteq> b" for p
    proof -
      have p: "p < nblocks fn" "local_reachable fn ! p" using that(1) edge_indices_less(2) by (auto simp: live_preds_def)
      have "dominates fn d p" using dominates_preds [OF assms(1) _ \<open>dominates fn d b\<close>] that assms(3) by auto
      then show ?thesis using dom_invD(3) [OF assms(2)] p \<open>d < nblocks fn\<close> by blast
    qed
    then show ?thesis
      using dom_row_nth(2) [OF sh(1), of b d] that live_preds_nonempty [OF assms(1)] assms(3,4) row(1) by auto
  qed
  note keep = this
  show "dom_inv fn (tab[b := row])"
    unfolding dom_inv_def
  proof (intro conjI allI impI sh')
    fix c d assume c: "c < nblocks fn" "d < nblocks fn"
    have upd: "tab[b := row] ! c = (if c = b then row else tab ! c)" using c sh(2) by simp
    note old = dom_invD [OF assms(2) c]
    show "local_reachable fn ! c" "c = 0 \<Longrightarrow> d = 0" if "tab[b := row] ! c ! d"
      using that old(1,2) assms(3,4) unfolding upd by (auto split: if_splits)
    show "tab[b := row] ! c ! d" if "local_reachable fn ! c" "dominates fn d c"
      using that keep [of d] old(3) c(2) unfolding upd by auto
    show "tab[b := row] ! c ! d" if "c \<noteq> 0" "local_reachable fn ! c" "dom_row fn (local_reachable fn) (tab[b := row]) c ! d"
      using mono [OF c that(3)] old(4) that row(1) unfolding upd by auto
  qed
  show "trues (tab[b := row]) < trues tab"
    using filter_id_less [of row "tab ! b"] le sh row(2) assms(3) by (intro trues_update) auto
qed

lemma dom_visit_eq:
  "dom_visit fn r b (tab, ch) = (if r ! b \<and> dom_row fn r tab b \<noteq> tab ! b then (tab[b := dom_row fn r tab b], True) else (tab, ch))"
  by (simp add: dom_visit_def Let_def)

lemma dom_sweep_fold:
  assumes "edges_ok fn"
  shows "set bs \<subseteq> {1..<nblocks fn} \<Longrightarrow> dom_inv fn tab \<Longrightarrow> fold (dom_visit fn (local_reachable fn)) bs (tab, ch) = (tab', ch') \<Longrightarrow>
    dom_inv fn tab' \<and> (ch' \<or> \<not> ch \<and> tab' = tab \<and> (\<forall>b\<in>set bs. local_reachable fn ! b \<longrightarrow> dom_row fn (local_reachable fn) tab b = tab ! b)) \<and>
    (ch' \<longrightarrow> ch \<or> trues tab' < trues tab) \<and> trues tab' \<le> trues tab"
proof (induction bs arbitrary: tab ch)
  case (Cons b bs)
  let ?row = "dom_row fn (local_reachable fn) tab b"
  show ?case
  proof (cases "local_reachable fn ! b \<and> ?row \<noteq> tab ! b")
    case True
    note v = dom_visit_inv [OF assms Cons.prems(2) _ conjunct1 [OF True] refl conjunct2 [OF True]]
    have "fold (dom_visit fn (local_reachable fn)) bs (tab[b := ?row], True) = (tab', ch')"
      using Cons.prems(3) True by (simp add: dom_visit_eq)
    from Cons.IH [OF _ v(1) this] show ?thesis using Cons.prems(1) v(2) by auto
  next
    case False
    then have "fold (dom_visit fn (local_reachable fn)) bs (tab, ch) = (tab', ch')"
      using Cons.prems(3) by (auto simp: dom_visit_eq)
    from Cons.IH [OF _ Cons.prems(2) this] show ?thesis using Cons.prems(1) False by auto
  qed
qed simp

lemma dom_loop_returns:
  assumes "edges_ok fn"
  shows "dom_inv fn tab \<Longrightarrow> \<exists>tab'. dom_loop fn (local_reachable fn) tab = Some tab' \<and> dom_inv fn tab' \<and>
    (\<forall>b\<in>{1..<nblocks fn}. local_reachable fn ! b \<longrightarrow> dom_row fn (local_reachable fn) tab' b = tab' ! b)"
proof (induction "trues tab" arbitrary: tab rule: less_induct)
  case less
  obtain t ch where t: "dom_sweep fn (local_reachable fn) tab = (t, ch)" by force
  note s = dom_sweep_fold [OF assms _ less.prems, of "[1..<nblocks fn]" False t ch]
  show ?case
  proof (cases ch)
    case True
    then have "trues t < trues tab" "dom_inv fn t" using s t by (auto simp: dom_sweep_def)
    from less.hyps [OF this] show ?thesis using t True by (subst dom_loop.simps) simp
  next
    case False
    then show ?thesis using s t by (subst dom_loop.simps) (auto simp: dom_sweep_def)
  qed
qed

lemma dom_init_inv:
  assumes "edges_ok fn"
  shows "dom_inv fn (dom_init fn (local_reachable fn))"
proof -
  let ?r = "local_reachable fn" and ?n = "nblocks fn"
  let ?t = "dom_init fn ?r"
  have len: "length ?r = ?n" by (rule reachable_exact)
  have nth: "?t ! b ! d \<longleftrightarrow> ?r ! b \<and> (if b = 0 then d = 0 else ?r ! d)" if "b < ?n" "d < ?n" for b d
    using that by (auto simp: dom_init_def Let_def nth_list_update split: if_splits)
  have sh: "table_shape fn ?t" using len by (auto simp: table_shape_def dom_init_def Let_def)
  have zero: "d = 0" if "dominates fn d 0" "0 < ?n" for d
    using that path_entry [OF that(2)] by (force simp: dominates_def)
  have on_path: "?r ! d" if "dominates fn d b" "b < ?n" "?r ! b" "d < ?n" for b d
  proof -
    have "?r ! x" if "cfg_path fn xs b" "x \<in> set xs" "x < ?n" for xs x
      using that reachable_exact(2) by (induction) (auto intro: path_entry path_edge)
    then show ?thesis using that reachable_exact(2) by (metis dominates_def)
  qed
  have rows: "?r ! d" if "dom_row fn ?r ?t b ! d" "b < ?n" "d < ?n" "?r ! b" for b d
    using that nth edge_indices_less(2) by (auto simp: dom_row_nth [OF sh] live_preds_def split: if_splits)
  show ?thesis
    unfolding dom_inv_def using sh nth zero on_path rows by (auto split: if_splits)
qed

text \<open>A stable table has nothing but dominators.\<close>

lemma stable_dominates:
  assumes "edges_ok fn" "dom_inv fn tab" "cfg_path fn xs b" "d < nblocks fn"
    and "\<forall>b\<in>{1..<nblocks fn}. local_reachable fn ! b \<longrightarrow> dom_row fn (local_reachable fn) tab b = tab ! b"
  shows "tab ! b ! d \<Longrightarrow> d \<in> set xs"
  using assms(3)
proof induction
  case path_entry
  then show ?case using dom_invD(2) [OF assms(2) path_entry(1) assms(4)] by simp
next
  case (path_edge xs u v)
  have v: "v < nblocks fn" "u < nblocks fn" using path_edge(2) edge_indices_less by (auto simp: edge_def)
  show ?case
  proof (cases "v = 0")
    case True
    have "cfg_path fn xs u \<Longrightarrow> 0 \<in> set xs" for xs u by (induction rule: cfg_path.induct) auto
    then show ?thesis using True path_edge dom_invD(2) [OF assms(2) v(1) assms(4)] by simp
  next
    case False
    then have "dom_row fn (local_reachable fn) tab v ! d"
      using assms(5) path_edge.prems dom_invD(1) [OF assms(2) v(1) assms(4)] v(1) by auto
    moreover have "u \<in> live_preds fn v" using path_edge(1,2) v assms(1) by (auto simp: live_preds_edge)
    ultimately have "d = v \<or> tab ! u ! d"
      using dom_row_nth(2) [of fn tab v d] assms(2,4) v(1) by (auto simp: dom_inv_def)
    then show ?thesis using path_edge.IH by auto
  qed
qed

lemma dominators_table:
  assumes "edges_ok fn"
  obtains tab where "local_compute_dominators fn = Some (tab, local_reachable fn)"
    "\<And>b d. b < nblocks fn \<Longrightarrow> d < nblocks fn \<Longrightarrow> tab ! b ! d \<longleftrightarrow> local_reachable fn ! b \<and> dominates fn d b"
proof -
  obtain tab where tab: "dom_loop fn (local_reachable fn) (dom_init fn (local_reachable fn)) = Some tab" "dom_inv fn tab"
      "\<forall>b\<in>{1..<nblocks fn}. local_reachable fn ! b \<longrightarrow> dom_row fn (local_reachable fn) tab b = tab ! b"
    using dom_loop_returns [OF assms dom_init_inv [OF assms]] by blast
  have "tab ! b ! d \<longleftrightarrow> local_reachable fn ! b \<and> dominates fn d b" if "b < nblocks fn" "d < nblocks fn" for b d
    using dom_invD [OF tab(2) that] stable_dominates [OF assms tab(2) _ that(2) tab(3)] by (auto simp: dominates_def)
  then show thesis using that [of tab] tab(1) by (simp add: local_compute_dominators_def)
qed

text \<open>C31: The dominator table is exact and its computation ends: for every function whose predecessor lists mirror its successor
  lists, the marked blocks are those on a path from the entry, and an entry of the table holds precisely when its block is
  reachable and every path from the entry to it passes through the column's block.\<close>

theorem dominators_exact:
  assumes "edges_ok fn"
  shows "\<exists>tab reachable. local_compute_dominators fn = Some (tab, reachable) \<and>
    (\<forall>b d. b < length (f_blocks fn) \<longrightarrow> d < length (f_blocks fn) \<longrightarrow>
      (reachable ! b \<longleftrightarrow> (\<exists>xs. cfg_path fn xs b)) \<and>
      (tab ! b ! d \<longleftrightarrow> (\<exists>xs. cfg_path fn xs b) \<and> (\<forall>xs. cfg_path fn xs b \<longrightarrow> d \<in> set xs)))"
proof -
  obtain tab where tab: "local_compute_dominators fn = Some (tab, local_reachable fn)"
      "\<And>b d. b < nblocks fn \<Longrightarrow> d < nblocks fn \<Longrightarrow> tab ! b ! d \<longleftrightarrow> local_reachable fn ! b \<and> dominates fn d b"
    using dominators_table [OF assms] by blast
  then show ?thesis
    using reachable_exact(2) [of _ fn] unfolding dominates_def by (intro exI [of _ tab] exI [of _ "local_reachable fn"]) blast
qed

text \<open>A branch with a join, and a block nothing leads to.\<close>

definition diamond_example :: lir_func where
  "diamond_example =
    (let blk = (\<lambda>k ps ss. \<lparr>b_id = k, b_label = None, b_instrs = [], b_preds = ps, b_succs = ss\<rparr>)
     in \<lparr>f_name = None, f_is_extern = False, f_blocks = [blk 1 [] [2, 3], blk 2 [1, 4] [4], blk 3 [1] [4], blk 4 [2, 3, 5] [2], blk 5 [] [4]],
         f_next_value_id = 1, f_value_table = [], f_captures = []\<rparr>)"

theorem dominators_exact_witness:
  "(\<exists>xs. cfg_path diamond_example xs 3) \<and> \<not> (\<exists>xs. cfg_path diamond_example xs 3 \<and> 0 \<notin> set xs) \<and>
    (\<exists>xs. cfg_path diamond_example xs 3 \<and> 1 \<notin> set xs) \<and> \<not> (\<exists>xs. cfg_path diamond_example xs 4)"
proof -
  have "edges_ok diamond_example" by code_simp
  from dominators_exact [OF this] obtain tab r where t: "local_compute_dominators diamond_example = Some (tab, r)"
    and ex: "\<And>b d. b < length (f_blocks diamond_example) \<Longrightarrow> d < length (f_blocks diamond_example) \<Longrightarrow>
      (r ! b \<longleftrightarrow> (\<exists>xs. cfg_path diamond_example xs b)) \<and>
      (tab ! b ! d \<longleftrightarrow> (\<exists>xs. cfg_path diamond_example xs b) \<and> (\<forall>xs. cfg_path diamond_example xs b \<longrightarrow> d \<in> set xs))" by blast
  have "local_compute_dominators diamond_example = Some
      ([[True, False, False, False, False], [True, True, False, False, False], [True, False, True, False, False],
        [True, False, False, True, False], [False, False, False, False, False]], [True, True, True, True, False])" by code_simp
  then have v: "tab ! 3 ! 0" "\<not> tab ! 3 ! 1" "r ! 3" "\<not> r ! 4" using t by simp_all
  have n: "length (f_blocks diamond_example) = 5" by code_simp
  show ?thesis using ex [of 3 0] ex [of 3 1] ex [of 4 0] v unfolding n by simp
qed

end
