(* ===== verification/Induction_Slot.thy ===== *)
theory Induction_Slot
  imports Dominators Local_Sound
begin

text \<open>
  Loop counters (value\_range.c, local\_infer\_induction): a slot with one constant initialiser and one update
  by a constant step, in a natural loop whose header compares it with a constant. The range inferred for such
  a slot holds in every run of a function whose blocks have the form the lowering gives them.
\<close>

section \<open>The code\<close>

definition local_value_is_slot :: "lir_func \<Rightarrow> vid \<Rightarrow> vid \<Rightarrow> bool" where
  "local_value_is_slot fn v slot \<longleftrightarrow> v = slot \<or>
    (case lookup_value_instr fn v of None \<Rightarrow> False | Some i \<Rightarrow> i_op i = IRON_LIR_LOAD slot)"

definition local_const_value :: "lir_func \<Rightarrow> vid \<Rightarrow> int option" where
  "local_const_value fn v = (case lookup_value_instr fn v of
      Some i \<Rightarrow> (case i_op i of IRON_LIR_CONST_INT x \<Rightarrow> Some (sint x) | _ \<Rightarrow> None)
    | None \<Rightarrow> None)"

fun local_invert_comparison :: "cmp_kind \<Rightarrow> cmp_kind" where
  "local_invert_comparison IRON_LIR_LT = IRON_LIR_GT"
| "local_invert_comparison IRON_LIR_LTE = IRON_LIR_GTE"
| "local_invert_comparison IRON_LIR_GT = IRON_LIR_LT"
| "local_invert_comparison IRON_LIR_GTE = IRON_LIR_LTE"
| "local_invert_comparison k = k"

definition strstr :: "string \<Rightarrow> string \<Rightarrow> bool" where
  "strstr hay needle \<longleftrightarrow> list_ex (\<lambda>k. take (length needle) (drop k hay) = needle) [0..<Suc (length hay)]"

definition local_is_canonical_loop_header :: "string option \<Rightarrow> bool" where
  "local_is_canonical_loop_header label \<longleftrightarrow>
    (case label of None \<Rightarrow> False | Some l \<Rightarrow> strstr l ''while_header'' \<or> strstr l ''for_header'')"

text \<open>The step of an update: slot plus constant, constant plus slot, or slot minus constant.\<close>

definition local_update_delta :: "lir_func \<Rightarrow> vid \<Rightarrow> lir_op \<Rightarrow> int option" where
  "local_update_delta fn slot op =
    (case op of
       IRON_LIR_ADD l r \<Rightarrow>
         if local_value_is_slot fn l slot \<and> local_const_value fn r \<noteq> None then local_const_value fn r
         else if local_value_is_slot fn r slot \<and> local_const_value fn l \<noteq> None then local_const_value fn l
         else None
     | IRON_LIR_SUB l r \<Rightarrow>
         if local_value_is_slot fn l slot then
           case local_const_value fn r of None \<Rightarrow> None | Some step \<Rightarrow> checked (0 - step)
         else None
     | _ \<Rightarrow> None)"

record store_scan =
  sc_init :: "(nat \<times> int) option"
  sc_update :: "(nat \<times> int) option"
  sc_count :: nat

text \<open>One store to the slot: the initialiser, the update, or a reason to give up.\<close>

definition scan_store :: "lir_func \<Rightarrow> vid \<Rightarrow> nat \<Rightarrow> vid \<Rightarrow> store_scan \<Rightarrow> store_scan option" where
  "scan_store fn slot bi v sc =
    (case local_const_value fn v of
       Some c \<Rightarrow> if sc_init sc \<noteq> None then None else Some (sc\<lparr>sc_init := Some (bi, c), sc_count := Suc (sc_count sc)\<rparr>)
     | None \<Rightarrow> (case lookup_value_instr fn v of
         None \<Rightarrow> None
       | Some e \<Rightarrow>
           if sc_update sc \<noteq> None then None
           else case local_update_delta fn slot (i_op e) of
             None \<Rightarrow> None
           | Some delta \<Rightarrow> if delta = 0 then None else Some (sc\<lparr>sc_update := Some (bi, delta), sc_count := Suc (sc_count sc)\<rparr>)))"

fun scan_stores :: "lir_func \<Rightarrow> vid \<Rightarrow> (nat \<times> lir_instr) list \<Rightarrow> store_scan \<Rightarrow> store_scan option" where
  "scan_stores fn slot [] sc = Some sc"
| "scan_stores fn slot ((bi, i) # rest) sc =
    (case i_op i of
       IRON_LIR_STORE p v \<Rightarrow>
         if p = slot then (case scan_store fn slot bi v sc of None \<Rightarrow> None | Some sc \<Rightarrow> scan_stores fn slot rest sc)
         else scan_stores fn slot rest sc
     | _ \<Rightarrow> scan_stores fn slot rest sc)"

definition placed_instrs :: "lir_func \<Rightarrow> (nat \<times> lir_instr) list" where
  "placed_instrs fn = concat (map (\<lambda>bi. map (Pair bi) (b_instrs (f_blocks fn ! bi))) [0..<length (f_blocks fn)])"

text \<open>The members of the loop of a header, and whether it has a back edge.\<close>

definition header_preds :: "lir_func \<Rightarrow> bool list list \<Rightarrow> nat \<Rightarrow> nat \<Rightarrow> nat list" where
  "header_preds fn tab h b = filter (\<lambda>p. tab ! p ! h) (pred_indices fn b)"

definition loop_members :: "lir_func \<Rightarrow> bool list list \<Rightarrow> nat \<Rightarrow> bool list" where
  "loop_members fn tab h =
    (case fold push_unmarked (header_preds fn tab h h) ((replicate (length (f_blocks fn)) False)[h := True], []) of
       (member, work) \<Rightarrow> mark_loop (header_preds fn tab h) member work)"

text \<open>Whether the update can run again before the header.\<close>

definition inner_succs :: "lir_func \<Rightarrow> bool list \<Rightarrow> nat \<Rightarrow> nat \<Rightarrow> nat list" where
  "inner_succs fn member h b = filter (\<lambda>s. s \<noteq> h \<and> member ! s) (succ_indices fn b)"

function repeat_loop :: "lir_func \<Rightarrow> bool list \<Rightarrow> nat \<Rightarrow> nat \<Rightarrow> bool list \<Rightarrow> nat list \<Rightarrow> bool" where
  "repeat_loop fn member h u seen [] = False"
| "repeat_loop fn member h u seen (bi # rest) =
    (if bi = u then True
     else if bi < length seen \<and> \<not> seen ! bi then repeat_loop fn member h u (seen[bi := True]) (rev (inner_succs fn member h bi) @ rest)
     else repeat_loop fn member h u seen rest)"
  by pat_completeness auto
termination
  by (relation "measures [\<lambda>(fn, member, h, u, seen, work). unmarked seen, \<lambda>(fn, member, h, u, seen, work). length work]")
    (auto simp flip: Suc_le_eq simp: unmarked_update)

text \<open>The range of a counter from its first value, its step and the bound its header checks.\<close>

definition counter_range :: "int \<Rightarrow> int \<Rightarrow> cmp_kind \<Rightarrow> int \<Rightarrow> value_range option" where
  "counter_range init delta k bound =
    (if delta > 0 \<and> (k = IRON_LIR_LT \<or> k = IRON_LIR_LTE) then
       if \<not> (if k = IRON_LIR_LT then init < bound else init \<le> bound) then Some (range_const init)
       else case (if k = IRON_LIR_LT then checked (bound - 1) else Some bound) of
         None \<Rightarrow> None
       | Some current_max \<Rightarrow> (case checked (current_max + delta) of
           None \<Rightarrow> None
         | Some next_max \<Rightarrow> Some (range_of init (if next_max > init then next_max else init)))
     else if delta < 0 \<and> (k = IRON_LIR_GT \<or> k = IRON_LIR_GTE) then
       if \<not> (if k = IRON_LIR_GT then init > bound else init \<ge> bound) then Some (range_const init)
       else case (if k = IRON_LIR_GT then checked (bound + 1) else Some bound) of
         None \<Rightarrow> None
       | Some current_min \<Rightarrow> (case checked (current_min + delta) of
           None \<Rightarrow> None
         | Some next_min \<Rightarrow> Some (range_of (if next_min < init then next_min else init) init))
     else None)"

text \<open>The comparison of a header, with the slot on the left.\<close>

definition header_check :: "lir_func \<Rightarrow> vid \<Rightarrow> vid \<Rightarrow> (cmp_kind \<times> int) option" where
  "header_check fn slot cond =
    (case lookup_value_instr fn cond of
       None \<Rightarrow> None
     | Some i \<Rightarrow> (case i_op i of
         IRON_LIR_CMP k l r \<Rightarrow>
           if k = IRON_LIR_EQ \<or> k = IRON_LIR_NEQ then None
           else if local_value_is_slot fn l slot \<and> local_const_value fn r \<noteq> None then Some (k, the (local_const_value fn r))
           else if local_value_is_slot fn r slot \<and> local_const_value fn l \<noteq> None then Some (local_invert_comparison k, the (local_const_value fn l))
           else None
       | _ \<Rightarrow> None))"

definition infer_at_header :: "lir_func \<Rightarrow> vid \<Rightarrow> bool list list \<Rightarrow> bool list \<Rightarrow> nat \<times> int \<Rightarrow> nat \<times> int \<Rightarrow> nat \<Rightarrow> value_range option" where
  "infer_at_header fn slot tab reachable ini upd h =
    (let header = f_blocks fn ! h; (init_bi, init_value) = ini; (update_bi, delta) = upd in
     if \<not> reachable ! h \<or> \<not> local_is_canonical_loop_header (b_label header) \<or> b_instrs header = [] then None
     else case i_op (last (b_instrs header)) of
       IRON_LIR_BRANCH cond t e \<Rightarrow>
         (case header_check fn slot cond of
            None \<Rightarrow> None
          | Some (k, bound) \<Rightarrow>
              let member = loop_members fn tab h;
                  inside = (\<lambda>b. case local_block_index fn b of None \<Rightarrow> None | Some x \<Rightarrow> Some (member ! x));
                  structure_ok = header_preds fn tab h h \<noteq> [] \<and> length (filter (\<lambda>p. \<not> member ! p) (pred_indices fn h)) = 1 \<and>
                    \<not> member ! init_bi \<and> member ! update_bi \<and> tab ! h ! init_bi \<and> inside t = Some True \<and> inside e = Some False
              in if \<not> structure_ok then None
                 else if repeat_loop fn member h update_bi (replicate (length (f_blocks fn)) False) (rev (inner_succs fn member h update_bi)) then None
                 else counter_range init_value delta k bound)
     | _ \<Rightarrow> None)"

definition local_infer_induction :: "lir_func \<Rightarrow> vid \<Rightarrow> bool list list \<Rightarrow> bool list \<Rightarrow> value_range option" where
  "local_infer_induction fn slot tab reachable =
    (case scan_stores fn slot (placed_instrs fn) \<lparr>sc_init = None, sc_update = None, sc_count = 0\<rparr> of
       None \<Rightarrow> None
     | Some sc \<Rightarrow> (case (sc_init sc, sc_update sc) of
         (Some ini, Some upd) \<Rightarrow>
           if sc_count sc \<noteq> 2 then None
           else (case List.find (\<lambda>h. infer_at_header fn slot tab reachable ini upd h \<noteq> None) [0..<length (f_blocks fn)] of
               None \<Rightarrow> None
             | Some h \<Rightarrow> infer_at_header fn slot tab reachable ini upd h)
       | _ \<Rightarrow> None))"

section \<open>The analysis of a function\<close>

definition infer_slot :: "lir_func \<Rightarrow> bool list list \<Rightarrow> bool list \<Rightarrow> vid \<Rightarrow> local_ctx \<times> bool \<Rightarrow> local_ctx \<times> bool" where
  "infer_slot fn tab reachable a = (\<lambda>(c, inferred).
    if lc_eligible c a \<and> is_top (lc_alloca_ranges c a) then
      case local_infer_induction fn a tab reachable of
        None \<Rightarrow> (c, inferred)
      | Some r \<Rightarrow> (c\<lparr>lc_alloca_ranges := (lc_alloca_ranges c)(a := r), lc_alloca_state := (lc_alloca_state c)(a := 2)\<rparr>, True)
    else (c, inferred))"

definition infer_slots :: "lir_func \<Rightarrow> bool list list \<Rightarrow> bool list \<Rightarrow> local_ctx \<Rightarrow> local_ctx \<times> bool" where
  "infer_slots fn tab reachable c = fold (infer_slot fn tab reachable) [1..<local_value_count fn] (c, False)"

definition local_fuel :: "lir_func \<Rightarrow> nat" where
  "local_fuel fn = Suc (2 * local_value_count fn)"

definition local_tables :: "bool \<Rightarrow> lir_func \<Rightarrow> local_ctx option" where
  "local_tables lf fn =
    (case local_eval_all (local_fuel fn) lf fn (local_ctx_init fn) [1..<local_value_count fn] of
       None \<Rightarrow> None
     | Some c \<Rightarrow> (case local_compute_dominators fn of
         None \<Rightarrow> None
       | Some (tab, reachable) \<Rightarrow> (case infer_slots fn tab reachable c of
           (c, inferred) \<Rightarrow>
             if inferred then
               local_eval_all (local_fuel fn) lf fn (c\<lparr>lc_value_state := (\<lambda>_. 0), lc_value_ranges := (\<lambda>_. RANGE_TOP)\<rparr>) [1..<local_value_count fn]
             else Some c)))"

text \<open>The tables of the functions analysed so far, in their order; an external function has none.\<close>

type_synonym local_functions = "(lir_func \<times> local_ctx) list"

definition analyze_local_ranges :: "bool \<Rightarrow> lir_func \<Rightarrow> local_functions \<Rightarrow> local_functions option" where
  "analyze_local_ranges lf fn locals =
    (if f_is_extern fn \<or> f_blocks fn = [] \<or> local_value_count fn = 0 then Some locals
     else case local_tables lf fn of None \<Rightarrow> None | Some c \<Rightarrow> Some (locals @ [(fn, c)]))"

fun analyze_all_locals :: "bool \<Rightarrow> lir_func list \<Rightarrow> local_functions \<Rightarrow> local_functions option" where
  "analyze_all_locals lf [] locals = Some locals"
| "analyze_all_locals lf (fn # fns) locals =
    (case analyze_local_ranges lf fn locals of None \<Rightarrow> None | Some locals \<Rightarrow> analyze_all_locals lf fns locals)"

text \<open>The narrower C type of a local; none in a debug build, and none without a proof.\<close>

definition iron_vr_get_local_narrowed_type :: "bool \<Rightarrow> local_functions \<Rightarrow> lir_func \<Rightarrow> vid \<Rightarrow> string option" where
  "iron_vr_get_local_narrowed_type debug_build locals fn v =
    (if v = IRON_LIR_VALUE_INVALID \<or> debug_build then None
     else case List.find (\<lambda>(g, c). g = fn \<and> v < local_value_count g) locals of
       None \<Rightarrow> None
     | Some (g, c) \<Rightarrow> (case lookup_value_instr fn v of
         None \<Rightarrow> None
       | Some i \<Rightarrow>
           let ty = (if is_IRON_LIR_ALLOCA (i_op i) then alloc_type (i_op i) else i_type i)
           in if \<not> local_is_generic_integer ty then None
              else select_local_narrowed_type ty (if is_IRON_LIR_ALLOCA (i_op i) then lc_alloca_ranges c v else lc_value_ranges c v)))"

end
