(* ===== verification/Induction_Sound.thy ===== *)
theory Induction_Sound
  imports Induction_Slot
begin

text \<open>
  Loop counters hold their inferred ranges in every run. The argument follows the code: the loop is entered
  at its header only, every pass through the header checks the counter, and between two passes the update
  runs at most once. Then the analysis as a whole is sound: a local the analysis gives a narrower type fits it
  in every reachable state.
\<close>

section \<open>The form of the blocks\<close>

fun targets :: "lir_op \<Rightarrow> bid list" where
  "targets (IRON_LIR_JUMP t) = [t]"
| "targets (IRON_LIR_BRANCH c t e) = [t, e]"
| "targets (IRON_LIR_SWITCH v d cs) = d # cs"
| "targets _ = []"

text \<open>A block ends with its terminator, and its edges are the terminator's.\<close>

definition blocks_ok :: "lir_func \<Rightarrow> bool" where
  "blocks_ok fn \<longleftrightarrow> list_all (\<lambda>b. list_all (\<lambda>i. \<not> is_terminator (i_op i)) (butlast (b_instrs b)) \<and>
    list_all (\<lambda>i. list_all (\<lambda>t. t \<in> set (b_succs b)) (targets (i_op i))) (b_instrs b)) (f_blocks fn)"

definition stores_slot :: "vid \<Rightarrow> lir_instr \<Rightarrow> bool" where
  "stores_slot slot i \<longleftrightarrow> (case i_op i of IRON_LIR_STORE p v \<Rightarrow> p = slot | _ \<Rightarrow> False)"

text \<open>
  An operand at a position of a block that is the slot itself, a constant of the slot's type, or a load of the
  slot earlier in the block.
\<close>

definition fresh_operand :: "lir_func \<Rightarrow> vid \<Rightarrow> lir_instr list \<Rightarrow> nat \<Rightarrow> vid \<Rightarrow> bool" where
  "fresh_operand fn slot js n v \<longleftrightarrow> value_type fn v = value_type fn slot \<and> \<not> lc_observable (local_ctx_init fn) v \<and>
    (v = slot \<or> local_const_value fn v \<noteq> None \<or> list_ex (\<lambda>l. i_id (js ! l) = v \<and> i_op (js ! l) = IRON_LIR_LOAD slot) [0..<n])"

fun operands_of :: "lir_op \<Rightarrow> (vid \<times> vid) option" where
  "operands_of (IRON_LIR_ADD l r) = Some (l, r)"
| "operands_of (IRON_LIR_SUB l r) = Some (l, r)"
| "operands_of (IRON_LIR_CMP k l r) = Some (l, r)"
| "operands_of _ = None"

text \<open>A value computed from such operands in the block, with no store to the slot before the given position.\<close>

definition fresh_value :: "lir_func \<Rightarrow> vid \<Rightarrow> lir_instr list \<Rightarrow> nat \<Rightarrow> vid \<Rightarrow> bool" where
  "fresh_value fn slot js k e \<longleftrightarrow> e \<noteq> 0 \<and> \<not> lc_observable (local_ctx_init fn) e \<and> list_all (\<lambda>i. \<not> stores_slot slot i) (take k js) \<and>
    list_ex (\<lambda>j. i_id (js ! j) = e \<and> (is_IRON_LIR_CMP (i_op (js ! j)) \<or> local_is_generic_integer (i_type (js ! j))) \<and>
      (case operands_of (i_op (js ! j)) of None \<Rightarrow> False | Some (l, r) \<Rightarrow> fresh_operand fn slot js j l \<and> fresh_operand fn slot js j r)) [0..<k]"

text \<open>
  The form of a counting loop that the argument needs: the header computes its condition and the update its value from
  the slot where they are used.
\<close>

definition loop_form :: "lir_func \<Rightarrow> vid \<Rightarrow> nat \<times> int \<Rightarrow> nat \<Rightarrow> bool" where
  "loop_form fn slot upd h \<longleftrightarrow>
    (let H = b_instrs (f_blocks fn ! h); U = b_instrs (f_blocks fn ! fst upd) in
      list_all (\<lambda>i. \<not> stores_slot slot i) H \<and>
      (case i_op (last H) of IRON_LIR_BRANCH c t e \<Rightarrow> fresh_value fn slot H (length H - 1) c | _ \<Rightarrow> False) \<and>
      list_all (\<lambda>k. case i_op (U ! k) of
          IRON_LIR_STORE p v \<Rightarrow> p = slot \<longrightarrow> local_const_value fn v = None \<longrightarrow> fresh_value fn slot U k v
        | _ \<Rightarrow> True) [0..<length U] \<and>
      list_all (\<lambda>i. case i_op i of
          IRON_LIR_STORE p v \<Rightarrow> p = slot \<longrightarrow> local_const_value fn v \<noteq> None \<longrightarrow> fresh_operand fn slot [] 0 v
        | _ \<Rightarrow> True) (fn_instrs fn))"

text \<open>
  What has to hold of an unsigned counter beside that: the range inferred for it does not go below zero, and the bound its header compares it with is
  not negative as a signed number. The code does not check this (the inference compares the constants of every
  counter as signed numbers), and it is wrong without it: \<open>uint_counter_unsound\<close> below.
\<close>

definition unsigned_counter_ok :: "lir_func \<Rightarrow> vid \<Rightarrow> nat \<Rightarrow> value_range \<Rightarrow> bool" where
  "unsigned_counter_ok fn slot h r \<longleftrightarrow> (value_type fn slot = Some IRON_TYPE_UINT \<longrightarrow> 0 \<le> vr_min r \<and>
    (case i_op (last (b_instrs (f_blocks fn ! h))) of
       IRON_LIR_BRANCH c t e \<Rightarrow> (case header_check fn slot c of None \<Rightarrow> True | Some (k, bound) \<Rightarrow> 0 \<le> bound)
     | _ \<Rightarrow> True))"

text \<open>Every slot, header and range for which the inference at a header succeeds.\<close>

definition all_counters :: "lir_func \<Rightarrow> (vid \<Rightarrow> nat \<times> int \<Rightarrow> nat \<Rightarrow> value_range \<Rightarrow> bool) \<Rightarrow> bool" where
  "all_counters fn P \<longleftrightarrow>
    (case local_compute_dominators fn of None \<Rightarrow> False | Some (tab, reachable) \<Rightarrow>
      list_all (\<lambda>slot. case scan_stores fn slot (placed_instrs fn) \<lparr>sc_init = None, sc_update = None, sc_count = 0\<rparr> of
          None \<Rightarrow> True
        | Some sc \<Rightarrow> (case (sc_init sc, sc_update sc) of
            (Some ini, Some upd) \<Rightarrow> list_all (\<lambda>h. case infer_at_header fn slot tab reachable ini upd h of
                None \<Rightarrow> True | Some r \<Rightarrow> P slot upd h r) [0..<length (f_blocks fn)]
          | _ \<Rightarrow> True)) [1..<local_value_count fn])"

definition loops_canonical :: "lir_func \<Rightarrow> bool" where
  "loops_canonical fn \<longleftrightarrow> all_counters fn (\<lambda>slot upd h r. loop_form fn slot upd h)"

definition unsigned_counters_ok :: "lir_func \<Rightarrow> bool" where
  "unsigned_counters_ok fn \<longleftrightarrow> all_counters fn (\<lambda>slot upd h r. unsigned_counter_ok fn slot h r)"

lemma all_countersD:
  assumes "all_counters fn P" "local_compute_dominators fn = Some (tab, reachable)" "a \<in> {1..<local_value_count fn}"
    "scan_stores fn a (placed_instrs fn) \<lparr>sc_init = None, sc_update = None, sc_count = 0\<rparr> = Some sc" "sc_init sc = Some ini" "sc_update sc = Some upd"
    "h < length (f_blocks fn)" "infer_at_header fn a tab reachable ini upd h = Some r"
  shows "P a upd h r"
proof -
  have "list_all (\<lambda>h. case infer_at_header fn a tab reachable ini upd h of None \<Rightarrow> True | Some r \<Rightarrow> P a upd h r) [0..<length (f_blocks fn)]"
    using bspec [OF assms(1) [unfolded all_counters_def assms(2) option.case prod.case list_all_iff [of _ "[1..<local_value_count fn]"]]
        assms(3) [folded set_upt]]
    by (simp only: assms(4-6) option.case prod.case)
  from bspec [OF this [unfolded list_all_iff], of h] show ?thesis using assms(7,8) by simp
qed

section \<open>Counting\<close>

fun guard_holds :: "cmp_kind \<Rightarrow> int \<Rightarrow> int \<Rightarrow> bool" where
  "guard_holds IRON_LIR_LT x b \<longleftrightarrow> x < b"
| "guard_holds IRON_LIR_LTE x b \<longleftrightarrow> x \<le> b"
| "guard_holds IRON_LIR_GT x b \<longleftrightarrow> x > b"
| "guard_holds IRON_LIR_GTE x b \<longleftrightarrow> x \<ge> b"
| "guard_holds IRON_LIR_EQ x b \<longleftrightarrow> x = b"
| "guard_holds IRON_LIR_NEQ x b \<longleftrightarrow> x \<noteq> b"

lemma counter_range_step:
  assumes "counter_range init delta k bound = Some r" "i64 init" "i64 bound"
  shows "\<not> is_top r" "range_i64 r" "in_range init r"
    "in_range x r \<Longrightarrow> guard_holds k x bound \<Longrightarrow> in_range (x + delta) r"
  using assms by (cases k; auto simp: counter_range_def range_i64_def range_simps i64_def split: if_splits option.splits)+

lemma guard_word:
  fixes a b :: u64
  assumes "\<not> uns \<or> 0 \<le> sint a \<and> 0 \<le> sint b"
  shows "cmp_holds uns k a b \<longleftrightarrow> guard_holds k (sint a) (sint b)"
proof -
  have "uint a = sint a \<and> uint b = sint b" if uns using assms that uint_of_nonneg by blast
  then show ?thesis
    by (cases k; cases uns) (auto simp: word_less_def word_le_def intro: signed_word_eqI)
qed

lemma invert_word: "cmp_holds uns k a b \<longleftrightarrow> cmp_holds uns (local_invert_comparison k) b a"
  by (cases k) auto

section \<open>Values computed in a block\<close>

lemma values_ok_lookup: "values_ok fn \<Longrightarrow> i \<in> set (fn_instrs fn) \<Longrightarrow> i_id i \<noteq> 0 \<Longrightarrow> lookup_value_instr fn (i_id i) = Some i"
  by (simp add: values_ok_def list_all_iff)

lemma reachable_const:
  assumes "values_ok fn" "lookup_value_instr fn v = Some i" "i_op i = IRON_LIR_CONST_INT x" "local_is_generic_integer (i_type i)" "\<not> unstable fn v"
  shows "lir_reachable fn s \<Longrightarrow> ls_vals s v = Some w \<Longrightarrow> w = x"
proof (induction arbitrary: w rule: lir_reachable.induct)
  case (reach_start s)
  then show ?case using assms by (auto simp: lir_initial_def)
next
  case (reach_step s t)
  from reach_step.hyps(2) show ?case
  proof cases
    case (step_instr j s1)
    have s1: "ls_vals s1 v = Some w" using step_instr(4) reach_step.prems assms(5) by (simp add: disturbed_def)
    from step_instr(3) show ?thesis
    proof cases
      case (ex_value y)
      show ?thesis
      proof (cases "i_id j = v")
        case True
        then have "j = i" using assms(1,2) current_instr [OF step_instr(1)] ex_value(4) by (auto simp: values_ok_def list_all_iff)
        then have "y = x" using ex_value(5) assms(3,4) computes_const by blast
        then show ?thesis using s1 ex_value(1) True by simp
      qed (use s1 ex_value(1) reach_step.IH in auto)
    qed (use s1 reach_step.IH in auto)
  next
    case (step_goto j b k)
    then show ?thesis using reach_step assms(5) by (auto simp: disturbed_def)
  qed
qed

text \<open>
  A value of a block that is computed from the slot stays the same function of the slot until the slot is
  stored to.
\<close>

lemma reachable_tracked:
  assumes v: "values_ok fn" "\<not> unstable fn slot" "\<not> unstable fn e" "e \<noteq> 0"
    and i: "B < length (f_blocks fn)" "j < k" "k \<le> length (b_instrs (f_blocks fn ! B))" "i_id (b_instrs (f_blocks fn ! B) ! j) = e"
      "\<not> is_IRON_LIR_ALLOCA (i_op (b_instrs (f_blocks fn ! B) ! j))" "\<not> is_IRON_LIR_STORE (i_op (b_instrs (f_blocks fn ! B) ! j))"
    and n: "list_all (\<lambda>i. \<not> stores_slot slot i) (take k (b_instrs (f_blocks fn ! B)))"
    and F: "\<And>s x. lir_reachable fn s \<Longrightarrow> ls_block s = B \<Longrightarrow> j \<le> ls_pc s \<Longrightarrow> ls_pc s < k \<Longrightarrow>
      computes fn s (b_instrs (f_blocks fn ! B) ! j) x \<Longrightarrow> \<exists>w. ls_slots s slot = Some w \<and> x = f w"
  shows "lir_reachable fn s \<Longrightarrow> ls_block s = B \<Longrightarrow> j < ls_pc s \<Longrightarrow> ls_pc s \<le> k \<Longrightarrow> \<exists>w. ls_slots s slot = Some w \<and> ls_vals s e = Some (f w)"
proof (induction rule: lir_reachable.induct)
  case (reach_start s)
  then show ?case by (simp add: lir_initial_def)
next
  case (reach_step s t)
  let ?js = "b_instrs (f_blocks fn ! B)"
  from reach_step.hyps(2) show ?case
  proof cases
    case (step_instr i s1)
    then have s: "ls_block s = B" "ls_pc t = Suc (ls_pc s)" "i = ?js ! ls_pc s"
      using reach_step.prems(1) by (auto simp: disturbed_def current_def elim!: executes.cases split: if_splits)
    have pc: "j \<le> ls_pc s" "ls_pc s < k" using s reach_step.prems by auto
    have "ls_pc s < length (take k ?js)" using pc i(3) by simp
    then have st: "\<not> stores_slot slot i" using n s(3) pc by (metis list_all_length nth_take)
    have same: "ls_slots t slot = ls_slots s1 slot" "ls_vals t e = ls_vals s1 e" using step_instr(4) v(2,3) by (auto simp: disturbed_def)
    from step_instr(3) have "\<exists>w. ls_slots s1 slot = Some w \<and> ls_vals s1 e = Some (f w)"
    proof cases
      case (ex_value x)
      show ?thesis
      proof (cases "i_id i = e")
        case True
        have "?js ! j \<in> set (fn_instrs fn)" using i(1-3) by (auto simp: fn_instrs_def intro!: bexI [of _ "f_blocks fn ! B"])
        then have "i = ?js ! j" using True v(1,4) i(4) current_instr [OF step_instr(1)] values_ok_lookup by (metis option.inject)
        then show ?thesis using F [OF reach_step.hyps(1) s(1) pc] ex_value True by auto
      next
        case False
        then have "ls_pc s \<noteq> j" using i(4) s(3) by auto
        then show ?thesis using reach_step.IH s(1) pc ex_value(1) False by auto
      qed
    next
      case ex_alloca
      then have "ls_pc s \<noteq> j" using i(5) s(3) by auto
      then show ?thesis using reach_step.IH s(1) pc ex_alloca by auto
    next
      case (ex_store p u w)
      then have "ls_pc s \<noteq> j" "p \<noteq> slot" using i(6) s(3) st by (auto simp: stores_slot_def)
      then show ?thesis using reach_step.IH s(1) pc ex_store(1) by auto
    next
      case (ex_store_any p u)
      then have "ls_pc s \<noteq> j" using i(6) s(3) by auto
      then show ?thesis using reach_step.IH s(1) pc ex_store_any by auto
    next
      case ex_effect
      then have "ls_pc s \<noteq> j" using i(4) v(4) s(3) by auto
      then show ?thesis using reach_step.IH s(1) pc ex_effect by auto
    qed
    then show ?thesis using same by simp
  next
    case (step_goto i b m)
    then show ?thesis using reach_step.prems by (simp add: disturbed_def)
  qed
qed

text \<open>A slot the analysis may give a range.\<close>

definition counter_slot :: "lir_func \<Rightarrow> vid \<Rightarrow> bool" where
  "counter_slot fn slot \<longleftrightarrow> values_ok fn \<and> paths_short fn \<and> slot \<noteq> 0 \<and> lc_eligible (local_ctx_init fn) slot"

lemma counter_slotD:
  assumes "counter_slot fn slot"
  shows "values_ok fn" "paths_short fn" "\<not> unstable fn slot" "is_slot fn slot" "local_is_generic_integer (value_type fn slot)"
  using assms eligible_stable [of fn slot] by (auto simp: counter_slot_def)

text \<open>What an operand reads at a moment: the slot, if it stands for it; its constant, if it is one.\<close>

definition reads_ok :: "lir_func \<Rightarrow> vid \<Rightarrow> lir_state \<Rightarrow> vid \<Rightarrow> bool" where
  "reads_ok fn slot s v \<longleftrightarrow> (\<forall>a. read_value fn s v = Some a \<longrightarrow>
    (local_value_is_slot fn v slot \<longrightarrow> ls_slots s slot = Some a) \<and> (\<forall>c. local_const_value fn v = Some c \<longrightarrow> sint a = c))"

lemma operand_stable:
  assumes "counter_slot fn slot" "fresh_operand fn slot js j v" "lookup_value_instr fn v = Some i" "\<not> is_slot fn v"
  shows "\<not> unstable fn v"
  using unobservable_stable [OF counter_slotD(2) [OF assms(1)]] assms lookup_below [OF assms(3)] by (auto simp: fresh_operand_def)

lemma const_reads:
  assumes c: "counter_slot fn slot" and o: "fresh_operand fn slot js j v" "local_const_value fn v = Some c" and s: "lir_reachable fn s" "read_value fn s v = Some a"
  shows "sint a = c"
proof -
  note cs = counter_slotD [OF c]
  obtain i x where i: "lookup_value_instr fn v = Some i" "i_op i = IRON_LIR_CONST_INT x" "c = sint x"
    using o(2) by (auto simp: local_const_value_def split: option.splits lir_op.splits)
  then have nv: "\<not> is_slot fn v" "value_type fn v = i_type i" by (auto simp: is_slot_def value_type_def)
  then have "a = x"
    using reachable_const [OF cs(1) i(1,2) _ operand_stable [OF c o(1) i(1) nv(1)] s(1)] s(2) o(1) cs(5) by (auto simp: read_value_def fresh_operand_def)
  then show ?thesis using i(3) by simp
qed

lemma fresh_operand_reads:
  assumes c: "counter_slot fn slot" and o: "fresh_operand fn slot js j v" and B: "B < length (f_blocks fn)" "js = b_instrs (f_blocks fn ! B)"
    and n: "list_all (\<lambda>i. \<not> stores_slot slot i) (take k js)" "j < k" "k \<le> length js"
    and s: "lir_reachable fn s" "ls_block s = B" "j \<le> ls_pc s" "ls_pc s \<le> k"
  shows "reads_ok fn slot s v"
proof -
  note cs = counter_slotD [OF c]
  note st = operand_stable [OF c o]
  have slotv: "ls_slots s slot = Some a" if rd: "read_value fn s v = Some a" and sl: "local_value_is_slot fn v slot" for a
  proof (cases "v = slot")
    case False
    then obtain i where i: "lookup_value_instr fn v = Some i" "i_op i = IRON_LIR_LOAD slot"
      using sl by (auto simp: local_value_is_slot_def split: option.splits)
    then have nv: "\<not> is_slot fn v" "local_const_value fn v = None" by (auto simp: is_slot_def local_const_value_def)
    then obtain l where l: "l < j" "i_id (js ! l) = v" "i_op (js ! l) = IRON_LIR_LOAD slot"
      using o False by (auto simp: fresh_operand_def list_ex_iff)
    have "\<exists>w. ls_slots s slot = Some w \<and> ls_vals s v = Some (id w)"
    proof (rule reachable_tracked [OF cs(1,3) st [OF i(1) nv(1)] _ B(1), of l k])
      show "\<exists>w. ls_slots s slot = Some w \<and> x = id w" if "computes fn s (b_instrs (f_blocks fn ! B) ! l) x" for s x
        using computes_load [OF _ cs(4) that] l(3) B(2) by simp
    qed (use l B(2) n s lookup_below [OF i(1)] in auto)
    then show ?thesis using rd nv(1) by (auto simp: read_value_def)
  qed (use rd cs(4) in \<open>simp add: read_value_def\<close>)
  show ?thesis unfolding reads_ok_def using slotv const_reads [OF c o _ s(1)] by blast
qed

lemma fresh_value_reads:
  assumes c: "counter_slot fn slot" and e: "fresh_value fn slot js k e" "lookup_value_instr fn e = Some i" "operands_of (i_op i) = Some (l, r)"
    and B: "B < length (f_blocks fn)" "js = b_instrs (f_blocks fn ! B)" "k \<le> length js"
    and s: "lir_reachable fn s" "ls_block s = B" "ls_pc s = k"
    and F: "\<And>s x. reads_ok fn slot s l \<Longrightarrow> reads_ok fn slot s r \<Longrightarrow> value_type fn l = value_type fn slot \<Longrightarrow> value_type fn r = value_type fn slot \<Longrightarrow>
      is_IRON_LIR_CMP (i_op i) \<or> local_is_generic_integer (i_type i) \<Longrightarrow> computes fn s i x \<Longrightarrow> \<exists>w. ls_slots s slot = Some w \<and> x = f w"
  shows "\<exists>w. ls_slots s slot = Some w \<and> read_value fn s e = Some (f w)"
proof -
  note cs = counter_slotD [OF c]
  obtain j where j: "j < k" "i_id (js ! j) = e" "is_IRON_LIR_CMP (i_op (js ! j)) \<or> local_is_generic_integer (i_type (js ! j))"
      "case operands_of (i_op (js ! j)) of None \<Rightarrow> False | Some (l, r) \<Rightarrow> fresh_operand fn slot js j l \<and> fresh_operand fn slot js j r"
    and e0: "e \<noteq> 0" "\<not> lc_observable (local_ctx_init fn) e" "list_all (\<lambda>i. \<not> stores_slot slot i) (take k js)"
    using e(1) by (auto simp: fresh_value_def list_ex_iff)
  have "js ! j \<in> set (fn_instrs fn)" using j(1) B by (auto simp: fn_instrs_def intro!: bexI [of _ "f_blocks fn ! B"])
  then have ji: "js ! j = i" using values_ok_lookup [OF cs(1)] j(2) e(2) e0(1) by fastforce
  have ns: "\<not> is_slot fn e" using e(2,3) by (cases "i_op i") (auto simp: is_slot_def)
  have st: "\<not> unstable fn e" using unobservable_stable [OF cs(2) e0(2,1) _ ns] lookup_below [OF e(2)] by simp
  have "\<exists>w. ls_slots s slot = Some w \<and> ls_vals s e = Some (f w)"
  proof (rule reachable_tracked [OF cs(1,3) st e0(1) B(1) j(1)])
    show "\<exists>w. ls_slots s slot = Some w \<and> x = f w"
      if "lir_reachable fn s" "ls_block s = B" "j \<le> ls_pc s" "ls_pc s < k" "computes fn s (b_instrs (f_blocks fn ! B) ! j) x" for s x
    proof (rule F)
      show "reads_ok fn slot s l" "reads_ok fn slot s r"
        using fresh_operand_reads [OF c _ B(1,2) e0(3) j(1) B(3) that(1-3)] that(4) j(4) ji e(3) by auto
    qed (use that(5) ji B(2) j(3,4) e(3) in \<open>auto simp: fresh_operand_def\<close>)
    show "\<not> is_IRON_LIR_ALLOCA (i_op (b_instrs (f_blocks fn ! B) ! j))" "\<not> is_IRON_LIR_STORE (i_op (b_instrs (f_blocks fn ! B) ! j))"
      using ji B(2) e(3) by (cases "i_op i"; auto)+
  qed (use B j e0 s in auto)
  then show ?thesis using ns by (simp add: read_value_def)
qed

text \<open>The update adds its step to the slot; the condition of the header compares the slot with its bound.\<close>

lemma update_reads:
  assumes "counter_slot fn slot" "fresh_value fn slot js k v" "lookup_value_instr fn v = Some i" "local_update_delta fn slot (i_op i) = Some d"
    and "B < length (f_blocks fn)" "js = b_instrs (f_blocks fn ! B)" "k \<le> length js"
    and "lir_reachable fn s" "ls_block s = B" "ls_pc s = k"
  shows "\<exists>w. ls_slots s slot = Some w \<and> read_value fn s v = Some (w + word_of_int d)"
proof -
  obtain l r where lr: "i_op i = IRON_LIR_ADD l r \<or> i_op i = IRON_LIR_SUB l r" using assms(4) by (cases "i_op i") (auto simp: local_update_delta_def)
  then have ops: "operands_of (i_op i) = Some (l, r)" by auto
  show ?thesis
  proof (rule fresh_value_reads [OF assms(1-3) ops assms(5-10)])
    fix s x assume r: "reads_ok fn slot s l" "reads_ok fn slot s r" "is_IRON_LIR_CMP (i_op i) \<or> local_is_generic_integer (i_type i)" "computes fn s i x"
    obtain a b where ab: "read_value fn s l = Some a" "read_value fn s r = Some b" "x = (if is_IRON_LIR_ADD (i_op i) then a + b else a - b)"
      using r(3,4) lr computes_arith [of i l "(+)" r] computes_arith [of i l "(-)" r] by auto
    show "\<exists>w. ls_slots s slot = Some w \<and> x = w + word_of_int d"
      using lr
    proof
      assume "i_op i = IRON_LIR_ADD l r"
      then show ?thesis using r(1,2) ab assms(4) by (auto simp: local_update_delta_def reads_ok_def split: if_splits)
    next
      assume "i_op i = IRON_LIR_SUB l r"
      then show ?thesis
        using r(1,2) ab assms(4) by (auto simp: local_update_delta_def reads_ok_def checked_def split: if_splits option.splits)
    qed
  qed
qed

lemma header_reads:
  assumes "counter_slot fn slot" "fresh_value fn slot js k v" "header_check fn slot v = Some (kd, bound)"
    and "B < length (f_blocks fn)" "js = b_instrs (f_blocks fn ! B)" "k \<le> length js"
    and "lir_reachable fn s" "ls_block s = B" "ls_pc s = k"
  shows "\<exists>w. ls_slots s slot = Some w \<and>
    read_value fn s v = Some (if cmp_holds (value_type fn slot = Some IRON_TYPE_UINT) kd w (word_of_int bound) then 1 else 0)"
proof -
  obtain i k0 l r where i: "lookup_value_instr fn v = Some i" "i_op i = IRON_LIR_CMP k0 l r"
    using assms(3) by (auto simp: header_check_def split: option.splits lir_op.splits)
  then have ops: "operands_of (i_op i) = Some (l, r)" by auto
  note g = counter_slotD(5) [OF assms(1)]
  show ?thesis
  proof (rule fresh_value_reads [OF assms(1,2) i(1) ops assms(4-9)])
    fix s x assume r: "reads_ok fn slot s l" "reads_ok fn slot s r" "value_type fn l = value_type fn slot" "value_type fn r = value_type fn slot" "computes fn s i x"
    then obtain a b where ab: "read_value fn s l = Some a" "read_value fn s r = Some b"
        "x = (if cmp_holds (value_type fn slot = Some IRON_TYPE_UINT) k0 a b then 1 else 0)"
      using computes_compare [OF i(2), of fn s x] g by auto
    show "\<exists>w. ls_slots s slot = Some w \<and> x = (if cmp_holds (value_type fn slot = Some IRON_TYPE_UINT) kd w (word_of_int bound) then 1 else 0)"
      using r(1,2) ab assms(3) i invert_word [of "value_type fn slot = Some IRON_TYPE_UINT" k0 a b]
      by (auto simp: header_check_def reads_ok_def split: if_splits)
  qed
qed

section \<open>The loop\<close>

lemma loop_members_eq: "loop_members fn tab h = mark_loop (header_preds fn tab h) ((replicate (length (f_blocks fn)) False)[h := True]) [h]"
  by (simp add: loop_members_def mark_loop.simps(2))

text \<open>The members of the loop of a reachable header: dominated by it, and entered through it only.\<close>

lemma loop_members:
  assumes e: "edges_ok fn" and h: "h < nblocks fn"
    and tab: "\<And>b d. b < nblocks fn \<Longrightarrow> d < nblocks fn \<Longrightarrow> tab ! b ! d \<longleftrightarrow> local_reachable fn ! b \<and> dominates fn d b"
  shows "loop_members fn tab h ! h"
    "v < nblocks fn \<Longrightarrow> loop_members fn tab h ! v \<Longrightarrow> v \<noteq> h \<Longrightarrow> edge fn u v \<Longrightarrow> cfg_path fn xs u \<Longrightarrow> loop_members fn tab h ! u"
proof -
  let ?next = "header_preds fn tab h" and ?r = "(replicate (nblocks fn) False)[h := True]"
  have ok: "work_ok ?next ?r [h]" using h by (auto simp: work_ok_def marks_edge_def nth_list_update split: if_splits)
  note cl = mark_loop_closed [OF ok, folded loop_members_eq]
  show "loop_members fn tab h ! h" using cl h by simp
  have dom: "v = h \<or> tab ! v ! h" if "v < nblocks fn" "loop_members fn tab h ! v" for v
  proof (rule mark_loop_sound [of "[h]" ?r "\<lambda>v. v = h \<or> tab ! v ! h" ?next v])
    show "v = h \<or> tab ! v ! h" if "(u, v) \<in> marks_edge ?next (length ?r)" for u v
      using that by (auto simp: marks_edge_def header_preds_def)
  qed (use that h in \<open>auto simp: loop_members_eq nth_list_update split: if_splits\<close>)
  show "loop_members fn tab h ! u" if v: "v < nblocks fn" "loop_members fn tab h ! v" "v \<noteq> h" and u: "edge fn u v" "cfg_path fn xs u"
  proof -
    have un: "u < nblocks fn" "local_reachable fn ! u" using cfg_path_end u(2) reachable_exact(2) by blast+
    have "u \<in> live_preds fn v" using live_preds_edge [OF e v(1)] u by blast
    moreover have "dominates fn h v" using dom [OF v(1,2)] v(3) tab [OF v(1) h] by simp
    ultimately have "dominates fn h u" using dominates_preds [OF e v(1)] v(3) by blast
    then have "(v, u) \<in> marks_edge ?next (nblocks fn)"
      using un v(1) tab [OF un(1) h] edges_okD [OF e v(1)] u(1) by (auto simp: marks_edge_def header_preds_def)
    then show ?thesis using cl v(2) by (auto simp: work_ok_def)
  qed
qed

text \<open>When the search for a repeated update finds none, the blocks after the update form a closed set without it.\<close>

lemma repeat_loop_none:
  "\<not> repeat_loop fn member h u seen work \<Longrightarrow> length seen = nblocks fn \<Longrightarrow> set work \<subseteq> {..<nblocks fn} \<Longrightarrow>
    (\<And>b. b < nblocks fn \<Longrightarrow> seen ! b \<Longrightarrow> b \<noteq> u \<and> set (inner_succs fn member h b) \<subseteq> {b. b < nblocks fn \<and> seen ! b} \<union> set work) \<Longrightarrow>
    \<exists>A. u \<notin> A \<and> {b. b < nblocks fn \<and> seen ! b} \<union> set work \<subseteq> A \<and> (\<forall>b\<in>A. set (inner_succs fn member h b) \<subseteq> A)"
proof (induction fn member h u seen work rule: repeat_loop.induct)
  case (1 fn member h u seen)
  then show ?case by (intro exI [of _ "{b. b < nblocks fn \<and> seen ! b}"]) auto
next
  case (2 fn member h u seen bi rest)
  have bi: "bi \<noteq> u" "bi < nblocks fn" "bi < length seen" using 2(3-5) by (auto split: if_splits)
  have inner: "set (inner_succs fn member h b) \<subseteq> {..<nblocks fn}" for b
    using edge_indices_less by (auto simp: inner_succs_def)
  show ?case
  proof (cases "seen ! bi")
    case True
    have "\<exists>A. u \<notin> A \<and> {b. b < nblocks fn \<and> seen ! b} \<union> set rest \<subseteq> A \<and> (\<forall>b\<in>A. set (inner_succs fn member h b) \<subseteq> A)"
    proof (rule 2(2) [OF bi(1)])
      show "b \<noteq> u \<and> set (inner_succs fn member h b) \<subseteq> {b. b < nblocks fn \<and> seen ! b} \<union> set rest" if "b < nblocks fn" "seen ! b" for b
        using that bi True 2(6) [of b] by auto
    qed (use 2 bi True in auto)
    then show ?thesis using True bi by auto
  next
    case False
    have "\<exists>A. u \<notin> A \<and> {b. b < nblocks fn \<and> seen[bi := True] ! b} \<union> set (rev (inner_succs fn member h bi) @ rest) \<subseteq> A \<and>
        (\<forall>b\<in>A. set (inner_succs fn member h b) \<subseteq> A)"
    proof (rule 2(1) [OF bi(1)])
      show "b \<noteq> u \<and> set (inner_succs fn member h b) \<subseteq> {b. b < nblocks fn \<and> seen[bi := True] ! b} \<union> set (rev (inner_succs fn member h bi) @ rest)"
        if "b < nblocks fn" "seen[bi := True] ! b" for b
        using that bi 2(6) [of b] by (cases "b = bi") (auto simp: nth_list_update)
    qed (use 2 bi False inner in auto)
    then obtain A where A: "u \<notin> A" "{b. b < nblocks fn \<and> seen[bi := True] ! b} \<union> set (rev (inner_succs fn member h bi) @ rest) \<subseteq> A"
        "\<forall>b\<in>A. set (inner_succs fn member h b) \<subseteq> A" by blast
    have "{b. b < nblocks fn \<and> seen ! b} \<union> set (bi # rest) \<subseteq> {b. b < nblocks fn \<and> seen[bi := True] ! b} \<union> set rest"
      using bi by (auto simp: nth_list_update)
    then show ?thesis using A by (intro exI [of _ A]) auto
  qed
qed

section \<open>The stores of a counter\<close>

definition updates_slot :: "lir_func \<Rightarrow> vid \<Rightarrow> lir_instr \<Rightarrow> bool" where
  "updates_slot fn slot i \<longleftrightarrow> (case i_op i of IRON_LIR_STORE p v \<Rightarrow> p = slot \<and> local_const_value fn v = None | _ \<Rightarrow> False)"

lemma scan_stores_cases:
  assumes "scan_stores fn slot ((bj, j) # rest) sc = Some sc'"
  obtains (Other) "\<not> stores_slot slot j" "scan_stores fn slot rest sc = Some sc'"
  | (Init) v c where "i_op j = IRON_LIR_STORE slot v" "local_const_value fn v = Some c" "sc_init sc = None"
      "scan_stores fn slot rest (sc\<lparr>sc_init := Some (bj, c), sc_count := Suc (sc_count sc)\<rparr>) = Some sc'"
  | (Update) v e d where "i_op j = IRON_LIR_STORE slot v" "local_const_value fn v = None" "lookup_value_instr fn v = Some e"
      "local_update_delta fn slot (i_op e) = Some d" "sc_update sc = None"
      "scan_stores fn slot rest (sc\<lparr>sc_update := Some (bj, d), sc_count := Suc (sc_count sc)\<rparr>) = Some sc'"
proof (cases "\<exists>v. i_op j = IRON_LIR_STORE slot v")
  case True
  then obtain v where v: "i_op j = IRON_LIR_STORE slot v" by blast
  then obtain sc1 where sc1: "scan_store fn slot bj v sc = Some sc1" "scan_stores fn slot rest sc1 = Some sc'"
    using assms by (auto split: option.splits)
  show thesis
  proof (cases "local_const_value fn v")
    case (Some c)
    then have "sc_init sc = None" "sc1 = sc\<lparr>sc_init := Some (bj, c), sc_count := Suc (sc_count sc)\<rparr>"
      using sc1(1) by (simp_all add: scan_store_def del: not_None_eq split: if_splits)
    then show thesis using Init [OF v Some] sc1(2) by simp
  next
    case None
    then obtain e d where "lookup_value_instr fn v = Some e" "local_update_delta fn slot (i_op e) = Some d" "sc_update sc = None"
        "sc1 = sc\<lparr>sc_update := Some (bj, d), sc_count := Suc (sc_count sc)\<rparr>"
      using sc1(1) by (auto simp: scan_store_def simp del: not_None_eq split: if_splits option.splits)
    then show thesis using Update [OF v None] sc1(2) by simp
  qed
next
  case False
  then have "\<not> stores_slot slot j" by (auto simp: stores_slot_def split: lir_op.splits)
  moreover have "scan_stores fn slot rest sc = Some sc'" using assms False by (cases "i_op j") auto
  ultimately show thesis by (rule Other)
qed

definition store_known :: "lir_func \<Rightarrow> vid \<Rightarrow> store_scan \<Rightarrow> nat \<times> lir_instr \<Rightarrow> bool" where
  "store_known fn slot sc x \<longleftrightarrow> (\<forall>v. i_op (snd x) = IRON_LIR_STORE slot v \<longrightarrow>
    (\<exists>c. local_const_value fn v = Some c \<and> sc_init sc = Some (fst x, c)) \<or>
    (\<exists>e d. local_const_value fn v = None \<and> lookup_value_instr fn v = Some e \<and> local_update_delta fn slot (i_op e) = Some d \<and> sc_update sc = Some (fst x, d)))"

lemma scan_stores_result:
  "scan_stores fn slot js sc = Some sc' \<Longrightarrow>
    (sc_init sc \<noteq> None \<longrightarrow> sc_init sc' = sc_init sc) \<and> (sc_update sc \<noteq> None \<longrightarrow> sc_update sc' = sc_update sc) \<and>
    length (filter (\<lambda>x. updates_slot fn slot (snd x)) js) \<le> (if sc_update sc = None then 1 else 0) \<and>
    (\<forall>x \<in> set js. store_known fn slot sc' x)"
proof (induction js arbitrary: sc)
  case (Cons x js)
  obtain bj j where x: "x = (bj, j)" by force
  from Cons.prems [unfolded x] show ?case
  proof (cases rule: scan_stores_cases)
    case Other
    then have "i_op j \<noteq> IRON_LIR_STORE slot v" "\<not> updates_slot fn slot j" for v
      by (auto simp: stores_slot_def updates_slot_def split: lir_op.splits)
    then show ?thesis using Cons.IH [OF Other(2)] x by (simp add: store_known_def [of _ _ _ "(bj, j)"])
  next
    case (Init v c)
    then have "\<not> updates_slot fn slot j" by (simp add: updates_slot_def)
    moreover have "store_known fn slot sc' (bj, j)" using Cons.IH [OF Init(4)] Init(1,2) by (simp add: store_known_def)
    ultimately show ?thesis using Cons.IH [OF Init(4)] x Init(3) by simp
  next
    case (Update v e d)
    then have "updates_slot fn slot j" by (simp add: updates_slot_def)
    moreover have "store_known fn slot sc' (bj, j)" using Cons.IH [OF Update(6)] Update(1-4) by (simp add: store_known_def)
    ultimately show ?thesis using Cons.IH [OF Update(6)] x Update(5) by simp
  qed
qed simp

lemma filter_le_one:
  assumes "length (filter P xs) \<le> 1" "i < length xs" "j < length xs" "P (xs ! i)" "P (xs ! j)"
  shows "i = j"
proof (rule ccontr)
  assume "i \<noteq> j"
  have "{i, j} \<subseteq> {k. k < length xs \<and> P (xs ! k)}" using assms by auto
  then have "card {i, j} \<le> length (filter P xs)" by (simp add: length_filter_conv_card card_mono)
  then show False using assms(1) \<open>i \<noteq> j\<close> by simp
qed

text \<open>What the scan of the stores found: where and what every store to the slot is, and that one updates it.\<close>

lemma counter_stores:
  assumes sc: "scan_stores fn slot (placed_instrs fn) \<lparr>sc_init = None, sc_update = None, sc_count = 0\<rparr> = Some sc"
    "sc_init sc = Some (I, c0)" "sc_update sc = Some (U, d)"
    and b: "b < nblocks fn" "k < length (b_instrs (f_blocks fn ! b))" "i_op (b_instrs (f_blocks fn ! b) ! k) = IRON_LIR_STORE slot v"
  shows "local_const_value fn v = Some c0 \<and> b = I \<or>
      local_const_value fn v = None \<and> b = U \<and> (\<exists>e. lookup_value_instr fn v = Some e \<and> local_update_delta fn slot (i_op e) = Some d)"
    "local_const_value fn v = None \<Longrightarrow> k' < length (b_instrs (f_blocks fn ! b)) \<Longrightarrow> updates_slot fn slot (b_instrs (f_blocks fn ! b) ! k') \<Longrightarrow> k' = k"
proof -
  let ?js = "b_instrs (f_blocks fn ! b)"
  note r = scan_stores_result [OF sc(1)]
  have "(b, ?js ! k) \<in> set (placed_instrs fn)" using b by (force simp: placed_instrs_def)
  then have "(\<exists>c. local_const_value fn v = Some c \<and> sc_init sc = Some (b, c)) \<or>
      (\<exists>e d. local_const_value fn v = None \<and> lookup_value_instr fn v = Some e \<and> local_update_delta fn slot (i_op e) = Some d \<and> sc_update sc = Some (b, d))"
    using r b(3) by (auto simp: store_known_def dest!: bspec)
  then show "local_const_value fn v = Some c0 \<and> b = I \<or>
      local_const_value fn v = None \<and> b = U \<and> (\<exists>e. lookup_value_instr fn v = Some e \<and> local_update_delta fn slot (i_op e) = Some d)"
    using sc(2,3) by auto
  assume c: "local_const_value fn v = None" "k' < length ?js" "updates_slot fn slot (?js ! k')"
  have split: "[0..<nblocks fn] = [0..<b] @ b # [Suc b..<nblocks fn]" using b(1) upt_add_eq_append [of 0 b "nblocks fn - b"] by (simp add: upt_conv_Cons)
  have "length (filter (\<lambda>x. updates_slot fn slot (snd x)) (map (Pair b) ?js)) \<le> length (filter (\<lambda>x. updates_slot fn slot (snd x)) (placed_instrs fn))"
    unfolding placed_instrs_def split by simp
  then have "length (filter (updates_slot fn slot) ?js) \<le> 1" using r by (simp add: filter_map comp_def)
  then show "k' = k" using filter_le_one [of "updates_slot fn slot" ?js k' k] c b by (simp add: updates_slot_def)
qed

section \<open>The invariant of a counting loop\<close>

lemma goto_edge:
  assumes "blocks_ok fn" "current fn s = Some i" "goes_to fn s (i_op i) b" "local_block_index fn b = Some j"
  shows "edge fn (ls_block s) j" "i = last (b_instrs (f_blocks fn ! ls_block s))" "ls_pc s = length (b_instrs (f_blocks fn ! ls_block s)) - 1"
proof -
  let ?blk = "f_blocks fn ! ls_block s"
  have c: "ls_block s < nblocks fn" "ls_pc s < length (b_instrs ?blk)" "i = b_instrs ?blk ! ls_pc s"
    using assms(2) by (auto simp: current_def split: if_splits)
  have blk: "?blk \<in> set (f_blocks fn)" "i \<in> set (b_instrs ?blk)" using c by auto
  have t: "is_terminator (i_op i)" "b \<in> set (targets (i_op i))"
    using assms(3) by (auto simp: is_terminator_def elim!: goes_to.cases)
  then have "b \<in> set (b_succs ?blk)" using assms(1) blk by (auto simp: blocks_ok_def list_all_iff)
  then show "edge fn (ls_block s) j" using c(1) assms(4) by (force simp: edge_def succ_indices_def List.map_filter_def)
  have "\<not> ls_pc s < length (b_instrs ?blk) - 1"
  proof
    assume "ls_pc s < length (b_instrs ?blk) - 1"
    then have "i \<in> set (butlast (b_instrs ?blk))" using c(3) by (metis length_butlast nth_butlast nth_mem)
    then show False using assms(1) blk(1) t(1) by (auto simp: blocks_ok_def list_all_iff)
  qed
  then show p: "ls_pc s = length (b_instrs ?blk) - 1" using c(2) by simp
  show "i = last (b_instrs ?blk)" using p c by (metis last_conv_nth length_greater_0_conv order_less_imp_not_eq2 less_nat_zero_code list.size(3))
qed

lemma reachable_path:
  assumes "blocks_ok fn" "0 < nblocks fn"
  shows "lir_reachable fn s \<Longrightarrow> \<exists>xs. cfg_path fn xs (ls_block s)"
proof (induction rule: lir_reachable.induct)
  case (reach_start s)
  then show ?case using assms(2) path_entry by (auto simp: lir_initial_def)
next
  case (reach_step s t)
  from reach_step.hyps(2) show ?case
  proof cases
    case (step_instr i s1)
    then have "ls_block t = ls_block s" by (auto simp: disturbed_def elim!: executes.cases)
    then show ?thesis using reach_step.IH by simp
  next
    case (step_goto i b j)
    then have "ls_block t = j" by (simp add: disturbed_def)
    then show ?thesis using reach_step.IH goto_edge(1) [OF assms(1) step_goto(1-3)] path_edge by blast
  qed
qed

text \<open>Before the update of a pass: a member of the loop, after the header, that the update does not lead to.\<close>

definition before_update :: "nat set \<Rightarrow> nat \<Rightarrow> nat set \<Rightarrow> nat \<Rightarrow> nat \<Rightarrow> lir_state \<Rightarrow> bool" where
  "before_update M h A U k s \<longleftrightarrow> ls_block s \<in> M \<and> ls_block s \<noteq> h \<and> ls_block s \<notin> A \<and> (ls_block s = U \<longrightarrow> ls_pc s \<le> k)"

lemma executes_slot:
  assumes "executes fn s i t"
  shows "ls_block t = ls_block s" "ls_pc t = ls_pc s"
    "ls_slots t slot = ls_slots s slot \<or> (\<exists>v w. i_op i = IRON_LIR_STORE slot v \<and> read_value fn s v = Some w \<and> ls_slots t slot = Some w)"
  using assms by (auto elim!: executes.cases)

lemma counter_invariant:
  assumes slot: "\<not> unstable fn slot" and bl: "blocks_ok fn" "0 < nblocks fn"
    and M: "\<And>u v xs. edge fn u v \<Longrightarrow> cfg_path fn xs u \<Longrightarrow> v \<in> M \<Longrightarrow> v \<noteq> h \<Longrightarrow> u \<in> M"
    and A: "\<And>u v. u \<in> A \<or> u = U \<Longrightarrow> edge fn u v \<Longrightarrow> v \<in> M \<Longrightarrow> v \<noteq> h \<Longrightarrow> v \<in> A"
    and U: "U \<in> M" "U \<noteq> h" "U \<notin> A"
    and store: "\<And>s i v w. lir_reachable fn s \<Longrightarrow> current fn s = Some i \<Longrightarrow> i_op i = IRON_LIR_STORE slot v \<Longrightarrow> read_value fn s v = Some w \<Longrightarrow>
      ls_block s \<notin> M \<and> good w \<or> ls_block s = U \<and> ls_pc s = k \<and> (\<exists>w0. ls_slots s slot = Some w0 \<and> w = w0 + d)"
    and head: "\<And>s i b j w. lir_reachable fn s \<Longrightarrow> current fn s = Some i \<Longrightarrow> goes_to fn s (i_op i) b \<Longrightarrow> local_block_index fn b = Some j \<Longrightarrow>
      ls_block s = h \<Longrightarrow> j \<in> M \<Longrightarrow> j \<noteq> h \<Longrightarrow> ls_slots s slot = Some w \<Longrightarrow> good w \<Longrightarrow> pass w"
    and count: "\<And>w. good w \<Longrightarrow> pass w \<Longrightarrow> good (w + d)"
  shows "lir_reachable fn s \<Longrightarrow> (\<forall>w. ls_slots s slot = Some w \<longrightarrow> good w \<and> (before_update M h A U k s \<longrightarrow> pass w))"
proof (induction rule: lir_reachable.induct)
  case (reach_start s)
  then show ?case using slot by (auto simp: lir_initial_def)
next
  case (reach_step s t)
  from reach_step.hyps(2) show ?case
  proof cases
    case (step_instr i s1)
    note e = executes_slot(1,2) [OF step_instr(3)] executes_slot(3) [OF step_instr(3), of slot]
    have t: "ls_slots t slot = ls_slots s1 slot" "ls_block t = ls_block s" "ls_pc t = Suc (ls_pc s)"
      using step_instr(4) slot e by (auto simp: disturbed_def)
    from e(3) show ?thesis
    proof
      assume same: "ls_slots s1 slot = ls_slots s slot"
      have "before_update M h A U k t \<Longrightarrow> before_update M h A U k s" using t by (auto simp: before_update_def)
      then show ?thesis using reach_step.IH same t(1) by simp
    next
      assume "\<exists>v w. i_op i = IRON_LIR_STORE slot v \<and> read_value fn s v = Some w \<and> ls_slots s1 slot = Some w"
      then obtain v w where v: "i_op i = IRON_LIR_STORE slot v" "read_value fn s v = Some w" "ls_slots t slot = Some w" using t(1) by auto
      from store [OF reach_step.hyps(1) step_instr(1) v(1,2)] show ?thesis
      proof
        assume "ls_block s \<notin> M \<and> good w"
        then show ?thesis using v(3) t(2) by (simp add: before_update_def)
      next
        assume u: "ls_block s = U \<and> ls_pc s = k \<and> (\<exists>w0. ls_slots s slot = Some w0 \<and> w = w0 + d)"
        then have "before_update M h A U k s" "\<not> before_update M h A U k t" using U t by (auto simp: before_update_def)
        then show ?thesis using u reach_step.IH count v(3) by auto
      qed
    qed
  next
    case (step_goto i b j)
    note g = goto_edge [OF bl(1) step_goto(1-3)]
    have t: "ls_slots t slot = ls_slots s slot" "ls_block t = j" using step_goto(4) slot by (auto simp: disturbed_def)
    obtain xs where xs: "cfg_path fn xs (ls_block s)" using reachable_path [OF bl reach_step.hyps(1)] by blast
    have "pass w" if w: "ls_slots s slot = Some w" and j: "before_update M h A U k t" for w
    proof -
      have jM: "j \<in> M" "j \<noteq> h" "j \<notin> A" using j t(2) by (auto simp: before_update_def)
      have sM: "ls_block s \<in> M" using M [OF g(1) xs jM(1,2)] .
      show ?thesis
      proof (cases "ls_block s = h")
        case True
        then show ?thesis using head [OF reach_step.hyps(1) step_goto(1-3) True jM(1,2) w] reach_step.IH w by blast
      next
        case False
        have "ls_block s \<notin> A" "ls_block s \<noteq> U" using A [OF _ g(1) jM(1,2)] jM(3) by auto
        then have "before_update M h A U k s" using sM False by (simp add: before_update_def)
        then show ?thesis using reach_step.IH w by blast
      qed
    qed
    then show ?thesis using reach_step.IH t(1) by simp
  qed
qed

lemma scan_stores_found:
  "scan_stores fn slot js sc = Some sc' \<Longrightarrow>
    (\<forall>b c. sc_init sc' = Some (b, c) \<longrightarrow> sc_init sc = Some (b, c) \<or> i64 c) \<and>
    (\<forall>b d. sc_update sc' = Some (b, d) \<longrightarrow> sc_update sc = Some (b, d) \<or> (\<exists>i. (b, i) \<in> set js \<and> updates_slot fn slot i))"
proof (induction js arbitrary: sc)
  case (Cons x js)
  obtain bj j where x: "x = (bj, j)" by force
  from Cons.prems [unfolded x] show ?case
  proof (cases rule: scan_stores_cases)
    case Other
    then show ?thesis using Cons.IH [OF Other(2)] by auto
  next
    case (Init v c)
    then have "i64 c" by (auto simp: local_const_value_def split: option.splits lir_op.splits)
    then show ?thesis using Cons.IH [OF Init(4)] by auto
  next
    case (Update v e d)
    then have "updates_slot fn slot j" by (simp add: updates_slot_def)
    then show ?thesis using Cons.IH [OF Update(6)] x by auto
  qed
qed auto

lemma const_value_i64: "local_const_value fn v = Some c \<Longrightarrow> i64 c"
  by (auto simp: local_const_value_def split: option.splits lir_op.splits)

lemma header_check_i64:
  assumes "header_check fn slot cond = Some (k, bound)"
  shows "i64 bound"
proof -
  obtain i k0 l r where "lookup_value_instr fn cond = Some i" "i_op i = IRON_LIR_CMP k0 l r"
    using assms by (auto simp: header_check_def split: option.splits lir_op.splits)
  then have "local_const_value fn l = Some bound \<or> local_const_value fn r = Some bound"
    using assms by (auto simp: header_check_def split: if_splits)
  then show ?thesis using const_value_i64 by blast
qed

text \<open>What the inference at a header has checked.\<close>

lemma infer_at_headerD:
  assumes "infer_at_header fn slot tab reachable (I, c0) (U, d) h = Some r"
  obtains cond t e kd bound where "i_op (last (b_instrs (f_blocks fn ! h))) = IRON_LIR_BRANCH cond t e" "b_instrs (f_blocks fn ! h) \<noteq> []"
    "header_check fn slot cond = Some (kd, bound)" "\<not> loop_members fn tab h ! I" "loop_members fn tab h ! U"
    "\<And>x. local_block_index fn e = Some x \<Longrightarrow> \<not> loop_members fn tab h ! x"
    "\<not> repeat_loop fn (loop_members fn tab h) h U (replicate (nblocks fn) False) (rev (inner_succs fn (loop_members fn tab h) h U))"
    "counter_range c0 d kd bound = Some r"
proof -
  obtain cond t e where br: "i_op (last (b_instrs (f_blocks fn ! h))) = IRON_LIR_BRANCH cond t e" "b_instrs (f_blocks fn ! h) \<noteq> []"
    using assms by (auto simp: infer_at_header_def Let_def split: if_splits lir_op.splits)
  moreover obtain kd bound where hc: "header_check fn slot cond = Some (kd, bound)"
    using assms br by (auto simp: infer_at_header_def Let_def split: if_splits option.splits)
  ultimately show thesis
    using assms that [of cond t e kd bound]
    by (auto simp: infer_at_header_def Let_def split: if_splits option.splits)
qed

lemma sint_plus_i64: "i64 (sint w + d) \<Longrightarrow> sint ((w :: u64) + word_of_int d) = sint w + d"
  using sint_word_i64 [of "sint w + d"] by simp

lemma counter_holds:
  assumes c: "counter_slot fn slot" and e: "edges_ok fn" and bl: "blocks_ok fn"
    and tab: "\<And>b d. b < nblocks fn \<Longrightarrow> d < nblocks fn \<Longrightarrow> tab ! b ! d \<longleftrightarrow> local_reachable fn ! b \<and> dominates fn d b"
    and sc: "scan_stores fn slot (placed_instrs fn) \<lparr>sc_init = None, sc_update = None, sc_count = 0\<rparr> = Some sc"
      "sc_init sc = Some (I, c0)" "sc_update sc = Some (U, d)"
    and h: "h < nblocks fn" "infer_at_header fn slot tab reachable (I, c0) (U, d) h = Some r" and form: "loop_form fn slot (U, d) h"
    and uns: "unsigned_counter_ok fn slot h r"
  shows "\<not> is_top r" "range_i64 r" "lir_reachable fn s \<Longrightarrow> ls_slots s slot = Some w \<Longrightarrow> in_range (sint w) r"
proof -
  note cs = counter_slotD [OF c]
  obtain cond t el kd bound where i: "i_op (last (b_instrs (f_blocks fn ! h))) = IRON_LIR_BRANCH cond t el" "b_instrs (f_blocks fn ! h) \<noteq> []"
    "header_check fn slot cond = Some (kd, bound)" "\<not> loop_members fn tab h ! I" "loop_members fn tab h ! U"
    "\<And>x. local_block_index fn el = Some x \<Longrightarrow> \<not> loop_members fn tab h ! x"
    "\<not> repeat_loop fn (loop_members fn tab h) h U (replicate (nblocks fn) False) (rev (inner_succs fn (loop_members fn tab h) h U))"
    "counter_range c0 d kd bound = Some r"
    using infer_at_headerD [OF h(2)] by blast
  have i64s: "i64 c0" "i64 bound" using scan_stores_found [OF sc(1)] sc(2) header_check_i64 [OF i(3)] by auto
  note cr = counter_range_step [OF i(8) i64s]
  show "\<not> is_top r" "range_i64 r" by (fact cr)+
  define M where "M = {b. b < nblocks fn \<and> loop_members fn tab h ! b}"
  let ?good = "\<lambda>w :: u64. in_range (sint w) r" and ?pass = "\<lambda>w :: u64. guard_holds kd (sint w) bound"
  obtain iu where iu: "(U, iu) \<in> set (placed_instrs fn)" "updates_slot fn slot iu" using scan_stores_found [OF sc(1)] sc(3) by auto
  then have Un: "U < nblocks fn" "iu \<in> set (b_instrs (f_blocks fn ! U))" by (auto simp: placed_instrs_def)
  then obtain k where k: "k < length (b_instrs (f_blocks fn ! U))" "b_instrs (f_blocks fn ! U) ! k = iu" by (auto simp: in_set_conv_nth)
  have "stores_slot slot iu" using iu(2) by (auto simp: updates_slot_def stores_slot_def split: lir_op.splits)
  then have Uh: "U \<noteq> h" using form Un(2) by (auto simp: loop_form_def Let_def list_all_iff)
  have "set (rev (inner_succs fn (loop_members fn tab h) h U)) \<subseteq> {..<nblocks fn}" using edge_indices_less by (auto simp: inner_succs_def)
  then obtain A where A: "U \<notin> A" "set (inner_succs fn (loop_members fn tab h) h U) \<subseteq> A" "\<forall>b\<in>A. set (inner_succs fn (loop_members fn tab h) h b) \<subseteq> A"
    using repeat_loop_none [OF i(7)] by auto
  have fresh_c: "fresh_value fn slot (b_instrs (f_blocks fn ! h)) (length (b_instrs (f_blocks fn ! h)) - 1) cond"
    and ty: "value_type fn slot = Some IRON_TYPE_UINT \<longrightarrow> 0 \<le> vr_min r \<and> 0 \<le> bound"
    using form uns i(1,3) by (auto simp: loop_form_def unsigned_counter_ok_def Let_def)
  have "\<forall>w. ls_slots s slot = Some w \<longrightarrow> ?good w \<and> (before_update M h A U k s \<longrightarrow> ?pass w)" if "lir_reachable fn s" for s
  proof (rule counter_invariant [OF cs(3) bl _ _ _ _ Uh A(1) _ _ _ that, where d = "word_of_int d"])
    show "0 < nblocks fn" using h(1) by linarith
    show "u \<in> M" if "edge fn u v" "cfg_path fn xs u" "v \<in> M" "v \<noteq> h" for u v xs
      using loop_members(2) [OF e h(1) tab] that cfg_path_end by (auto simp: M_def)
    show "v \<in> A" if "u \<in> A \<or> u = U" "edge fn u v" "v \<in> M" "v \<noteq> h" for u v
      using that A by (auto simp: M_def edge_def inner_succs_def)
    show "U \<in> M" using Un(1) i(5) by (simp add: M_def)
    show "?good (w + word_of_int d)" if "?good w" "?pass w" for w
      using cr(4) [OF that] cr(1,2) sint_plus_i64 [of w d] by (auto simp: in_range_def range_i64_def i64_def)
  next
    fix s i' v w
    assume s: "lir_reachable fn s" "current fn s = Some i'" "i_op i' = IRON_LIR_STORE slot v" "read_value fn s v = Some w"
    then have cur: "ls_block s < nblocks fn" "ls_pc s < length (b_instrs (f_blocks fn ! ls_block s))" "i' = b_instrs (f_blocks fn ! ls_block s) ! ls_pc s"
      by (auto simp: current_def split: if_splits)
    note st = counter_stores [OF sc cur(1,2) s(3) [unfolded cur(3)]]
    from st(1) show "ls_block s \<notin> M \<and> ?good w \<or> ls_block s = U \<and> ls_pc s = k \<and> (\<exists>w0. ls_slots s slot = Some w0 \<and> w = w0 + word_of_int d)"
    proof
      assume ini: "local_const_value fn v = Some c0 \<and> ls_block s = I"
      have "fresh_operand fn slot [] 0 v"
        using form current_instr [OF s(2)] s(3) ini by (fastforce simp: loop_form_def Let_def list_all_iff)
      then have "sint w = c0" using const_reads [OF c _ _ s(1,4)] ini by blast
      then show ?thesis using cr(3) i(4) ini by (simp add: M_def)
    next
      assume "local_const_value fn v = None \<and> ls_block s = U \<and> (\<exists>e. lookup_value_instr fn v = Some e \<and> local_update_delta fn slot (i_op e) = Some d)"
      then obtain ie where upd: "local_const_value fn v = None" "ls_block s = U" "lookup_value_instr fn v = Some ie" "local_update_delta fn slot (i_op ie) = Some d"
        by blast
      have pc: "ls_pc s = k" using st(2) [OF upd(1), of k] k iu(2) upd(2) by simp
      have "fresh_value fn slot (b_instrs (f_blocks fn ! U)) k v"
        using form cur s(3) upd(1,2) pc k(1) by (force simp: loop_form_def Let_def list_all_iff)
      from update_reads [OF c this upd(3,4) Un(1) refl _ s(1) upd(2) pc] show ?thesis using upd(2) pc k(1) s(4) by auto
    qed
  next
    fix s i' b j w
    assume s: "lir_reachable fn s" "current fn s = Some i'" "goes_to fn s (i_op i') b" "local_block_index fn b = Some j" "ls_block s = h"
      and j: "j \<in> M" "j \<noteq> h" and w: "ls_slots s slot = Some w" "?good w"
    let ?H = "b_instrs (f_blocks fn ! h)"
    note g = goto_edge [OF bl s(2-4), unfolded s(5)]
    obtain x where x: "read_value fn s cond = Some x" "b = (if x \<noteq> 0 then t else el)"
      using s(3) g(2) i(1) by (auto elim: goes_to.cases)
    have "x \<noteq> 0" using i(6) [of j] x(2) s(4) j(1) by (auto simp: M_def split: if_splits)
    then have cmp: "cmp_holds (value_type fn slot = Some IRON_TYPE_UINT) kd w (word_of_int bound)"
      using header_reads [OF c fresh_c i(3) h(1) refl _ s(1,5) g(3)] x(1) w(1) by (auto split: if_splits)
    have b: "sint (word_of_int bound :: u64) = bound" using sint_word_i64 i64s(2) by simp
    have "\<not> value_type fn slot = Some IRON_TYPE_UINT \<or> 0 \<le> sint w \<and> 0 \<le> sint (word_of_int bound :: u64)"
      using ty w(2) cr(1) b by (auto simp: in_range_def)
    from guard_word [OF this] show "?pass w" using cmp b by simp
  qed
  then show "lir_reachable fn s \<Longrightarrow> ls_slots s slot = Some w \<Longrightarrow> in_range (sint w) r" by blast
qed

section \<open>The analysis of a function is sound\<close>

text \<open>
  What the analysis relies on, as a check of the function it is given: values and their table agree, the path from an address
  that is taken to its slot has at most the 32 steps the analysis walks, operands of generic arithmetic are of generic type, edges are listed at
  both ends and agree with terminators, and counting loops have their form. The analysis runs on what the optimiser leaves (src/lir/emit\_split.c); that lowering and optimiser leave
  functions of this kind is not proved here.
\<close>

definition ranges_ready :: "lir_func \<Rightarrow> bool" where
  "ranges_ready fn \<longleftrightarrow> values_ok fn \<and> paths_short fn \<and> well_typed fn \<and> edges_ok fn \<and> blocks_ok fn \<and> loops_canonical fn"

definition slot_kept_or_inferred :: "lir_func \<Rightarrow> bool list list \<Rightarrow> bool list \<Rightarrow> local_ctx \<Rightarrow> local_ctx \<Rightarrow> vid \<Rightarrow> bool" where
  "slot_kept_or_inferred fn tab reachable c d a \<longleftrightarrow>
    lc_alloca_ranges d a = lc_alloca_ranges c a \<and> lc_alloca_state d a = lc_alloca_state c a \<or>
    lc_eligible c a \<and> lc_alloca_state d a = 2 \<and> local_infer_induction fn a tab reachable = Some (lc_alloca_ranges d a)"

lemma infer_slot_step:
  "infer_slot fn tab reachable v (c, found) = (d, found') \<Longrightarrow> lc_eligible d = lc_eligible c \<and> lc_observable d = lc_observable c \<and>
    (found' \<or> d = c \<and> \<not> found) \<and> (\<forall>a. a \<noteq> v \<longrightarrow> lc_alloca_ranges d a = lc_alloca_ranges c a \<and> lc_alloca_state d a = lc_alloca_state c a) \<and>
    slot_kept_or_inferred fn tab reachable c d v"
  by (auto simp: infer_slot_def slot_kept_or_inferred_def split: if_splits option.splits)

lemma infer_slots_fold:
  "fold (infer_slot fn tab reachable) vs (c, found) = (d, found') \<Longrightarrow> lc_eligible d = lc_eligible c \<and> lc_observable d = lc_observable c \<and>
    (found' \<or> d = c \<and> \<not> found) \<and> (\<forall>a. a \<notin> set vs \<longrightarrow> lc_alloca_ranges d a = lc_alloca_ranges c a \<and> lc_alloca_state d a = lc_alloca_state c a) \<and>
    (\<forall>a. slot_kept_or_inferred fn tab reachable c d a)"
proof (induction vs arbitrary: c found)
  case Nil
  then show ?case by (simp add: slot_kept_or_inferred_def)
next
  case (Cons v vs)
  obtain e i where e: "infer_slot fn tab reachable v (c, found) = (e, i)" by force
  then have "fold (infer_slot fn tab reachable) vs (e, i) = (d, found')" using Cons.prems by simp
  note IH = Cons.IH [OF this] and st = infer_slot_step [OF e]
  have "slot_kept_or_inferred fn tab reachable c d a" for a
    using IH st unfolding slot_kept_or_inferred_def by metis
  moreover have "lc_alloca_ranges d a = lc_alloca_ranges c a \<and> lc_alloca_state d a = lc_alloca_state c a" if "a \<notin> set (v # vs)" for a
    using that IH st by simp
  moreover have "found' \<or> d = c \<and> \<not> found" using IH st by metis
  ultimately show ?case using IH st by simp
qed

lemma infer_slots_result:
  assumes "infer_slots fn tab reachable c = (c', inferred)"
  shows "\<not> inferred \<Longrightarrow> c' = c" "lc_eligible c' = lc_eligible c" "lc_observable c' = lc_observable c"
    "lc_alloca_ranges c' a = lc_alloca_ranges c a \<and> lc_alloca_state c' a = lc_alloca_state c a \<or>
      a \<in> {1..<local_value_count fn} \<and> lc_eligible c a \<and> lc_alloca_state c' a = 2 \<and> local_infer_induction fn a tab reachable = Some (lc_alloca_ranges c' a)"
proof -
  note f = infer_slots_fold [OF assms [unfolded infer_slots_def]]
  show "\<not> inferred \<Longrightarrow> c' = c" "lc_eligible c' = lc_eligible c" "lc_observable c' = lc_observable c" using f by auto
  show "lc_alloca_ranges c' a = lc_alloca_ranges c a \<and> lc_alloca_state c' a = lc_alloca_state c a \<or>
      a \<in> {1..<local_value_count fn} \<and> lc_eligible c a \<and> lc_alloca_state c' a = 2 \<and> local_infer_induction fn a tab reachable = Some (lc_alloca_ranges c' a)"
    using f unfolding slot_kept_or_inferred_def by (metis set_upt)
qed

text \<open>A slot the inference gives a range is a counter of a canonical loop.\<close>

lemma inferred_holds:
  assumes l: "ranges_ready fn" "unsigned_counters_ok fn" and tab: "local_compute_dominators fn = Some (tab, reachable)"
    and a: "a \<in> {1..<local_value_count fn}" "lc_eligible (local_ctx_init fn) a" "local_infer_induction fn a tab reachable = Some r"
  shows "\<not> is_top r" "range_i64 r" "lir_reachable fn s \<Longrightarrow> ls_slots s a = Some w \<Longrightarrow> in_range (sint w) r"
proof -
  have ok: "counter_slot fn a" "edges_ok fn" "blocks_ok fn" "loops_canonical fn" using l a(1,2) by (auto simp: ranges_ready_def counter_slot_def)
  obtain tab' where "local_compute_dominators fn = Some (tab', local_reachable fn)"
      "\<And>b d. b < nblocks fn \<Longrightarrow> d < nblocks fn \<Longrightarrow> tab' ! b ! d \<longleftrightarrow> local_reachable fn ! b \<and> dominates fn d b"
    using dominators_table [OF ok(2)] by blast
  then have exact: "\<And>b d. b < nblocks fn \<Longrightarrow> d < nblocks fn \<Longrightarrow> tab ! b ! d \<longleftrightarrow> local_reachable fn ! b \<and> dominates fn d b"
    using tab by simp
  obtain sc I c0 U d where sc: "scan_stores fn a (placed_instrs fn) \<lparr>sc_init = None, sc_update = None, sc_count = 0\<rparr> = Some sc"
      "sc_init sc = Some (I, c0)" "sc_update sc = Some (U, d)"
    using a(3) by (auto simp: local_infer_induction_def split: option.splits)
  moreover obtain h where "List.find (\<lambda>h. infer_at_header fn a tab reachable (I, c0) (U, d) h \<noteq> None) [0..<nblocks fn] = Some h"
      "infer_at_header fn a tab reachable (I, c0) (U, d) h = Some r"
    using a(3) sc by (auto simp: local_infer_induction_def simp del: not_None_eq split: option.splits if_splits)
  then have h: "h < nblocks fn" "infer_at_header fn a tab reachable (I, c0) (U, d) h = Some r" by (auto simp: find_Some_iff)
  moreover have "loop_form fn a (U, d) h" "unsigned_counter_ok fn a h r"
    using all_countersD [OF ok(4) [unfolded loops_canonical_def] tab a(1) sc h]
      all_countersD [OF l(2) [unfolded unsigned_counters_ok_def] tab a(1) sc h] by blast+
  ultimately show "\<not> is_top r" "range_i64 r" "lir_reachable fn s \<Longrightarrow> ls_slots s a = Some w \<Longrightarrow> in_range (sint w) r"
    using counter_holds(1,2) [OF ok(1-3) exact sc h] counter_holds(3) [OF ok(1-3) exact sc h, of s w] by blast+
qed

lemma local_eval_all_returns: "\<exists>d. local_eval_all (local_fuel fn) lf fn c vs = Some d"
proof -
  have "unseen fn c < local_fuel fn" using unseen_bound [of fn c] by (simp add: local_fuel_def)
  then show ?thesis using eval_all_total [of fn c "local_fuel fn" lf vs] by auto
qed

lemma local_tables_returns:
  assumes "edges_ok fn"
  shows "\<exists>c. local_tables lf fn = Some c"
proof -
  obtain c1 where c1: "local_eval_all (local_fuel fn) lf fn (local_ctx_init fn) [1..<local_value_count fn] = Some c1"
    by (rule exE [OF local_eval_all_returns])
  obtain tab where tab: "local_compute_dominators fn = Some (tab, local_reachable fn)" by (rule dominators_table [OF assms])
  obtain c2 inferred where c2: "infer_slots fn tab (local_reachable fn) c1 = (c2, inferred)" by (rule prod.exhaust)
  obtain c3 where c3: "local_eval_all (local_fuel fn) lf fn (c2\<lparr>lc_value_state := (\<lambda>_. 0), lc_value_ranges := (\<lambda>_. RANGE_TOP)\<rparr>) [1..<local_value_count fn] = Some c3"
    by (rule exE [OF local_eval_all_returns])
  have "local_tables lf fn = Some (if inferred then c3 else c2)"
    unfolding local_tables_def c1 tab c2 c3 option.case prod.case by (cases inferred) simp_all
  then show ?thesis by blast
qed

lemma local_tables_sound:
  assumes l: "ranges_ready fn" "unsigned_counters_ok fn" and t: "local_tables lf fn = Some c" and s: "lir_reachable fn s"
  shows "state_fits fn c s" "\<exists>F. analysed fn F c"
proof -
  have ok: "values_ok fn" "paths_short fn" "well_typed fn" using l by (auto simp: ranges_ready_def)
  obtain c1 tab reachable c2 inferred where c1: "local_eval_all (local_fuel fn) lf fn (local_ctx_init fn) [1..<local_value_count fn] = Some c1"
    and tab: "local_compute_dominators fn = Some (tab, reachable)" and c2: "infer_slots fn tab reachable c1 = (c2, inferred)"
    and c: "(if inferred then local_eval_all (local_fuel fn) lf fn (c2\<lparr>lc_value_state := (\<lambda>_. 0), lc_value_ranges := (\<lambda>_. RANGE_TOP)\<rparr>) [1..<local_value_count fn]
      else Some c2) = Some c"
    using t by (auto simp: local_tables_def split: option.splits prod.splits)
  note t1 = eval_all_tables [OF ctx_init_tables c1, of "{}"]
  have a1: "analysed fn {} c1" using ok t1 by (auto simp: analysed_def extends_def)
  have fit1: "state_fits fn c1 s" if "lir_reachable fn s" for s using reachable_fits [OF a1 that] by blast
  note inf = infer_slots_result [OF c2]
  show "state_fits fn c s" "\<exists>F. analysed fn F c"
  proof (atomize (full), cases inferred)
    case False
    then have "c = c1" using c inf(1) by simp
    then show "state_fits fn c s \<and> (\<exists>F. analysed fn F c)" using fit1 [OF s] a1 by blast
  next
    case True
    let ?c3 = "c2\<lparr>lc_value_state := (\<lambda>_. 0), lc_value_ranges := (\<lambda>_. RANGE_TOP)\<rparr>"
    define F where "F = {a. slot_done fn ?c3 a}"
    have el: "lc_eligible c1 = lc_eligible (local_ctx_init fn)" using a1 by (simp add: analysed_def)
    have slot: "slot_done fn c1 a \<and> lc_alloca_ranges c2 a = lc_alloca_ranges c1 a \<or>
        a \<in> {1..<local_value_count fn} \<and> lc_eligible (local_ctx_init fn) a \<and> lc_alloca_state c2 a = 2 \<and> local_infer_induction fn a tab reachable = Some (lc_alloca_ranges c2 a)"
      if "\<not> is_top (lc_alloca_ranges c2 a)" for a
      using inf(4) [of a] a1 that el by (auto simp: analysed_def tables_ok_def)
    have "range_i64 (lc_alloca_ranges c2 a)" for a
      using inf(4) [of a] a1 inferred_holds(2) [OF l tab] el by (auto simp: analysed_def tables_ok_def)
    moreover have "is_top (lc_alloca_ranges c2 a) \<or> slot_done fn ?c3 a" for a
      using slot [of a] inf(2) inf(4) [of a] el by (auto simp: slot_done_def)
    ultimately have "tables_ok fn F ?c3" by (auto simp: tables_ok_def val_done_def F_def)
    then have t3: "tables_ok fn F c" "extends ?c3 c" using eval_all_tables c True by auto
    then have a3: "analysed fn F c" using ok a1 inf(2,3) by (auto simp: analysed_def extends_def)
    have "slot_fits c s a" if "lir_reachable fn s" "a \<in> F" for s a
    proof -
      have "\<not> is_top (lc_alloca_ranges c2 a)" "lc_alloca_ranges c a = lc_alloca_ranges c2 a"
        using that(2) t3(2) by (auto simp: F_def slot_done_def extends_def)
      then show ?thesis
        using slot [of a] fit1 [OF that(1)] inferred_holds(3) [OF l tab _ _ _ that(1)] by (auto simp: slot_fits_def state_fits_def)
    qed
    then have "state_fits fn c s" using reachable_fits [OF a3 s] by blast
    then show "state_fits fn c s \<and> (\<exists>F. analysed fn F c)" using a3 by blast
  qed
qed

lemma analyze_all_locals_returns:
  "list_all edges_ok fns \<Longrightarrow> \<exists>new. analyze_all_locals lf fns locals = Some (locals @ new) \<and>
    list_all (\<lambda>(g, c). g \<in> set fns \<and> local_tables lf g = Some c) new"
proof (induction fns arbitrary: locals)
  case (Cons fn fns)
  obtain c where c: "local_tables lf fn = Some c" using local_tables_returns [of fn lf] Cons.prems by auto
  obtain one where one: "analyze_local_ranges lf fn locals = Some (locals @ one)" "list_all (\<lambda>(g, c). g = fn \<and> local_tables lf g = Some c) one"
    using that [of "[]"] that [of "[(fn, c)]"] c
    by (cases "f_is_extern fn \<or> f_blocks fn = [] \<or> local_value_count fn = 0") (simp_all add: analyze_local_ranges_def)
  obtain new where new: "analyze_all_locals lf fns (locals @ one) = Some (locals @ one @ new)"
      "list_all (\<lambda>(g, c). g \<in> set fns \<and> local_tables lf g = Some c) new"
    using Cons.IH [of "locals @ one"] Cons.prems by auto
  then show ?case using one by (intro exI [of _ "one @ new"]) (auto simp: list_all_iff)
qed simp

text \<open>A type the query gives was selected for the tables of the function.\<close>

lemma narrowed_type_found:
  assumes "iron_vr_get_local_narrowed_type dbg locals fn v = Some ty"
  obtains c where "(fn, c) \<in> set locals" "local_is_generic_integer (value_type fn v)"
    "select_local_narrowed_type (value_type fn v) (if is_slot fn v then lc_alloca_ranges c v else lc_value_ranges c v) = Some ty"
proof -
  obtain g c where g: "List.find (\<lambda>(g, c). g = fn \<and> v < local_value_count g) locals = Some (g, c)"
    using assms by (auto simp: iron_vr_get_local_narrowed_type_def split: if_splits option.splits)
  then have mem: "(fn, c) \<in> set locals" by (auto simp: find_Some_iff in_set_conv_nth)
  obtain i where i: "lookup_value_instr fn v = Some i"
    using assms g by (auto simp: iron_vr_get_local_narrowed_type_def split: if_splits option.splits)
  show thesis
  proof (rule that [OF mem])
    show "local_is_generic_integer (value_type fn v)"
      "select_local_narrowed_type (value_type fn v) (if is_slot fn v then lc_alloca_ranges c v else lc_value_ranges c v) = Some ty"
      using assms g i by (auto simp: iron_vr_get_local_narrowed_type_def value_type_def is_slot_def Let_def split: if_splits)
  qed
qed

lemma state_fits_narrowed:
  assumes "state_fits fn c s" "analysed fn F c" "local_is_generic_integer (value_type fn v)" "read_value fn s v = Some w"
    and "select_local_narrowed_type (value_type fn v) (if is_slot fn v then lc_alloca_ranges c v else lc_value_ranges c v) = Some ty"
  shows "c_type_holds ty (if value_type fn v = Some IRON_TYPE_UINT then uint w else sint w)"
proof (rule select_local_narrowed_type_holds [OF assms(5)])
  let ?r = "if is_slot fn v then lc_alloca_ranges c v else lc_value_ranges c v"
  have top: "\<not> is_top ?r" using assms(5) by (simp add: select_local_narrowed_type_def split: if_splits)
  have known: "is_top (lc_value_ranges c v) \<or> val_done fn c v" "is_top (lc_alloca_ranges c v) \<or> slot_done fn c v"
    and i64: "range_i64 (lc_value_ranges c v)" "range_i64 (lc_alloca_ranges c v)"
    using assms(2) by (simp_all add: analysed_def tables_ok_def)
  show "in_range (sint w) ?r"
    using top known assms(1,3,4) by (auto simp: state_fits_def slot_fits_def val_fits_def read_value_def split: if_splits)
  show "is_top ?r \<or> i64 (vr_max ?r)" using i64 by (auto simp: range_i64_def)
qed

text \<open>C30: The C types chosen for locals are wide enough. For every program whose functions pass the checks \<open>ranges_ready\<close> (true value table, at most 32 steps
  from a taken address to its slot, types, edges and block ends, condition and update of a counting loop computed from the counter where they are used) and \<open>unsigned_counters_ok\<close>, the
  analysis returns, and whenever it answers with a narrower C type for a local, the type holds the local's value in every state of every run
  of the function, whatever the calls in it return and whatever happens to storage whose address it gives away. Both checks can be evaluated on
  what the analysis is given, which is the optimiser's output; it is not proved that the lowering and the optimiser establish them. The
  second excludes what the code gets wrong: it asks of every unsigned counter whose range is inferred that the range does not go below zero and
  the bound is not negative as a signed number, which value\_range.c does not check (\<open>uint_counter_unsound\<close> is a program outside it).\<close>

theorem local_narrowing_sound:
  assumes "list_all ranges_ready fns" "list_all unsigned_counters_ok fns"
  shows "\<exists>locals. analyze_all_locals lf fns [] = Some locals \<and>
    (\<forall>fn v ty s w. iron_vr_get_local_narrowed_type dbg locals fn v = Some ty \<longrightarrow> lir_reachable fn s \<longrightarrow> read_value fn s v = Some w \<longrightarrow>
      c_type_holds ty (if value_type fn v = Some IRON_TYPE_UINT then uint w else sint w))"
proof -
  have "list_all edges_ok fns" using assms by (auto simp: list_all_iff ranges_ready_def)
  then obtain locals where locals: "analyze_all_locals lf fns [] = Some locals" "list_all (\<lambda>(g, c). g \<in> set fns \<and> local_tables lf g = Some c) locals"
    using analyze_all_locals_returns [of fns lf "[]"] by auto
  have "c_type_holds ty (if value_type fn v = Some IRON_TYPE_UINT then uint w else sint w)"
    if q: "iron_vr_get_local_narrowed_type dbg locals fn v = Some ty" and s: "lir_reachable fn s" "read_value fn s v = Some w" for fn v ty s w
  proof -
    obtain c where c: "(fn, c) \<in> set locals" "local_is_generic_integer (value_type fn v)"
        "select_local_narrowed_type (value_type fn v) (if is_slot fn v then lc_alloca_ranges c v else lc_value_ranges c v) = Some ty"
      using narrowed_type_found [OF q] by blast
    then have "ranges_ready fn" "unsigned_counters_ok fn" "local_tables lf fn = Some c" using locals(2) assms by (auto simp: list_all_iff)
    from local_tables_sound [OF this s(1)] show ?thesis using state_fits_narrowed c(2,3) s(2) by blast
  qed
  then show ?thesis using locals(1) by blast
qed

text \<open>A loop over one variable of the given type: from 0, with the given comparison, bound and update.\<close>

definition loop_example :: "iron_type \<Rightarrow> cmp_kind \<Rightarrow> u64 \<Rightarrow> lir_op \<Rightarrow> lir_func" where
  "loop_example ty k bound upd =
    (let instr = (\<lambda>v op. \<lparr>i_id = v, i_type = (if v = 0 then None else Some ty), i_op = op\<rparr>);
         entry = [instr 1 (IRON_LIR_ALLOCA (Some ty) (Some ''i'') None), instr 2 (IRON_LIR_CONST_INT 0), instr 3 (IRON_LIR_CONST_INT 1),
                  instr 4 (IRON_LIR_CONST_INT bound), instr 0 (IRON_LIR_STORE 1 2), instr 0 (IRON_LIR_JUMP 2)];
         header = [instr 5 (IRON_LIR_CMP k 1 4), instr 0 (IRON_LIR_BRANCH 5 3 4)];
         body = [instr 6 (IRON_LIR_ADD 1 3), instr 7 upd, instr 0 (IRON_LIR_STORE 1 7), instr 0 (IRON_LIR_JUMP 2)];
         exit = [instr 0 (IRON_LIR_RETURN 0 True)]
     in \<lparr>f_name = Some ''count'', f_is_extern = False,
         f_blocks = [\<lparr>b_id = 1, b_label = Some ''entry'', b_instrs = entry, b_preds = [], b_succs = [2]\<rparr>,
                     \<lparr>b_id = 2, b_label = Some ''while_header_1'', b_instrs = header, b_preds = [1, 3], b_succs = [3, 4]\<rparr>,
                     \<lparr>b_id = 3, b_label = Some ''while_body_1'', b_instrs = body, b_preds = [2], b_succs = [2]\<rparr>,
                     \<lparr>b_id = 4, b_label = Some ''while_exit_1'', b_instrs = exit, b_preds = [2], b_succs = []\<rparr>],
         f_next_value_id = 8,
         f_value_table = None # map Some (filter (\<lambda>i. i_id i \<noteq> 0) (entry @ header @ body)), f_captures = []\<rparr>)"

text \<open>Counting up to 10, and the same with an unsigned variable.\<close>

definition counting_example :: lir_func where
  "counting_example = loop_example IRON_TYPE_INT IRON_LIR_LT 10 (IRON_LIR_ADD 1 3)"

definition uint_example :: lir_func where
  "uint_example = loop_example IRON_TYPE_UINT IRON_LIR_LT 10 (IRON_LIR_ADD 1 3)"

lemma examples_ready:
  "list_all ranges_ready [counting_example, uint_example]" "list_all unsigned_counters_ok [counting_example, uint_example]"
  by code_simp+

lemma counting_example_type:
  "(case analyze_all_locals True [counting_example, uint_example] [] of None \<Rightarrow> None | Some locals \<Rightarrow>
    iron_vr_get_local_narrowed_type False locals counting_example 1) = Some ''int8_t''"
  by code_simp

theorem local_narrowing_sound_witness:
  "\<exists>locals. analyze_all_locals True [counting_example, uint_example] [] = Some locals \<and>
    iron_vr_get_local_narrowed_type False locals counting_example 1 = Some ''int8_t'' \<and>
    (\<forall>s w. lir_reachable counting_example s \<longrightarrow> ls_slots s 1 = Some w \<longrightarrow> - 128 \<le> sint w \<and> sint w < 128)"
proof -
  from local_narrowing_sound [OF examples_ready, of True False] obtain locals where l: "analyze_all_locals True [counting_example, uint_example] [] = Some locals"
      "\<forall>v ty s w. iron_vr_get_local_narrowed_type False locals counting_example v = Some ty \<longrightarrow> lir_reachable counting_example s \<longrightarrow>
        read_value counting_example s v = Some w \<longrightarrow> c_type_holds ty (if value_type counting_example v = Some IRON_TYPE_UINT then uint w else sint w)"
    by blast
  have q: "iron_vr_get_local_narrowed_type False locals counting_example 1 = Some ''int8_t''"
    using counting_example_type unfolding l(1) option.case .
  have "is_slot counting_example 1" "value_type counting_example 1 = Some IRON_TYPE_INT" by code_simp+
  then have "c_type_holds ''int8_t'' (sint w)" if "lir_reachable counting_example s" "ls_slots s 1 = Some w" for s w
    using l(2) [rule_format, OF q that(1), of w] that(2) by (simp add: read_value_def)
  then have "\<forall>s w. lir_reachable counting_example s \<longrightarrow> ls_slots s 1 = Some w \<longrightarrow> - 128 \<le> sint w \<and> sint w < 128"
    by (simp add: c_type_holds_def)
  then show ?thesis using l(1) q by blast
qed

section \<open>An unsigned counter that runs past zero\<close>

text \<open>Counting an unsigned variable down from 0, as long as it is at least 0: it never stops.\<close>

definition uint_countdown :: lir_func where
  "uint_countdown = loop_example IRON_TYPE_UINT IRON_LIR_GTE 0 (IRON_LIR_SUB 1 3)"

text \<open>The range inferred for an unsigned counter reads the header's comparison as a signed one. In a loop that counts an
  unsigned variable i down from 0 while it is at least 0, the type chosen for i + 1 is an eight-bit one, and a run reaches a
  state in which i + 1 is the largest 64-bit number.\<close>

theorem uint_counter_unsound:
  "\<exists>locals s w. analyze_all_locals True [uint_countdown] [] = Some locals \<and>
    iron_vr_get_local_narrowed_type False locals uint_countdown 6 = Some ''uint8_t'' \<and>
    lir_reachable uint_countdown s \<and> read_value uint_countdown s 6 = Some w \<and> uint w = 2 ^ 64 - 1 \<and> \<not> c_type_holds ''uint8_t'' (uint w)"
proof -
  have q: "(case analyze_all_locals True [uint_countdown] [] of None \<Rightarrow> None | Some locals \<Rightarrow>
      iron_vr_get_local_narrowed_type False locals uint_countdown 6) = Some ''uint8_t''" by code_simp
  then obtain locals where "analyze_all_locals True [uint_countdown] [] = Some locals"
      "iron_vr_get_local_narrowed_type False locals uint_countdown 6 = Some ''uint8_t''"
    by (cases "analyze_all_locals True [uint_countdown] []") auto
  moreover have "read_value uint_countdown (exec_steps uint_countdown (\<lambda>_. 0) 21 lir_start) 6 = Some (- 1)" by code_simp
  moreover have "uint (- 1 :: u64) = 2 ^ 64 - 1" "\<not> c_type_holds ''uint8_t'' (uint (- 1 :: u64))" by code_simp+
  ultimately show ?thesis using exec_reachable by blast
qed

end
