(* ===== verification/Field_Range.thy ===== *)
theory Field_Range
  imports Value_Range "HOL-Library.AList"
begin

text \<open>
  The ranges of object fields (value\_range.c): one pass over the blocks of a function in their order, with
  the branches narrowing the ranges at the entry of their targets, the ranges of return values, and the union
  over every place that sets a field. The narrowing by one comparison is sound; the use the pass makes of it is
  not, because a block can be entered by other edges than the one that was narrowed.
\<close>

section \<open>Tables\<close>

type_synonym range_table = "(vid \<times> value_range) list"
type_synonym block_ranges = "(bid \<times> range_table) list"
type_synonym name_ranges = "(string \<times> value_range) list"

definition lookup_range :: "range_table \<Rightarrow> vid \<Rightarrow> value_range" where
  "lookup_range vr v = (if v = IRON_LIR_VALUE_INVALID then RANGE_TOP else case map_of vr v of None \<Rightarrow> RANGE_TOP | Some r \<Rightarrow> r)"

definition resolve_call_name :: "lir_func \<Rightarrow> lir_op \<Rightarrow> string option" where
  "resolve_call_name fn op =
    (case func_decl op of
       Some n \<Rightarrow> Some n
     | None \<Rightarrow> (case lookup_value_instr fn (func_ptr op) of
         Some i \<Rightarrow> (case i_op i of IRON_LIR_FUNC_REF n \<Rightarrow> n | _ \<Rightarrow> None)
       | None \<Rightarrow> None))"

section \<open>Narrowing at branches\<close>

definition record_block_entry_range :: "bid \<Rightarrow> vid \<Rightarrow> value_range \<Rightarrow> block_ranges \<Rightarrow> block_ranges" where
  "record_block_entry_range target v narrowed ber =
    (case map_of ber target of
       Some entries \<Rightarrow>
         AList.update target
           (AList.update v (case map_of entries v of Some old \<Rightarrow> range_intersect old narrowed | None \<Rightarrow> narrowed) entries) ber
     | None \<Rightarrow> AList.update target [(v, narrowed)] ber)"

definition apply_block_entry_ranges :: "block_ranges \<Rightarrow> bid \<Rightarrow> range_table \<times> range_table \<Rightarrow> range_table \<times> range_table" where
  "apply_block_entry_ranges ber b tabs =
    (case map_of ber b of
       None \<Rightarrow> tabs
     | Some entries \<Rightarrow>
         fold (\<lambda>(v, narrowed) (vr, ar).
             if is_top narrowed then (vr, ar)
             else if map_of ar v \<noteq> None then (vr, AList.update v narrowed ar)
             else (AList.update v narrowed vr, ar)) entries tabs)"

text \<open>Mirror images of the ordering comparisons; the equalities stay.\<close>

fun flip_comparison :: "cmp_kind \<Rightarrow> cmp_kind" where
  "flip_comparison IRON_LIR_LT = IRON_LIR_GT"
| "flip_comparison IRON_LIR_LTE = IRON_LIR_GTE"
| "flip_comparison IRON_LIR_GT = IRON_LIR_LT"
| "flip_comparison IRON_LIR_GTE = IRON_LIR_LTE"
| "flip_comparison k = k"

definition const_operand :: "lir_func \<Rightarrow> vid \<Rightarrow> u64 option" where
  "const_operand fn v = (case lookup_value_instr fn v of
      Some i \<Rightarrow> (case i_op i of IRON_LIR_CONST_INT c \<Rightarrow> Some c | _ \<Rightarrow> None)
    | None \<Rightarrow> None)"

text \<open>A comparison of a value with a constant, the value on the left.\<close>

definition branch_comparison :: "lir_func \<Rightarrow> vid \<Rightarrow> (cmp_kind \<times> vid \<times> int) option" where
  "branch_comparison fn cond =
    (case lookup_value_instr fn cond of
       None \<Rightarrow> None
     | Some i \<Rightarrow> (case i_op i of
         IRON_LIR_CMP k l r \<Rightarrow>
           (case const_operand fn r of
              Some c \<Rightarrow> Some (k, l, sint c)
            | None \<Rightarrow> (case const_operand fn l of Some c \<Rightarrow> Some (flip_comparison k, r, sint c) | None \<Rightarrow> None))
       | _ \<Rightarrow> None))"

definition detect_branch_narrowing :: "lir_func \<Rightarrow> lir_block \<Rightarrow> range_table \<times> range_table \<Rightarrow> block_ranges \<Rightarrow> block_ranges" where
  "detect_branch_narrowing fn blk tabs ber =
    (if b_instrs blk = [] then ber
     else case i_op (last (b_instrs blk)) of
       IRON_LIR_BRANCH cond t e \<Rightarrow>
         (case branch_comparison fn cond of
            None \<Rightarrow> ber
          | Some (k, v, c) \<Rightarrow>
              if v = IRON_LIR_VALUE_INVALID then ber
              else
                let slot = (case lookup_value_instr fn v of
                        Some i \<Rightarrow> (case i_op i of IRON_LIR_LOAD p \<Rightarrow> if map_of (snd tabs) p \<noteq> None then Some p else None | _ \<Rightarrow> None)
                      | None \<Rightarrow> None);
                    (existing, tgt) = (case slot of Some p \<Rightarrow> (the (map_of (snd tabs) p), p) | None \<Rightarrow> (lookup_range (fst tabs) v, v));
                    (true_range, false_range) = narrow_from_comparison k existing c;
                    ber = (if \<not> is_top true_range \<and> t \<noteq> IRON_LIR_BLOCK_INVALID then record_block_entry_range t tgt true_range ber else ber)
                in if \<not> is_top false_range \<and> e \<noteq> IRON_LIR_BLOCK_INVALID then record_block_entry_range e tgt false_range ber else ber)
     | _ \<Rightarrow> ber)"

section \<open>The pass over a function\<close>

text \<open>The range of a join, which stops at the first unknown one.\<close>

fun phi_range :: "range_table \<Rightarrow> vid list \<Rightarrow> value_range option \<Rightarrow> value_range" where
  "phi_range vr [] acc = (case acc of None \<Rightarrow> RANGE_TOP | Some r \<Rightarrow> r)"
| "phi_range vr (v # vs) acc =
    (let r = (case acc of None \<Rightarrow> lookup_range vr v | Some a \<Rightarrow> range_union a (lookup_range vr v))
     in if is_top r then r else phi_range vr vs (Some r))"

text \<open>One instruction; the range of a call is a parameter. Instructions without an identifier are skipped.\<close>

definition range_instr :: "(lir_op \<Rightarrow> value_range) \<Rightarrow> lir_instr \<Rightarrow> range_table \<times> range_table \<Rightarrow> range_table \<times> range_table" where
  "range_instr call_range i = (\<lambda>(vr, ar).
    if i_id i = IRON_LIR_VALUE_INVALID then (vr, ar)
    else case i_op i of
      IRON_LIR_STORE p v \<Rightarrow>
        (vr, AList.update p (case map_of ar p of Some old \<Rightarrow> range_union old (lookup_range vr v) | None \<Rightarrow> lookup_range vr v) ar)
    | op \<Rightarrow>
        (AList.update (i_id i)
          (case op of
             IRON_LIR_CONST_INT c \<Rightarrow> range_const (sint c)
           | IRON_LIR_ADD l r \<Rightarrow> range_add (lookup_range vr l) (lookup_range vr r)
           | IRON_LIR_SUB l r \<Rightarrow> range_sub (lookup_range vr l) (lookup_range vr r)
           | IRON_LIR_MUL l r \<Rightarrow> range_mul (lookup_range vr l) (lookup_range vr r)
           | IRON_LIR_PHI vs ps \<Rightarrow> phi_range vr vs None
           | IRON_LIR_LOAD p \<Rightarrow> (case map_of ar p of Some r \<Rightarrow> r | None \<Rightarrow> RANGE_TOP)
           | IRON_LIR_CALL fd fp as self by_addr \<Rightarrow> call_range op
           | _ \<Rightarrow> RANGE_TOP) vr, ar))"

definition range_block :: "lir_func \<Rightarrow> (lir_op \<Rightarrow> value_range) \<Rightarrow> lir_block \<Rightarrow> (range_table \<times> range_table) \<times> block_ranges \<Rightarrow>
    (range_table \<times> range_table) \<times> block_ranges" where
  "range_block fn call_range blk = (\<lambda>(tabs, ber).
    let tabs = apply_block_entry_ranges ber (b_id blk) tabs;
        tabs = fold (range_instr call_range) (b_instrs blk) tabs
    in (tabs, detect_branch_narrowing fn blk tabs ber))"

definition function_ranges :: "lir_func \<Rightarrow> (lir_op \<Rightarrow> value_range) \<Rightarrow> range_table" where
  "function_ranges fn call_range = fst (fst (fold (range_block fn call_range) (f_blocks fn) (([], []), [])))"

section \<open>Return ranges\<close>

definition recursive_values :: "lir_func \<Rightarrow> vid list" where
  "recursive_values fn = map i_id (filter (\<lambda>i. i_id i \<noteq> 0 \<and> is_IRON_LIR_CALL (i_op i) \<and> f_name fn \<noteq> None \<and>
    resolve_call_name fn (i_op i) = f_name fn) (fn_instrs fn))"

definition returned_values :: "lir_func \<Rightarrow> vid list" where
  "returned_values fn = List.map_filter (\<lambda>i. case i_op i of
      IRON_LIR_RETURN v void \<Rightarrow> if void \<or> v = IRON_LIR_VALUE_INVALID \<or> v \<in> set (recursive_values fn) then None else Some v
    | _ \<Rightarrow> None) (fn_instrs fn)"

definition return_range :: "lir_func \<Rightarrow> value_range option" where
  "return_range fn =
    (let vr = function_ranges fn (\<lambda>_. RANGE_TOP)
     in case map (lookup_range vr) (returned_values fn) of [] \<Rightarrow> None | r # rs \<Rightarrow> Some (fold (\<lambda>q acc. range_union acc q) rs r))"

definition collect_return_ranges :: "lir_func list \<Rightarrow> name_ranges" where
  "collect_return_ranges fns = fold (\<lambda>fn rr.
    if f_is_extern fn \<or> f_blocks fn = [] then rr
    else case (f_name fn, return_range fn) of
      (Some n, Some r) \<Rightarrow> if is_top r then rr else AList.update n r rr
    | _ \<Rightarrow> rr) fns []"

section \<open>Field ranges\<close>

text \<open>The key of a field, in a buffer of 512 bytes.\<close>

definition field_key :: "string \<Rightarrow> string \<Rightarrow> string" where
  "field_key ty fld = take 511 (ty @ '':'' @ fld)"

definition union_field :: "string \<Rightarrow> value_range \<Rightarrow> name_ranges \<Rightarrow> name_ranges" where
  "union_field key r fr = AList.update key (case map_of fr key of Some old \<Rightarrow> range_union old r | None \<Rightarrow> r) fr"

definition object_name :: "iron_type option \<Rightarrow> string option" where
  "object_name ty = (case ty of Some (IRON_TYPE_OBJECT (Some od)) \<Rightarrow> od_name od | _ \<Rightarrow> None)"

definition collect_fields :: "lir_func \<Rightarrow> range_table \<Rightarrow> lir_instr \<Rightarrow> name_ranges \<Rightarrow> name_ranges" where
  "collect_fields fn vr i fr =
    (case i_op i of
       IRON_LIR_SET_FIELD ob fld v \<Rightarrow>
         (case (fld, lookup_value_instr fn ob) of
            (Some f, Some oi) \<Rightarrow> (case object_name (i_type oi) of
                Some ty \<Rightarrow> union_field (field_key ty f) (lookup_range vr v) fr
              | None \<Rightarrow> fr)
          | _ \<Rightarrow> fr)
     | IRON_LIR_CONSTRUCT (Some (IRON_TYPE_OBJECT (Some od))) vals \<Rightarrow>
         (case od_name od of
            None \<Rightarrow> fr
          | Some ty \<Rightarrow> fold (\<lambda>(f, v) fr. case f of None \<Rightarrow> fr | Some f \<Rightarrow> union_field (field_key ty f) (lookup_range vr v) fr)
              (zip (od_fields od) vals) fr)
     | _ \<Rightarrow> fr)"

definition analyze_function_ranges :: "name_ranges \<Rightarrow> lir_func \<Rightarrow> name_ranges \<Rightarrow> name_ranges" where
  "analyze_function_ranges rr fn fr =
    (if f_is_extern fn \<or> f_blocks fn = [] then fr
     else
       let vr = function_ranges fn (\<lambda>op. case resolve_call_name fn op of
               Some callee \<Rightarrow> (case map_of rr callee of Some r \<Rightarrow> r | None \<Rightarrow> RANGE_TOP)
             | None \<Rightarrow> RANGE_TOP)
       in fold (collect_fields fn vr) (fn_instrs fn) fr)"

text \<open>The field ranges of a module.\<close>

definition iron_vr_analyze :: "lir_func list \<Rightarrow> name_ranges" where
  "iron_vr_analyze fns = fold (analyze_function_ranges (collect_return_ranges fns)) fns []"

definition iron_vr_get_narrowed_type :: "name_ranges \<Rightarrow> string \<Rightarrow> string \<Rightarrow> string option" where
  "iron_vr_get_narrowed_type fr ty fld =
    (case map_of fr (field_key ty fld) of
       None \<Rightarrow> None
     | Some r \<Rightarrow> if is_top r then None else select_narrowed_type (vr_min r) (vr_max r))"

section \<open>One comparison\<close>

text \<open>Narrowing by a comparison is sound on the edges of the branch: if the variable lies in the range known before and the
  comparison with the constant holds, it lies in the range given for the true target, and otherwise in the one for the false
  target, for every comparison and up to the ends of the 64-bit range.\<close>

theorem narrow_from_comparison_sound:
  assumes "in_range (sint (a :: u64)) r"
  shows "if cmp_holds False k a c then in_range (sint a) (fst (narrow_from_comparison k r (sint c)))
    else in_range (sint a) (snd (narrow_from_comparison k r (sint c)))"
proof -
  have b: "- 9223372036854775808 \<le> sint a" "sint a \<le> 9223372036854775807" "- 9223372036854775808 \<le> sint c" "sint c \<le> 9223372036854775807"
    using sint_i64 [of a] sint_i64 [of c] by (auto simp: i64_def)
  have eq: "a = c \<longleftrightarrow> sint a = sint c" by (auto intro: signed_word_eqI)
  show ?thesis
    using assms b unfolding narrow_from_comparison_def eq
    by (cases k; cases "is_top r") (auto simp: in_range_def range_of_def range_const_def Let_def eq)
qed

theorem narrow_from_comparison_sound_witness:
  "in_range (sint (300 :: u64)) RANGE_TOP \<and> narrow_from_comparison IRON_LIR_GT RANGE_TOP (sint (255 :: u64)) = (range_of 256 9223372036854775807, range_of (- 9223372036854775808) 255) \<and>
    in_range (sint (300 :: u64)) (range_of 256 9223372036854775807)"
proof -
  have "narrow_from_comparison IRON_LIR_GT RANGE_TOP (sint (255 :: u64)) = (range_of 256 9223372036854775807, range_of (- 9223372036854775808) 255)"
    "cmp_holds False IRON_LIR_GT 300 255" by code_simp+
  then show ?thesis using narrow_from_comparison_sound [of 300 RANGE_TOP IRON_LIR_GT 255] by simp
qed

section \<open>Joined blocks\<close>

text \<open>
  Two conditionals without an else branch, then an object with the compared value as its field: the false
  target of each branch is the block where the branch joins again.
\<close>

definition joined_example :: lir_func where
  "joined_example =
    (let instr = (\<lambda>v op. \<lparr>i_id = v, i_type = (if v = 0 then None else Some IRON_TYPE_INT), i_op = op\<rparr>);
         obj = IRON_TYPE_OBJECT (Some \<lparr>od_name = Some ''Pixel'', od_fields = [Some ''level'']\<rparr>);
         b1 = [instr 1 (IRON_LIR_CALL (Some ''read_level'') 0 [] False []), instr 2 (IRON_LIR_CONST_INT 0), instr 3 (IRON_LIR_CMP IRON_LIR_LT 1 2), instr 0 (IRON_LIR_BRANCH 3 2 3)];
         b2 = [instr 0 (IRON_LIR_JUMP 3)];
         b3 = [instr 4 (IRON_LIR_CONST_INT 255), instr 5 (IRON_LIR_CMP IRON_LIR_GT 1 4), instr 0 (IRON_LIR_BRANCH 5 4 5)];
         b4 = [instr 0 (IRON_LIR_JUMP 5)];
         b5 = [\<lparr>i_id = 6, i_type = Some obj, i_op = IRON_LIR_CONSTRUCT (Some obj) [1]\<rparr>, instr 0 (IRON_LIR_RETURN 0 True)]
     in \<lparr>f_name = Some ''store'', f_is_extern = False,
         f_blocks = [\<lparr>b_id = 1, b_label = Some ''entry'', b_instrs = b1, b_preds = [], b_succs = [2, 3]\<rparr>,
                     \<lparr>b_id = 2, b_label = Some ''if_then_1'', b_instrs = b2, b_preds = [1], b_succs = [3]\<rparr>,
                     \<lparr>b_id = 3, b_label = Some ''if_merge_1'', b_instrs = b3, b_preds = [1, 2], b_succs = [4, 5]\<rparr>,
                     \<lparr>b_id = 4, b_label = Some ''if_then_2'', b_instrs = b4, b_preds = [3], b_succs = [5]\<rparr>,
                     \<lparr>b_id = 5, b_label = Some ''if_merge_2'', b_instrs = b5, b_preds = [3, 4], b_succs = []\<rparr>],
         f_next_value_id = 7,
         f_value_table = None # map Some (filter (\<lambda>i. i_id i \<noteq> 0) (b1 @ b3 @ b5)), f_captures = []\<rparr>)"

text \<open>The range of a field can miss values the program stores in it: for a value that is compared by two conditionals without
  an else branch and then stored in an object, the analysis answers that the field fits an unsigned byte, and a run of the
  function stores 1000 there.\<close>

theorem field_narrowing_unsound:
  "iron_vr_get_narrowed_type (iron_vr_analyze [joined_example]) ''Pixel'' ''level'' = Some ''uint8_t'' \<and>
    (\<exists>s od. lir_reachable joined_example s \<and> map_option i_op (current joined_example s) = Some (IRON_LIR_CONSTRUCT (Some (IRON_TYPE_OBJECT (Some od))) [1]) \<and>
      od_name od = Some ''Pixel'' \<and> od_fields od = [Some ''level''] \<and> read_value joined_example s 1 = Some 1000 \<and> \<not> c_type_holds ''uint8_t'' 1000)"
proof -
  let ?s = "exec_steps joined_example (\<lambda>_. 1000) 8 lir_start"
  let ?od = "\<lparr>od_name = Some ''Pixel'', od_fields = [Some ''level'']\<rparr>"
  have "iron_vr_get_narrowed_type (iron_vr_analyze [joined_example]) ''Pixel'' ''level'' = Some ''uint8_t''" by code_simp
  moreover have "map_option i_op (current joined_example ?s) = Some (IRON_LIR_CONSTRUCT (Some (IRON_TYPE_OBJECT (Some ?od))) [1])" by code_simp
  moreover have "read_value joined_example ?s 1 = Some 1000" by code_simp
  moreover have "\<not> c_type_holds ''uint8_t'' 1000" by code_simp
  ultimately show ?thesis using exec_reachable by (intro conjI exI [of _ ?s] exI [of _ ?od]) simp_all
qed

end
