(* ===== verification/Iron_Types.thy ===== *)
theory Iron_Types
  imports Prelude
begin

text \<open>
  The types of the language as the compiler keeps them (src/analyzer/types.c, types.h): structural equality
  and the predicates on numeric types.
\<close>

section \<open>Types\<close>

datatype Iron_PrimKind =
    IRON_TYPE_INT | IRON_TYPE_INT8 | IRON_TYPE_INT16 | IRON_TYPE_INT32 | IRON_TYPE_INT64
  | IRON_TYPE_UINT | IRON_TYPE_UINT8 | IRON_TYPE_UINT16 | IRON_TYPE_UINT32 | IRON_TYPE_UINT64
  | IRON_TYPE_FLOAT | IRON_TYPE_FLOAT32 | IRON_TYPE_FLOAT64
  | IRON_TYPE_BOOL | IRON_TYPE_STRING | IRON_TYPE_VOID | IRON_TYPE_NULL | IRON_TYPE_ERROR

text \<open>
  A declaration is named by its address, a pointer that may be NULL is an option, and an array of pointers is the
  list of them. What equality and the optimiser do not look at (names made for the C code, caches, payloads of
  variants) is left out.
\<close>

datatype Iron_Type =
    Prim Iron_PrimKind
  | IRON_TYPE_OBJECT (decl: "addr option") (elem: "Iron_Type option") (elem2: "Iron_Type option")
  | IRON_TYPE_INTERFACE "addr option"
  | IRON_TYPE_ENUM "addr option" "Iron_Type option list"
  | IRON_TYPE_NULLABLE "Iron_Type option"
  | IRON_TYPE_FUNC "Iron_Type option list" "Iron_Type option"
  | IRON_TYPE_ARRAY "Iron_Type option" int bool
  | IRON_TYPE_RC "Iron_Type option"
  | IRON_TYPE_WEAK_RC "Iron_Type option"
  | IRON_TYPE_PTR "Iron_Type option" bool bool
  | IRON_TYPE_VIEW "Iron_Type option" bool
  | IRON_TYPE_GENERIC_PARAM string "Iron_Type option"
  | IRON_TYPE_TUPLE "Iron_Type option list"

section \<open>Equality\<close>

text \<open>
  Equality of two pointers to types. The C code first compares the pointers themselves; on types whose
  generic parameters all have names this only shortens the comparison (\<open>equals_refl\<close> below).
\<close>

fun iron_type_equals :: "Iron_Type option \<Rightarrow> Iron_Type option \<Rightarrow> bool"
  and node_equals :: "Iron_Type \<Rightarrow> Iron_Type \<Rightarrow> bool"
  and all_equal :: "Iron_Type option list \<Rightarrow> Iron_Type option list \<Rightarrow> bool" where
  "iron_type_equals None q \<longleftrightarrow> q = None"
| "iron_type_equals (Some a) q \<longleftrightarrow> (case q of None \<Rightarrow> False | Some b \<Rightarrow> node_equals a b)"
| "node_equals (Prim k) t \<longleftrightarrow> t = Prim k"
| "node_equals (IRON_TYPE_NULLABLE a) t \<longleftrightarrow> (case t of IRON_TYPE_NULLABLE b \<Rightarrow> iron_type_equals a b | _ \<Rightarrow> False)"
| "node_equals (IRON_TYPE_RC a) t \<longleftrightarrow> (case t of IRON_TYPE_RC b \<Rightarrow> iron_type_equals a b | _ \<Rightarrow> False)"
| "node_equals (IRON_TYPE_WEAK_RC a) t \<longleftrightarrow> (case t of IRON_TYPE_WEAK_RC b \<Rightarrow> iron_type_equals a b | _ \<Rightarrow> False)"
| "node_equals (IRON_TYPE_PTR a is_var is_unchecked) t \<longleftrightarrow> (case t of
      IRON_TYPE_PTR b v u \<Rightarrow> is_var = v \<and> is_unchecked = u \<and> iron_type_equals a b | _ \<Rightarrow> False)"
| "node_equals (IRON_TYPE_VIEW a is_mut) t \<longleftrightarrow> (case t of IRON_TYPE_VIEW b m \<Rightarrow> is_mut = m \<and> iron_type_equals a b | _ \<Rightarrow> False)"
| "node_equals (IRON_TYPE_ARRAY a n is_bounded) t \<longleftrightarrow> (case t of
      IRON_TYPE_ARRAY b m bd \<Rightarrow> n = m \<and> is_bounded = bd \<and> iron_type_equals a b | _ \<Rightarrow> False)"
| "node_equals (IRON_TYPE_FUNC ps r) t \<longleftrightarrow> (case t of
      IRON_TYPE_FUNC qs q \<Rightarrow> length ps = length qs \<and> iron_type_equals r q \<and> all_equal ps qs | _ \<Rightarrow> False)"
| "node_equals (IRON_TYPE_OBJECT d e f) t \<longleftrightarrow> (case t of
      IRON_TYPE_OBJECT d' e' f' \<Rightarrow> d = d' \<and> (e = None \<or> e' = None \<or> iron_type_equals e e') \<and>
        (f = None \<or> f' = None \<or> iron_type_equals f f') | _ \<Rightarrow> False)"
| "node_equals (IRON_TYPE_INTERFACE d) t \<longleftrightarrow> t = IRON_TYPE_INTERFACE d"
| "node_equals (IRON_TYPE_ENUM d as) t \<longleftrightarrow> (case t of
      IRON_TYPE_ENUM d' bs \<Rightarrow> d = d' \<and> length as = length bs \<and> all_equal as bs | _ \<Rightarrow> False)"
| "node_equals (IRON_TYPE_GENERIC_PARAM n c) t \<longleftrightarrow> (case t of
      IRON_TYPE_GENERIC_PARAM m d \<Rightarrow> n = m \<and> iron_type_equals c d | _ \<Rightarrow> False)"
| "node_equals (IRON_TYPE_TUPLE es) t \<longleftrightarrow> (case t of IRON_TYPE_TUPLE fs \<Rightarrow> length es = length fs \<and> all_equal es fs | _ \<Rightarrow> False)"
| "all_equal [] ys \<longleftrightarrow> True"
| "all_equal (x # xs) ys \<longleftrightarrow> iron_type_equals x (hd ys) \<and> all_equal xs (tl ys)"

lemma type_equals_rel: "iron_type_equals = rel_option node_equals"
proof (intro ext)
  show "iron_type_equals p q = rel_option node_equals p q" for p q by (cases p; cases q) simp_all
qed

lemma all_equal_rel: "length xs = length ys \<and> all_equal xs ys \<longleftrightarrow> list_all2 (rel_option node_equals) xs ys"
proof (induction xs arbitrary: ys)
  case (Cons x xs)
  then show ?case by (cases ys) (auto simp: type_equals_rel)
qed simp

text \<open>
  A container made without an annotation has no element types yet. A type fills in another when it has the same
  shape, with element types where the other has none.
\<close>

inductive fills :: "Iron_Type \<Rightarrow> Iron_Type \<Rightarrow> bool" where
  fills_prim: "fills (Prim k) (Prim k)"
| fills_object: "e = None \<or> rel_option fills e e' \<Longrightarrow> f = None \<or> rel_option fills f f' \<Longrightarrow>
    fills (IRON_TYPE_OBJECT d e f) (IRON_TYPE_OBJECT d e' f')"
| fills_interface: "fills (IRON_TYPE_INTERFACE d) (IRON_TYPE_INTERFACE d)"
| fills_enum: "list_all2 (rel_option fills) as bs \<Longrightarrow> fills (IRON_TYPE_ENUM d as) (IRON_TYPE_ENUM d bs)"
| fills_nullable: "rel_option fills a b \<Longrightarrow> fills (IRON_TYPE_NULLABLE a) (IRON_TYPE_NULLABLE b)"
| fills_func: "list_all2 (rel_option fills) ps qs \<Longrightarrow> rel_option fills r q \<Longrightarrow> fills (IRON_TYPE_FUNC ps r) (IRON_TYPE_FUNC qs q)"
| fills_array: "rel_option fills a b \<Longrightarrow> fills (IRON_TYPE_ARRAY a n bd) (IRON_TYPE_ARRAY b n bd)"
| fills_rc: "rel_option fills a b \<Longrightarrow> fills (IRON_TYPE_RC a) (IRON_TYPE_RC b)"
| fills_weak_rc: "rel_option fills a b \<Longrightarrow> fills (IRON_TYPE_WEAK_RC a) (IRON_TYPE_WEAK_RC b)"
| fills_ptr: "rel_option fills a b \<Longrightarrow> fills (IRON_TYPE_PTR a v u) (IRON_TYPE_PTR b v u)"
| fills_view: "rel_option fills a b \<Longrightarrow> fills (IRON_TYPE_VIEW a m) (IRON_TYPE_VIEW b m)"
| fills_generic: "rel_option fills a b \<Longrightarrow> fills (IRON_TYPE_GENERIC_PARAM n a) (IRON_TYPE_GENERIC_PARAM n b)"
| fills_tuple: "list_all2 (rel_option fills) as bs \<Longrightarrow> fills (IRON_TYPE_TUPLE as) (IRON_TYPE_TUPLE bs)"
monos option.rel_mono list.rel_mono

inductive_cases fills_cases:
  "fills a (Prim k)" "fills a (IRON_TYPE_OBJECT d e f)" "fills a (IRON_TYPE_INTERFACE d)" "fills a (IRON_TYPE_ENUM d as)"
  "fills a (IRON_TYPE_NULLABLE b)" "fills a (IRON_TYPE_FUNC ps r)" "fills a (IRON_TYPE_ARRAY b n bd)" "fills a (IRON_TYPE_RC b)"
  "fills a (IRON_TYPE_WEAK_RC b)" "fills a (IRON_TYPE_PTR b v u)" "fills a (IRON_TYPE_VIEW b m)" "fills a (IRON_TYPE_GENERIC_PARAM n b)"
  "fills a (IRON_TYPE_TUPLE es)"

lemma rel_option_refl: "(\<And>x. x \<in> set_option p \<Longrightarrow> R x x) \<Longrightarrow> rel_option R p p"
  by (cases p) auto

lemma fills_refl: "fills t t"
  by (induction t) (auto intro!: fills.intros rel_option_refl list.rel_refl_strong)

lemma common_option:
  "rel_option R p q \<Longrightarrow> (\<And>x y. x \<in> set_option p \<Longrightarrow> R x y \<Longrightarrow> \<exists>z. P x z \<and> P y z) \<Longrightarrow>
    \<exists>r. rel_option P p r \<and> rel_option P q r"
  by (cases p; cases q) (simp_all, metis option.rel_inject(2))

lemma common_list:
  "list_all2 (rel_option R) xs ys \<Longrightarrow> (\<And>x a b. x \<in> set xs \<Longrightarrow> a \<in> set_option x \<Longrightarrow> R a b \<Longrightarrow> \<exists>z. P a z \<and> P b z) \<Longrightarrow>
    \<exists>zs. list_all2 (rel_option P) xs zs \<and> list_all2 (rel_option P) ys zs"
proof (induction rule: list_all2_induct)
  case (Cons x xs y ys)
  have "\<exists>zs. list_all2 (rel_option P) xs zs \<and> list_all2 (rel_option P) ys zs"
    using Cons.IH Cons.prems by (meson list.set_intros(2))
  moreover have "\<exists>r. rel_option P x r \<and> rel_option P y r"
    using common_option [OF Cons.hyps(1), of P] Cons.prems by (meson list.set_intros(1))
  ultimately show ?case by (blast intro: list_all2_Cons [THEN iffD2])
qed simp

lemma option_common:
  "rel_option (\<lambda>x z. fills x z \<and> (\<forall>y. fills y z \<longrightarrow> R x y)) p r \<Longrightarrow> rel_option fills q r \<Longrightarrow> rel_option R p q"
  by (cases p; cases q; cases r) auto

lemma list_common:
  "list_all2 (rel_option (\<lambda>x z. fills x z \<and> (\<forall>y. fills y z \<longrightarrow> R x y))) xs zs \<Longrightarrow> list_all2 (rel_option fills) ys zs \<Longrightarrow>
    list_all2 (rel_option R) xs ys"
  unfolding list_all2_conv_all_nth using option_common [where R = R] by (metis (no_types, lifting))

lemma fills_equal: "fills a c \<Longrightarrow> fills b c \<Longrightarrow> node_equals a b"
proof (induction arbitrary: b rule: fills.induct)
  case (fills_object e e' f f' d)
  from fills_object.prems obtain g h where b: "b = IRON_TYPE_OBJECT d g h" "g = None \<or> rel_option fills g e'" "h = None \<or> rel_option fills h f'"
    by (auto elim: fills_cases)
  have "e = None \<or> g = None \<or> iron_type_equals e g"
    using fills_object.IH(1) b(2) option_common [of node_equals e e' g] by (auto simp: type_equals_rel)
  moreover have "f = None \<or> h = None \<or> iron_type_equals f h"
    using fills_object.IH(2) b(3) option_common [of node_equals f f' h] by (auto simp: type_equals_rel)
  ultimately show ?case using b(1) by simp
next
  case (fills_func ps qs r q)
  from fills_func.prems obtain xs y where b: "b = IRON_TYPE_FUNC xs y" "list_all2 (rel_option fills) xs qs" "rel_option fills y q"
    by (auto elim: fills_cases)
  have "list_all2 (rel_option node_equals) ps xs" "rel_option node_equals r y"
    using list_common [OF fills_func.IH(1) b(2)] option_common [OF fills_func.IH(2) b(3)] .
  then show ?case using b(1) by (simp add: type_equals_rel flip: all_equal_rel)
qed (auto elim!: fills_cases simp: all_equal_rel type_equals_rel intro: option_common list_common)

lemma object_part:
  assumes "p = None \<or> q = None \<or> iron_type_equals p q" "\<And>x y. x \<in> set_option p \<Longrightarrow> node_equals x y \<Longrightarrow> \<exists>z. fills x z \<and> fills y z"
  shows "\<exists>r. (p = None \<or> rel_option fills p r) \<and> (q = None \<or> rel_option fills q r)"
proof (cases "p = None \<or> q = None")
  case True
  then show ?thesis using fills_refl by (metis rel_option_refl)
next
  case False
  then have "rel_option node_equals p q" using assms(1) by (auto simp: type_equals_rel)
  then have "\<exists>r. rel_option fills p r \<and> rel_option fills q r" by (rule common_option) (rule assms(2))
  then show ?thesis by blast
qed

lemma unary_part:
  assumes "iron_type_equals p q" "\<And>x y. x \<in> set_option p \<Longrightarrow> node_equals x y \<Longrightarrow> \<exists>z. fills x z \<and> fills y z"
  shows "\<exists>r. rel_option fills p r \<and> rel_option fills q r"
  using assms(1) unfolding type_equals_rel by (rule common_option) (rule assms(2))

lemma equal_fills: "node_equals a b \<Longrightarrow> \<exists>c. fills a c \<and> fills b c"
proof (induction a arbitrary: b)
  case (IRON_TYPE_OBJECT d e f)
  from IRON_TYPE_OBJECT.prems obtain g h where b: "b = IRON_TYPE_OBJECT d g h" "e = None \<or> g = None \<or> iron_type_equals e g"
      "f = None \<or> h = None \<or> iron_type_equals f h"
    by (auto split: Iron_Type.splits)
  obtain p where "e = None \<or> rel_option fills e p" "g = None \<or> rel_option fills g p"
    using object_part [OF b(2)] IRON_TYPE_OBJECT.IH(1) by blast
  moreover obtain q where "f = None \<or> rel_option fills f q" "h = None \<or> rel_option fills h q"
    using object_part [OF b(3)] IRON_TYPE_OBJECT.IH(2) by blast
  ultimately show ?case using b(1) by (blast intro: fills.fills_object)
next
  case (IRON_TYPE_FUNC ps r)
  from IRON_TYPE_FUNC.prems obtain qs q where b: "b = IRON_TYPE_FUNC qs q" "list_all2 (rel_option node_equals) ps qs"
      "rel_option node_equals r q"
    by (auto split: Iron_Type.splits simp: type_equals_rel all_equal_rel [symmetric])
  obtain zs where "list_all2 (rel_option fills) ps zs" "list_all2 (rel_option fills) qs zs"
    using common_list [OF b(2)] IRON_TYPE_FUNC.IH(1) by blast
  moreover obtain z where "rel_option fills r z" "rel_option fills q z"
    using common_option [OF b(3)] IRON_TYPE_FUNC.IH(2) by blast
  ultimately show ?case using b(1) by (blast intro: fills.fills_func)
next
  case (IRON_TYPE_ENUM d as)
  then obtain bs where b: "b = IRON_TYPE_ENUM d bs" "list_all2 (rel_option node_equals) as bs"
    by (auto split: Iron_Type.splits simp: all_equal_rel [symmetric])
  then show ?case using common_list [OF b(2)] IRON_TYPE_ENUM.IH by (blast intro: fills.fills_enum)
next
  case (IRON_TYPE_TUPLE as)
  then obtain bs where b: "b = IRON_TYPE_TUPLE bs" "list_all2 (rel_option node_equals) as bs"
    by (auto split: Iron_Type.splits simp: all_equal_rel [symmetric])
  then show ?case using common_list [OF b(2)] IRON_TYPE_TUPLE.IH by (blast intro: fills.fills_tuple)
next
  case (IRON_TYPE_NULLABLE a)
  from IRON_TYPE_NULLABLE.prems obtain a' where b: "b = IRON_TYPE_NULLABLE a'" "iron_type_equals a a'" by (cases b) auto
  show ?case using unary_part [OF b(2) IRON_TYPE_NULLABLE.IH] b(1) by (blast intro: fills.fills_nullable)
next
  case (IRON_TYPE_ARRAY a n bd)
  from IRON_TYPE_ARRAY.prems obtain a' where b: "b = IRON_TYPE_ARRAY a' n bd" "iron_type_equals a a'" by (cases b) auto
  show ?case using unary_part [OF b(2) IRON_TYPE_ARRAY.IH] b(1) by (blast intro: fills.fills_array)
next
  case (IRON_TYPE_RC a)
  from IRON_TYPE_RC.prems obtain a' where b: "b = IRON_TYPE_RC a'" "iron_type_equals a a'" by (cases b) auto
  show ?case using unary_part [OF b(2) IRON_TYPE_RC.IH] b(1) by (blast intro: fills.fills_rc)
next
  case (IRON_TYPE_WEAK_RC a)
  from IRON_TYPE_WEAK_RC.prems obtain a' where b: "b = IRON_TYPE_WEAK_RC a'" "iron_type_equals a a'" by (cases b) auto
  show ?case using unary_part [OF b(2) IRON_TYPE_WEAK_RC.IH] b(1) by (blast intro: fills.fills_weak_rc)
next
  case (IRON_TYPE_PTR a v u)
  from IRON_TYPE_PTR.prems obtain a' where b: "b = IRON_TYPE_PTR a' v u" "iron_type_equals a a'" by (cases b) auto
  show ?case using unary_part [OF b(2) IRON_TYPE_PTR.IH] b(1) by (blast intro: fills.fills_ptr)
next
  case (IRON_TYPE_VIEW a m)
  from IRON_TYPE_VIEW.prems obtain a' where b: "b = IRON_TYPE_VIEW a' m" "iron_type_equals a a'" by (cases b) auto
  show ?case using unary_part [OF b(2) IRON_TYPE_VIEW.IH] b(1) by (blast intro: fills.fills_view)
next
  case (IRON_TYPE_GENERIC_PARAM n a)
  from IRON_TYPE_GENERIC_PARAM.prems obtain a' where b: "b = IRON_TYPE_GENERIC_PARAM n a'" "iron_type_equals a a'" by (cases b) auto
  show ?case using unary_part [OF b(2) IRON_TYPE_GENERIC_PARAM.IH] b(1) by (blast intro: fills.fills_generic)
qed (auto intro: fills.intros)

text \<open>C34: Two types are equal for the compiler exactly when some type fills in both: they have the same shape wherever
  both say something, and a container made without element types equals every instance of itself.\<close>

theorem type_equals_exact: "iron_type_equals (Some a) (Some b) \<longleftrightarrow> (\<exists>c. fills a c \<and> fills b c)"
  using equal_fills fills_equal by auto

lemma equals_refl: "iron_type_equals p p"
  using fills_equal [OF fills_refl fills_refl] by (cases p) auto

lemma equals_sym: "iron_type_equals p q \<longleftrightarrow> iron_type_equals q p"
proof -
  have "node_equals a b \<Longrightarrow> node_equals b a" for a b using equal_fills fills_equal by blast
  then show ?thesis by (cases p; cases q) auto
qed

text \<open>So equality is not transitive: a bare channel equals a channel of integers and a channel of truth values.\<close>

lemma equals_not_transitive:
  "iron_type_equals (Some (IRON_TYPE_OBJECT d (Some (Prim IRON_TYPE_INT)) None)) (Some (IRON_TYPE_OBJECT d None None))"
  "iron_type_equals (Some (IRON_TYPE_OBJECT d None None)) (Some (IRON_TYPE_OBJECT d (Some (Prim IRON_TYPE_BOOL)) None))"
  "\<not> iron_type_equals (Some (IRON_TYPE_OBJECT d (Some (Prim IRON_TYPE_INT)) None)) (Some (IRON_TYPE_OBJECT d (Some (Prim IRON_TYPE_BOOL)) None))"
  by simp_all

section \<open>Numeric types\<close>

definition iron_type_is_integer :: "Iron_Type option \<Rightarrow> bool" where
  "iron_type_is_integer t \<longleftrightarrow> t \<in> (Some \<circ> Prim) ` {IRON_TYPE_INT, IRON_TYPE_INT8, IRON_TYPE_INT16, IRON_TYPE_INT32, IRON_TYPE_INT64,
    IRON_TYPE_UINT, IRON_TYPE_UINT8, IRON_TYPE_UINT16, IRON_TYPE_UINT32, IRON_TYPE_UINT64}"

definition iron_type_is_float :: "Iron_Type option \<Rightarrow> bool" where
  "iron_type_is_float t \<longleftrightarrow> t \<in> (Some \<circ> Prim) ` {IRON_TYPE_FLOAT, IRON_TYPE_FLOAT32, IRON_TYPE_FLOAT64}"

definition iron_type_is_numeric :: "Iron_Type option \<Rightarrow> bool" where
  "iron_type_is_numeric t \<longleftrightarrow> iron_type_is_integer t \<or> iron_type_is_float t"

definition iron_type_is_bytes :: "Iron_Type option \<Rightarrow> bool" where
  "iron_type_is_bytes t \<longleftrightarrow> t = Some (IRON_TYPE_VIEW (Some (Prim IRON_TYPE_UINT8)) False)"

end
