(* ===== verification/Lir_Instr.thy ===== *)
theory Lir_Instr
  imports Iron_Types Diag
begin

text \<open>
  The whole instruction set of the lowered representation (src/lir/lir.h): every opcode with its operands, over an
  arbitrary type of operands so that the same term describes an instruction (operands are value identifiers) and
  a moment of its execution (operands are words). The theory Lir beside it keeps only what the value-range analysis reads.
  Payload that neither the verifier nor the passes over it read (spans, hints for the C code) is left out.
\<close>

section \<open>Instructions\<close>

type_synonym value_id = nat
type_synonym block_id = nat

abbreviation (input) VALUE_INVALID :: value_id where "VALUE_INVALID \<equiv> 0"
abbreviation (input) BLOCK_INVALID :: block_id where "BLOCK_INVALID \<equiv> 0"

datatype binop_kind =
    ADD | SUB | MUL | DIV | MOD | EQ | NEQ | LT | LTE | GT | GTE | LAND | LOR | SHL | SHR | BAND | BOR | BXOR

datatype unop_kind = NEG | LNOT | BNOT

text \<open>
  The opcodes in the groups the header lists them in, each with the operands of its member of the union. The
  names are those of the C enumeration without their prefix.
\<close>

datatype lir_const = CONST_INT u64 | CONST_FLOAT u64 | CONST_BOOL bool | CONST_STRING string | CONST_NULL

datatype 'v mem_inst =
    ALLOCA (alloc_type: "Iron_Type option") (name_hint: "string option") (global_name: "string option")
  | LOAD 'v
  | STORE 'v 'v
  | GET_FIELD 'v "string option"
  | SET_FIELD 'v "string option" 'v
  | GET_INDEX 'v 'v (bounds_elide: bool) (bounds_unchecked: bool)
  | SET_INDEX 'v 'v 'v

datatype 'v ctrl_inst =
    JUMP block_id
  | BRANCH 'v block_id block_id
  | SWITCH 'v block_id "int list" "block_id list"
  | RETURN 'v bool

datatype 'v high_inst =
    CALL "string option" 'v "'v list"
  | CAST 'v "Iron_Type option"
  | CONSTRUCT "Iron_Type option" "'v list"
  | ARRAY_LIT "'v list"
  | SLICE 'v 'v 'v
  | IS_NULL 'v
  | IS_NOT_NULL 'v
  | INTERP_STRING "'v list"

datatype 'v manage_inst =
    HEAP_ALLOC 'v
  | RC_ALLOC 'v
  | ARENA_ALLOC 'v 'v
  | ARENA_PUSH 'v
  | ARENA_POP
  | SCOPE_ENTER int
  | SCOPE_LEAVE int
  | RC_RETAIN 'v
  | RC_RELEASE 'v
  | WEAK_RC_RETAIN 'v
  | WEAK_RC_RELEASE 'v
  | WEAK_RC_DOWNGRADE 'v
  | WEAK_RC_UPGRADE 'v
  | FREE 'v

datatype 'v conc_inst =
    MAKE_CLOSURE "string option" "'v list"
  | FUNC_REF "string option"
  | SPAWN "string option" 'v "'v list"
  | PARALLEL_FOR "string option" 'v 'v "'v list"
  | AWAIT 'v

datatype 'v ptr_inst =
    ADDR_OF 'v
  | PTR_LOAD 'v
  | PTR_STORE 'v 'v
  | PTR_OFFSET 'v 'v
  | PTR_DIFF 'v 'v
  | GENCHECK 'v 'v

datatype 'v lir_inst =
    CONSTANT lir_const
  | BINOP binop_kind 'v 'v
  | UNOP unop_kind 'v
  | MEM "'v mem_inst"
  | CTRL "'v ctrl_inst"
  | HIGH "'v high_inst"
  | MANAGE "'v manage_inst"
  | CONC "'v conc_inst"
  | PHI "'v list" "block_id list"
  | POISON
  | PTR "'v ptr_inst"

section \<open>Functions\<close>

record IronLIR_Instr =
  in_id :: value_id
  in_type :: "Iron_Type option"
  in_span :: Iron_Span
  in_op :: "value_id lir_inst"

record IronLIR_Block =
  bl_id :: block_id
  bl_label :: string
  bl_instrs :: "IronLIR_Instr list"
  bl_succs :: "block_id list"

text \<open>
  A parameter is its type; the value identifiers of the parameters are the first ones and have no instruction. An
  instruction and its entry in the table of values are the same object.
\<close>

record IronLIR_Func =
  fn_name :: string
  fn_return_type :: "Iron_Type option"
  fn_params :: "Iron_Type option list"
  fn_is_extern :: bool
  fn_blocks :: "IronLIR_Block list"
  fn_value_table :: "IronLIR_Instr option list"

type_synonym IronLIR_Module = "IronLIR_Func list"

definition func_instrs :: "IronLIR_Func \<Rightarrow> IronLIR_Instr list" where
  "func_instrs fn = concat (map bl_instrs (fn_blocks fn))"

text \<open>The instruction that produces a value; the table holds nothing for a parameter.\<close>

definition table_entry :: "IronLIR_Func \<Rightarrow> value_id \<Rightarrow> IronLIR_Instr option" where
  "table_entry fn v = (if v < length (fn_value_table fn) then fn_value_table fn ! v else None)"

definition iron_lir_is_terminator :: "'v lir_inst \<Rightarrow> bool" where
  "iron_lir_is_terminator op \<longleftrightarrow> (case op of CTRL c \<Rightarrow> True | _ \<Rightarrow> False)"

section \<open>Operands\<close>

definition MAX_OPERANDS :: nat where
  "MAX_OPERANDS = 64"

text \<open>The fields of an instruction that name values, in the order the collectors visit them.\<close>

fun mem_fields :: "'v mem_inst \<Rightarrow> 'v list" where
  "mem_fields (ALLOCA ty hint glob) = []"
| "mem_fields (LOAD ptr) = [ptr]"
| "mem_fields (STORE ptr val) = [ptr, val]"
| "mem_fields (GET_FIELD obj f) = [obj]"
| "mem_fields (SET_FIELD obj f val) = [obj, val]"
| "mem_fields (GET_INDEX arr ix e u) = [arr, ix]"
| "mem_fields (SET_INDEX arr ix val) = [arr, ix, val]"

fun ctrl_fields :: "'v ctrl_inst \<Rightarrow> 'v list" where
  "ctrl_fields (JUMP t) = []"
| "ctrl_fields (BRANCH c t e) = [c]"
| "ctrl_fields (SWITCH subject d vs bs) = [subject]"
| "ctrl_fields (RETURN val is_void) = (if is_void then [] else [val])"

fun high_fields :: "'v high_inst \<Rightarrow> 'v list" where
  "high_fields (CALL func_decl func_ptr args) = (if func_decl = None then func_ptr # args else args)"
| "high_fields (CAST val ty) = [val]"
| "high_fields (CONSTRUCT ty vals) = vals"
| "high_fields (ARRAY_LIT els) = els"
| "high_fields (SLICE arr start fin) = [arr, start, fin]"
| "high_fields (IS_NULL val) = [val]"
| "high_fields (IS_NOT_NULL val) = [val]"
| "high_fields (INTERP_STRING parts) = parts"

fun manage_fields :: "'v manage_inst \<Rightarrow> 'v list" where
  "manage_fields (HEAP_ALLOC val) = [val]"
| "manage_fields (RC_ALLOC val) = [val]"
| "manage_fields (ARENA_ALLOC val arena) = [val, arena]"
| "manage_fields (ARENA_PUSH arena) = [arena]"
| "manage_fields ARENA_POP = []"
| "manage_fields (SCOPE_ENTER k) = []"
| "manage_fields (SCOPE_LEAVE k) = []"
| "manage_fields (RC_RETAIN val) = [val]"
| "manage_fields (RC_RELEASE val) = [val]"
| "manage_fields (WEAK_RC_RETAIN val) = [val]"
| "manage_fields (WEAK_RC_RELEASE val) = [val]"
| "manage_fields (WEAK_RC_DOWNGRADE val) = [val]"
| "manage_fields (WEAK_RC_UPGRADE val) = [val]"
| "manage_fields (FREE val) = [val]"

fun conc_fields :: "'v conc_inst \<Rightarrow> 'v list" where
  "conc_fields (MAKE_CLOSURE name captures) = captures"
| "conc_fields (FUNC_REF name) = []"
| "conc_fields (SPAWN name pool captures) = pool # captures"
| "conc_fields (PARALLEL_FOR name rng pool captures) = rng # pool # captures"
| "conc_fields (AWAIT handle) = [handle]"

fun ptr_fields :: "'v ptr_inst \<Rightarrow> 'v list" where
  "ptr_fields (ADDR_OF target) = [target]"
| "ptr_fields (PTR_LOAD fp) = [fp]"
| "ptr_fields (PTR_STORE fp val) = [fp, val]"
| "ptr_fields (PTR_OFFSET ptr offset) = [ptr, offset]"
| "ptr_fields (PTR_DIFF a b) = [a, b]"
| "ptr_fields (GENCHECK ptr root_alloc) = [ptr, root_alloc]"

fun operand_fields :: "'v lir_inst \<Rightarrow> 'v list" where
  "operand_fields (CONSTANT c) = []"
| "operand_fields (BINOP k left right) = [left, right]"
| "operand_fields (UNOP k operand) = [operand]"
| "operand_fields (MEM m) = mem_fields m"
| "operand_fields (CTRL c) = ctrl_fields c"
| "operand_fields (HIGH h) = high_fields h"
| "operand_fields (MANAGE m) = manage_fields m"
| "operand_fields (CONC c) = conc_fields c"
| "operand_fields (PHI vals preds) = vals"
| "operand_fields POISON = []"
| "operand_fields (PTR p) = ptr_fields p"

text \<open>The macro PUSH: a missing operand is skipped, and so is what no longer fits.\<close>

definition push_operand :: "value_id \<Rightarrow> value_id list \<Rightarrow> value_id list" where
  "push_operand v out = (if v \<noteq> VALUE_INVALID \<and> length out < MAX_OPERANDS then out @ [v] else out)"

definition opt_collect_operands :: "value_id lir_inst \<Rightarrow> value_id list" where
  "opt_collect_operands op = fold push_operand (operand_fields op) []"

text \<open>The verifier's collector differs in one place: it leaves out what a spawn captures.\<close>

definition collect_operands :: "value_id lir_inst \<Rightarrow> value_id list" where
  "collect_operands op = (case op of
      CONC (SPAWN name pool captures) \<Rightarrow> fold push_operand [pool] []
    | _ \<Rightarrow> fold push_operand (operand_fields op) [])"

lemma fold_push_operand:
  "length out \<le> MAX_OPERANDS \<Longrightarrow> fold push_operand vs out = take MAX_OPERANDS (out @ filter (\<lambda>v. v \<noteq> 0) vs)"
proof (induction vs arbitrary: out)
  case (Cons v vs)
  then show ?case by (cases "length out < MAX_OPERANDS") (auto simp: push_operand_def take_Cons')
qed simp

lemma opt_collect_eq: "opt_collect_operands op = take MAX_OPERANDS (filter (\<lambda>v. v \<noteq> 0) (operand_fields op))"
  by (simp add: opt_collect_operands_def fold_push_operand)

lemma collect_subset: "set (collect_operands op) \<subseteq> set (opt_collect_operands op)"
proof -
  have "collect_operands op = opt_collect_operands op \<or> (\<exists>n p cs. op = CONC (SPAWN n p cs))"
    by (auto simp: collect_operands_def opt_collect_operands_def split: lir_inst.splits conc_inst.splits)
  then show ?thesis
    by (auto simp: collect_operands_def opt_collect_eq push_operand_def MAX_OPERANDS_def)
qed

text \<open>With at most as many operands as the buffer holds, the collector is complete.\<close>

lemma opt_collect_complete:
  "length (operand_fields op) \<le> MAX_OPERANDS \<Longrightarrow> set (opt_collect_operands op) = set (operand_fields op) - {0}"
proof -
  assume "length (operand_fields op) \<le> MAX_OPERANDS"
  moreover have "length (filter (\<lambda>v. v \<noteq> 0) (operand_fields op)) \<le> length (operand_fields op)" by simp
  ultimately have "take MAX_OPERANDS (filter (\<lambda>v. v \<noteq> 0) (operand_fields op)) = filter (\<lambda>v. v \<noteq> 0) (operand_fields op)"
    using take_all le_trans by blast
  then show ?thesis by (auto simp: opt_collect_eq)
qed

section \<open>Purity\<close>

fun iron_lir_instr_is_pure :: "'v lir_inst \<Rightarrow> bool" where
  "iron_lir_instr_is_pure (CONSTANT c) \<longleftrightarrow> True"
| "iron_lir_instr_is_pure (BINOP k a b) \<longleftrightarrow> True"
| "iron_lir_instr_is_pure (UNOP k a) \<longleftrightarrow> True"
| "iron_lir_instr_is_pure (MEM m) \<longleftrightarrow> (case m of LOAD p \<Rightarrow> True | GET_FIELD ob f \<Rightarrow> True | GET_INDEX a i e u \<Rightarrow> True | _ \<Rightarrow> False)"
| "iron_lir_instr_is_pure (HIGH h) \<longleftrightarrow> (case h of CALL d f as \<Rightarrow> False | INTERP_STRING ps \<Rightarrow> False | _ \<Rightarrow> True)"
| "iron_lir_instr_is_pure (CONC c) \<longleftrightarrow> (case c of MAKE_CLOSURE n cs \<Rightarrow> True | FUNC_REF n \<Rightarrow> True | _ \<Rightarrow> False)"
| "iron_lir_instr_is_pure _ \<longleftrightarrow> False"

definition captures_something :: "'v lir_inst \<Rightarrow> bool" where
  "captures_something op \<longleftrightarrow> (case op of CONC (MAKE_CLOSURE n cs) \<Rightarrow> cs \<noteq> [] | _ \<Rightarrow> False)"

definition const_of :: "IronLIR_Func \<Rightarrow> value_id \<Rightarrow> u64 option" where
  "const_of fn v = (if v = VALUE_INVALID then None else case table_entry fn v of
      Some d \<Rightarrow> (case in_op d of CONSTANT (CONST_INT c) \<Rightarrow> Some c | _ \<Rightarrow> None)
    | None \<Rightarrow> None)"

definition iron_lir_instr_may_trap :: "IronLIR_Func \<Rightarrow> IronLIR_Instr \<Rightarrow> bool" where
  "iron_lir_instr_may_trap fn i \<longleftrightarrow> (case in_op i of
      MEM (GET_INDEX a ix elide unchecked) \<Rightarrow> \<not> elide \<and> \<not> unchecked
    | BINOP k l r \<Rightarrow>
        if k = SHL \<or> k = SHR then \<not> (case const_of fn r of Some c \<Rightarrow> 0 \<le> sint c | None \<Rightarrow> False)
        else if k = DIV \<or> k = MOD then
          iron_type_is_integer (in_type i) \<and> \<not> (case const_of fn r of Some c \<Rightarrow> c \<noteq> 0 | None \<Rightarrow> False)
        else False
    | _ \<Rightarrow> False)"

end
