(* ===== verification/Int_Arith.thy ===== *)
theory Int_Arith
  imports Iron_Types "HOL-Library.Signed_Division"
begin

text \<open>
  Integer arithmetic of compiled programs (src/runtime/iron\_runtime.h): the checked division, the shifts and the bounds
  check that the emitted code calls, against arithmetic on mathematical integers wrapped to the width of the type. A value
  of a narrower type is kept in a 64-bit word, extended by its sign or by zeros.
\<close>

section \<open>The helpers of the runtime\<close>

text \<open>An \<^verbatim>\<open>int64_t\<close> is a word read by its sign; division of C truncates.\<close>

definition iron_idiv64 :: "u64 \<Rightarrow> u64 \<Rightarrow> u64 run" where
  "iron_idiv64 a b =
    (if b = 0 then Inl Panic_Div_By_Zero
     else if b = - 1 then Inr (0 - a)
     else Inr (word_of_int (sint a sdiv sint b)))"

definition iron_imod64 :: "u64 \<Rightarrow> u64 \<Rightarrow> u64 run" where
  "iron_imod64 a b =
    (if b = 0 then Inl Panic_Div_By_Zero
     else if b = - 1 then Inr 0
     else Inr (word_of_int (sint a smod sint b)))"

definition iron_udiv64 :: "u64 \<Rightarrow> u64 \<Rightarrow> u64 run" where
  "iron_udiv64 a b = (if b = 0 then Inl Panic_Div_By_Zero else Inr (a div b))"

definition iron_umod64 :: "u64 \<Rightarrow> u64 \<Rightarrow> u64 run" where
  "iron_umod64 a b = (if b = 0 then Inl Panic_Div_By_Zero else Inr (a mod b))"

definition iron_shift_count_u64 :: "u64 \<Rightarrow> u64" where
  "iron_shift_count_u64 n = (if n > 0x7FFFFFFFFFFFFFFF then 0x7FFFFFFFFFFFFFFF else n)"

definition iron_shl_i64 :: "u64 \<Rightarrow> u64 \<Rightarrow> u64 run" where
  "iron_shl_i64 a n =
    (if sint n < 0 then Inl (Panic_Negative_Shift (sint n))
     else if 64 \<le> sint n then Inr 0
     else Inr (push_bit (nat (sint n)) a))"

definition iron_shr_i64 :: "u64 \<Rightarrow> u64 \<Rightarrow> u64 run" where
  "iron_shr_i64 a n =
    (if sint n < 0 then Inl (Panic_Negative_Shift (sint n))
     else if 64 \<le> sint n then Inr (if sint a < 0 then - 1 else 0)
     else Inr (signed_drop_bit (nat (sint n)) a))"

definition iron_shl_i32 :: "u32 \<Rightarrow> u64 \<Rightarrow> u32 run" where
  "iron_shl_i32 a n =
    (if sint n < 0 then Inl (Panic_Negative_Shift (sint n))
     else if 32 \<le> sint n then Inr 0
     else Inr (push_bit (nat (sint n)) a))"

definition iron_shr_i32 :: "u32 \<Rightarrow> u64 \<Rightarrow> u32 run" where
  "iron_shr_i32 a n =
    (if sint n < 0 then Inl (Panic_Negative_Shift (sint n))
     else if 32 \<le> sint n then Inr (if sint a < 0 then - 1 else 0)
     else Inr (signed_drop_bit (nat (sint n)) a))"

definition iron_shl_u64 :: "u64 \<Rightarrow> u64 \<Rightarrow> u64 run" where
  "iron_shl_u64 a n =
    (if sint n < 0 then Inl (Panic_Negative_Shift (sint n)) else Inr (if 64 \<le> sint n then 0 else push_bit (nat (sint n)) a))"

definition iron_shr_u64 :: "u64 \<Rightarrow> u64 \<Rightarrow> u64 run" where
  "iron_shr_u64 a n =
    (if sint n < 0 then Inl (Panic_Negative_Shift (sint n)) else Inr (if 64 \<le> sint n then 0 else drop_bit (nat (sint n)) a))"

definition iron_bounds_idx :: "u64 \<Rightarrow> u64 \<Rightarrow> u64 run" where
  "iron_bounds_idx i n = (if i \<ge> n then Inl (Panic_Index_Oob (sint i) (sint n)) else Inr i)"

section \<open>Integer types\<close>

fun int_width :: "Iron_PrimKind \<Rightarrow> nat" where
  "int_width IRON_TYPE_INT8 = 8" | "int_width IRON_TYPE_UINT8 = 8"
| "int_width IRON_TYPE_INT16 = 16" | "int_width IRON_TYPE_UINT16 = 16"
| "int_width IRON_TYPE_INT32 = 32" | "int_width IRON_TYPE_UINT32 = 32"
| "int_width _ = 64"

definition int_unsigned :: "Iron_PrimKind \<Rightarrow> bool" where
  "int_unsigned k \<longleftrightarrow> k \<in> {IRON_TYPE_UINT, IRON_TYPE_UINT8, IRON_TYPE_UINT16, IRON_TYPE_UINT32, IRON_TYPE_UINT64}"

text \<open>The number a word stands for, and the word of a number wrapped to the width of a type.\<close>

definition denote :: "Iron_PrimKind \<Rightarrow> u64 \<Rightarrow> int" where
  "denote k w = (if int_unsigned k then uint w else sint w)"

definition represent :: "Iron_PrimKind \<Rightarrow> int \<Rightarrow> u64" where
  "represent k x = word_of_int (if int_unsigned k then take_bit (int_width k) x else signed_take_bit (int_width k - 1) x)"

definition normal :: "Iron_PrimKind \<Rightarrow> u64 \<Rightarrow> bool" where
  "normal k w \<longleftrightarrow> represent k (denote k w) = w"

lemma int_width_cases: "int_width k = 8 \<or> int_width k = 16 \<or> int_width k = 32 \<or> int_width k = 64"
  by (cases k) simp_all

text \<open>Wrapping a number is wrapping the word of its low bits.\<close>

definition wrap_word :: "Iron_PrimKind \<Rightarrow> u64 \<Rightarrow> u64" where
  "wrap_word k w = (if int_unsigned k then take_bit (int_width k) w else signed_take_bit (int_width k - 1) w)"

lemma represent_wrap: "represent k x = wrap_word k (word_of_int x)"
proof -
  have "(word_of_int (take_bit n x) :: u64) = take_bit n (word_of_int x)" for n
    by (rule bit_word_eqI) (simp add: bit_simps)
  moreover have "(word_of_int (signed_take_bit (int_width k - 1) x) :: u64) = signed_take_bit (int_width k - 1) (word_of_int x)"
    using int_width_cases [of k] by (intro bit_word_eqI) (auto simp: bit_simps bit_signed_take_bit_iff min_def)
  ultimately show ?thesis by (simp add: represent_def wrap_word_def)
qed

lemma word_denote [simp]: "word_of_int (denote k w) = w"
  by (simp add: denote_def)

lemma represent_denote: "represent k (denote k' w) = wrap_word k w"
  by (simp add: represent_wrap)

lemma normal_wrap: "normal k w \<longleftrightarrow> wrap_word k w = w"
  by (simp add: normal_def represent_denote)

lemma wrap_word_idem [simp]: "wrap_word k (wrap_word k w) = wrap_word k w"
  by (simp add: wrap_word_def)

lemma represent_normal [simp]: "normal k (represent k x)"
  by (simp add: represent_wrap normal_wrap)

section \<open>The helpers compute on integers\<close>

lemma sdiv_minus_one: "(x::int) sdiv (- 1) = - x" "(x::int) smod (- 1) = 0" "(x::int) smod 1 = 0"
  by (simp_all add: signed_divide_int_def signed_modulo_int_def sgn_if)

lemma sdiv_nonneg: "0 \<le> x \<Longrightarrow> 0 \<le> y \<Longrightarrow> (x::int) sdiv y = x div y" "0 \<le> x \<Longrightarrow> 0 \<le> y \<Longrightarrow> (x::int) smod y = x mod y"
  by (auto simp: signed_divide_int_def signed_modulo_int_def sgn_if)

lemma idiv_exact:
  "iron_idiv64 a b = (if b = 0 then Inl Panic_Div_By_Zero else Inr (word_of_int (sint a sdiv sint b)))"
proof (cases "b = - 1")
  case True
  then have "word_of_int (sint a sdiv sint b) = - a" by (simp add: sdiv_minus_one)
  then show ?thesis using True by (simp add: iron_idiv64_def)
qed (simp add: iron_idiv64_def)

lemma imod_exact:
  "iron_imod64 a b = (if b = 0 then Inl Panic_Div_By_Zero else Inr (word_of_int (sint a smod sint b)))"
proof (cases "b = - 1")
  case True
  then have "(word_of_int (sint a smod sint b) :: u64) = 0" by (simp add: sdiv_minus_one)
  then show ?thesis using True by (simp add: iron_imod64_def)
qed (simp add: iron_imod64_def)

lemma udiv_exact:
  "iron_udiv64 a b = (if b = 0 then Inl Panic_Div_By_Zero else Inr (word_of_int (uint a sdiv uint b)))"
  "iron_umod64 a b = (if b = 0 then Inl Panic_Div_By_Zero else Inr (word_of_int (uint a smod uint b)))"
  by (simp_all add: iron_udiv64_def iron_umod64_def word_div_def word_mod_def sdiv_nonneg)

lemma push_bit_beyond: "LENGTH('a) \<le> n \<Longrightarrow> push_bit n (a::'a::len word) = 0"
  by (rule bit_word_eqI) (simp add: bit_simps)

lemma drop_bit_represent:
  "word_of_int (sint (a::'a::len word) div 2 ^ n) = signed_drop_bit n a" "word_of_int (uint a div 2 ^ n) = drop_bit n a"
proof -
  have "bit (word_of_int (drop_bit n (sint a)) :: 'a word) m = bit (signed_drop_bit n a) m" if "m < LENGTH('a)" for m
  proof -
    have "min (LENGTH('a) - 1) (n + m) = (if LENGTH('a) - n \<le> m then LENGTH('a) - 1 else n + m)" using that by auto
    then show ?thesis using that by (simp add: bit_simps bit_signed_drop_bit_iff bit_sint_iff)
  qed
  then have "(word_of_int (drop_bit n (sint a)) :: 'a word) = signed_drop_bit n a" by (rule bit_word_eqI)
  then show "word_of_int (sint a div 2 ^ n) = signed_drop_bit n a" by (simp add: drop_bit_eq_div)
  have "(word_of_int (drop_bit n (uint a)) :: 'a word) = drop_bit n a" by (rule bit_word_eqI) (simp add: bit_simps)
  then show "word_of_int (uint a div 2 ^ n) = drop_bit n a" by (simp add: drop_bit_eq_div)
qed

lemma drop_bit_beyond:
  assumes "LENGTH('a) \<le> n"
  shows "drop_bit n (a::'a::len word) = 0" "signed_drop_bit n (a::'a::len word) = (if sint a < 0 then - 1 else 0)"
proof -
  show "drop_bit n a = 0" using assms by (intro bit_word_eqI) (auto simp: bit_simps dest: bit_imp_le_length)
  have "bit (signed_drop_bit n a) m = bit a (LENGTH('a) - 1)" if "m < LENGTH('a)" for m
    using assms that by (auto simp: bit_signed_drop_bit_iff)
  moreover have "sint a < 0 \<longleftrightarrow> bit a (LENGTH('a) - 1)" by (simp add: bit_last_iff)
  ultimately show "signed_drop_bit n a = (if sint a < 0 then - 1 else 0)"
    by (intro bit_word_eqI) (auto simp: bit_simps)
qed

lemma wrap_64 [simp]: "wrap_word IRON_TYPE_INT64 w = w" "wrap_word IRON_TYPE_UINT64 w = w" "wrap_word IRON_TYPE_INT w = w" "wrap_word IRON_TYPE_UINT w = w"
proof -
  have "signed_take_bit 63 w = w"
  proof (rule bit_word_eqI)
    show "bit (signed_take_bit 63 w) n = bit w n" if "n < LENGTH(64)" for n
      using that by (cases "n = 63") (auto simp: bit_signed_take_bit_iff)
  qed
  moreover have "take_bit 64 w = w" by (rule bit_word_eqI) (simp add: bit_simps)
  ultimately show "wrap_word IRON_TYPE_INT64 w = w" "wrap_word IRON_TYPE_UINT64 w = w" "wrap_word IRON_TYPE_INT w = w" "wrap_word IRON_TYPE_UINT w = w"
    by (simp_all add: wrap_word_def int_unsigned_def)
qed

lemma sint_u64: "sint w = (if uint w < 2 ^ 63 then uint w else uint w - 2 ^ 64)" for w :: u64
proof -
  have "sint w = (uint w + 2 ^ 63) mod 2 ^ 64 - 2 ^ 63"
    using sint_uint [of w] by (simp add: signed_take_bit_eq_take_bit_shift take_bit_eq_mod)
  moreover have "uint w < 2 ^ 64" "0 \<le> uint w" using uint_lt2p [of w] by simp_all
  moreover have "(x + 2 ^ 63) mod 2 ^ 64 = (if x < 2 ^ 63 then x + 2 ^ 63 else x - 2 ^ 63)" if "0 \<le> x" "x < 2 ^ 64" for x :: int
  proof (cases "x < 2 ^ 63")
    case False
    then have "(x + 2 ^ 63) mod 2 ^ 64 = (x - 2 ^ 63 + 1 * 2 ^ 64) mod 2 ^ 64" by (simp add: add.commute)
    also have "\<dots> = x - 2 ^ 63" unfolding mod_mult_self1 using False that by (intro mod_pos_pos_trivial) auto
    finally show ?thesis using False by simp
  qed (use that in simp)
  ultimately show ?thesis by simp
qed

lemma shift_count_exact: "sint (iron_shift_count_u64 n) = min (uint n) (2 ^ 63 - 1)"
  using sint_u64 [of n] by (simp add: iron_shift_count_u64_def word_less_alt sint_u64 [of "0x7FFFFFFFFFFFFFFF"])

text \<open>The unsigned comparison of the bounds check covers negative indices.\<close>

lemma bounds_idx_exact:
  assumes "0 \<le> sint n"
  shows "iron_bounds_idx i n = (if 0 \<le> sint i \<and> sint i < sint n then Inr i else Inl (Panic_Index_Oob (sint i) (sint n)))"
proof -
  have "uint i < 2 ^ 64" "0 \<le> uint i" "uint n < 2 ^ 64" "0 \<le> uint n" using uint_lt2p [of i] uint_lt2p [of n] by simp_all
  then show ?thesis using assms by (auto simp: iron_bounds_idx_def word_le_def sint_u64 split: if_splits)
qed

lemma helpers_exact:
  "iron_idiv64 a b = (if b = 0 then Inl Panic_Div_By_Zero else Inr (represent IRON_TYPE_INT64 (sint a sdiv sint b)))"
  "iron_imod64 a b = (if b = 0 then Inl Panic_Div_By_Zero else Inr (represent IRON_TYPE_INT64 (sint a smod sint b)))"
  "iron_udiv64 a b = (if b = 0 then Inl Panic_Div_By_Zero else Inr (represent IRON_TYPE_UINT64 (uint a sdiv uint b)))"
  "iron_umod64 a b = (if b = 0 then Inl Panic_Div_By_Zero else Inr (represent IRON_TYPE_UINT64 (uint a smod uint b)))"
  "iron_shl_i64 a n = (if sint n < 0 then Inl (Panic_Negative_Shift (sint n)) else Inr (represent IRON_TYPE_INT64 (sint a * 2 ^ nat (sint n))))"
  "iron_shr_i64 a n = (if sint n < 0 then Inl (Panic_Negative_Shift (sint n)) else Inr (represent IRON_TYPE_INT64 (sint a div 2 ^ nat (sint n))))"
  "iron_shl_u64 a n = (if sint n < 0 then Inl (Panic_Negative_Shift (sint n)) else Inr (represent IRON_TYPE_UINT64 (uint a * 2 ^ nat (sint n))))"
  "iron_shr_u64 a n = (if sint n < 0 then Inl (Panic_Negative_Shift (sint n)) else Inr (represent IRON_TYPE_UINT64 (uint a div 2 ^ nat (sint n))))"
proof -
  have big: "LENGTH(64) \<le> nat (sint n)" if "64 \<le> sint n" using that by simp
  show "iron_idiv64 a b = (if b = 0 then Inl Panic_Div_By_Zero else Inr (represent IRON_TYPE_INT64 (sint a sdiv sint b)))"
    "iron_imod64 a b = (if b = 0 then Inl Panic_Div_By_Zero else Inr (represent IRON_TYPE_INT64 (sint a smod sint b)))"
    "iron_udiv64 a b = (if b = 0 then Inl Panic_Div_By_Zero else Inr (represent IRON_TYPE_UINT64 (uint a sdiv uint b)))"
    "iron_umod64 a b = (if b = 0 then Inl Panic_Div_By_Zero else Inr (represent IRON_TYPE_UINT64 (uint a smod uint b)))"
    by (simp_all add: idiv_exact imod_exact udiv_exact represent_wrap)
  show "iron_shl_i64 a n = (if sint n < 0 then Inl (Panic_Negative_Shift (sint n)) else Inr (represent IRON_TYPE_INT64 (sint a * 2 ^ nat (sint n))))"
    "iron_shl_u64 a n = (if sint n < 0 then Inl (Panic_Negative_Shift (sint n)) else Inr (represent IRON_TYPE_UINT64 (uint a * 2 ^ nat (sint n))))"
    using push_bit_beyond [OF big, of a] by (auto simp: iron_shl_i64_def iron_shl_u64_def represent_wrap push_bit_eq_mult)
  show "iron_shr_i64 a n = (if sint n < 0 then Inl (Panic_Negative_Shift (sint n)) else Inr (represent IRON_TYPE_INT64 (sint a div 2 ^ nat (sint n))))"
    "iron_shr_u64 a n = (if sint n < 0 then Inl (Panic_Negative_Shift (sint n)) else Inr (represent IRON_TYPE_UINT64 (uint a div 2 ^ nat (sint n))))"
    using drop_bit_beyond [OF big, of a] by (auto simp: iron_shr_i64_def iron_shr_u64_def represent_wrap drop_bit_represent)
qed

lemma shift_i32_exact:
  "iron_shl_i32 c n = (if sint n < 0 then Inl (Panic_Negative_Shift (sint n)) else Inr (word_of_int (sint c * 2 ^ nat (sint n))))"
  "iron_shr_i32 c n = (if sint n < 0 then Inl (Panic_Negative_Shift (sint n)) else Inr (word_of_int (sint c div 2 ^ nat (sint n))))"
proof -
  have big: "LENGTH(32) \<le> nat (sint n)" if "32 \<le> sint n" using that by simp
  show "iron_shl_i32 c n = (if sint n < 0 then Inl (Panic_Negative_Shift (sint n)) else Inr (word_of_int (sint c * 2 ^ nat (sint n))))"
    using push_bit_beyond [OF big, of c] by (auto simp: iron_shl_i32_def push_bit_eq_mult)
  show "iron_shr_i32 c n = (if sint n < 0 then Inl (Panic_Negative_Shift (sint n)) else Inr (word_of_int (sint c div 2 ^ nat (sint n))))"
    using drop_bit_beyond [OF big, of c] by (auto simp: iron_shr_i32_def drop_bit_represent)
qed

text \<open>C40: The checked division and the shifts of the runtime compute on mathematical integers: division truncates, a shift
  multiplies or divides by a power of two however large the count, the result is wrapped to 64 bits (32 for the helpers of that width), and the
  program stops precisely for a zero divisor or a negative count.\<close>

theorem int_helpers_exact:
  "(iron_idiv64 a b = (if b = 0 then Inl Panic_Div_By_Zero else Inr (represent IRON_TYPE_INT64 (sint a sdiv sint b)))) \<and>
   (iron_imod64 a b = (if b = 0 then Inl Panic_Div_By_Zero else Inr (represent IRON_TYPE_INT64 (sint a smod sint b)))) \<and>
   (iron_udiv64 a b = (if b = 0 then Inl Panic_Div_By_Zero else Inr (represent IRON_TYPE_UINT64 (uint a sdiv uint b)))) \<and>
   (iron_umod64 a b = (if b = 0 then Inl Panic_Div_By_Zero else Inr (represent IRON_TYPE_UINT64 (uint a smod uint b)))) \<and>
   (iron_shl_i64 a n = (if sint n < 0 then Inl (Panic_Negative_Shift (sint n)) else Inr (represent IRON_TYPE_INT64 (sint a * 2 ^ nat (sint n))))) \<and>
   (iron_shr_i64 a n = (if sint n < 0 then Inl (Panic_Negative_Shift (sint n)) else Inr (represent IRON_TYPE_INT64 (sint a div 2 ^ nat (sint n))))) \<and>
   (iron_shl_u64 a n = (if sint n < 0 then Inl (Panic_Negative_Shift (sint n)) else Inr (represent IRON_TYPE_UINT64 (uint a * 2 ^ nat (sint n))))) \<and>
   (iron_shr_u64 a n = (if sint n < 0 then Inl (Panic_Negative_Shift (sint n)) else Inr (represent IRON_TYPE_UINT64 (uint a div 2 ^ nat (sint n))))) \<and>
   (iron_shl_i32 c n = (if sint n < 0 then Inl (Panic_Negative_Shift (sint n)) else Inr (word_of_int (sint c * 2 ^ nat (sint n))))) \<and>
   (iron_shr_i32 c n = (if sint n < 0 then Inl (Panic_Negative_Shift (sint n)) else Inr (word_of_int (sint c div 2 ^ nat (sint n)))))"
  by (intro conjI helpers_exact shift_i32_exact)

end
