(* ===== verification/Lir_Run.thy ===== *)
theory Lir_Run
  imports Lir_Instr Int_Arith
begin

text \<open>
  What a function of the lowered representation does when it runs. Integer instructions compute on integers wrapped to
  their type, a division by zero, a shift by a negative count and a checked access out of bounds stop the program, a
  joining instruction reads the values its block was entered with. Memory, calls and everything else that the
  representation leaves to the runtime is a parameter: what an instruction with an effect does to the world, and
  what one without an effect reads from it.
\<close>

section \<open>Values\<close>

text \<open>An operand that is missing has no word.\<close>

record 'w lir_sem =
  sem_effect :: "Iron_Type option \<Rightarrow> u64 option lir_inst \<Rightarrow> 'w \<Rightarrow> 'w \<times> u64 option"
  sem_pure :: "Iron_Type option \<Rightarrow> u64 option lir_inst \<Rightarrow> 'w \<Rightarrow> u64"
  sem_in_bounds :: "u64 option lir_inst \<Rightarrow> 'w \<Rightarrow> bool"

type_synonym lir_vals = "value_id \<Rightarrow> u64"

definition read_id :: "lir_vals \<Rightarrow> value_id \<Rightarrow> u64 option" where
  "read_id vals v = (if v = VALUE_INVALID then None else Some (vals v))"

text \<open>A direct call does not read its function pointer.\<close>

definition read_operands :: "lir_vals \<Rightarrow> value_id lir_inst \<Rightarrow> u64 option lir_inst" where
  "read_operands vals op = (case op of
      HIGH (CALL (Some f) p as) \<Rightarrow> HIGH (CALL (Some f) None (map (read_id vals) as))
    | _ \<Rightarrow> map_lir_inst (read_id vals) op)"

definition int_kind :: "Iron_Type option \<Rightarrow> Iron_PrimKind option" where
  "int_kind t = (if iron_type_is_integer t then case t of Some (Prim k) \<Rightarrow> Some k | _ \<Rightarrow> None else None)"

definition value_type :: "IronLIR_Func \<Rightarrow> value_id \<Rightarrow> Iron_Type option" where
  "value_type fn v = (case table_entry fn v of
      Some d \<Rightarrow> in_type d
    | None \<Rightarrow> if 1 \<le> v \<and> v \<le> length (fn_params fn) then fn_params fn ! (v - 1) else None)"

text \<open>The word of an integer constant of a type.\<close>

definition const_word :: "Iron_Type option \<Rightarrow> u64 \<Rightarrow> u64" where
  "const_word ty c = (case int_kind ty of Some k \<Rightarrow> wrap_word k c | None \<Rightarrow> c)"

fun compares :: "binop_kind \<Rightarrow> (int \<Rightarrow> int \<Rightarrow> bool) option" where
  "compares EQ = Some (=)"
| "compares NEQ = Some (\<noteq>)"
| "compares LT = Some (<)"
| "compares LTE = Some (\<le>)"
| "compares GT = Some (>)"
| "compares GTE = Some (\<ge>)"
| "compares _ = None"

text \<open>A binary operation on integers of one type; nothing when it stops the program.\<close>

fun int_binop :: "Iron_PrimKind \<Rightarrow> binop_kind \<Rightarrow> u64 \<Rightarrow> u64 \<Rightarrow> u64 option" where
  "int_binop k ADD a b = Some (represent k (denote k a + denote k b))"
| "int_binop k SUB a b = Some (represent k (denote k a - denote k b))"
| "int_binop k MUL a b = Some (represent k (denote k a * denote k b))"
| "int_binop k DIV a b = (if b = 0 then None else Some (represent k (denote k a sdiv denote k b)))"
| "int_binop k MOD a b = (if b = 0 then None else Some (represent k (denote k a smod denote k b)))"
| "int_binop k SHL a b = Some (represent k (denote k a * 2 ^ unat b))"
| "int_binop k SHR a b = Some (represent k (denote k a div 2 ^ unat b))"
| "int_binop k BAND a b = Some (and a b)"
| "int_binop k BOR a b = Some (or a b)"
| "int_binop k BXOR a b = Some (xor a b)"
| "int_binop k _ a b = Some (of_bool (a \<noteq> 0 \<and> b \<noteq> 0))"

definition negative_count :: "Iron_Type option \<Rightarrow> u64 \<Rightarrow> bool" where
  "negative_count ty b \<longleftrightarrow> ty \<notin> {Some (Prim IRON_TYPE_UINT), Some (Prim IRON_TYPE_UINT64)} \<and> sint b < 0"

definition eval_binop :: "'w lir_sem \<Rightarrow> IronLIR_Func \<Rightarrow> IronLIR_Instr \<Rightarrow> binop_kind \<Rightarrow> value_id \<Rightarrow> value_id \<Rightarrow> lir_vals \<Rightarrow> 'w \<Rightarrow> u64 option" where
  "eval_binop S fn i k l r vals w =
    (let opaque = Some (sem_pure S (in_type i) (read_operands vals (in_op i)) w) in
     case compares k of
       Some P \<Rightarrow>
         if value_type fn l = value_type fn r then
           case int_kind (value_type fn l) of
             Some t \<Rightarrow> Some (of_bool (P (denote t (vals l)) (denote t (vals r))))
           | None \<Rightarrow> opaque
         else opaque
     | None \<Rightarrow>
         if (k = SHL \<or> k = SHR) \<and> negative_count (value_type fn r) (vals r) then None
         else if k = LAND \<or> k = LOR then opaque
         else case int_kind (in_type i) of Some t \<Rightarrow> int_binop t k (vals l) (vals r) | None \<Rightarrow> opaque)"

definition eval_unop :: "'w lir_sem \<Rightarrow> IronLIR_Instr \<Rightarrow> unop_kind \<Rightarrow> value_id \<Rightarrow> lir_vals \<Rightarrow> 'w \<Rightarrow> u64" where
  "eval_unop S i k v vals w = (case (k, int_kind (in_type i)) of
      (NEG, Some t) \<Rightarrow> represent t (- denote t (vals v))
    | (BNOT, Some t) \<Rightarrow> represent t (not (denote t (vals v)))
    | _ \<Rightarrow> sem_pure S (in_type i) (read_operands vals (in_op i)) w)"

text \<open>
  The instructions that only compute a value from their operands and from memory as it is; every other one acts on the
  world: it writes or manages memory, calls, starts or awaits other code, opens and closes scopes, checks a generation, builds
  a string or a closure with captures. This is read off what the opcodes mean (src/lir/lir.h), one by one, and
  owes nothing to what the optimiser takes for pure.
\<close>

fun reads_only :: "'v lir_inst \<Rightarrow> bool" where
  "reads_only (CONSTANT c) \<longleftrightarrow> True"
| "reads_only (BINOP k a b) \<longleftrightarrow> True"
| "reads_only (UNOP k a) \<longleftrightarrow> True"
| "reads_only (MEM (LOAD p)) \<longleftrightarrow> True"
| "reads_only (MEM (GET_FIELD a f)) \<longleftrightarrow> True"
| "reads_only (MEM (GET_INDEX a ix e u)) \<longleftrightarrow> True"
| "reads_only (HIGH (CAST a t)) \<longleftrightarrow> True"
| "reads_only (HIGH (CONSTRUCT t as)) \<longleftrightarrow> True"
| "reads_only (HIGH (ARRAY_LIT as)) \<longleftrightarrow> True"
| "reads_only (HIGH (SLICE a b e)) \<longleftrightarrow> True"
| "reads_only (HIGH (IS_NULL a)) \<longleftrightarrow> True"
| "reads_only (HIGH (IS_NOT_NULL a)) \<longleftrightarrow> True"
| "reads_only (CONC (FUNC_REF n)) \<longleftrightarrow> True"
| "reads_only (CONC (MAKE_CLOSURE n cs)) \<longleftrightarrow> cs = []"
| "reads_only _ \<longleftrightarrow> False"

text \<open>An instruction without effect: its value, or nothing when it stops the program.\<close>

definition eval_pure :: "'w lir_sem \<Rightarrow> IronLIR_Func \<Rightarrow> IronLIR_Instr \<Rightarrow> lir_vals \<Rightarrow> 'w \<Rightarrow> u64 option" where
  "eval_pure S fn i vals w =
    (let opaque = sem_pure S (in_type i) (read_operands vals (in_op i)) w;
         checked = (if sem_in_bounds S (read_operands vals (in_op i)) w then Some opaque else None) in
     case in_op i of
       CONSTANT (CONST_INT c) \<Rightarrow> Some (const_word (in_type i) c)
     | CONSTANT (CONST_BOOL b) \<Rightarrow> Some (of_bool b)
     | BINOP k l r \<Rightarrow> eval_binop S fn i k l r vals w
     | UNOP k v \<Rightarrow> Some (eval_unop S i k v vals w)
     | MEM (GET_INDEX a ix elide unchecked) \<Rightarrow> if elide \<or> unchecked then Some opaque else checked
     | HIGH (SLICE a b e) \<Rightarrow> checked
     | _ \<Rightarrow> Some opaque)"

section \<open>Blocks\<close>

text \<open>How a run ends: the program stops, the function returns, or control leaves the blocks.\<close>

datatype 'w run_end = Panicked 'w | Returned "u64 option" 'w | Lost 'w

definition write_id :: "value_id \<Rightarrow> u64 \<Rightarrow> lir_vals \<Rightarrow> lir_vals" where
  "write_id v x vals = (if v = VALUE_INVALID then vals else vals(v := x))"

fun exec_ctrl :: "value_id ctrl_inst \<Rightarrow> lir_vals \<Rightarrow> 'w \<Rightarrow> block_id + 'w run_end" where
  "exec_ctrl (JUMP t) vals w = Inl t"
| "exec_ctrl (BRANCH c t e) vals w = Inl (if vals c \<noteq> 0 then t else e)"
| "exec_ctrl (SWITCH s d cases bs) vals w = Inl (case map_of (zip cases bs) (sint (vals s)) of Some t \<Rightarrow> t | None \<Rightarrow> d)"
| "exec_ctrl (RETURN v is_void) vals w = Inr (Returned (if is_void then None else Some (vals v)) w)"

text \<open>One instruction that is not a terminator: its value and the world after it, or the end of the run.\<close>

definition step_instr :: "'w lir_sem \<Rightarrow> IronLIR_Func \<Rightarrow> block_id \<Rightarrow> lir_vals \<Rightarrow> IronLIR_Instr \<Rightarrow> lir_vals \<Rightarrow> 'w \<Rightarrow> (u64 \<times> 'w) + 'w run_end" where
  "step_instr S fn prev entry i vals w =
    (case in_op i of
       PHI vs ps \<Rightarrow> (case map_of (zip ps vs) prev of Some v \<Rightarrow> Inl (entry v, w) | None \<Rightarrow> Inr (Lost w))
     | op \<Rightarrow>
       if reads_only op then
         case eval_pure S fn i vals w of None \<Rightarrow> Inr (Panicked w) | Some x \<Rightarrow> Inl (x, w)
       else
         case sem_effect S (in_type i) (read_operands vals op) w of
           (w', None) \<Rightarrow> Inr (Panicked w')
         | (w', Some x) \<Rightarrow> Inl (x, w'))"

fun exec_block :: "'w lir_sem \<Rightarrow> IronLIR_Func \<Rightarrow> block_id \<Rightarrow> lir_vals \<Rightarrow> IronLIR_Instr list \<Rightarrow> lir_vals \<Rightarrow> 'w \<Rightarrow>
    (block_id \<times> lir_vals \<times> 'w) + 'w run_end" where
  "exec_block S fn prev entry [] vals w = Inr (Lost w)"
| "exec_block S fn prev entry (i # is) vals w =
    (case in_op i of
       CTRL c \<Rightarrow> (case exec_ctrl c vals w of Inl t \<Rightarrow> Inl (t, vals, w) | Inr e \<Rightarrow> Inr e)
     | _ \<Rightarrow> (case step_instr S fn prev entry i vals w of
         Inr e \<Rightarrow> Inr e
       | Inl (x, w') \<Rightarrow> exec_block S fn prev entry is (write_id (in_id i) x vals) w'))"

definition find_block :: "IronLIR_Func \<Rightarrow> block_id \<Rightarrow> IronLIR_Block option" where
  "find_block fn t = List.find (\<lambda>b. bl_id b = t) (fn_blocks fn)"

text \<open>At most so many blocks; nothing when they are not enough.\<close>

fun run_blocks :: "nat \<Rightarrow> 'w lir_sem \<Rightarrow> IronLIR_Func \<Rightarrow> block_id \<Rightarrow> IronLIR_Block \<Rightarrow> lir_vals \<Rightarrow> 'w \<Rightarrow> 'w run_end option" where
  "run_blocks 0 S fn prev b vals w = None"
| "run_blocks (Suc n) S fn prev b vals w =
    (case exec_block S fn prev vals (bl_instrs b) vals w of
       Inr e \<Rightarrow> Some e
     | Inl (t, vals', w') \<Rightarrow> (case find_block fn t of
         None \<Rightarrow> Some (Lost w')
       | Some b' \<Rightarrow> run_blocks n S fn (bl_id b) b' vals' w'))"

definition run_func :: "nat \<Rightarrow> 'w lir_sem \<Rightarrow> IronLIR_Func \<Rightarrow> lir_vals \<Rightarrow> 'w \<Rightarrow> 'w run_end option" where
  "run_func n S fn vals w = (case fn_blocks fn of
      [] \<Rightarrow> Some (Lost w)
    | b # bs \<Rightarrow> run_blocks n S fn BLOCK_INVALID b vals w)"

lemma exec_block_other:
  assumes "\<And>c. in_op i \<noteq> CTRL c"
  shows "exec_block S fn prev entry (i # is) vals w = (case step_instr S fn prev entry i vals w of
     Inr e \<Rightarrow> Inr e
   | Inl (x, w') \<Rightarrow> exec_block S fn prev entry is (write_id (in_id i) x vals) w')"
  using assms by (cases "in_op i") auto

lemma exec_block_ctrl:
  "in_op i = CTRL c \<Longrightarrow> exec_block S fn prev entry (i # is) vals w =
    (case exec_ctrl c vals w of Inl t \<Rightarrow> Inl (t, vals, w) | Inr e \<Rightarrow> Inr e)"
  by simp

lemmas [simp del] = exec_block.simps(2)

section \<open>A run reads only operands\<close>

lemma read_operands_cong:
  assumes "\<And>v. v \<in> set (operand_fields op) \<Longrightarrow> vals v = vals' v" "\<And>c. op \<noteq> CTRL c"
  shows "read_operands vals op = read_operands vals' op"
proof -
  have rd: "read_id vals v = read_id vals' v" if "v \<in> set (operand_fields op)" for v
    using assms(1) [OF that] by (simp add: read_id_def)
  show ?thesis
  proof (cases op)
    case (MEM m)
    then show ?thesis using rd by (cases m) (simp_all add: read_operands_def)
  next
    case (HIGH h)
    then show ?thesis using rd by (cases h) (auto simp: read_operands_def split: option.splits)
  next
    case (MANAGE m)
    then show ?thesis using rd by (cases m) (simp_all add: read_operands_def)
  next
    case (CONC c)
    then show ?thesis using rd by (cases c) (simp_all add: read_operands_def)
  next
    case (PTR p)
    then show ?thesis using rd by (cases p) (simp_all add: read_operands_def)
  qed (use rd assms(2) in \<open>simp_all add: read_operands_def\<close>)
qed

text \<open>The type of a value enters through comparisons and shift counts only.\<close>

lemma eval_pure_cong:
  assumes "\<And>v. v \<in> set (operand_fields (in_op i)) \<Longrightarrow> vals v = vals' v \<and> value_type fn v = value_type fn' v" "\<And>c. in_op i \<noteq> CTRL c"
  shows "eval_pure S fn i vals w = eval_pure S fn' i vals' w"
proof -
  have rd: "read_operands vals (in_op i) = read_operands vals' (in_op i)"
    using read_operands_cong [of "in_op i" vals vals'] assms by blast
  show ?thesis
  proof (cases "in_op i")
    case (BINOP k l r)
    then have v: "vals l = vals' l" "vals r = vals' r" "value_type fn l = value_type fn' l" "value_type fn r = value_type fn' r"
      using assms(1) by simp_all
    have "eval_binop S fn i k l r vals w = eval_binop S fn' i k l r vals' w"
      unfolding eval_binop_def v rd by (rule refl)
    then show ?thesis using BINOP by (simp add: eval_pure_def)
  next
    case (UNOP k v)
    then have v: "vals v = vals' v" using assms(1) by simp
    have "eval_unop S i k v vals w = eval_unop S i k v vals' w" unfolding eval_unop_def v rd by (rule refl)
    then show ?thesis using UNOP by (simp add: eval_pure_def)
  qed (use rd in \<open>simp_all add: eval_pure_def Let_def split: lir_const.splits mem_inst.splits high_inst.splits\<close>)
qed

lemma step_instr_other:
  assumes "\<And>vs ps. in_op i \<noteq> PHI vs ps"
  shows "step_instr S fn prev entry i vals w =
    (if reads_only (in_op i) then
       case eval_pure S fn i vals w of None \<Rightarrow> Inr (Panicked w) | Some x \<Rightarrow> Inl (x, w)
     else
       case sem_effect S (in_type i) (read_operands vals (in_op i)) w of
         (w', None) \<Rightarrow> Inr (Panicked w')
       | (w', Some x) \<Rightarrow> Inl (x, w'))"
  unfolding step_instr_def using assms by (cases "in_op i") auto

lemma step_cong:
  assumes "\<And>v. v \<in> set (operand_fields (in_op i)) \<Longrightarrow> vals v = vals' v \<and> entry v = entry' v \<and> value_type fn v = value_type fn' v"
    and "\<And>c. in_op i \<noteq> CTRL c"
  shows "step_instr S fn prev entry i vals w = step_instr S fn' prev entry' i vals' w"
proof (cases "\<exists>vs ps. in_op i = PHI vs ps")
  case True
  then obtain vs ps where p: "in_op i = PHI vs ps" by blast
  show ?thesis
  proof (cases "map_of (zip ps vs) prev")
    case (Some v)
    then have "v \<in> set vs" by (auto dest!: map_of_SomeD set_zip_rightD)
    then show ?thesis using Some p assms(1) by (simp add: step_instr_def)
  qed (simp add: step_instr_def p)
next
  case False
  have "eval_pure S fn i vals w = eval_pure S fn' i vals' w" by (rule eval_pure_cong) (use assms in auto)
  moreover have "read_operands vals (in_op i) = read_operands vals' (in_op i)" by (rule read_operands_cong) (use assms in auto)
  moreover have "step_instr S g prev e i v w = (if reads_only (in_op i) then
       case eval_pure S g i v w of None \<Rightarrow> Inr (Panicked w) | Some x \<Rightarrow> Inl (x, w)
     else
       case sem_effect S (in_type i) (read_operands v (in_op i)) w of
         (w', None) \<Rightarrow> Inr (Panicked w')
       | (w', Some x) \<Rightarrow> Inl (x, w'))" for g e v
    using False by (intro step_instr_other) blast
  ultimately show ?thesis by simp
qed

section \<open>Constants where they are read\<close>

text \<open>Every instruction stands in the table under its identifier, and no two share one.\<close>

definition table_ok :: "IronLIR_Func \<Rightarrow> bool" where
  "table_ok fn \<longleftrightarrow> list_all (\<lambda>i. in_id i \<noteq> VALUE_INVALID \<longrightarrow> table_entry fn (in_id i) = Some i) (func_instrs fn) \<and>
    distinct (filter (\<lambda>v. v \<noteq> VALUE_INVALID) (map in_id (func_instrs fn)))"

lemma table_okD: "table_ok fn \<Longrightarrow> i \<in> set (func_instrs fn) \<Longrightarrow> in_id i \<noteq> 0 \<Longrightarrow> table_entry fn (in_id i) = Some i"
  by (simp add: table_ok_def list_all_iff)

fun ctrl_targets :: "'v ctrl_inst \<Rightarrow> block_id list" where
  "ctrl_targets (JUMP t) = [t]"
| "ctrl_targets (BRANCH c t e) = [t, e]"
| "ctrl_targets (SWITCH s d cases bs) = d # bs"
| "ctrl_targets (RETURN v is_void) = []"

lemma exec_ctrl_target: "exec_ctrl c vals w = Inl t \<Longrightarrow> t \<in> set (ctrl_targets c)"
  by (cases c) (auto split: option.splits if_splits dest!: map_of_SomeD set_zip_rightD)

text \<open>The blocks control passes through, from the entry on.\<close>

inductive block_path :: "IronLIR_Func \<Rightarrow> IronLIR_Block list \<Rightarrow> bool" for fn where
  path_entry: "fn_blocks fn = b # bs \<Longrightarrow> block_path fn [b]"
| path_next: "block_path fn (p @ [b]) \<Longrightarrow> i \<in> set (bl_instrs b) \<Longrightarrow> in_op i = CTRL c \<Longrightarrow> t \<in> set (ctrl_targets c) \<Longrightarrow>
    find_block fn t = Some b' \<Longrightarrow> block_path fn (p @ [b, b'])"

text \<open>A constant that a binary instruction reads was computed before it, on every path.\<close>

definition const_uses_ok :: "IronLIR_Func \<Rightarrow> bool" where
  "const_uses_ok fn \<longleftrightarrow> (\<forall>p b pre i post k l r. block_path fn (p @ [b]) \<longrightarrow> bl_instrs b = pre @ i # post \<longrightarrow> in_op i = BINOP k l r \<longrightarrow>
    (\<forall>v\<in>{l, r}. const_of fn v \<noteq> None \<longrightarrow> v \<in> in_id ` set (concat (map bl_instrs p) @ pre)))"

text \<open>A constant of an integer type lies in the type.\<close>

definition consts_normal :: "IronLIR_Func \<Rightarrow> bool" where
  "consts_normal fn \<longleftrightarrow> list_all (\<lambda>e. case e of
      Some d \<Rightarrow> (case in_op d of CONSTANT (CONST_INT c) \<Rightarrow> const_word (in_type d) c = c | _ \<Rightarrow> True)
    | None \<Rightarrow> True) (fn_value_table fn)"

definition consts_hold :: "IronLIR_Func \<Rightarrow> value_id set \<Rightarrow> lir_vals \<Rightarrow> bool" where
  "consts_hold fn D vals \<longleftrightarrow> (\<forall>v\<in>D. \<forall>c. const_of fn v = Some c \<longrightarrow> vals v = c)"

lemma const_usesD:
  assumes "const_uses_ok fn" "block_path fn (p @ [b])" "bl_instrs b = pre @ i # post" "in_op i = BINOP k l r" "v = l \<or> v = r"
    "const_of fn v = Some c" "consts_hold fn (in_id ` set (concat (map bl_instrs p)) \<union> in_id ` set pre) vals"
  shows "vals v = c"
proof -
  have "\<forall>v\<in>{l, r}. const_of fn v \<noteq> None \<longrightarrow> v \<in> in_id ` set (concat (map bl_instrs p) @ pre)"
    using assms(1-4) unfolding const_uses_ok_def by blast
  then have "v \<in> in_id ` set (concat (map bl_instrs p)) \<union> in_id ` set pre" using assms(5,6) by auto
  then show ?thesis using assms(6,7) by (simp add: consts_hold_def)
qed

lemma const_ofD: "const_of fn v = Some c \<Longrightarrow> \<exists>d. v \<noteq> 0 \<and> table_entry fn v = Some d \<and> in_op d = CONSTANT (CONST_INT c)"
  by (auto simp: const_of_def split: if_splits option.splits lir_inst.splits lir_const.splits)

lemma const_normalD:
  assumes "consts_normal fn" "table_entry fn v = Some d" "in_op d = CONSTANT (CONST_INT c)"
  shows "const_word (in_type d) c = c"
proof -
  have "Some d \<in> set (fn_value_table fn)" using assms(2) by (auto simp: table_entry_def split: if_splits dest: nth_mem)
  then show ?thesis using assms(1,3) by (fastforce simp: consts_normal_def list_all_iff)
qed

lemma step_writes_const:
  assumes "table_ok fn" "consts_normal fn" "i \<in> set (func_instrs fn)" "step_instr S fn prev entry i vals w = Inl (x, w')"
    and "const_of fn (in_id i) = Some c"
  shows "x = c"
proof -
  obtain d where d: "in_id i \<noteq> 0" "table_entry fn (in_id i) = Some d" "in_op d = CONSTANT (CONST_INT c)"
    using const_ofD [OF assms(5)] by blast
  then have "d = i" using table_okD [OF assms(1,3)] by simp
  then show ?thesis using d(3) assms(4) const_normalD [OF assms(2) d(2,3)] by (simp add: step_instr_def eval_pure_def Let_def)
qed

lemma consts_hold_write:
  assumes "table_ok fn" "consts_normal fn" "i \<in> set (func_instrs fn)" "step_instr S fn prev entry i vals w = Inl (x, w')" "consts_hold fn D vals"
  shows "consts_hold fn (insert (in_id i) D) (write_id (in_id i) x vals)"
proof -
  have "const_of fn 0 = None" by (simp add: const_of_def)
  then show ?thesis
    using assms(5) step_writes_const [OF assms(1-4)] by (auto simp: consts_hold_def write_id_def)
qed

text \<open>A terminator is the last instruction of its block.\<close>

definition ctrl_last :: "IronLIR_Func \<Rightarrow> bool" where
  "ctrl_last fn \<longleftrightarrow> list_all (\<lambda>b. list_all (\<lambda>i. \<not> iron_lir_is_terminator (in_op i)) (butlast (bl_instrs b))) (fn_blocks fn)"

lemma ctrl_lastD:
  assumes "ctrl_last fn" "b \<in> set (fn_blocks fn)" "bl_instrs b = pre @ i # post" "in_op i = CTRL c"
  shows "post = []"
proof (rule ccontr)
  assume "post \<noteq> []"
  then have "i \<in> set (butlast (bl_instrs b))" using assms(3) by (simp add: butlast_append)
  then have "\<not> iron_lir_is_terminator (in_op i)" using assms(1,2) by (simp add: ctrl_last_def list_all_iff)
  then show False using assms(4) by (simp add: iron_lir_is_terminator_def)
qed

lemma block_instrs: "b \<in> set (fn_blocks fn) \<Longrightarrow> i \<in> set (bl_instrs b) \<Longrightarrow> i \<in> set (func_instrs fn)"
  by (auto simp: func_instrs_def)

lemma exec_block_consts:
  assumes "table_ok fn" "consts_normal fn" "ctrl_last fn" "b \<in> set (fn_blocks fn)"
  shows "bl_instrs b = pre @ rest \<Longrightarrow> consts_hold fn (D \<union> in_id ` set pre) vals \<Longrightarrow>
    exec_block S fn prev entry rest vals w = Inl (t, v, w') \<Longrightarrow>
    consts_hold fn (D \<union> in_id ` set (bl_instrs b)) v \<and> (\<exists>i\<in>set (bl_instrs b). \<exists>c. in_op i = CTRL c \<and> t \<in> set (ctrl_targets c))"
proof (induction rest arbitrary: pre vals w)
  case (Cons i rest)
  have i: "i \<in> set (func_instrs fn)" using block_instrs [OF assms(4)] Cons.prems(1) by simp
  show ?case
  proof (cases "\<exists>c. in_op i = CTRL c")
    case True
    then obtain c where c: "in_op i = CTRL c" by blast
    then have "rest = []" using ctrl_lastD [OF assms(3,4) Cons.prems(1)] by simp
    moreover have "const_of fn (in_id i) = None"
      using table_okD [OF assms(1) i] c by (auto simp: const_of_def)
    moreover have "t \<in> set (ctrl_targets c) \<and> v = vals"
      using Cons.prems(3) unfolding exec_block_ctrl [OF c] by (auto split: sum.splits dest: exec_ctrl_target)
    ultimately show ?thesis using Cons.prems(1,2) c by (auto simp: consts_hold_def)
  next
    case False
    then obtain x w1 where x: "step_instr S fn prev entry i vals w = Inl (x, w1)"
        "exec_block S fn prev entry rest (write_id (in_id i) x vals) w1 = Inl (t, v, w')"
      using Cons.prems(3) exec_block_other [of i S fn prev entry rest vals w] by (auto split: sum.splits)
    have "consts_hold fn (D \<union> in_id ` set (pre @ [i])) (write_id (in_id i) x vals)"
      using consts_hold_write [OF assms(1,2) i x(1) Cons.prems(2)] by (simp add: insert_commute)
    then show ?thesis using Cons.IH [of "pre @ [i]"] Cons.prems(1) x(2) by simp
  qed
qed simp

lemma find_block_mem: "find_block fn t = Some b \<Longrightarrow> b \<in> set (fn_blocks fn)"
  by (auto simp: find_block_def find_Some_iff)

text \<open>A check that suffices: every binary instruction finds its constants in its own block.\<close>

definition const_uses_block :: "IronLIR_Func \<Rightarrow> IronLIR_Block \<Rightarrow> bool" where
  "const_uses_block fn b \<longleftrightarrow> list_all (\<lambda>k. case in_op (bl_instrs b ! k) of
      BINOP kind l r \<Rightarrow> list_all (\<lambda>v. const_of fn v \<noteq> None \<longrightarrow> v \<in> set (map in_id (take k (bl_instrs b)))) [l, r]
    | _ \<Rightarrow> True) [0..<length (bl_instrs b)]"

lemma path_blocks: "block_path fn p \<Longrightarrow> set p \<subseteq> set (fn_blocks fn)"
  by (induction rule: block_path.induct) (auto dest: find_block_mem)

lemma const_uses_okI: "list_all (const_uses_block fn) (fn_blocks fn) \<Longrightarrow> const_uses_ok fn"
  unfolding const_uses_ok_def
proof (intro allI impI)
  fix p b pre i post k l r
  assume *: "list_all (const_uses_block fn) (fn_blocks fn)" "block_path fn (p @ [b])" "bl_instrs b = pre @ i # post" "in_op i = BINOP k l r"
  have "const_uses_block fn b" using path_blocks [OF *(2)] *(1) by (simp add: list_all_iff)
  note check = this [unfolded const_uses_block_def list_all_iff [of _ "[0..<length (bl_instrs b)]"]]
  have "length pre \<in> set [0..<length (bl_instrs b)]" using *(3) by simp
  from bspec [OF check this] have "list_all (\<lambda>v. const_of fn v \<noteq> None \<longrightarrow> v \<in> set (map in_id pre)) [l, r]"
    using *(3,4) by simp
  then show "\<forall>v\<in>{l, r}. const_of fn v \<noteq> None \<longrightarrow> v \<in> in_id ` set (concat (map bl_instrs p) @ pre)" by auto
qed

end
