(* ===== verification/Lir_Dce.thy ===== *)
theory Lir_Dce
  imports Lir_Run
begin

text \<open>
  Removal of dead instructions (src/lir/lir\_optimize.c, run\_dce): the instructions that must stay seed the set of
  live values, a worklist closes it under operands, and pure instructions whose value is not live go. What the pass takes for pure
  is compared with what the run semantics lets act on the world. The pass preserves every run of a function whose instructions
  have no more operands than the collector's buffer holds and whose slices are read.
\<close>

section \<open>The code\<close>

text \<open>Marking a value enters it into the table of live values and the worklist, once.\<close>

definition mark_live :: "value_id \<Rightarrow> value_id list \<times> value_id list \<Rightarrow> value_id list \<times> value_id list" where
  "mark_live v lw = (case lw of (live, work) \<Rightarrow> if v \<in> set live then (live, work) else (live @ [v], work @ [v]))"

definition must_stay :: "IronLIR_Instr \<Rightarrow> bool" where
  "must_stay i \<longleftrightarrow> \<not> iron_lir_instr_is_pure (in_op i) \<or> captures_something (in_op i) \<or> in_id i = VALUE_INVALID"

definition dce_seed :: "IronLIR_Func \<Rightarrow> IronLIR_Instr \<Rightarrow> value_id list \<times> value_id list \<Rightarrow> value_id list \<times> value_id list" where
  "dce_seed fn i lw =
    (let lw = (if must_stay i \<or> iron_lir_instr_may_trap fn i then
                 fold mark_live (opt_collect_operands (in_op i))
                   (if in_id i \<noteq> VALUE_INVALID \<and> in_id i \<notin> set (fst lw) then (fst lw @ [in_id i], snd lw) else lw)
               else lw)
     in case in_op i of
          HIGH (ARRAY_LIT els) \<Rightarrow> fold mark_live (filter (\<lambda>v. v \<noteq> VALUE_INVALID) els) lw
        | _ \<Rightarrow> lw)"

text \<open>Everything the worklist can ever mark.\<close>

definition table_operands :: "IronLIR_Func \<Rightarrow> value_id set" where
  "table_operands fn = (\<Union>d\<in>{d. Some d \<in> set (fn_value_table fn)}. set (opt_collect_operands (in_op d)))"

lemma finite_table_operands: "finite (table_operands fn)"
proof -
  have "{d. Some d \<in> set (fn_value_table fn)} = the ` (set (fn_value_table fn) - {None})" by (force simp: image_iff)
  then show ?thesis by (simp add: table_operands_def)
qed

lemma mark_live_fold:
  obtains new where "fold mark_live vs (live, work) = (live @ new, work @ new)" "set new = set vs - set live"
proof -
  have "\<exists>new. fold mark_live vs (live, work) = (live @ new, work @ new) \<and> set new = set vs - set live"
  proof (induction vs arbitrary: live work)
    case (Cons v vs)
    show ?case
    proof (cases "v \<in> set live")
      case False
      obtain new where "fold mark_live vs (live @ [v], work @ [v]) = ((live @ [v]) @ new, (work @ [v]) @ new)" "set new = set vs - set (live @ [v])"
        using Cons by blast
      then show ?thesis using False by (intro exI [of _ "v # new"]) (auto simp: mark_live_def [of v])
    qed (use Cons [of live work] in \<open>auto simp: mark_live_def [of v]\<close>)
  qed simp
  then show ?thesis using that by blast
qed

function dce_propagate :: "IronLIR_Func \<Rightarrow> value_id list \<Rightarrow> value_id list \<Rightarrow> value_id list" where
  "dce_propagate fn live [] = live"
| "dce_propagate fn live (v # work) =
    (if v = VALUE_INVALID then dce_propagate fn live work
     else case table_entry fn v of
       None \<Rightarrow> dce_propagate fn live work
     | Some def \<Rightarrow> (case fold mark_live (opt_collect_operands (in_op def)) (live, work) of
         (live', work') \<Rightarrow> dce_propagate fn live' work'))"
  by pat_completeness auto

termination
proof (relation "inv_image (less_than <*lex*> less_than) (\<lambda>(fn, live, work). (card (table_operands fn - set live), length work))",
    goal_cases)
  case (4 fn live v work def live' work')
  obtain new where new: "live' = live @ new" "work' = work @ new" "set new = set (opt_collect_operands (in_op def)) - set live"
    using mark_live_fold [of "opt_collect_operands (in_op def)" live work] 4(3) by (metis prod.inject)
  have "Some def \<in> set (fn_value_table fn)" using 4(2) by (auto simp: table_entry_def split: if_splits dest: nth_mem)
  then have sub: "set new \<subseteq> table_operands fn - set live" using new(3) by (auto simp: table_operands_def)
  show ?case
  proof (cases "new = []")
    case False
    then have "table_operands fn - set live' \<subset> table_operands fn - set live" using sub new(1) by (auto simp: neq_Nil_conv)
    then have "card (table_operands fn - set live') < card (table_operands fn - set live)"
      using finite_table_operands by (intro psubset_card_mono) auto
    then show ?thesis by simp
  qed (use new in simp)
qed (auto intro!: wf_inv_image)

definition dce_live :: "IronLIR_Func \<Rightarrow> value_id list" where
  "dce_live fn = (case fold (dce_seed fn) (func_instrs fn) ([], []) of (live, work) \<Rightarrow> dce_propagate fn live work)"

definition dce_keeps :: "value_id list \<Rightarrow> IronLIR_Instr \<Rightarrow> bool" where
  "dce_keeps live i \<longleftrightarrow> must_stay i \<or> in_id i \<in> set live"

text \<open>The removed instructions lose their entries in the table of values.\<close>

definition dce_func :: "IronLIR_Func \<Rightarrow> IronLIR_Func" where
  "dce_func fn =
    (let live = dce_live fn;
         dead = filter (\<lambda>i. \<not> dce_keeps live i) (func_instrs fn)
     in fn\<lparr>fn_blocks := map (\<lambda>b. b\<lparr>bl_instrs := filter (dce_keeps live) (bl_instrs b)\<rparr>) (fn_blocks fn),
           fn_value_table := fold (\<lambda>i tab. tab[in_id i := None]) dead (fn_value_table fn)\<rparr>)"

definition dce_skips :: "IronLIR_Func \<Rightarrow> bool" where
  "dce_skips fn \<longleftrightarrow> fn_is_extern fn \<or> fn_blocks fn = []"

definition run_dce :: "IronLIR_Module \<Rightarrow> bool \<times> IronLIR_Module" where
  "run_dce m =
    (list_ex (\<lambda>fn. \<not> dce_skips fn \<and> list_ex (\<lambda>i. \<not> dce_keeps (dce_live fn) i) (func_instrs fn)) m,
     map (\<lambda>fn. if dce_skips fn then fn else dce_func fn) m)"

section \<open>The live values are closed\<close>

definition operands_live :: "IronLIR_Func \<Rightarrow> value_id list \<Rightarrow> value_id \<Rightarrow> bool" where
  "operands_live fn live v \<longleftrightarrow> (\<forall>d. v \<noteq> VALUE_INVALID \<longrightarrow> table_entry fn v = Some d \<longrightarrow> set (opt_collect_operands (in_op d)) \<subseteq> set live)"

definition live_inv :: "IronLIR_Func \<Rightarrow> value_id list \<Rightarrow> value_id list \<Rightarrow> bool" where
  "live_inv fn live work \<longleftrightarrow> (\<forall>v\<in>set live. v \<in> set work \<or> operands_live fn live v)"

lemma live_inv_more:
  assumes "live_inv fn live work" "set new = set vs - set live"
  shows "live_inv fn (live @ new) (work @ new)"
  using assms by (auto simp: live_inv_def operands_live_def)

lemma propagate_closed:
  "live_inv fn live work \<Longrightarrow> set live \<subseteq> set (dce_propagate fn live work) \<and>
    live_inv fn (dce_propagate fn live work) []"
proof (induction fn live work rule: dce_propagate.induct)
  case (2 fn live v work)
  consider (skip) "v = 0 \<or> table_entry fn v = None" | (prod) d where "v \<noteq> 0" "table_entry fn v = Some d" by auto
  then show ?case
  proof cases
    case skip
    then have "operands_live fn live v" by (auto simp: operands_live_def)
    then have "live_inv fn live work" using 2(4) by (auto simp: live_inv_def)
    then show ?thesis using skip 2(1,2) by (cases "v = 0") auto
  next
    case (prod d)
    obtain new where new: "fold mark_live (opt_collect_operands (in_op d)) (live, work) = (live @ new, work @ new)"
        "set new = set (opt_collect_operands (in_op d)) - set live"
      by (rule mark_live_fold)
    have "operands_live fn (live @ new) v" using prod new(2) by (auto simp: operands_live_def)
    then have "live_inv fn (live @ new) (work @ new)"
      using live_inv_more [OF 2(4) new(2)] by (auto simp: live_inv_def)
    then show ?thesis using 2(3) [OF prod new(1) [symmetric]] prod new(1) by simp
  qed
qed simp

text \<open>What one instruction contributes is marked, and marks are never taken back.\<close>

definition seeded :: "IronLIR_Func \<Rightarrow> value_id list \<Rightarrow> IronLIR_Instr \<Rightarrow> bool" where
  "seeded fn live i \<longleftrightarrow>
    (must_stay i \<or> iron_lir_instr_may_trap fn i \<longrightarrow>
      (in_id i = VALUE_INVALID \<or> in_id i \<in> set live) \<and> set (opt_collect_operands (in_op i)) \<subseteq> set live) \<and>
    (\<forall>els. in_op i = HIGH (ARRAY_LIT els) \<longrightarrow> set els - {VALUE_INVALID} \<subseteq> set live)"

lemma seed_root:
  assumes "live_inv fn live work" "in_id i \<noteq> 0 \<longrightarrow> table_entry fn (in_id i) = Some i"
  obtains live' work' where "fold mark_live (opt_collect_operands (in_op i))
      (if in_id i \<noteq> 0 \<and> in_id i \<notin> set live then (live @ [in_id i], work) else (live, work)) = (live', work')"
    "live_inv fn live' work'" "set live \<subseteq> set live'" "in_id i = 0 \<or> in_id i \<in> set live'" "set (opt_collect_operands (in_op i)) \<subseteq> set live'"
proof -
  define l where "l = (if in_id i \<noteq> 0 \<and> in_id i \<notin> set live then live @ [in_id i] else live)"
  obtain new where new: "fold mark_live (opt_collect_operands (in_op i)) (l, work) = (l @ new, work @ new)"
      "set new = set (opt_collect_operands (in_op i)) - set l"
    by (rule mark_live_fold)
  have "operands_live fn (l @ new) (in_id i)" using assms(2) new(2) by (auto simp: operands_live_def)
  then have "live_inv fn (l @ new) (work @ new)"
    using assms(1) by (auto simp: live_inv_def operands_live_def l_def)
  then show ?thesis
    using that [of "l @ new" "work @ new"] new by (auto simp: l_def split: if_splits)
qed

lemma seed_step:
  assumes "live_inv fn live work" "in_id i \<noteq> 0 \<longrightarrow> table_entry fn (in_id i) = Some i" "dce_seed fn i (live, work) = (live', work')"
  shows "live_inv fn live' work' \<and> set live \<subseteq> set live' \<and> seeded fn live' i"
proof -
  let ?root = "must_stay i \<or> iron_lir_instr_may_trap fn i"
  obtain l1 w1 where l1: "(if ?root then fold mark_live (opt_collect_operands (in_op i))
        (if in_id i \<noteq> 0 \<and> in_id i \<notin> set live then (live @ [in_id i], work) else (live, work)) else (live, work)) = (l1, w1)"
      "live_inv fn l1 w1" "set live \<subseteq> set l1"
      "?root \<Longrightarrow> (in_id i = 0 \<or> in_id i \<in> set l1) \<and> set (opt_collect_operands (in_op i)) \<subseteq> set l1"
  proof (cases ?root)
    case True
    obtain l w where "fold mark_live (opt_collect_operands (in_op i))
        (if in_id i \<noteq> 0 \<and> in_id i \<notin> set live then (live @ [in_id i], work) else (live, work)) = (l, w)"
      "live_inv fn l w" "set live \<subseteq> set l" "in_id i = 0 \<or> in_id i \<in> set l" "set (opt_collect_operands (in_op i)) \<subseteq> set l"
      by (rule seed_root [OF assms(1,2)])
    then show ?thesis using that [of l w] True by simp
  qed (use that [of live work] assms(1) in auto)
  have seed: "dce_seed fn i (live, work) = (case in_op i of HIGH (ARRAY_LIT els) \<Rightarrow> fold mark_live (filter (\<lambda>v. v \<noteq> 0) els) (l1, w1) | _ \<Rightarrow> (l1, w1))"
    by (simp only: dce_seed_def Let_def fst_conv snd_conv l1(1))
  show ?thesis
  proof (cases "\<exists>els. in_op i = HIGH (ARRAY_LIT els)")
    case True
    then obtain els where els: "in_op i = HIGH (ARRAY_LIT els)" by blast
    obtain new where new: "fold mark_live (filter (\<lambda>v. v \<noteq> 0) els) (l1, w1) = (l1 @ new, w1 @ new)"
        "set new = set (filter (\<lambda>v. v \<noteq> 0) els) - set l1"
      by (rule mark_live_fold)
    have "dce_seed fn i (live, work) = (l1 @ new, w1 @ new)"
      using seed new(1) els by simp
    then have "live' = l1 @ new" "work' = w1 @ new" using assms(3) by simp_all
    then show ?thesis using l1 new live_inv_more [OF l1(2) new(2)] els by (auto simp: seeded_def)
  next
    case False
    then have "dce_seed fn i (live, work) = (l1, w1)"
      using seed by (auto split: lir_inst.splits high_inst.splits)
    then show ?thesis using l1 assms(3) False by (auto simp: seeded_def)
  qed
qed

lemma seeded_mono: "seeded fn live i \<Longrightarrow> set live \<subseteq> set live' \<Longrightarrow> seeded fn live' i"
  unfolding seeded_def by blast

lemma seeds_closed:
  "live_inv fn live work \<Longrightarrow> \<forall>i\<in>set is. in_id i \<noteq> 0 \<longrightarrow> table_entry fn (in_id i) = Some i \<Longrightarrow>
    fold (dce_seed fn) is (live, work) = (live', work') \<Longrightarrow>
    live_inv fn live' work' \<and> set live \<subseteq> set live' \<and> (\<forall>i\<in>set is. seeded fn live' i)"
proof (induction "is" arbitrary: live work)
  case (Cons i "is")
  obtain l1 w1 where s: "dce_seed fn i (live, work) = (l1, w1)" by fastforce
  have 1: "live_inv fn l1 w1" "set live \<subseteq> set l1" "seeded fn l1 i"
    using seed_step [OF Cons.prems(1) _ s] Cons.prems(2) by simp_all
  have 2: "live_inv fn live' work' \<and> set l1 \<subseteq> set live' \<and> (\<forall>i\<in>set is. seeded fn live' i)"
    using Cons.IH [OF 1(1)] Cons.prems(2,3) s by simp
  then show ?case using 1 seeded_mono [OF 1(3)] by auto
qed simp

lemma dce_live_closed:
  assumes "table_ok fn"
  shows "\<And>i. i \<in> set (func_instrs fn) \<Longrightarrow> seeded fn (dce_live fn) i"
    "\<And>v. v \<in> set (dce_live fn) \<Longrightarrow> operands_live fn (dce_live fn) v"
proof -
  obtain live work where s: "fold (dce_seed fn) (func_instrs fn) ([], []) = (live, work)" by fastforce
  have "live_inv fn [] []" by (simp add: live_inv_def)
  then have 1: "live_inv fn live work" "\<forall>i\<in>set (func_instrs fn). seeded fn live i"
    using seeds_closed [OF _ _ s] table_okD [OF assms] by auto
  have "dce_live fn = dce_propagate fn live work" by (simp add: dce_live_def s)
  then have "set live \<subseteq> set (dce_live fn)" "live_inv fn (dce_live fn) []"
    using propagate_closed [OF 1(1)] by simp_all
  then show "\<And>i. i \<in> set (func_instrs fn) \<Longrightarrow> seeded fn (dce_live fn) i"
    "\<And>v. v \<in> set (dce_live fn) \<Longrightarrow> operands_live fn (dce_live fn) v"
    using 1(2) seeded_mono by (auto simp: live_inv_def)
qed

text \<open>So the operands of what stays are live, as far as the collector sees them.\<close>

lemma kept_operands_live:
  assumes "table_ok fn" "i \<in> set (func_instrs fn)" "dce_keeps (dce_live fn) i"
  shows "set (opt_collect_operands (in_op i)) \<subseteq> set (dce_live fn)"
proof (cases "must_stay i")
  case True
  then show ?thesis using dce_live_closed(1) [OF assms(1,2)] by (simp add: seeded_def)
next
  case False
  then have "in_id i \<in> set (dce_live fn)" "in_id i \<noteq> 0" using assms(3) by (auto simp: dce_keeps_def must_stay_def)
  then show ?thesis
    using dce_live_closed(2) [OF assms(1)] table_okD [OF assms(1,2)] by (auto simp: operands_live_def)
qed

section \<open>Runs are preserved\<close>

fun is_slice :: "'v lir_inst \<Rightarrow> bool" where
  "is_slice (HIGH (SLICE a b e)) \<longleftrightarrow> True"
| "is_slice _ \<longleftrightarrow> False"

fun is_array_lit :: "'v lir_inst \<Rightarrow> bool" where
  "is_array_lit (HIGH (ARRAY_LIT els)) \<longleftrightarrow> True"
| "is_array_lit _ \<longleftrightarrow> False"

text \<open>What the pass takes for pure, with the exception it makes for closures, has no effect on the world.\<close>

lemma effect_stays: "\<not> reads_only (in_op i) \<Longrightarrow> must_stay i"
  by (cases "in_op i" rule: reads_only.cases) (auto simp: must_stay_def captures_something_def)

text \<open>
  A value is demanded when an instruction with an effect (a terminator among them) reads it, or an instruction whose own value
  is demanded.
\<close>

inductive demanded :: "IronLIR_Func \<Rightarrow> value_id \<Rightarrow> bool" for fn where
  demanded_effect: "i \<in> set (func_instrs fn) \<Longrightarrow> \<not> reads_only (in_op i) \<Longrightarrow> v \<in> set (operand_fields (in_op i)) \<Longrightarrow> demanded fn v"
| demanded_value: "i \<in> set (func_instrs fn) \<Longrightarrow> demanded fn (in_id i) \<Longrightarrow> v \<in> set (operand_fields (in_op i)) \<Longrightarrow> demanded fn v"

text \<open>
  What the pass relies on: a true table, terminators at the ends of blocks, constants computed before they are read, no more operands than the
  collector holds (a literal of a list is exempt, the code marks its elements itself), and no slice but those whose value is demanded,
  because a slice checks its bounds although the pass takes it for pure.
\<close>

definition operands_fit :: "IronLIR_Func \<Rightarrow> bool" where
  "operands_fit fn \<longleftrightarrow> list_all (\<lambda>i. length (operand_fields (in_op i)) \<le> MAX_OPERANDS \<or> is_array_lit (in_op i)) (func_instrs fn)"

definition slices_held :: "IronLIR_Func \<Rightarrow> bool" where
  "slices_held fn \<longleftrightarrow> list_all (\<lambda>i. is_slice (in_op i) \<longrightarrow> in_id i = VALUE_INVALID \<or> demanded fn (in_id i)) (func_instrs fn)"

text \<open>A check that suffices: an instruction with an effect reads the slice itself.\<close>

lemma slices_heldI:
  "list_all (\<lambda>i. is_slice (in_op i) \<longrightarrow>
      list_ex (\<lambda>j. \<not> reads_only (in_op j) \<and> in_id i \<in> set (operand_fields (in_op j))) (func_instrs fn)) (func_instrs fn) \<Longrightarrow> slices_held fn"
  by (auto simp: slices_held_def list_all_iff list_ex_iff intro: demanded_effect)

definition dce_ready :: "IronLIR_Func \<Rightarrow> bool" where
  "dce_ready fn \<longleftrightarrow> table_ok fn \<and> ctrl_last fn \<and> consts_normal fn \<and> const_uses_ok fn \<and> operands_fit fn \<and> slices_held fn"

lemma kept_fields_live:
  assumes "table_ok fn" "operands_fit fn" "i \<in> set (func_instrs fn)" "dce_keeps (dce_live fn) i"
  shows "set (operand_fields (in_op i)) \<subseteq> insert 0 (set (dce_live fn))"
proof (cases "length (operand_fields (in_op i)) \<le> MAX_OPERANDS")
  case True
  then show ?thesis using kept_operands_live [OF assms(1,3,4)] opt_collect_complete by blast
next
  case False
  then have "is_array_lit (in_op i)" using assms(2,3) by (auto simp: operands_fit_def list_all_iff)
  then obtain els where "in_op i = HIGH (ARRAY_LIT els)" by (cases "in_op i" rule: is_array_lit.cases) auto
  then show ?thesis using dce_live_closed(1) [OF assms(1,3)] by (auto simp: seeded_def)
qed

text \<open>What is demanded is live, so the slices stay.\<close>

lemma demanded_live:
  assumes "table_ok fn" "operands_fit fn" "demanded fn v"
  shows "v \<in> insert 0 (set (dce_live fn))"
  using assms(3)
proof (induction rule: demanded.induct)
  case (demanded_effect i v)
  then have "dce_keeps (dce_live fn) i" using effect_stays by (simp add: dce_keeps_def)
  then show ?case using kept_fields_live [OF assms(1,2)] demanded_effect by blast
next
  case (demanded_value i v)
  then have "dce_keeps (dce_live fn) i" by (auto simp: dce_keeps_def must_stay_def)
  then show ?case using kept_fields_live [OF assms(1,2)] demanded_value by blast
qed

lemma slice_stays:
  assumes "table_ok fn" "operands_fit fn" "slices_held fn" "i \<in> set (func_instrs fn)" "is_slice (in_op i)"
  shows "dce_keeps (dce_live fn) i"
  using demanded_live [OF assms(1,2), of "in_id i"] assms(3-5) by (auto simp: slices_held_def list_all_iff dce_keeps_def must_stay_def)

text \<open>An instruction the pass removes cannot stop the program.\<close>

lemma int_kind_integer: "int_kind t = Some k \<Longrightarrow> iron_type_is_integer t"
  by (simp add: int_kind_def split: if_splits)

lemma dead_evaluates:
  assumes "\<not> iron_lir_instr_may_trap fn i" "\<not> is_slice (in_op i)"
    and "\<And>k l r c. in_op i = BINOP k l r \<Longrightarrow> const_of fn r = Some c \<Longrightarrow> vals r = c"
  shows "\<exists>x. eval_pure S fn i vals w = Some x"
proof (cases "in_op i")
  case (BINOP k l r)
  have const: "vals r = c" if "const_of fn r = Some c" for c using assms(3) BINOP that by blast
  show ?thesis
  proof (cases "compares k")
    case None
    consider "k = SHL \<or> k = SHR" | "k = DIV \<or> k = MOD" | "k \<notin> {SHL, SHR, DIV, MOD}" by blast
    then show ?thesis
    proof cases
      case 1
      then obtain c where "const_of fn r = Some c" "0 \<le> sint c"
        using assms(1) BINOP by (auto simp: iron_lir_instr_may_trap_def split: option.splits)
      then have "\<not> negative_count (value_type fn r) (vals r)" using const by (simp add: negative_count_def)
      then show ?thesis using 1 BINOP None by (auto simp: eval_pure_def eval_binop_def Let_def split: option.splits)
    next
      case 2
      then have "vals r \<noteq> 0" if "int_kind (in_type i) = Some t" for t
        using assms(1) BINOP const int_kind_integer [OF that] by (auto simp: iron_lir_instr_may_trap_def split: option.splits)
      then show ?thesis using 2 BINOP None by (auto simp: eval_pure_def eval_binop_def Let_def split: option.splits)
    next
      case 3
      then show ?thesis using BINOP None by (cases k) (auto simp: eval_pure_def eval_binop_def Let_def split: option.splits)
    qed
  qed (use BINOP in \<open>auto simp: eval_pure_def eval_binop_def Let_def split: option.splits\<close>)
next
  case (MEM m)
  then show ?thesis using assms(1) by (cases m) (auto simp: eval_pure_def Let_def iron_lir_instr_may_trap_def)
next
  case (HIGH h)
  then show ?thesis using assms(2) by (cases h) (auto simp: eval_pure_def Let_def)
next
  case (CONSTANT c)
  then show ?thesis by (cases c) (auto simp: eval_pure_def Let_def)
qed (auto simp: eval_pure_def Let_def)

lemma clear_entries:
  "length (fold (\<lambda>i tab. tab[in_id i := None]) is tab) = length tab"
  "v < length tab \<Longrightarrow> fold (\<lambda>i tab. tab[in_id i := None]) is tab ! v = (if v \<in> in_id ` set is then None else tab ! v)"
proof (induction "is" arbitrary: tab)
  case (Cons i "is")
  { case 1 show ?case using Cons.IH(1) [of "tab[in_id i := None]"] by simp }
  { case 2 then show ?case using Cons.IH(2) [of "tab[in_id i := None]"] by (auto simp: nth_list_update) }
qed simp_all

lemma dce_table:
  "table_entry (dce_func fn) v =
    (if v \<in> in_id ` {i\<in>set (func_instrs fn). \<not> dce_keeps (dce_live fn) i} then None else table_entry fn v)"
  by (auto simp: table_entry_def dce_func_def Let_def clear_entries)

lemma dce_params [simp]: "fn_params (dce_func fn) = fn_params fn"
  by (simp add: dce_func_def Let_def)

lemma dce_value_type:
  assumes "v \<in> insert 0 (set (dce_live fn))"
  shows "table_entry (dce_func fn) v = table_entry fn v" "value_type (dce_func fn) v = value_type fn v"
proof -
  have "v \<notin> in_id ` {i\<in>set (func_instrs fn). \<not> dce_keeps (dce_live fn) i}"
    using assms by (auto simp: dce_keeps_def must_stay_def)
  then show "table_entry (dce_func fn) v = table_entry fn v" by (simp add: dce_table)
  then show "value_type (dce_func fn) v = value_type fn v" using dce_params [of fn] by (auto simp: value_type_def split: option.split)
qed

definition kept_block :: "IronLIR_Func \<Rightarrow> IronLIR_Block \<Rightarrow> IronLIR_Block" where
  "kept_block fn b = b\<lparr>bl_instrs := filter (dce_keeps (dce_live fn)) (bl_instrs b)\<rparr>"

lemma dce_blocks: "fn_blocks (dce_func fn) = map (kept_block fn) (fn_blocks fn)"
  by (simp add: dce_func_def kept_block_def Let_def)

lemma dce_find_block: "find_block (dce_func fn) t = map_option (kept_block fn) (find_block fn t)"
proof -
  have "List.find (\<lambda>b. bl_id b = t) (map (kept_block fn) bs) = map_option (kept_block fn) (List.find (\<lambda>b. bl_id b = t) bs)" for bs
    by (induction bs) (simp_all add: kept_block_def)
  then show ?thesis by (simp add: find_block_def dce_blocks)
qed

text \<open>Two runs of a block that agree on what is live.\<close>

definition same_on :: "value_id set \<Rightarrow> lir_vals \<Rightarrow> lir_vals \<Rightarrow> bool" where
  "same_on A vals vals' \<longleftrightarrow> (\<forall>v\<in>A. vals v = vals' v)"

lemma same_on_write: "same_on A vals vals' \<Longrightarrow> same_on A (write_id v x vals) (write_id v x vals')"
  "same_on A vals vals' \<Longrightarrow> v \<notin> A \<Longrightarrow> same_on A (write_id v x vals) vals'"
  by (auto simp: same_on_def write_id_def)

fun same_end :: "value_id set \<Rightarrow> (block_id \<times> lir_vals \<times> 'w) + 'w run_end \<Rightarrow> (block_id \<times> lir_vals \<times> 'w) + 'w run_end \<Rightarrow> bool" where
  "same_end A (Inl (t, vals, w)) (Inl (t', vals', w')) \<longleftrightarrow> t = t' \<and> w = w' \<and> same_on A vals vals'"
| "same_end A (Inr e) (Inr e') \<longleftrightarrow> e = e'"
| "same_end A _ _ \<longleftrightarrow> False"

lemma exec_ctrl_cong:
  "\<forall>v\<in>set (ctrl_fields c). vals v = vals' v \<Longrightarrow> exec_ctrl c vals w = exec_ctrl c vals' w"
  by (cases c) auto

lemma exec_block_dce:
  assumes ready: "dce_ready fn" and b: "block_path fn (p @ [b])" "b \<in> set (fn_blocks fn)"
    and A: "A = insert 0 (set (dce_live fn))" "same_on A entry entry'"
  shows "bl_instrs b = pre @ rest \<Longrightarrow> consts_hold fn (in_id ` set (concat (map bl_instrs p)) \<union> in_id ` set pre) vals \<Longrightarrow> same_on A vals vals' \<Longrightarrow>
    same_end A (exec_block S fn prev entry rest vals w)
      (exec_block S (dce_func fn) prev entry' (filter (dce_keeps (dce_live fn)) rest) vals' w)"
proof (induction rest arbitrary: pre vals vals' w)
  case (Cons i rest)
  note ok = ready [unfolded dce_ready_def]
  have i: "i \<in> set (func_instrs fn)" using block_instrs [OF b(2)] Cons.prems(1) by simp
  show ?case
  proof (cases "dce_keeps (dce_live fn) i")
    case True
    then have sub: "set (operand_fields (in_op i)) \<subseteq> A" using kept_fields_live [OF _ _ i] ok A(1) by blast
    show ?thesis
    proof (cases "\<exists>c. in_op i = CTRL c")
      case True
      then obtain c where c: "in_op i = CTRL c" by blast
      then have "exec_ctrl c vals w = exec_ctrl c vals' w" using sub Cons.prems(3) by (intro exec_ctrl_cong) (auto simp: same_on_def)
      then show ?thesis
        using c \<open>dce_keeps (dce_live fn) i\<close> Cons.prems(3) by (simp add: exec_block_ctrl [OF c] split: sum.split)
    next
      case False
      then have nc: "\<And>c. in_op i \<noteq> CTRL c" by blast
      have step: "step_instr S fn prev entry i vals w = step_instr S (dce_func fn) prev entry' i vals' w"
        using sub Cons.prems(3) A(2) nc dce_value_type(2) [of _ fn] A(1) by (intro step_cong) (auto simp: same_on_def)
      show ?thesis
      proof (cases "step_instr S fn prev entry i vals w")
        case (Inl xw)
        obtain x w1 where x: "step_instr S fn prev entry i vals w = Inl (x, w1)" using Inl by (cases xw) simp
        have "consts_hold fn (in_id ` set (concat (map bl_instrs p)) \<union> in_id ` set (pre @ [i])) (write_id (in_id i) x vals)"
          using consts_hold_write [OF _ _ i x Cons.prems(2)] ok by (simp add: insert_commute)
        then show ?thesis
          using Cons.IH [of "pre @ [i]" "write_id (in_id i) x vals" "write_id (in_id i) x vals'"] Cons.prems(1) same_on_write(1) [OF Cons.prems(3)]
            x step \<open>dce_keeps (dce_live fn) i\<close> by (simp add: exec_block_other [OF nc])
      next
        case (Inr e)
        then show ?thesis using step \<open>dce_keeps (dce_live fn) i\<close> by (simp add: exec_block_other [OF nc])
      qed
    qed
  next
    case False
    then have ns: "reads_only (in_op i)" "in_id i \<noteq> 0" "in_id i \<notin> set (dce_live fn)"
      using effect_stays [of i] by (auto simp: dce_keeps_def must_stay_def)
    have "seeded fn (dce_live fn) i" by (rule dce_live_closed(1)) (use ok i in simp_all)
    then have "\<not> iron_lir_instr_may_trap fn i" using ns(2,3) by (simp add: seeded_def)
    moreover have "\<not> is_slice (in_op i)" using slice_stays [OF _ _ _ i] ok False by blast
    ultimately have dead: "reads_only (in_op i)" "in_id i \<notin> A" "\<not> is_slice (in_op i)" "\<not> iron_lir_instr_may_trap fn i"
      using ns A(1) by simp_all
    then have nc: "\<And>c. in_op i \<noteq> CTRL c" "\<And>vs ps. in_op i \<noteq> PHI vs ps" by auto
    have known: "vals r = c" if "in_op i = BINOP k l r" "const_of fn r = Some c" for k l r c
      using const_usesD [OF _ b(1) Cons.prems(1) that(1) _ that(2) Cons.prems(2)] ok by blast
    have "\<exists>x. eval_pure S fn i vals w = Some x" by (rule dead_evaluates [OF dead(4,3)]) (rule known)
    then obtain x where x: "eval_pure S fn i vals w = Some x" ..
    then have step: "step_instr S fn prev entry i vals w = Inl (x, w)" using dead(1) by (simp add: step_instr_other [OF nc(2)])
    have "consts_hold fn (in_id ` set (concat (map bl_instrs p)) \<union> in_id ` set (pre @ [i])) (write_id (in_id i) x vals)"
      using consts_hold_write [OF _ _ i step Cons.prems(2)] ok by (simp add: insert_commute)
    then show ?thesis
      using Cons.IH [of "pre @ [i]" "write_id (in_id i) x vals" vals'] Cons.prems(1) same_on_write(2) [OF Cons.prems(3) dead(2)] step False
      by (simp add: exec_block_other [OF nc(1)])
  qed
qed simp

lemma run_blocks_dce:
  assumes ready: "dce_ready fn"
  shows "block_path fn (p @ [b]) \<Longrightarrow> b \<in> set (fn_blocks fn) \<Longrightarrow> consts_hold fn (in_id ` set (concat (map bl_instrs p))) vals \<Longrightarrow>
    same_on (insert 0 (set (dce_live fn))) vals vals' \<Longrightarrow>
    run_blocks n S (dce_func fn) prev (kept_block fn b) vals' w = run_blocks n S fn prev b vals w"
proof (induction n arbitrary: p b vals vals' w prev)
  case (Suc n)
  note ok = ready [unfolded dce_ready_def]
  let ?A = "insert 0 (set (dce_live fn))"
  have same: "same_end ?A (exec_block S fn prev vals (bl_instrs b) vals w)
      (exec_block S (dce_func fn) prev vals' (bl_instrs (kept_block fn b)) vals' w)"
    using exec_block_dce [OF ready Suc.prems(1,2) refl Suc.prems(4), of "[]" "bl_instrs b" vals vals' S prev w] Suc.prems(3,4)
    by (simp add: kept_block_def)
  show ?case
  proof (cases "exec_block S fn prev vals (bl_instrs b) vals w")
    case (Inr e)
    then show ?thesis using same by (cases "exec_block S (dce_func fn) prev vals' (bl_instrs (kept_block fn b)) vals' w") auto
  next
    case (Inl tvw)
    obtain t v w1 where e: "exec_block S fn prev vals (bl_instrs b) vals w = Inl (t, v, w1)" using Inl by (cases tvw) auto
    then obtain v' where e': "exec_block S (dce_func fn) prev vals' (bl_instrs (kept_block fn b)) vals' w = Inl (t, v', w1)" "same_on ?A v v'"
      using same by (cases "exec_block S (dce_func fn) prev vals' (bl_instrs (kept_block fn b)) vals' w") auto
    have c: "consts_hold fn (in_id ` set (concat (map bl_instrs (p @ [b])))) v" and
      j: "\<exists>i\<in>set (bl_instrs b). \<exists>c. in_op i = CTRL c \<and> t \<in> set (ctrl_targets c)"
      using exec_block_consts [OF _ _ _ Suc.prems(2) _ _ e, of "[]" "in_id ` set (concat (map bl_instrs p))"] ok Suc.prems(3)
      by (simp_all add: image_Un)
    show ?thesis
    proof (cases "find_block fn t")
      case None
      then show ?thesis using e e'(1) by (simp add: dce_find_block)
    next
      case (Some b')
      have "block_path fn ((p @ [b]) @ [b'])" using path_next [OF Suc.prems(1)] j Some by fastforce
      then have "run_blocks n S (dce_func fn) (bl_id b) (kept_block fn b') v' w1 = run_blocks n S fn (bl_id b) b' v w1"
        using Suc.IH [OF _ find_block_mem [OF Some] c e'(2)] by blast
      then show ?thesis using e e'(1) Some by (simp add: dce_find_block kept_block_def)
    qed
  qed
qed simp

lemma dce_run: "dce_ready fn \<Longrightarrow> run_func n S (dce_func fn) vals w = run_func n S fn vals w"
proof (cases "fn_blocks fn")
  case (Cons b bs)
  assume "dce_ready fn"
  then have "run_blocks n S (dce_func fn) 0 (kept_block fn b) vals w = run_blocks n S fn 0 b vals w"
    using run_blocks_dce [of fn "[]" b vals vals] path_entry [OF Cons] Cons by (simp add: consts_hold_def same_on_def)
  then show ?thesis using Cons by (simp add: run_func_def dce_blocks)
qed (simp add: run_func_def dce_blocks)

text \<open>C36: Removing dead instructions changes no run: for every module whose functions are ready for the pass, for every meaning of memory, calls
  and the rest of the runtime, from every state and for every number of blocks, each function ends in the same way (it stops, returns the
  same value, or goes on) with the same effects on the world as before the pass. Which instructions act on the world is decided by the
  run semantics, not by the pass: calls, stores, memory management, tasks, pointer accesses and checks do. A function is ready when its table of
  values is true, terminators end blocks, integer constants lie in their types and are computed before they are read,
  no instruction but a list literal has more than 64 operands, and every slice is read, directly or through other values, by an
  instruction with an effect. The last two are limits of the code: outside them the pass does change runs (theorem \<open>dce_limits\<close>).\<close>

theorem dce_preserves_runs:
  fixes S :: "'w lir_sem"
  assumes "list_all dce_ready m"
  shows "list_all2 (\<lambda>fn fn'. \<forall>n vals w. run_func n S fn' vals w = run_func n S fn vals w) m (snd (run_dce m))"
  using assms by (induction m) (auto simp: run_dce_def dce_run)

definition no_span :: Iron_Span where
  "no_span = iron_span_make None 0 0 0 0"

definition example_func :: "IronLIR_Instr list \<Rightarrow> nat \<Rightarrow> IronLIR_Func" where
  "example_func is n = \<lparr>fn_name = ''f'', fn_return_type = Some (Prim IRON_TYPE_INT), fn_params = [], fn_is_extern = False,
     fn_blocks = [\<lparr>bl_id = 1, bl_label = ''entry'', bl_instrs = is, bl_succs = []\<rparr>],
     fn_value_table = map (\<lambda>v. List.find (\<lambda>i. in_id i = v \<and> v \<noteq> 0) is) [0..<n]\<rparr>"

abbreviation (input) int_instr :: "value_id \<Rightarrow> value_id lir_inst \<Rightarrow> IronLIR_Instr" where
  "int_instr v op \<equiv> \<lparr>in_id = v, in_type = Some (Prim IRON_TYPE_INT), in_span = no_span, in_op = op\<rparr>"

text \<open>A quotient by a constant that nobody reads goes, and its constant with it.\<close>

definition dead_quotient :: IronLIR_Func where
  "dead_quotient = example_func
    [int_instr 1 (CONSTANT (CONST_INT 5)), int_instr 2 (CONSTANT (CONST_INT 3)), int_instr 3 (BINOP DIV 1 2),
     int_instr 4 (BINOP ADD 1 1), int_instr 0 (CTRL (RETURN 4 False))] 5"

definition S0 :: "unit lir_sem" where
  "S0 = \<lparr>sem_effect = (\<lambda>ty op w. (w, Some 0)), sem_pure = (\<lambda>ty op w. 0), sem_in_bounds = (\<lambda>op w. True)\<rparr>"

text \<open>A slice that is returned stays, with its bounds; a sum that nobody reads goes.\<close>

definition read_slice :: IronLIR_Func where
  "read_slice = example_func
    [int_instr 1 (CONSTANT (CONST_INT 0)), int_instr 2 (CONSTANT (CONST_INT 9)), int_instr 3 (HIGH (SLICE 1 1 2)),
     int_instr 4 (BINOP ADD 1 2), int_instr 0 (CTRL (RETURN 3 False))] 5"

theorem dce_preserves_runs_witness:
  "map in_id (func_instrs (dce_func dead_quotient)) = [1, 4, 0] \<and> map in_id (func_instrs (dce_func read_slice)) = [1, 2, 3, 0] \<and>
    (\<forall>n vals w. run_func n S0 (dce_func dead_quotient) vals w = run_func n S0 dead_quotient vals w) \<and>
    (\<forall>n vals w. run_func n S0 (dce_func read_slice) vals w = run_func n S0 read_slice vals w)"
proof -
  have "const_uses_ok dead_quotient" "const_uses_ok read_slice" by (rule const_uses_okI; code_simp)+
  moreover have "slices_held dead_quotient" "slices_held read_slice" by (rule slices_heldI; code_simp)+
  moreover have "table_ok dead_quotient" "ctrl_last dead_quotient" "consts_normal dead_quotient" "operands_fit dead_quotient" by code_simp+
  moreover have "table_ok read_slice" "ctrl_last read_slice" "consts_normal read_slice" "operands_fit read_slice" by code_simp+
  ultimately have "list_all dce_ready [dead_quotient, read_slice]" by (simp add: dce_ready_def)
  moreover have "\<not> dce_skips dead_quotient" "\<not> dce_skips read_slice" by code_simp+
  moreover have "map in_id (func_instrs (dce_func dead_quotient)) = [1, 4, 0]" "map in_id (func_instrs (dce_func read_slice)) = [1, 2, 3, 0]"
    by code_simp+
  ultimately show ?thesis using dce_preserves_runs [of "[dead_quotient, read_slice]" S0] by (simp add: run_dce_def)
qed

end
