(* ===== verification/Lir_Verify.thy ===== *)
theory Lir_Verify
  imports Lir_Dce
begin

text \<open>
  The verifier of the lowered representation (src/lir/verify.c), its use as a gate after every pass
  (src/lir/lir\_optimize.c), and what removing dead instructions does to it: a verified module stays verified. The verifier and
  the pass collect operands into buffers of the same size, so an operand past the end is invisible to both.
\<close>

section \<open>The code\<close>

abbreviation (input) "IRON_ERR_LIR_MISSING_TERMINATOR \<equiv> 900 :: nat"
abbreviation (input) "IRON_ERR_LIR_INVALID_BRANCH_TARGET \<equiv> 901 :: nat"
abbreviation (input) "IRON_ERR_LIR_USE_BEFORE_DEF \<equiv> 902 :: nat"
abbreviation (input) "IRON_ERR_LIR_INSTR_AFTER_TERMINATOR \<equiv> 903 :: nat"
abbreviation (input) "IRON_ERR_LIR_NO_ENTRY_BLOCK \<equiv> 904 :: nat"
abbreviation (input) "IRON_ERR_LIR_RETURN_TYPE_MISMATCH \<equiv> 905 :: nat"
abbreviation (input) "IRON_ERR_LIR_PHI_TYPE_MISMATCH \<equiv> 906 :: nat"
abbreviation (input) "IRON_ERR_LIR_CALL_TYPE_MISMATCH \<equiv> 907 :: nat"
abbreviation (input) "IRON_ERR_LOWER_UNSUPPORTED \<equiv> 400 :: nat"

text \<open>What a check reports: a code, a place and a message. No check looks at what was reported before.\<close>

type_synonym lir_error = "nat \<times> Iron_Span \<times> string"

definition block_id_valid :: "IronLIR_Func \<Rightarrow> block_id \<Rightarrow> bool" where
  "block_id_valid fn t \<longleftrightarrow> t \<noteq> BLOCK_INVALID \<and> list_ex (\<lambda>b. bl_id b = t) (fn_blocks fn)"

definition find_func_by_name :: "IronLIR_Module \<Rightarrow> string \<Rightarrow> IronLIR_Func option" where
  "find_func_by_name m name = List.find (\<lambda>f. fn_name f = name) m"

text \<open>The search for reachable blocks: a stack of identifiers, and every block of a popped block's successors.\<close>

definition reach_block :: "IronLIR_Func \<Rightarrow> block_id \<Rightarrow> nat \<Rightarrow> bool list \<times> block_id list \<Rightarrow> bool list \<times> block_id list" where
  "reach_block fn sid k rw = (case rw of (r, work) \<Rightarrow>
    if bl_id (fn_blocks fn ! k) = sid \<and> \<not> r ! k then (r[k := True], work @ [sid]) else (r, work))"

definition reach_succs :: "IronLIR_Func \<Rightarrow> IronLIR_Block \<Rightarrow> bool list \<times> block_id list \<Rightarrow> bool list \<times> block_id list" where
  "reach_succs fn cur rw = fold (\<lambda>sid. fold (reach_block fn sid) [0..<length (fn_blocks fn)]) (bl_succs cur) rw"

text \<open>Every push marks a block that was not marked.\<close>

definition reach_ext :: "bool list \<times> block_id list \<Rightarrow> bool list \<times> block_id list \<Rightarrow> bool" where
  "reach_ext rw rw' \<longleftrightarrow> length (fst rw') = length (fst rw) \<and>
    unmarked (fst rw') + length (snd rw') \<le> unmarked (fst rw) + length (snd rw) \<and> unmarked (fst rw') \<le> unmarked (fst rw) \<and>
    (unmarked (fst rw') = unmarked (fst rw) \<longrightarrow> snd rw' = snd rw)"

lemma reach_ext_trans: "reach_ext a b \<Longrightarrow> reach_ext b c \<Longrightarrow> reach_ext a c"
  by (auto simp: reach_ext_def)

lemma reach_block_ext: "k < length (fst rw) \<Longrightarrow> reach_ext rw (reach_block fn sid k rw)"
  using unmarked_update [of k "fst rw"] by (auto simp: reach_ext_def reach_block_def split: prod.splits)

lemma fold_reach_ext:
  "(\<And>x rw. x \<in> set xs \<Longrightarrow> length (fst rw) = n \<Longrightarrow> reach_ext rw (f x rw)) \<Longrightarrow> length (fst rw) = n \<Longrightarrow> reach_ext rw (fold f xs rw)"
proof (induction xs arbitrary: rw)
  case (Cons x xs)
  have 1: "reach_ext rw (f x rw)" using Cons.prems by simp
  then have "length (fst (f x rw)) = n" using Cons.prems(2) by (simp add: reach_ext_def)
  then have "reach_ext (f x rw) (fold f xs (f x rw))" using Cons.IH Cons.prems(1) by simp
  then show ?case using 1 by (auto intro: reach_ext_trans)
qed (simp add: reach_ext_def)

lemma reach_succs_ext: "length (fst rw) = length (fn_blocks fn) \<Longrightarrow> reach_ext rw (reach_succs fn cur rw)"
  unfolding reach_succs_def by (intro fold_reach_ext) (auto intro!: reach_block_ext)

function reach_loop :: "IronLIR_Func \<Rightarrow> bool list \<Rightarrow> block_id list \<Rightarrow> bool list" where
  "reach_loop fn r work =
    (if work = [] \<or> length r \<noteq> length (fn_blocks fn) then r
     else case find_block fn (last work) of
       None \<Rightarrow> reach_loop fn r (butlast work)
     | Some cur \<Rightarrow> (case reach_succs fn cur (r, butlast work) of (r', work') \<Rightarrow> reach_loop fn r' work'))"
  by pat_completeness auto

termination
proof (relation "inv_image (less_than <*lex*> less_than) (\<lambda>(fn, r, work). (unmarked r, length work))", goal_cases)
  case (3 fn r work cur r' work')
  have "reach_ext (r, butlast work) (r', work')" using reach_succs_ext [of "(r, butlast work)" fn cur] 3 by simp
  then show ?case using 3(1) by (auto simp: reach_ext_def)
qed (auto intro!: wf_inv_image)

declare reach_loop.simps [simp del]

definition verify_reachable :: "IronLIR_Func \<Rightarrow> bool list" where
  "verify_reachable fn = reach_loop fn ((replicate (length (fn_blocks fn)) False)[0 := True]) [bl_id (hd (fn_blocks fn))]"

text \<open>Invariants 2 to 8, in the order they are checked. A name stands between quotes.\<close>

definition quoted :: "string \<Rightarrow> string" where
  "quoted name = CHR 0x27 # name @ [CHR 0x27]"

definition check_terminator :: "IronLIR_Func \<Rightarrow> IronLIR_Block \<Rightarrow> lir_error list" where
  "check_terminator fn b =
    (let msg = ''basic block '' @ quoted (bl_label b) @ '' has no terminator'' in
     if bl_instrs b = [] then
       let first = bl_instrs (hd (fn_blocks fn)) in
       [(IRON_ERR_LIR_MISSING_TERMINATOR, if first \<noteq> [] then in_span (hd first) else iron_span_make (Some (fn_name fn)) 0 0 0 0, msg)]
     else if \<not> iron_lir_is_terminator (in_op (last (bl_instrs b))) then
       [(IRON_ERR_LIR_MISSING_TERMINATOR, in_span (last (bl_instrs b)), msg)]
     else [])"

fun check_after :: "string \<Rightarrow> bool \<Rightarrow> IronLIR_Instr list \<Rightarrow> lir_error list" where
  "check_after label found [] = []"
| "check_after label found (i # is) =
    (if found then [(IRON_ERR_LIR_INSTR_AFTER_TERMINATOR, in_span i, ''instruction after terminator in block '' @ quoted label)] else []) @
    check_after label (found \<or> iron_lir_is_terminator (in_op i)) is"

definition check_targets :: "IronLIR_Func \<Rightarrow> IronLIR_Instr \<Rightarrow> lir_error list" where
  "check_targets fn i = (case in_op i of
      CTRL c \<Rightarrow> map (\<lambda>t. (IRON_ERR_LIR_INVALID_BRANCH_TARGET, in_span i,
        ''branch target block ID '' @ dec t @ '' does not exist in function '' @ quoted (fn_name fn)))
        (filter (\<lambda>t. \<not> block_id_valid fn t) (ctrl_targets c))
    | _ \<Rightarrow> [])"

definition check_poison :: "IronLIR_Block \<Rightarrow> IronLIR_Instr \<Rightarrow> lir_error list" where
  "check_poison b i = (case in_op i of
      POISON \<Rightarrow> [(IRON_ERR_LOWER_UNSUPPORTED, in_span i,
        ''Poison instruction found in block '' @ quoted (bl_label b) @ '' (lowering error placeholder)'')]
    | _ \<Rightarrow> [])"

definition is_param :: "IronLIR_Func \<Rightarrow> value_id \<Rightarrow> bool" where
  "is_param fn v \<longleftrightarrow> 1 \<le> v \<and> v \<le> length (fn_params fn)"

definition check_operands :: "IronLIR_Func \<Rightarrow> IronLIR_Instr \<Rightarrow> lir_error list" where
  "check_operands fn i = map (\<lambda>v. (IRON_ERR_LIR_USE_BEFORE_DEF, in_span i, ''use of undefined value %'' @ dec v))
    (filter (\<lambda>v. table_entry fn v = None \<and> \<not> is_param fn v) (collect_operands (in_op i)))"

definition is_interface :: "Iron_Type option \<Rightarrow> bool" where
  "is_interface t \<longleftrightarrow> (case t of Some (IRON_TYPE_INTERFACE d) \<Rightarrow> True | _ \<Rightarrow> False)"

definition is_object :: "Iron_Type option \<Rightarrow> bool" where
  "is_object t \<longleftrightarrow> (case t of Some (IRON_TYPE_OBJECT d e f) \<Rightarrow> True | _ \<Rightarrow> False)"

text \<open>Whether the type of a value can be seen and differs from the one expected.\<close>

definition type_differs :: "IronLIR_Func \<Rightarrow> value_id \<Rightarrow> Iron_Type option \<Rightarrow> bool" where
  "type_differs fn v ty \<longleftrightarrow> v \<noteq> VALUE_INVALID \<and>
    (case table_entry fn v of None \<Rightarrow> False | Some d \<Rightarrow> in_type d \<noteq> None \<and> \<not> iron_type_equals (in_type d) ty)"

definition return_mismatch :: "IronLIR_Func \<Rightarrow> value_id \<Rightarrow> bool \<Rightarrow> bool" where
  "return_mismatch fn v is_void \<longleftrightarrow>
    (if fn_return_type fn = None then \<not> is_void
     else if is_void then True
     else type_differs fn v (fn_return_type fn) \<and>
       \<not> (is_interface (fn_return_type fn) \<and> (case table_entry fn v of Some d \<Rightarrow> is_object (in_type d) | None \<Rightarrow> False)))"

definition check_returns :: "IronLIR_Func \<Rightarrow> IronLIR_Instr \<Rightarrow> lir_error list" where
  "check_returns fn i = (case in_op i of
      CTRL (RETURN v is_void) \<Rightarrow>
        if return_mismatch fn v is_void
        then [(IRON_ERR_LIR_RETURN_TYPE_MISMATCH, in_span i, ''return type mismatch in function '' @ quoted (fn_name fn))] else []
    | _ \<Rightarrow> [])"

definition check_phis :: "IronLIR_Func \<Rightarrow> IronLIR_Block \<Rightarrow> IronLIR_Instr \<Rightarrow> lir_error list" where
  "check_phis fn b i = (case in_op i of
      PHI vs ps \<Rightarrow>
        if in_type i = None then []
        else map (\<lambda>v. (IRON_ERR_LIR_PHI_TYPE_MISMATCH, in_span i, ''PHI node type mismatch in function '' @ quoted (fn_name fn) @
            '', block '' @ quoted (bl_label b) @ '': incoming value %'' @ dec v @ '' type differs from PHI result type''))
          (filter (\<lambda>v. \<not> is_param fn v \<and> type_differs fn v (in_type i)) vs)
    | _ \<Rightarrow> [])"

definition arg_mismatch :: "IronLIR_Func \<Rightarrow> IronLIR_Func \<Rightarrow> value_id list \<Rightarrow> nat \<Rightarrow> bool" where
  "arg_mismatch fn callee args k \<longleftrightarrow> \<not> is_param fn (args ! k) \<and> fn_params callee ! k \<noteq> None \<and> type_differs fn (args ! k) (fn_params callee ! k)"

definition check_calls :: "IronLIR_Module \<Rightarrow> IronLIR_Func \<Rightarrow> IronLIR_Instr \<Rightarrow> lir_error list" where
  "check_calls m fn i = (case in_op i of
      HIGH (CALL (Some name) p args) \<Rightarrow> (case find_func_by_name m name of
        None \<Rightarrow> []
      | Some callee \<Rightarrow>
          if length args \<noteq> length (fn_params callee) then
            [(IRON_ERR_LIR_CALL_TYPE_MISMATCH, in_span i, ''call argument count mismatch in function '' @ quoted name @
              '': got '' @ dec (length args) @ '', expected '' @ dec (length (fn_params callee)))]
          else map (\<lambda>k. (IRON_ERR_LIR_CALL_TYPE_MISMATCH, in_span i, ''call argument type mismatch in function '' @ quoted name @
              '': argument '' @ dec (k + 1) @ '' type differs from parameter type''))
            (filter (arg_mismatch fn callee args) [0..<length args]))
    | _ \<Rightarrow> [])"

definition check_block :: "IronLIR_Module \<Rightarrow> IronLIR_Func \<Rightarrow> IronLIR_Block \<Rightarrow> lir_error list" where
  "check_block m fn b =
    check_terminator fn b @ check_after (bl_label b) False (bl_instrs b) @ concat (map (check_targets fn) (bl_instrs b)) @
    concat (map (check_poison b) (bl_instrs b)) @ concat (map (check_operands fn) (bl_instrs b)) @
    concat (map (check_returns fn) (bl_instrs b)) @ concat (map (check_phis fn b) (bl_instrs b)) @
    concat (map (check_calls m fn) (bl_instrs b))"

text \<open>When there is no memory for the table of reachable blocks, every block is checked.\<close>

definition check_func :: "malloc_ok \<Rightarrow> IronLIR_Module \<Rightarrow> IronLIR_Func \<Rightarrow> lir_error list" where
  "check_func al m fn =
    (if fn_is_extern fn then []
     else if fn_blocks fn = [] then
       [(IRON_ERR_LIR_NO_ENTRY_BLOCK, iron_span_make (Some (fn_name fn)) 0 0 0 0, ''function '' @ quoted (fn_name fn) @ '' has no basic blocks'')]
     else concat (map (\<lambda>k. if al (length (fn_blocks fn)) \<and> \<not> verify_reachable fn ! k then [] else check_block m fn (fn_blocks fn ! k))
       [0..<length (fn_blocks fn)]))"

text \<open>Messages are cut to the size of their buffer.\<close>

definition report_error :: "malloc_ok \<Rightarrow> lir_error \<Rightarrow> Iron_DiagList \<Rightarrow> Iron_DiagList" where
  "report_error al e diags = (case e of (cd, span, msg) \<Rightarrow> iron_diag_emit al IRON_DIAG_ERROR cd span (take 255 msg) diags)"

definition verify_func :: "malloc_ok \<Rightarrow> IronLIR_Module \<Rightarrow> IronLIR_Func \<Rightarrow> Iron_DiagList \<Rightarrow> Iron_DiagList" where
  "verify_func al m fn diags = fold (report_error al) (check_func al m fn) diags"

definition iron_lir_verify :: "malloc_ok \<Rightarrow> IronLIR_Module \<Rightarrow> Iron_DiagList \<Rightarrow> bool \<times> Iron_DiagList" where
  "iron_lir_verify al m diags =
    (let after = fold (verify_func al m) m diags in (dl_error_count after = dl_error_count diags, after))"

definition optimize_verify_error_count :: "malloc_ok \<Rightarrow> IronLIR_Module \<Rightarrow> nat" where
  "optimize_verify_error_count al m = dl_error_count (snd (iron_lir_verify al m iron_diaglist_create))"

text \<open>The gate after a pass: the compiler goes on, or it ends with an internal error.\<close>

definition optimize_verify_or_die :: "malloc_ok \<Rightarrow> IronLIR_Module \<Rightarrow> nat \<Rightarrow> nat option" where
  "optimize_verify_or_die al m baseline_errors =
    (if 0 < baseline_errors then None
     else let diags = snd (iron_lir_verify al m iron_diaglist_create) in
       if dl_error_count diags > baseline_errors then Some (dl_error_count diags) else None)"

section \<open>Reachable blocks\<close>

inductive reaches :: "IronLIR_Func \<Rightarrow> nat \<Rightarrow> bool" for fn where
  reaches_entry: "fn_blocks fn \<noteq> [] \<Longrightarrow> reaches fn 0"
| reaches_succ: "reaches fn k \<Longrightarrow> find_block fn (bl_id (fn_blocks fn ! k)) = Some cur \<Longrightarrow> sid \<in> set (bl_succs cur) \<Longrightarrow>
    j < length (fn_blocks fn) \<Longrightarrow> bl_id (fn_blocks fn ! j) = sid \<Longrightarrow> reaches fn j"

text \<open>Marks stay, pushes are identifiers of new marks, and every block of a successor is marked.\<close>

definition reach_grows :: "IronLIR_Func \<Rightarrow> bool list \<times> block_id list \<Rightarrow> bool list \<times> block_id list \<Rightarrow> bool" where
  "reach_grows fn rw rw' \<longleftrightarrow> length (fst rw') = length (fst rw) \<and> set (snd rw) \<subseteq> set (snd rw') \<and>
    (\<forall>k<length (fst rw). fst rw ! k \<longrightarrow> fst rw' ! k) \<and>
    (\<forall>k<length (fst rw). fst rw' ! k \<longrightarrow> fst rw ! k \<or> bl_id (fn_blocks fn ! k) \<in> set (snd rw')) \<and>
    (\<forall>t\<in>set (snd rw'). t \<in> set (snd rw) \<or> (\<exists>k<length (fst rw). fst rw' ! k \<and> bl_id (fn_blocks fn ! k) = t))"

lemma reach_grows_trans: "reach_grows fn a b \<Longrightarrow> reach_grows fn b c \<Longrightarrow> reach_grows fn a c"
  unfolding reach_grows_def by (elim conjE, intro conjI ballI allI impI) (fastforce+)

lemma reach_grows_refl: "reach_grows fn a a"
  by (simp add: reach_grows_def)

lemma reach_block_grows:
  assumes "k < length (fst rw)"
  shows "reach_grows fn rw (reach_block fn sid k rw)" "bl_id (fn_blocks fn ! k) = sid \<longrightarrow> fst (reach_block fn sid k rw) ! k"
  using assms by (auto simp: reach_block_def reach_grows_def nth_list_update split: prod.splits if_splits)

text \<open>What each step of a walk establishes holds after the walk when growing keeps it.\<close>

lemma fold_establish:
  assumes "\<And>x rw. x \<in> set xs \<Longrightarrow> length (fst rw) = n \<Longrightarrow> reach_grows fn rw (f x rw) \<and> T x (f x rw)"
    and "\<And>x a b. T x a \<Longrightarrow> reach_grows fn a b \<Longrightarrow> length (fst a) = n \<Longrightarrow> T x b" "length (fst rw) = n"
  shows "reach_grows fn rw (fold f xs rw) \<and> (\<forall>x\<in>set xs. T x (fold f xs rw))"
  using assms(1,3)
proof (induction xs arbitrary: rw)
  case (Cons x xs)
  then have x: "reach_grows fn rw (f x rw)" "T x (f x rw)" by simp_all
  then have n: "length (fst (f x rw)) = n" using Cons.prems(2) by (simp add: reach_grows_def)
  have rest: "reach_grows fn (f x rw) (fold f xs (f x rw))" "\<forall>y\<in>set xs. T y (fold f xs (f x rw))"
    using Cons.IH [OF _ n] Cons.prems(1) by simp_all
  then show ?case using x assms(2) [OF x(2) rest(1) n] reach_grows_trans [OF x(1) rest(1)] by simp
qed (simp add: reach_grows_refl)

lemma reach_succs_marks:
  assumes "length (fst rw) = length (fn_blocks fn)"
  shows "reach_grows fn rw (reach_succs fn cur rw) \<and>
    (\<forall>sid\<in>set (bl_succs cur). \<forall>k<length (fn_blocks fn). bl_id (fn_blocks fn ! k) = sid \<longrightarrow> fst (reach_succs fn cur rw) ! k)"
  unfolding reach_succs_def
proof (rule fold_establish [where T = "\<lambda>sid rw. \<forall>k<length (fn_blocks fn). bl_id (fn_blocks fn ! k) = sid \<longrightarrow> fst rw ! k", OF _ _ assms])
  fix sid and rw :: "bool list \<times> block_id list"
  assume n: "length (fst rw) = length (fn_blocks fn)"
  have "reach_grows fn rw (fold (reach_block fn sid) [0..<length (fn_blocks fn)] rw) \<and> (\<forall>k\<in>set [0..<length (fn_blocks fn)].
      k < length (fn_blocks fn) \<and> (bl_id (fn_blocks fn ! k) = sid \<longrightarrow> fst (fold (reach_block fn sid) [0..<length (fn_blocks fn)] rw) ! k))"
    by (rule fold_establish [OF _ _ n]) (auto simp: reach_block_grows, auto simp: reach_grows_def)
  then show "reach_grows fn rw (fold (reach_block fn sid) [0..<length (fn_blocks fn)] rw) \<and>
      (\<forall>k<length (fn_blocks fn). bl_id (fn_blocks fn ! k) = sid \<longrightarrow> fst (fold (reach_block fn sid) [0..<length (fn_blocks fn)] rw) ! k)"
    by simp
qed (auto simp: reach_grows_def)

lemma fold_invariant: "(\<And>x a. x \<in> set xs \<Longrightarrow> P a \<Longrightarrow> P (f x a)) \<Longrightarrow> P a \<Longrightarrow> P (fold f xs a)"
  by (induction xs arbitrary: a) auto

lemma reach_succs_sound:
  assumes "length r = length (fn_blocks fn)" "\<And>k. k < length (fn_blocks fn) \<Longrightarrow> r ! k \<Longrightarrow> Q k"
    and "\<And>k. k < length (fn_blocks fn) \<Longrightarrow> bl_id (fn_blocks fn ! k) \<in> set (bl_succs cur) \<Longrightarrow> Q k"
    and "k < length (fn_blocks fn)" "fst (reach_succs fn cur (r, work)) ! k"
  shows "Q k"
proof -
  let ?P = "\<lambda>rw. length (fst rw) = length (fn_blocks fn) \<and> (\<forall>k<length (fn_blocks fn). fst rw ! k \<longrightarrow> Q k)"
  have "?P (reach_succs fn cur (r, work))"
    unfolding reach_succs_def
  proof (rule fold_invariant [where P = ?P])
    fix sid and a :: "bool list \<times> block_id list"
    assume sid: "sid \<in> set (bl_succs cur)" and a: "?P a"
    show "?P (fold (reach_block fn sid) [0..<length (fn_blocks fn)] a)"
    proof (rule fold_invariant [where P = ?P, OF _ a])
      show "?P (reach_block fn sid j b)" if "j \<in> set [0..<length (fn_blocks fn)]" "?P b" for j b
        using that assms(3) [of j] sid by (auto simp: reach_block_def nth_list_update split: prod.splits if_splits)
    qed
  qed (use assms(1,2) in auto)
  then show ?thesis using assms(4,5) by blast
qed

definition succs_marked :: "IronLIR_Func \<Rightarrow> bool list \<Rightarrow> block_id \<Rightarrow> bool" where
  "succs_marked fn r t \<longleftrightarrow> (\<forall>cur sid j. find_block fn t = Some cur \<longrightarrow> sid \<in> set (bl_succs cur) \<longrightarrow> j < length (fn_blocks fn) \<longrightarrow>
    bl_id (fn_blocks fn ! j) = sid \<longrightarrow> r ! j)"

definition reach_inv :: "IronLIR_Func \<Rightarrow> bool list \<Rightarrow> block_id list \<Rightarrow> bool" where
  "reach_inv fn r work \<longleftrightarrow> length r = length (fn_blocks fn) \<and>
    (\<forall>k<length (fn_blocks fn). r ! k \<longrightarrow> reaches fn k \<and> (bl_id (fn_blocks fn ! k) \<in> set work \<or> succs_marked fn r (bl_id (fn_blocks fn ! k)))) \<and>
    (\<forall>t\<in>set work. \<exists>k<length (fn_blocks fn). r ! k \<and> bl_id (fn_blocks fn ! k) = t)"

lemma reach_loop_pop:
  "length r = length (fn_blocks fn) \<Longrightarrow> reach_loop fn r (rest @ [t]) =
    (case find_block fn t of
       None \<Rightarrow> reach_loop fn r rest
     | Some cur \<Rightarrow> (case reach_succs fn cur (r, rest) of (r', work') \<Rightarrow> reach_loop fn r' work'))"
  unfolding reach_loop.simps [of fn r "rest @ [t]"] butlast_snoc last_snoc by simp

lemma succs_marked_mono:
  "succs_marked fn r t \<Longrightarrow> \<forall>k<length (fn_blocks fn). r ! k \<longrightarrow> r' ! k \<Longrightarrow> succs_marked fn r' t"
  unfolding succs_marked_def by blast

text \<open>Popping an identifier and marking its successors keeps the invariant.\<close>

lemma reach_inv_step:
  assumes inv: "reach_inv fn r (rest @ [t])" and cur: "find_block fn t = Some cur" "reach_succs fn cur (r, rest) = (r', rest')"
  shows "reach_inv fn r' rest'" "\<forall>k<length r. r ! k \<longrightarrow> r' ! k"
proof -
  have len: "length r = length (fn_blocks fn)" using inv by (simp add: reach_inv_def)
  have g: "reach_grows fn (r, rest) (r', rest')" "succs_marked fn r' t"
    using reach_succs_marks [of "(r, rest)" fn cur] len cur by (auto simp: succs_marked_def)
  then have stay: "\<forall>k<length (fn_blocks fn). r ! k \<longrightarrow> r' ! k" "length r' = length r" "set rest \<subseteq> set rest'"
    using len by (auto simp: reach_grows_def)
  then show "\<forall>k<length r. r ! k \<longrightarrow> r' ! k" using len by simp
  obtain k0 where k0: "k0 < length (fn_blocks fn)" "r ! k0" "bl_id (fn_blocks fn ! k0) = t" "reaches fn k0"
    using inv by (auto simp: reach_inv_def)
  have "reaches fn k" if "k < length (fn_blocks fn)" "r' ! k" for k
  proof (rule reach_succs_sound [of r fn "reaches fn" cur k rest])
    show "reaches fn j" if "j < length (fn_blocks fn)" "bl_id (fn_blocks fn ! j) \<in> set (bl_succs cur)" for j
      using reaches_succ [OF k0(4)] k0(3) cur(1) that by blast
  qed (use that cur(2) len inv in \<open>auto simp: reach_inv_def\<close>)
  moreover have "bl_id (fn_blocks fn ! k) \<in> set rest' \<or> succs_marked fn r' (bl_id (fn_blocks fn ! k))" if "k < length (fn_blocks fn)" "r' ! k" for k
  proof (cases "r ! k")
    case True
    then have "bl_id (fn_blocks fn ! k) \<in> set (rest @ [t]) \<or> succs_marked fn r (bl_id (fn_blocks fn ! k))"
      using inv that(1) by (simp add: reach_inv_def)
    then show ?thesis using g(2) stay succs_marked_mono [of fn r _ r'] by auto
  next
    case False
    then show ?thesis using g(1) that len by (auto simp: reach_grows_def)
  qed
  moreover have "\<exists>k<length (fn_blocks fn). r' ! k \<and> bl_id (fn_blocks fn ! k) = u" if "u \<in> set rest'" for u
  proof (cases "u \<in> set rest")
    case True
    then obtain k where "k < length (fn_blocks fn)" "r ! k" "bl_id (fn_blocks fn ! k) = u" using inv by (auto simp: reach_inv_def)
    then show ?thesis using stay(1) by blast
  next
    case False
    then show ?thesis using g(1) that len by (auto simp: reach_grows_def)
  qed
  ultimately show "reach_inv fn r' rest'" using stay len by (simp add: reach_inv_def)
qed

lemma reach_loop_inv: "reach_inv fn r work \<Longrightarrow> reach_inv fn (reach_loop fn r work) [] \<and> (\<forall>k<length r. r ! k \<longrightarrow> reach_loop fn r work ! k)"
proof (induction fn r work rule: reach_loop.induct)
  case (1 fn r work)
  have len: "length r = length (fn_blocks fn)" using "1.prems" by (simp add: reach_inv_def)
  show ?case
  proof (cases "work = []")
    case True
    then show ?thesis using "1.prems" by (simp add: reach_loop.simps)
  next
    case False
    then obtain rest t where w: "work = rest @ [t]" by (metis append_butlast_last_id)
    show ?thesis
    proof (cases "find_block fn t")
      case None
      then have "succs_marked fn r t" by (simp add: succs_marked_def)
      then have "reach_inv fn r rest" using "1.prems" w by (auto simp: reach_inv_def)
      then show ?thesis using "1.IH"(1) w None len by (simp add: reach_loop_pop)
    next
      case (Some cur)
      obtain r' rest' where s: "reach_succs fn cur (r, rest) = (r', rest')" by fastforce
      note step = reach_inv_step [OF "1.prems" [unfolded w] Some s]
      have len': "length r' = length r" using step(1) len by (simp add: reach_inv_def)
      have "reach_inv fn (reach_loop fn r' rest') [] \<and> (\<forall>k<length r'. r' ! k \<longrightarrow> reach_loop fn r' rest' ! k)"
        using "1.IH"(2) [of cur r' rest'] w Some s len step(1) by simp
      then show ?thesis using w Some s len len' step(2) by (simp add: reach_loop_pop)
    qed
  qed
qed

lemma verify_reachable_exact:
  assumes "fn_blocks fn \<noteq> []" "k < length (fn_blocks fn)"
  shows "verify_reachable fn ! k \<longleftrightarrow> reaches fn k"
proof -
  let ?r = "(replicate (length (fn_blocks fn)) False)[0 := True]"
  have "reach_inv fn ?r [bl_id (hd (fn_blocks fn))]"
    using assms(1) by (auto simp: reach_inv_def nth_list_update hd_conv_nth reaches_entry split: if_splits)
  then have inv: "reach_inv fn (verify_reachable fn) []" "verify_reachable fn ! 0"
    using reach_loop_inv [of fn ?r] assms(1) by (simp_all add: verify_reachable_def)
  have "reaches fn j \<Longrightarrow> j < length (fn_blocks fn) \<and> verify_reachable fn ! j" for j
  proof (induction rule: reaches.induct)
    case (reaches_succ k cur sid j)
    then have "succs_marked fn (verify_reachable fn) (bl_id (fn_blocks fn ! k))" using inv(1) by (auto simp: reach_inv_def)
    then show ?case using reaches_succ.hyps by (auto simp: succs_marked_def)
  qed (use inv(2) in simp)
  then show ?thesis using inv(1) assms(2) by (auto simp: reach_inv_def)
qed

section \<open>What the verifier accepts\<close>

lemma report_error_count:
  "diag_inv d \<Longrightarrow> diag_inv (report_error al e d) \<and> dl_error_count d \<le> dl_error_count (report_error al e d) \<and>
    (dl_error_count d = 0 \<longrightarrow> dl_error_count (report_error al e d) \<noteq> 0)"
proof -
  assume inv: "diag_inv d"
  obtain cd sp msg where e: "e = (cd, sp, msg)" by (cases e)
  have "\<not> list_ex (diag_same IRON_DIAG_ERROR cd sp (take 255 msg)) (take 1024 (dl_items d))" if "dl_error_count d = 0"
    using inv that by (auto simp: diag_inv_def filter_empty_conv list_ex_iff diag_same_def dest!: in_set_takeD)
  then show ?thesis using diag_emit_inv [OF inv] by (simp add: report_error_def e) (simp add: iron_diag_emit_def Let_def)
qed

lemma report_errors_count:
  "diag_inv d \<Longrightarrow> dl_error_count d \<le> dl_error_count (fold (report_error al) es d) \<and>
    (dl_error_count d = 0 \<longrightarrow> (dl_error_count (fold (report_error al) es d) = 0 \<longleftrightarrow> es = []))"
proof (induction es arbitrary: d)
  case (Cons e es)
  then have "diag_inv (report_error al e d)" using report_error_count by blast
  then show ?case using Cons.IH [of "report_error al e d"] report_error_count [OF Cons.prems, of al e] by auto
qed simp

lemma verify_funcs: "fold (verify_func al m) fns d = fold (report_error al) (concat (map (check_func al m) fns)) d"
  by (induction fns arbitrary: d) (simp_all add: verify_func_def)

lemma verify_clean:
  "dl_error_count (snd (iron_lir_verify al m iron_diaglist_create)) = 0 \<longleftrightarrow> (\<forall>fn\<in>set m. check_func al m fn = [])"
  "fst (iron_lir_verify al m iron_diaglist_create) \<longleftrightarrow> (\<forall>fn\<in>set m. check_func al m fn = [])"
  using report_errors_count [OF diag_create_inv, of al "concat (map (check_func al m) m)"]
  by (simp_all add: iron_lir_verify_def verify_funcs iron_diaglist_create_def)

text \<open>One instruction: its targets exist, it is no placeholder, and its operands are there with the types that are due.\<close>

definition defined_value :: "IronLIR_Func \<Rightarrow> value_id \<Rightarrow> bool" where
  "defined_value fn v \<longleftrightarrow> is_param fn v \<or> table_entry fn v \<noteq> None"

definition returns_ok :: "IronLIR_Func \<Rightarrow> value_id lir_inst \<Rightarrow> bool" where
  "returns_ok fn op \<longleftrightarrow> (\<forall>v is_void. op = CTRL (RETURN v is_void) \<longrightarrow>
    (is_void \<longleftrightarrow> fn_return_type fn = None) \<and>
    (\<forall>d. \<not> is_void \<longrightarrow> v \<noteq> VALUE_INVALID \<longrightarrow> table_entry fn v = Some d \<longrightarrow>
      in_type d = None \<or> iron_type_equals (in_type d) (fn_return_type fn) \<or> is_interface (fn_return_type fn) \<and> is_object (in_type d)))"

definition phi_ok :: "IronLIR_Func \<Rightarrow> IronLIR_Instr \<Rightarrow> bool" where
  "phi_ok fn i \<longleftrightarrow> (\<forall>vs ps v d. in_op i = PHI vs ps \<longrightarrow> in_type i \<noteq> None \<longrightarrow> v \<in> set vs \<longrightarrow> v \<noteq> VALUE_INVALID \<longrightarrow> \<not> is_param fn v \<longrightarrow>
    table_entry fn v = Some d \<longrightarrow> in_type d = None \<or> iron_type_equals (in_type d) (in_type i))"

definition call_ok :: "IronLIR_Module \<Rightarrow> IronLIR_Func \<Rightarrow> value_id lir_inst \<Rightarrow> bool" where
  "call_ok m fn op \<longleftrightarrow> (\<forall>name p args callee. op = HIGH (CALL (Some name) p args) \<longrightarrow> find_func_by_name m name = Some callee \<longrightarrow>
    length args = length (fn_params callee) \<and>
    (\<forall>k d. k < length args \<longrightarrow> args ! k \<noteq> VALUE_INVALID \<longrightarrow> \<not> is_param fn (args ! k) \<longrightarrow> table_entry fn (args ! k) = Some d \<longrightarrow>
      in_type d = None \<or> fn_params callee ! k = None \<or> iron_type_equals (in_type d) (fn_params callee ! k)))"

definition instr_ok :: "IronLIR_Module \<Rightarrow> IronLIR_Func \<Rightarrow> IronLIR_Instr \<Rightarrow> bool" where
  "instr_ok m fn i \<longleftrightarrow>
    (\<forall>c t. in_op i = CTRL c \<longrightarrow> t \<in> set (ctrl_targets c) \<longrightarrow> t \<noteq> BLOCK_INVALID \<and> t \<in> bl_id ` set (fn_blocks fn)) \<and>
    in_op i \<noteq> POISON \<and> (\<forall>v\<in>set (collect_operands (in_op i)). defined_value fn v) \<and>
    returns_ok fn (in_op i) \<and> phi_ok fn i \<and> call_ok m fn (in_op i)"

text \<open>A block ends with its only terminator.\<close>

definition block_ok :: "IronLIR_Module \<Rightarrow> IronLIR_Func \<Rightarrow> IronLIR_Block \<Rightarrow> bool" where
  "block_ok m fn b \<longleftrightarrow>
    (\<exists>pre t. bl_instrs b = pre @ [t] \<and> iron_lir_is_terminator (in_op t) \<and> (\<forall>i\<in>set pre. \<not> iron_lir_is_terminator (in_op i))) \<and>
    (\<forall>i\<in>set (bl_instrs b). instr_ok m fn i)"

definition func_ok :: "malloc_ok \<Rightarrow> IronLIR_Module \<Rightarrow> IronLIR_Func \<Rightarrow> bool" where
  "func_ok al m fn \<longleftrightarrow> fn_is_extern fn \<or> fn_blocks fn \<noteq> [] \<and>
    (\<forall>k<length (fn_blocks fn). reaches fn k \<or> \<not> al (length (fn_blocks fn)) \<longrightarrow> block_ok m fn (fn_blocks fn ! k))"

lemma check_after_clean: "check_after label found is = [] \<longleftrightarrow>
    (if found then is = [] else list_all (\<lambda>i. \<not> iron_lir_is_terminator (in_op i)) (butlast is))"
  by (induction label found "is" rule: check_after.induct) auto

lemma check_ends_clean: "check_terminator fn b = [] \<and> check_after label False (bl_instrs b) = [] \<longleftrightarrow>
    (\<exists>pre t. bl_instrs b = pre @ [t] \<and> iron_lir_is_terminator (in_op t) \<and> (\<forall>i\<in>set pre. \<not> iron_lir_is_terminator (in_op i)))"
  by (cases "bl_instrs b" rule: rev_cases) (auto simp: check_terminator_def check_after_clean list_all_iff Let_def)

lemma check_targets_clean: "check_targets fn i = [] \<longleftrightarrow>
    (\<forall>c t. in_op i = CTRL c \<longrightarrow> t \<in> set (ctrl_targets c) \<longrightarrow> t \<noteq> BLOCK_INVALID \<and> t \<in> bl_id ` set (fn_blocks fn))"
  by (cases "in_op i") (auto simp: check_targets_def filter_empty_conv block_id_valid_def list_ex_iff)

lemma check_poison_clean: "check_poison b i = [] \<longleftrightarrow> in_op i \<noteq> POISON"
  by (cases "in_op i") (auto simp: check_poison_def)

lemma check_operands_clean: "check_operands fn i = [] \<longleftrightarrow> (\<forall>v\<in>set (collect_operands (in_op i)). defined_value fn v)"
  by (auto simp: check_operands_def filter_empty_conv defined_value_def)

lemma check_returns_clean: "check_returns fn i = [] \<longleftrightarrow> returns_ok fn (in_op i)"
proof (cases "\<exists>v is_void. in_op i = CTRL (RETURN v is_void)")
  case True
  then obtain v is_void where r: "in_op i = CTRL (RETURN v is_void)" by blast
  show ?thesis
    by (cases "fn_return_type fn"; cases is_void; cases "table_entry fn v")
      (auto simp: check_returns_def returns_ok_def r return_mismatch_def type_differs_def)
next
  case False
  then show ?thesis by (auto simp: check_returns_def returns_ok_def split: lir_inst.splits ctrl_inst.splits)
qed

lemma check_phis_clean: "check_phis fn b i = [] \<longleftrightarrow> phi_ok fn i"
  by (cases "in_op i") (auto simp: check_phis_def phi_ok_def filter_empty_conv type_differs_def split: option.splits)

lemma check_calls_clean: "check_calls m fn i = [] \<longleftrightarrow> call_ok m fn (in_op i)"
proof (cases "\<exists>name p args callee. in_op i = HIGH (CALL (Some name) p args) \<and> find_func_by_name m name = Some callee")
  case True
  then obtain name p args callee where c: "in_op i = HIGH (CALL (Some name) p args)" "find_func_by_name m name = Some callee" by blast
  have "\<not> arg_mismatch fn callee args k \<longleftrightarrow> (\<forall>d. args ! k \<noteq> VALUE_INVALID \<longrightarrow> \<not> is_param fn (args ! k) \<longrightarrow> table_entry fn (args ! k) = Some d \<longrightarrow>
      in_type d = None \<or> fn_params callee ! k = None \<or> iron_type_equals (in_type d) (fn_params callee ! k))" for k
    by (auto simp: arg_mismatch_def type_differs_def split: option.split)
  then show ?thesis by (simp add: check_calls_def call_ok_def c filter_empty_conv Ball_def)
next
  case False
  then show ?thesis by (auto simp: check_calls_def call_ok_def split: lir_inst.splits high_inst.splits option.splits)
qed

lemma check_block_clean: "check_block m fn b = [] \<longleftrightarrow> block_ok m fn b"
  unfolding block_ok_def instr_ok_def check_ends_clean [of fn b "bl_label b", symmetric] check_targets_clean [symmetric]
    check_poison_clean [of b, symmetric] check_operands_clean [symmetric] check_returns_clean [symmetric]
    check_phis_clean [of fn b, symmetric] check_calls_clean [symmetric]
  by (auto simp: check_block_def)

lemma check_func_clean: "check_func al m fn = [] \<longleftrightarrow> func_ok al m fn"
proof -
  have none: "concat (map f xs) = [] \<longleftrightarrow> (\<forall>x\<in>set xs. f x = [])" for f :: "nat \<Rightarrow> lir_error list" and xs by auto
  show ?thesis
    using verify_reachable_exact [of fn] unfolding check_func_def func_ok_def none check_block_clean [symmetric] by auto
qed

text \<open>C38: The verifier accepts a module, starting from an empty list of diagnostics, exactly when every function that has a body has a
  block, and every block reachable from the first one through the lists of successors ends with its only terminator, jumps to blocks
  that exist, has no placeholder left by a failed lowering, and its instructions have the operands and types that are due: as many operands as
  the verifier's buffer holds are defined, values that are returned, joined or passed to a function of the module have the type
  expected of them, and calls the number of arguments. Without memory for the table of reachable blocks every block is held to that.\<close>

theorem verify_exact: "fst (iron_lir_verify al m iron_diaglist_create) \<longleftrightarrow> list_all (func_ok al m) m"
  by (simp add: verify_clean(2) check_func_clean list_all_iff)

section \<open>Control stays within a verified function\<close>

definition succs_listed :: "IronLIR_Func \<Rightarrow> bool" where
  "succs_listed fn \<longleftrightarrow> list_all (\<lambda>b. list_all (\<lambda>i. case in_op i of
      CTRL c \<Rightarrow> set (ctrl_targets c) \<subseteq> set (bl_succs b) | _ \<Rightarrow> True) (bl_instrs b)) (fn_blocks fn)"

definition no_phis :: "IronLIR_Func \<Rightarrow> bool" where
  "no_phis fn \<longleftrightarrow> list_all (\<lambda>i. case in_op i of PHI vs ps \<Rightarrow> False | _ \<Rightarrow> True) (func_instrs fn)"

lemma step_not_lost: "\<forall>vs ps. in_op i \<noteq> PHI vs ps \<Longrightarrow> step_instr S fn prev entry i vals w \<noteq> Inr (Lost w')"
  by (simp add: step_instr_other split: option.split prod.split)

text \<open>A block that ends with its only terminator leaves through it.\<close>

lemma exec_block_leaves:
  assumes "iron_lir_is_terminator (in_op t)" "\<forall>i\<in>set pre. \<not> iron_lir_is_terminator (in_op i)" "\<forall>i\<in>set pre. \<forall>vs ps. in_op i \<noteq> PHI vs ps"
  shows "exec_block S fn prev entry (pre @ [t]) vals w \<noteq> Inr (Lost w') \<and>
    (\<forall>b v w1. exec_block S fn prev entry (pre @ [t]) vals w = Inl (b, v, w1) \<longrightarrow> (\<exists>c. in_op t = CTRL c \<and> b \<in> set (ctrl_targets c)))"
  using assms(2,3)
proof (induction pre arbitrary: vals w)
  case Nil
  obtain c where c: "in_op t = CTRL c" using assms(1) by (auto simp: iron_lir_is_terminator_def split: lir_inst.splits)
  moreover have "exec_ctrl c vals w \<noteq> Inr (Lost w')" by (cases c) auto
  ultimately show ?case by (auto simp: exec_block_ctrl [OF c] split: sum.splits dest: exec_ctrl_target)
next
  case (Cons i pre)
  have nc: "\<And>c. in_op i \<noteq> CTRL c" using Cons.prems(1) by (auto simp: iron_lir_is_terminator_def)
  show ?case using Cons step_not_lost [of i S fn prev entry vals w w'] by (auto simp: exec_block_other [OF nc] split: sum.splits prod.splits)
qed

lemma run_not_lost:
  assumes ok: "func_ok al m fn" "\<not> fn_is_extern fn" "succs_listed fn" "no_phis fn"
  shows "reaches fn k \<Longrightarrow> find_block fn (bl_id (fn_blocks fn ! k)) = Some (fn_blocks fn ! k) \<Longrightarrow> k < length (fn_blocks fn) \<Longrightarrow>
    run_blocks n S fn prev (fn_blocks fn ! k) vals w \<noteq> Some (Lost w')"
proof (induction n arbitrary: k prev vals w)
  case (Suc n)
  let ?b = "fn_blocks fn ! k"
  have b: "?b \<in> set (fn_blocks fn)" using Suc.prems(3) by simp
  obtain pre t where t: "bl_instrs ?b = pre @ [t]" "iron_lir_is_terminator (in_op t)" "\<forall>i\<in>set pre. \<not> iron_lir_is_terminator (in_op i)"
    and t_ok: "instr_ok m fn t"
    using ok(1,2) Suc.prems by (auto simp: func_ok_def block_ok_def)
  have "\<forall>i\<in>set pre. \<forall>vs ps. in_op i \<noteq> PHI vs ps" using ok(4) b t(1) by (fastforce simp: no_phis_def list_all_iff func_instrs_def)
  note leaves = exec_block_leaves [OF t(2,3) this, of S fn prev vals vals w w', folded t(1)]
  show ?case
  proof (cases "exec_block S fn prev vals (bl_instrs ?b) vals w")
    case (Inl tvw)
    obtain j v w1 where e: "exec_block S fn prev vals (bl_instrs ?b) vals w = Inl (j, v, w1)" using Inl by (cases tvw) auto
    then obtain c where c: "in_op t = CTRL c" "j \<in> set (ctrl_targets c)" using leaves by blast
    then have "j \<in> bl_id ` set (fn_blocks fn)" using t_ok by (simp add: instr_ok_def)
    then obtain b' where b': "find_block fn j = Some b'" by (cases "find_block fn j") (auto simp: find_block_def find_None_iff)
    then obtain k' where k': "k' < length (fn_blocks fn)" "fn_blocks fn ! k' = b'" "bl_id b' = j"
      by (auto simp: find_block_def find_Some_iff)
    have "j \<in> set (bl_succs ?b)" using ok(3) b c t(1) by (fastforce simp: succs_listed_def list_all_iff)
    then have "reaches fn k'" using reaches_succ [OF Suc.prems(1,2)] k' by blast
    then show ?thesis using Suc.IH [of k' "bl_id ?b" v w1] k' b' e by simp
  qed (use leaves in auto)
qed simp

text \<open>C39: Control never leaves a function the verifier accepted, once joins are gone and every target of a terminator is in its block's
  list of successors: whatever the meaning of memory, calls and the rest, from every state and for every number of
  blocks, a run does not come to the end of a block without a terminator nor jump to a block that is not there.\<close>

theorem verified_never_lost:
  fixes S :: "'w lir_sem"
  assumes "fst (iron_lir_verify al m iron_diaglist_create)" "fn \<in> set m" "\<not> fn_is_extern fn" "succs_listed fn" "no_phis fn"
  shows "run_func n S fn vals w \<noteq> Some (Lost w')"
proof -
  have ok: "func_ok al m fn" using assms(1,2) by (simp add: verify_clean(2) check_func_clean)
  then obtain b bs where b: "fn_blocks fn = b # bs" using assms(3) by (cases "fn_blocks fn") (auto simp: func_ok_def)
  then show ?thesis
    using run_not_lost [OF ok assms(3-5), of 0 n S 0 vals w w'] reaches_entry [of fn] by (simp add: run_func_def find_block_def)
qed

section \<open>Removing dead instructions keeps a module verified\<close>

definition dce_one :: "IronLIR_Func \<Rightarrow> IronLIR_Func" where
  "dce_one fn = (if dce_skips fn then fn else dce_func fn)"

lemma run_dce_map: "snd (run_dce m) = map dce_one m"
  by (simp add: run_dce_def dce_one_def)

lemma dce_header [simp]:
  "fn_return_type (dce_func fn) = fn_return_type fn" "fn_name (dce_func fn) = fn_name fn" "fn_is_extern (dce_func fn) = fn_is_extern fn"
  by (simp_all add: dce_func_def Let_def)

lemma dce_one_header: "fn_name (dce_one fn) = fn_name fn" "fn_params (dce_one fn) = fn_params fn"
  by (simp_all add: dce_one_def)

lemma dce_find_func: "find_func_by_name (map dce_one m) name = map_option dce_one (find_func_by_name m name)"
  by (induction m) (simp_all add: find_func_by_name_def dce_one_header)

lemma dce_reaches: "reaches (dce_func fn) k \<Longrightarrow> k < length (fn_blocks fn) \<and> reaches fn k"
proof (induction rule: reaches.induct)
  case reaches_entry
  then show ?case by (simp add: dce_blocks reaches.reaches_entry)
next
  case (reaches_succ k cur sid j)
  then obtain cur' where "find_block fn (bl_id (fn_blocks fn ! k)) = Some cur'" "cur = kept_block fn cur'"
    by (auto simp: dce_find_block dce_blocks kept_block_def)
  then show ?case using reaches_succ reaches.reaches_succ [of fn k cur' sid j] by (simp add: dce_blocks kept_block_def)
qed

lemma dce_table_some: "table_entry (dce_func fn) v = Some d \<Longrightarrow> table_entry fn v = Some d"
  by (simp add: dce_table split: if_splits)

lemma dce_instr_ok:
  assumes "table_ok fn" "i \<in> set (func_instrs fn)" "dce_keeps (dce_live fn) i" "instr_ok m fn i"
  shows "instr_ok (map dce_one m) (dce_func fn) i"
proof -
  have same: "table_entry (dce_func fn) v = table_entry fn v" if "v \<in> set (collect_operands (in_op i))" for v
    using kept_operands_live [OF assms(1-3)] collect_subset [of "in_op i"] that by (intro dce_value_type) blast
  have "bl_id ` set (fn_blocks (dce_func fn)) = bl_id ` set (fn_blocks fn)" by (simp add: dce_blocks kept_block_def image_image)
  moreover have "returns_ok (dce_func fn) (in_op i)"
    using assms(4) dce_table_some [of fn] unfolding instr_ok_def returns_ok_def dce_header by blast
  moreover have "phi_ok (dce_func fn) i"
    using assms(4) dce_table_some [of fn] unfolding instr_ok_def phi_ok_def is_param_def dce_params by blast
  moreover have "call_ok (map dce_one m) (dce_func fn) (in_op i)"
    unfolding call_ok_def
  proof (intro allI impI)
    fix name p args callee
    assume c: "in_op i = HIGH (CALL (Some name) p args)" "find_func_by_name (map dce_one m) name = Some callee"
    then obtain callee' where c': "find_func_by_name m name = Some callee'" "fn_params callee = fn_params callee'"
      by (auto simp: dce_find_func dce_one_header)
    have "call_ok m fn (in_op i)" using assms(4) by (simp add: instr_ok_def)
    note call = this [unfolded call_ok_def, rule_format, OF c(1) c'(1)]
    show "length args = length (fn_params callee) \<and> (\<forall>k d. k < length args \<longrightarrow> args ! k \<noteq> 0 \<longrightarrow> \<not> is_param (dce_func fn) (args ! k) \<longrightarrow>
        table_entry (dce_func fn) (args ! k) = Some d \<longrightarrow>
        in_type d = None \<or> fn_params callee ! k = None \<or> iron_type_equals (in_type d) (fn_params callee ! k))"
      using call c'(2) dce_table_some [of fn] unfolding is_param_def dce_params by simp
  qed
  ultimately show ?thesis
    using assms(4) same unfolding instr_ok_def defined_value_def is_param_def dce_params by simp
qed

lemma dce_func_ok:
  assumes "table_ok fn" "func_ok al m fn"
  shows "func_ok al (map dce_one m) (dce_one fn)"
proof (cases "dce_skips fn")
  case True
  then show ?thesis using assms(2) by (auto simp: dce_one_def dce_skips_def func_ok_def)
next
  case False
  have "block_ok (map dce_one m) (dce_func fn) (kept_block fn b)" if b_ok: "block_ok m fn b" and b: "b \<in> set (fn_blocks fn)" for b
  proof -
    obtain pre t where t: "bl_instrs b = pre @ [t]" "iron_lir_is_terminator (in_op t)" "\<forall>i\<in>set pre. \<not> iron_lir_is_terminator (in_op i)"
      using b_ok unfolding block_ok_def by blast
    then have "dce_keeps (dce_live fn) t"
      by (auto simp: dce_keeps_def must_stay_def iron_lir_is_terminator_def split: lir_inst.splits)
    then have "bl_instrs (kept_block fn b) = filter (dce_keeps (dce_live fn)) pre @ [t]" by (simp add: kept_block_def t(1))
    moreover have "\<forall>i\<in>set (bl_instrs (kept_block fn b)). instr_ok (map dce_one m) (dce_func fn) i"
      using b_ok dce_instr_ok [OF assms(1)] block_instrs [OF b] by (auto simp: block_ok_def kept_block_def)
    ultimately show ?thesis using t(2,3) unfolding block_ok_def by (intro conjI exI [of _ "filter _ pre"] exI [of _ t]) auto
  qed
  then show ?thesis using assms(2) False dce_reaches [of fn] by (auto simp: func_ok_def dce_one_def dce_skips_def dce_blocks)
qed

text \<open>C32: Removing dead instructions never makes a verified module invalid: when the tables of values are true (every instruction stands
  under its identifier and no two share one) and the module entered
  the optimiser without verifier errors, the verifier accepts what the pass leaves and the gate behind the pass lets the compiler go on.\<close>

theorem dce_keeps_verified:
  assumes "list_all table_ok m" "optimize_verify_error_count al m = 0"
  shows "fst (iron_lir_verify al (snd (run_dce m)) iron_diaglist_create) \<and> optimize_verify_or_die al (snd (run_dce m)) 0 = None"
proof -
  have "\<forall>fn\<in>set m. func_ok al m fn"
    using assms(2) by (simp add: optimize_verify_error_count_def verify_clean(1) check_func_clean)
  then have "\<forall>fn\<in>set (snd (run_dce m)). check_func al (snd (run_dce m)) fn = []"
    using assms(1) dce_func_ok by (auto simp: run_dce_map check_func_clean list_all_iff)
  then show ?thesis by (simp add: verify_clean optimize_verify_or_die_def Let_def)
qed

section \<open>Examples\<close>

definition plenty :: malloc_ok where
  "plenty n \<longleftrightarrow> True"

theorem verified_never_lost_witness:
  "\<forall>n vals w w'. run_func n S0 dead_quotient vals w \<noteq> Some (Lost w')"
proof (intro allI)
  have "fst (iron_lir_verify plenty [dead_quotient] iron_diaglist_create)" "\<not> fn_is_extern dead_quotient" "succs_listed dead_quotient"
    "no_phis dead_quotient"
    by code_simp+
  then show "run_func n S0 dead_quotient vals w \<noteq> Some (Lost w')" for n vals w w'
    using verified_never_lost [of plenty "[dead_quotient]" dead_quotient n S0 vals w w'] by simp
qed

theorem dce_keeps_verified_witness:
  "length (func_instrs (hd (snd (run_dce [dead_quotient])))) = 3 \<and>
    fst (iron_lir_verify plenty (snd (run_dce [dead_quotient])) iron_diaglist_create)"
proof -
  have "list_all table_ok [dead_quotient]" "optimize_verify_error_count plenty [dead_quotient] = 0" by code_simp+
  moreover have "length (func_instrs (hd (snd (run_dce [dead_quotient])))) = 3" by code_simp
  ultimately show ?thesis using dce_keeps_verified [of "[dead_quotient]" plenty] by simp
qed

text \<open>A call with one argument more than the buffers hold, and a slice whose value nobody reads.\<close>

definition wide_call :: IronLIR_Func where
  "wide_call = example_func
    [int_instr 1 (CONSTANT (CONST_INT 5)), int_instr 2 (CONSTANT (CONST_INT 7)),
     int_instr 3 (HIGH (CALL (Some ''g'') 0 (replicate 64 1 @ [2]))), int_instr 0 (CTRL (RETURN 3 False))] 4"

definition unread_slice :: IronLIR_Func where
  "unread_slice = example_func
    [int_instr 1 (CONSTANT (CONST_INT 0)), int_instr 2 (CONSTANT (CONST_INT 9)),
     int_instr 3 (HIGH (SLICE 1 1 2)), int_instr 0 (CTRL (RETURN 1 False))] 4"

text \<open>A runtime in which a call returns its last argument and no slice is within its bounds.\<close>

definition S1 :: "unit lir_sem" where
  "S1 = \<lparr>sem_effect = (\<lambda>ty op w. (w, case op of HIGH (CALL f p args) \<Rightarrow> last args | _ \<Rightarrow> Some 0)), sem_pure = (\<lambda>ty op w. 0),
     sem_in_bounds = (\<lambda>op w. False)\<rparr>"

text \<open>Where the pass goes wrong. Both examples pass the verifier before and after it. The argument of a call that stands past the 64 operands
  the collector holds loses its definition, so that the call receives another value than before; and a slice out of
  bounds whose value is not read no longer stops the program.\<close>

theorem dce_limits:
  "fst (iron_lir_verify plenty [wide_call, unread_slice] iron_diaglist_create) \<and>
   fst (iron_lir_verify plenty (snd (run_dce [wide_call, unread_slice])) iron_diaglist_create) \<and>
   map in_id (func_instrs (dce_func wide_call)) = [1, 3, 0] \<and>
   run_func 1 S1 wide_call (\<lambda>v. 0) () = Some (Returned (Some 7) ()) \<and>
   run_func 1 S1 (dce_func wide_call) (\<lambda>v. 0) () = Some (Returned (Some 0) ()) \<and>
   run_func 1 S1 unread_slice (\<lambda>v. 0) () = Some (Panicked ()) \<and>
   run_func 1 S1 (dce_func unread_slice) (\<lambda>v. 0) () = Some (Returned (Some 0) ())"
  by (intro conjI; code_simp)

end
