(* ===== verification/Lir_Fold.thy ===== *)
theory Lir_Fold
  imports Lir_Dce
begin

text \<open>
  Constant folding (src/lir/lir\_optimize.c, run\_constant\_folding): arithmetic and comparisons of two integer constants become constants, at the
  width of their type, in one walk over the instructions that sees the constants it made. The pass preserves every run of a
  function in which operands are computed before they are read and constants have integer types.
\<close>

section \<open>The code\<close>

definition is_arithmetic_binop :: "binop_kind \<Rightarrow> bool" where
  "is_arithmetic_binop k \<longleftrightarrow> k = ADD \<or> k = SUB \<or> k = MUL \<or> k = DIV \<or> k = MOD"

definition is_comparison_binop :: "binop_kind \<Rightarrow> bool" where
  "is_comparison_binop k \<longleftrightarrow> k = EQ \<or> k = NEQ \<or> k = LT \<or> k = LTE \<or> k = GT \<or> k = GTE"

definition fold_type_is_unsigned64 :: "Iron_Type option \<Rightarrow> bool" where
  "fold_type_is_unsigned64 t \<longleftrightarrow> t = Some (Prim IRON_TYPE_UINT64) \<or> t = Some (Prim IRON_TYPE_UINT)"

text \<open>A cast to a narrower type and back extends by the sign of the type.\<close>

definition fold_wrap_to_type :: "u64 \<Rightarrow> Iron_Type option \<Rightarrow> u64" where
  "fold_wrap_to_type v t = (case t of
      Some (Prim IRON_TYPE_INT8) \<Rightarrow> signed_take_bit 7 v
    | Some (Prim IRON_TYPE_INT16) \<Rightarrow> signed_take_bit 15 v
    | Some (Prim IRON_TYPE_INT32) \<Rightarrow> signed_take_bit 31 v
    | Some (Prim IRON_TYPE_UINT8) \<Rightarrow> take_bit 8 v
    | Some (Prim IRON_TYPE_UINT16) \<Rightarrow> take_bit 16 v
    | Some (Prim IRON_TYPE_UINT32) \<Rightarrow> take_bit 32 v
    | _ \<Rightarrow> v)"

abbreviation (input) INT64_MIN :: u64 where "INT64_MIN \<equiv> 0x8000000000000000"

definition fold_arith :: "bool \<Rightarrow> binop_kind \<Rightarrow> u64 \<Rightarrow> u64 \<Rightarrow> u64 option" where
  "fold_arith uns k L R = (case k of
      ADD \<Rightarrow> Some (L + R)
    | SUB \<Rightarrow> Some (L - R)
    | MUL \<Rightarrow> Some (L * R)
    | DIV \<Rightarrow>
        if R = 0 then None
        else if uns then Some (L div R)
        else if L = INT64_MIN \<and> R = - 1 then Some INT64_MIN
        else Some (word_of_int (sint L sdiv sint R))
    | MOD \<Rightarrow>
        if R = 0 then None
        else if uns then Some (L mod R)
        else if R = - 1 then Some 0
        else Some (word_of_int (sint L smod sint R))
    | _ \<Rightarrow> None)"

definition fold_compare :: "bool \<Rightarrow> binop_kind \<Rightarrow> u64 \<Rightarrow> u64 \<Rightarrow> bool" where
  "fold_compare uns k L R = (case k of
      EQ \<Rightarrow> L = R
    | NEQ \<Rightarrow> L \<noteq> R
    | LT \<Rightarrow> if uns then L < R else sint L < sint R
    | LTE \<Rightarrow> if uns then L \<le> R else sint L \<le> sint R
    | GT \<Rightarrow> if uns then L > R else sint L > sint R
    | GTE \<Rightarrow> if uns then L \<ge> R else sint L \<ge> sint R
    | _ \<Rightarrow> False)"

text \<open>The integer constant that defines a value, with its type.\<close>

definition int_def :: "IronLIR_Func \<Rightarrow> value_id \<Rightarrow> (u64 \<times> Iron_Type option) option" where
  "int_def fn v = (if v = VALUE_INVALID then None else case table_entry fn v of
      Some d \<Rightarrow> (case in_op d of CONSTANT (CONST_INT c) \<Rightarrow> Some (c, in_type d) | _ \<Rightarrow> None)
    | None \<Rightarrow> None)"

definition fold_op :: "IronLIR_Func \<Rightarrow> IronLIR_Instr \<Rightarrow> value_id lir_inst option" where
  "fold_op fn i = (case in_op i of
      BINOP k l r \<Rightarrow> (case (int_def fn l, int_def fn r) of
        (Some (L, lt), Some (R, rt)) \<Rightarrow>
          if is_arithmetic_binop k then
            map_option (\<lambda>x. CONSTANT (CONST_INT (fold_wrap_to_type x (in_type i)))) (fold_arith (fold_type_is_unsigned64 (in_type i)) k L R)
          else if is_comparison_binop k then
            Some (CONSTANT (CONST_BOOL (fold_compare (fold_type_is_unsigned64 lt \<or> fold_type_is_unsigned64 rt) k
              (fold_wrap_to_type L lt) (fold_wrap_to_type R rt))))
          else None
      | _ \<Rightarrow> None)
    | _ \<Rightarrow> None)"

text \<open>The instruction changes in place, so its entry in the table of values changes with it.\<close>

definition set_instr :: "nat \<Rightarrow> nat \<Rightarrow> IronLIR_Instr \<Rightarrow> IronLIR_Func \<Rightarrow> IronLIR_Func" where
  "set_instr bi ii i fn = fn\<lparr>
    fn_blocks := (fn_blocks fn)[bi := (fn_blocks fn ! bi)\<lparr>bl_instrs := (bl_instrs (fn_blocks fn ! bi))[ii := i]\<rparr>],
    fn_value_table := (if in_id i = VALUE_INVALID then fn_value_table fn else (fn_value_table fn)[in_id i := Some i])\<rparr>"

definition fold_at :: "nat \<times> nat \<Rightarrow> bool \<times> IronLIR_Func \<Rightarrow> bool \<times> IronLIR_Func" where
  "fold_at pos cf = (case (pos, cf) of ((bi, ii), (changed, fn)) \<Rightarrow>
    let i = bl_instrs (fn_blocks fn ! bi) ! ii in
    case fold_op fn i of
      None \<Rightarrow> (changed, fn)
    | Some op \<Rightarrow> (True, set_instr bi ii (i\<lparr>in_op := op\<rparr>) fn))"

definition positions :: "IronLIR_Func \<Rightarrow> (nat \<times> nat) list" where
  "positions fn = concat (map (\<lambda>bi. map (Pair bi) [0..<length (bl_instrs (fn_blocks fn ! bi))]) [0..<length (fn_blocks fn)])"

definition fold_func :: "IronLIR_Func \<Rightarrow> bool \<times> IronLIR_Func" where
  "fold_func fn = (if fn_is_extern fn \<or> fn_blocks fn = [] then (False, fn) else fold fold_at (positions fn) (False, fn))"

definition run_constant_folding :: "IronLIR_Module \<Rightarrow> bool \<times> IronLIR_Module" where
  "run_constant_folding m = (list_ex (\<lambda>fn. fst (fold_func fn)) m, map (\<lambda>fn. snd (fold_func fn)) m)"

section \<open>Folding computes what the program would\<close>

lemma fold_wrap: "int_kind t = Some k \<Longrightarrow> fold_wrap_to_type v t = wrap_word k v"
proof -
  assume "int_kind t = Some k"
  then have t: "t = Some (Prim k)" "iron_type_is_integer t" by (auto simp: int_kind_def split: if_splits option.splits Iron_Type.splits)
  have "bit (signed_take_bit 63 v) n = bit v n" if "n < 64" for n using that by (cases "n = 63") (simp_all add: bit_signed_take_bit_iff min_def)
  then have "signed_take_bit 63 v = v" by (intro bit_word_eqI) simp
  moreover have "take_bit 64 v = v" by (rule bit_word_eqI) (simp add: bit_simps)
  ultimately show ?thesis using t by (cases k) (simp_all add: fold_wrap_to_type_def wrap_word_def int_unsigned_def iron_type_is_integer_def)
qed

lemma int_kindD: "int_kind t = Some k \<Longrightarrow> t = Some (Prim k)"
  by (auto simp: int_kind_def split: if_splits option.splits Iron_Type.splits)

text \<open>Only the unsigned types of full width need unsigned arithmetic: a narrower value is the same number either way.\<close>

lemma denote_fold:
  assumes "int_kind t = Some k" "wrap_word k w = w"
  shows "denote k w = (if fold_type_is_unsigned64 t then uint w else sint w)"
proof (cases "int_unsigned k \<and> \<not> fold_type_is_unsigned64 t")
  case True
  then have n: "int_width k \<le> 32" using int_kindD [OF assms(1)] by (cases k) (auto simp: int_unsigned_def fold_type_is_unsigned64_def)
  have "take_bit (int_width k) w = w" using True assms(2) by (simp add: wrap_word_def)
  then have "uint w = take_bit (int_width k) (uint w)" by (metis unsigned_take_bit_eq)
  then have "uint w < 2 ^ int_width k" by (metis take_bit_int_less_exp)
  also have "(2::int) ^ int_width k \<le> 2 ^ 32" using n by (intro power_increasing) simp_all
  finally have "sint w = uint w" by (simp add: sint_uint signed_take_bit_int_eq_self_iff order.trans [of _ 0])
  then show ?thesis using True by (simp add: denote_def)
qed (use int_kindD [OF assms(1)] in \<open>auto simp: denote_def fold_type_is_unsigned64_def int_unsigned_def\<close>)

lemma fold_arith_exact:
  assumes "int_kind t = Some k" "wrap_word k L = L" "wrap_word k R = R" "is_arithmetic_binop op"
  shows "map_option (\<lambda>x. fold_wrap_to_type x t) (fold_arith (fold_type_is_unsigned64 t) op L R) = int_binop k op L R"
proof -
  have ring: "word_of_int (denote k L + denote k R) = L + R" "word_of_int (denote k L - denote k R) = L - R" "word_of_int (denote k L * denote k R) = L * R"
    by simp_all
  have min: "word_of_int (sint L sdiv sint R) = INT64_MIN" if "L = INT64_MIN" "R = - 1" using that by (simp add: sdiv_minus_one)
  have m1: "(word_of_int (sint L smod sint R) :: u64) = 0" if "R = - 1" using that by (simp add: sdiv_minus_one)
  have uns: "word_of_int (uint L sdiv uint R) = L div R" "word_of_int (uint L smod uint R) = L mod R"
    by (simp_all add: sdiv_nonneg word_div_def word_mod_def)
  note d = denote_fold [OF assms(1,2)] denote_fold [OF assms(1,3)]
  show ?thesis
    using assms(4) unfolding is_arithmetic_binop_def
    by (elim disjE) (simp_all add: fold_arith_def fold_wrap [OF assms(1)] represent_wrap d min m1 uns sdiv_minus_one)
qed

lemma fold_compare_exact:
  assumes "int_kind t = Some k" "wrap_word k L = L" "wrap_word k R = R" "is_comparison_binop op"
  shows "\<exists>P. compares op = Some P \<and> fold_compare (fold_type_is_unsigned64 t) op L R = P (denote k L) (denote k R)"
  using assms(4) unfolding is_comparison_binop_def denote_fold [OF assms(1,2)] denote_fold [OF assms(1,3)]
  by (elim disjE) (simp_all add: fold_compare_def word_less_def word_le_def word_eq_iff_unsigned word_eq_iff_signed)

section \<open>One fold keeps runs\<close>

text \<open>
  What the pass relies on: besides a true table, terminators at the ends of blocks and constants within their types, operands of binary
  instructions are computed before them on every path, and integer arithmetic and comparisons are of one integer type.
\<close>

definition uses_ok :: "IronLIR_Func \<Rightarrow> bool" where
  "uses_ok fn \<longleftrightarrow> (\<forall>p b pre i post k l r. block_path fn (p @ [b]) \<longrightarrow> bl_instrs b = pre @ i # post \<longrightarrow> in_op i = BINOP k l r \<longrightarrow>
    (\<forall>v\<in>{l, r}. table_entry fn v \<noteq> None \<longrightarrow> v \<in> in_id ` set (concat (map bl_instrs p) @ pre)))"

definition int_valued :: "IronLIR_Func \<Rightarrow> value_id \<Rightarrow> bool" where
  "int_valued fn v \<longleftrightarrow> v \<noteq> VALUE_INVALID \<and> (case table_entry fn v of
      Some d \<Rightarrow> (case in_op d of
          CONSTANT (CONST_INT c) \<Rightarrow> True
        | BINOP k l r \<Rightarrow> is_arithmetic_binop k \<and> int_kind (in_type d) \<noteq> None
        | _ \<Rightarrow> False)
    | None \<Rightarrow> False)"

definition binop_typed :: "IronLIR_Func \<Rightarrow> IronLIR_Instr \<Rightarrow> bool" where
  "binop_typed fn i \<longleftrightarrow> (case in_op i of
      BINOP k l r \<Rightarrow> int_valued fn l \<and> int_valued fn r \<longrightarrow> int_kind (value_type fn l) \<noteq> None \<and> value_type fn l = value_type fn r \<and>
        (is_arithmetic_binop k \<longrightarrow> in_type i = value_type fn l)
    | _ \<Rightarrow> True)"

definition fold_ready :: "IronLIR_Func \<Rightarrow> bool" where
  "fold_ready fn \<longleftrightarrow> table_ok fn \<and> ctrl_last fn \<and> consts_normal fn \<and> uses_ok fn \<and> list_all (binop_typed fn) (func_instrs fn)"

lemma const_uses: "uses_ok fn \<Longrightarrow> const_uses_ok fn"
  unfolding uses_ok_def const_uses_ok_def using const_ofD by (metis option.distinct(1) option.exhaust)

lemma int_defD:
  "int_def fn v = Some (c, t) \<Longrightarrow> const_of fn v = Some c \<and> int_valued fn v \<and> value_type fn v = t \<and>
    (\<exists>d. table_entry fn v = Some d \<and> in_op d = CONSTANT (CONST_INT c) \<and> in_type d = t)"
  by (auto simp: int_def_def const_of_def int_valued_def value_type_def split: if_splits option.splits lir_inst.splits lir_const.splits)

lemma fold_opD:
  assumes "fold_op fn i = Some op"
  obtains k l r L R lt rt where "in_op i = BINOP k l r" "int_def fn l = Some (L, lt)" "int_def fn r = Some (R, rt)"
    "is_arithmetic_binop k \<and> (\<exists>x. fold_arith (fold_type_is_unsigned64 (in_type i)) k L R = Some x \<and> op = CONSTANT (CONST_INT (fold_wrap_to_type x (in_type i)))) \<or>
     \<not> is_arithmetic_binop k \<and> is_comparison_binop k \<and> op = CONSTANT (CONST_BOOL (fold_compare (fold_type_is_unsigned64 lt \<or> fold_type_is_unsigned64 rt) k
              (fold_wrap_to_type L lt) (fold_wrap_to_type R rt)))"
  using assms by (auto simp: fold_op_def split: lir_inst.splits option.splits if_splits)

lemma const_wrapped:
  assumes "consts_normal fn" "int_def fn v = Some (c, t)" "int_kind t = Some k"
  shows "wrap_word k c = c"
proof -
  obtain d where d: "table_entry fn v = Some d" "in_op d = CONSTANT (CONST_INT c)" "in_type d = t" using int_defD [OF assms(2)] by blast
  then show ?thesis using const_normalD [OF assms(1) d(1,2)] assms(3) by (simp add: const_word_def)
qed

text \<open>Where the constants hold, the instruction and what it folds to compute the same value.\<close>

lemma fold_step:
  assumes normal: "consts_normal fn" and typed: "binop_typed fn i" and op: "fold_op fn i = Some op"
    and vals: "\<And>k l r v c. in_op i = BINOP k l r \<Longrightarrow> v = l \<or> v = r \<Longrightarrow> const_of fn v = Some c \<Longrightarrow> vals v = c"
  shows "step_instr S fn' prev entry (i\<lparr>in_op := op\<rparr>) vals w = step_instr S fn prev entry i vals w"
proof -
  obtain k l r L R lt rt where i: "in_op i = BINOP k l r" "int_def fn l = Some (L, lt)" "int_def fn r = Some (R, rt)"
    and cs: "is_arithmetic_binop k \<and> (\<exists>x. fold_arith (fold_type_is_unsigned64 (in_type i)) k L R = Some x \<and> op = CONSTANT (CONST_INT (fold_wrap_to_type x (in_type i)))) \<or>
     \<not> is_arithmetic_binop k \<and> is_comparison_binop k \<and> op = CONSTANT (CONST_BOOL (fold_compare (fold_type_is_unsigned64 lt \<or> fold_type_is_unsigned64 rt) k
              (fold_wrap_to_type L lt) (fold_wrap_to_type R rt)))"
    by (rule fold_opD [OF op])
  note L = int_defD [OF i(2)] and R = int_defD [OF i(3)]
  have t: "lt = rt" "value_type fn l = lt" "value_type fn r = lt" "int_kind lt \<noteq> None" "is_arithmetic_binop k \<longrightarrow> in_type i = lt"
    using typed i(1) L R by (auto simp: binop_typed_def)
  then obtain z where z: "int_kind lt = Some z" by blast
  have v: "vals l = L" "vals r = R" using vals [OF i(1)] L R by blast+
  have wrap: "wrap_word z L = L" "wrap_word z R = R" using const_wrapped [OF normal i(2) z] const_wrapped [OF normal i(3)] z t(1) by simp_all
  have "eval_binop S fn i k l r vals w = eval_pure S fn' (i\<lparr>in_op := op\<rparr>) vals w"
    using cs
  proof (elim disjE conjE exE)
    fix x
    assume a: "is_arithmetic_binop k" "fold_arith (fold_type_is_unsigned64 (in_type i)) k L R = Some x" "op = CONSTANT (CONST_INT (fold_wrap_to_type x (in_type i)))"
    have "int_binop z k L R = Some (wrap_word z x)"
      using fold_arith_exact [OF z wrap a(1)] a(1,2) t(5) fold_wrap [OF z] by auto
    moreover have "compares k = None" "k \<notin> {SHL, SHR, LAND, LOR}" using a(1) by (auto simp: is_arithmetic_binop_def)
    ultimately show ?thesis
      using a t(5) z v fold_wrap [OF z] by (simp add: eval_binop_def eval_pure_def Let_def const_word_def)
  next
    assume c: "is_comparison_binop k" "op = CONSTANT (CONST_BOOL (fold_compare (fold_type_is_unsigned64 lt \<or> fold_type_is_unsigned64 rt) k
              (fold_wrap_to_type L lt) (fold_wrap_to_type R rt)))"
    obtain P where "compares k = Some P" "fold_compare (fold_type_is_unsigned64 lt) k L R = P (denote z L) (denote z R)"
      using fold_compare_exact [OF z wrap c(1)] by blast
    then show ?thesis using c t z v wrap fold_wrap [OF z] by (simp add: eval_binop_def eval_pure_def Let_def)
  qed
  then have "eval_pure S fn' (i\<lparr>in_op := op\<rparr>) vals w = eval_pure S fn i vals w" using i(1) by (simp add: eval_pure_def Let_def)
  moreover have "reads_only op" "\<And>vs ps. op \<noteq> PHI vs ps" using cs by auto
  ultimately show ?thesis using i(1) by (simp add: step_instr_other)
qed

definition folds_to :: "IronLIR_Func \<Rightarrow> IronLIR_Instr \<Rightarrow> IronLIR_Instr \<Rightarrow> bool" where
  "folds_to fn i i' \<longleftrightarrow> i' = i \<or> (\<exists>op. fold_op fn i = Some op \<and> i' = i\<lparr>in_op := op\<rparr>)"

definition block_folds :: "IronLIR_Func \<Rightarrow> IronLIR_Block \<Rightarrow> IronLIR_Block \<Rightarrow> bool" where
  "block_folds fn b b' \<longleftrightarrow> bl_id b' = bl_id b \<and> bl_succs b' = bl_succs b \<and> list_all2 (folds_to fn) (bl_instrs b) (bl_instrs b')"

lemma fold_op_ctrl: "fold_op fn i = Some op \<Longrightarrow> in_op i \<noteq> CTRL c \<and> op \<noteq> CTRL c"
  by (erule fold_opD) auto

lemma folds_same: "folds_to fn i i' \<Longrightarrow> in_id i' = in_id i \<and> in_type i' = in_type i \<and> (in_op i = CTRL c \<longleftrightarrow> in_op i' = CTRL c)"
  using fold_op_ctrl [of fn i] by (auto simp: folds_to_def)

lemma folds_terminator: "folds_to fn i i' \<Longrightarrow> iron_lir_is_terminator (in_op i') \<longleftrightarrow> iron_lir_is_terminator (in_op i)"
proof -
  have "iron_lir_is_terminator op \<longleftrightarrow> (\<exists>c. op = CTRL c)" for op :: "value_id lir_inst" by (cases op) (simp_all add: iron_lir_is_terminator_def)
  then show "folds_to fn i i' \<Longrightarrow> ?thesis" using folds_same by blast
qed

lemma exec_block_fold:
  assumes ready: "fold_ready fn" and b: "block_path fn (p @ [b])" "b \<in> set (fn_blocks fn)"
    and vt: "\<And>v. value_type fn' v = value_type fn v"
  shows "bl_instrs b = pre @ rest \<Longrightarrow> consts_hold fn (in_id ` set (concat (map bl_instrs p)) \<union> in_id ` set pre) vals \<Longrightarrow>
    list_all2 (folds_to fn) rest rest' \<Longrightarrow> exec_block S fn' prev entry rest' vals w = exec_block S fn prev entry rest vals w"
proof (induction rest arbitrary: pre rest' vals w)
  case (Cons i rest)
  note ok = ready [unfolded fold_ready_def]
  have i: "i \<in> set (func_instrs fn)" using block_instrs [OF b(2)] Cons.prems(1) by simp
  obtain i' is' where i': "rest' = i' # is'" "folds_to fn i i'" "list_all2 (folds_to fn) rest is'"
    using Cons.prems(3) by (auto simp: list_all2_Cons1)
  show ?case
  proof (cases "\<exists>c. in_op i = CTRL c")
    case True
    then obtain c where c: "in_op i = CTRL c" by blast
    then show ?thesis using i'(1) folds_same [OF i'(2), of c] by (simp add: exec_block_ctrl)
  next
    case False
    then have nc: "\<And>c. in_op i \<noteq> CTRL c" "\<And>c. in_op i' \<noteq> CTRL c" using folds_same [OF i'(2)] by blast+
    have step: "step_instr S fn' prev entry i' vals w = step_instr S fn prev entry i vals w"
    proof (cases "i' = i")
      case True
      show ?thesis unfolding True by (rule step_cong) (use nc vt in auto)
    next
      case False
      then obtain op where op: "fold_op fn i = Some op" "i' = i\<lparr>in_op := op\<rparr>" using i'(2) by (auto simp: folds_to_def)
      show ?thesis
        unfolding op(2)
      proof (rule fold_step [OF _ _ op(1)])
        fix k l r v c
        assume "in_op i = BINOP k l r" "v = l \<or> v = r" "const_of fn v = Some c"
        then show "vals v = c" using const_usesD [OF const_uses b(1) Cons.prems(1) _ _ _ Cons.prems(2)] ok by blast
      qed (use ok i in \<open>auto simp: list_all_iff\<close>)
    qed
    have id: "in_id i' = in_id i" using folds_same [OF i'(2)] by blast
    show ?thesis
    proof (cases "step_instr S fn prev entry i vals w")
      case (Inl xw)
      obtain x w1 where x: "step_instr S fn prev entry i vals w = Inl (x, w1)" using Inl by (cases xw) simp
      have "consts_hold fn (in_id ` set (concat (map bl_instrs p)) \<union> in_id ` set (pre @ [i])) (write_id (in_id i) x vals)"
        using consts_hold_write [OF _ _ i x Cons.prems(2)] ok by (simp add: insert_commute)
      then show ?thesis using Cons.IH [of "pre @ [i]" _ is'] Cons.prems(1) i'(1,3) x step id by (simp add: exec_block_other [OF nc(1)] exec_block_other [OF nc(2)])
    qed (use step i'(1) in \<open>simp add: exec_block_other [OF nc(1)] exec_block_other [OF nc(2)]\<close>)
  qed
qed simp

lemma find_block_rel:
  "list_all2 (block_folds fn) bs bs' \<Longrightarrow> rel_option (block_folds fn) (List.find (\<lambda>b. bl_id b = t) bs) (List.find (\<lambda>b. bl_id b = t) bs')"
  by (induction rule: list_all2_induct) (auto simp: block_folds_def)

lemma run_blocks_fold:
  assumes ready: "fold_ready fn" and vt: "\<And>v. value_type fn' v = value_type fn v" and rel: "list_all2 (block_folds fn) (fn_blocks fn) (fn_blocks fn')"
  shows "block_path fn (p @ [b]) \<Longrightarrow> b \<in> set (fn_blocks fn) \<Longrightarrow> consts_hold fn (in_id ` set (concat (map bl_instrs p))) vals \<Longrightarrow>
    block_folds fn b b' \<Longrightarrow> run_blocks n S fn' prev b' vals w = run_blocks n S fn prev b vals w"
proof (induction n arbitrary: p b b' vals w prev)
  case (Suc n)
  note ok = ready [unfolded fold_ready_def]
  have same: "exec_block S fn' prev vals (bl_instrs b') vals w = exec_block S fn prev vals (bl_instrs b) vals w"
    using exec_block_fold [OF ready Suc.prems(1,2) vt, of "[]" "bl_instrs b" vals] Suc.prems(3,4) by (auto simp: block_folds_def)
  show ?case
  proof (cases "exec_block S fn prev vals (bl_instrs b) vals w")
    case (Inl tvw)
    obtain t v w1 where e: "exec_block S fn prev vals (bl_instrs b) vals w = Inl (t, v, w1)" using Inl by (cases tvw) auto
    have c: "consts_hold fn (in_id ` set (concat (map bl_instrs (p @ [b])))) v" and
      j: "\<exists>i\<in>set (bl_instrs b). \<exists>c. in_op i = CTRL c \<and> t \<in> set (ctrl_targets c)"
      using exec_block_consts [OF _ _ _ Suc.prems(2) _ _ e, of "[]" "in_id ` set (concat (map bl_instrs p))"] ok Suc.prems(3)
      by (simp_all add: image_Un)
    have r: "rel_option (block_folds fn) (find_block fn t) (find_block fn' t)" using find_block_rel [OF rel] by (simp add: find_block_def)
    show ?thesis
    proof (cases "find_block fn t")
      case (Some b1)
      then obtain b1' where b1: "find_block fn' t = Some b1'" "block_folds fn b1 b1'" using r by (auto simp: option_rel_Some1)
      have "block_path fn ((p @ [b]) @ [b1])" using path_next [OF Suc.prems(1)] j Some by fastforce
      then have "run_blocks n S fn' (bl_id b) b1' v w1 = run_blocks n S fn (bl_id b) b1 v w1"
        using Suc.IH [OF _ find_block_mem [OF Some] c b1(2)] by blast
      then show ?thesis using e same b1(1) Some Suc.prems(4) by (simp add: block_folds_def)
    qed (use e same r in simp)
  qed (use same in simp)
qed simp

section \<open>One fold keeps what the pass relies on\<close>

definition folds_at :: "IronLIR_Func \<Rightarrow> nat \<Rightarrow> nat \<Rightarrow> IronLIR_Instr \<Rightarrow> value_id lir_inst \<Rightarrow> bool" where
  "folds_at fn bi ii i op \<longleftrightarrow> fold_ready fn \<and> bi < length (fn_blocks fn) \<and> ii < length (bl_instrs (fn_blocks fn ! bi)) \<and>
    bl_instrs (fn_blocks fn ! bi) ! ii = i \<and> fold_op fn i = Some op"

definition folded :: "nat \<Rightarrow> nat \<Rightarrow> IronLIR_Instr \<Rightarrow> value_id lir_inst \<Rightarrow> IronLIR_Func \<Rightarrow> IronLIR_Func" where
  "folded bi ii i op fn = set_instr bi ii (i\<lparr>in_op := op\<rparr>) fn"

lemma folds_at_instr: "folds_at fn bi ii i op \<Longrightarrow> i \<in> set (func_instrs fn)"
  by (rule block_instrs [of "fn_blocks fn ! bi"]) (auto simp: folds_at_def)

lemma folded_table:
  assumes "folds_at fn bi ii i op"
  shows "table_entry (folded bi ii i op fn) v = (if v = in_id i \<and> v \<noteq> 0 then Some (i\<lparr>in_op := op\<rparr>) else table_entry fn v)"
proof -
  have "in_id i \<noteq> 0 \<longrightarrow> table_entry fn (in_id i) = Some i"
    using table_okD [OF _ folds_at_instr [OF assms]] assms by (simp add: folds_at_def fold_ready_def)
  then have "in_id i \<noteq> 0 \<longrightarrow> in_id i < length (fn_value_table fn)" by (auto simp: table_entry_def split: if_splits)
  then show ?thesis by (auto simp: table_entry_def folded_def set_instr_def)
qed

lemma folded_params [simp]: "fn_params (folded bi ii i op fn) = fn_params fn"
  by (simp add: folded_def set_instr_def)

lemma folded_value_type:
  assumes "folds_at fn bi ii i op"
  shows "value_type (folded bi ii i op fn) v = value_type fn v"
  using folded_table [OF assms, of v] table_okD [OF _ folds_at_instr [OF assms]] assms
  by (auto simp: value_type_def folds_at_def fold_ready_def split: option.split)

lemma folded_blocks:
  assumes "folds_at fn bi ii i op"
  shows "list_all2 (block_folds fn) (fn_blocks fn) (fn_blocks (folded bi ii i op fn))"
  using assms
  by (auto simp: list_all2_conv_all_nth folded_def set_instr_def nth_list_update block_folds_def folds_at_def folds_to_def)

lemma concat_update:
  "b < length xss \<Longrightarrow> k < length (xss ! b) \<Longrightarrow>
    concat (xss[b := (xss ! b)[k := x]]) = (concat xss)[length (concat (take b xss)) + k := x]"
proof (induction xss arbitrary: b)
  case (Cons xs xss)
  then show ?case by (cases b) (simp_all add: list_update_append)
qed simp

lemma folded_instrs:
  assumes "folds_at fn bi ii i op"
  obtains q where "q < length (func_instrs fn)" "func_instrs fn ! q = i"
    "func_instrs (folded bi ii i op fn) = (func_instrs fn)[q := i\<lparr>in_op := op\<rparr>]"
proof -
  let ?xss = "map bl_instrs (fn_blocks fn)" and ?q = "length (concat (take bi (map bl_instrs (fn_blocks fn)))) + ii"
  have r: "bi < length ?xss" "ii < length (?xss ! bi)" "?xss ! bi ! ii = i" using assms by (auto simp: folds_at_def)
  have split: "concat ?xss = concat (take bi ?xss) @ (?xss ! bi) @ concat (drop (Suc bi) ?xss)"
    using r(1) by (metis concat.simps(2) concat_append id_take_nth_drop)
  have "?q < length (concat ?xss)" "concat ?xss ! ?q = i"
    unfolding split using r(2,3) by (simp_all add: nth_append)
  moreover have "map bl_instrs (fn_blocks (folded bi ii i op fn)) = ?xss[bi := (?xss ! bi)[ii := i\<lparr>in_op := op\<rparr>]]"
    using r(1) by (simp add: folded_def set_instr_def map_update)
  then have "func_instrs (folded bi ii i op fn) = (concat ?xss)[?q := i\<lparr>in_op := op\<rparr>]"
    using concat_update [OF r(1,2)] by (simp add: func_instrs_def)
  ultimately show ?thesis using that [of ?q] by (simp add: func_instrs_def)
qed

lemma ids_distinct:
  "distinct (filter P (map f xs)) \<Longrightarrow> p < length xs \<Longrightarrow> q < length xs \<Longrightarrow> f (xs ! p) = f (xs ! q) \<Longrightarrow> P (f (xs ! p)) \<Longrightarrow> p = q"
proof (induction xs arbitrary: p q)
  case (Cons x xs)
  have "f (xs ! k) \<noteq> f x" if "k < length xs" "P (f x)" for k
  proof -
    have "f (xs ! k) \<in> f ` set xs" using that(1) by simp
    then show ?thesis using Cons.prems(1) that(2) by auto
  qed
  note head = this
  show ?case
  proof (cases p; cases q)
    fix p' q' assume "p = Suc p'" "q = Suc q'"
    then show ?thesis using Cons by (auto split: if_splits)
  qed (use Cons.prems head in \<open>auto dest: sym\<close>)
qed simp

lemma folded_table_ok:
  assumes "folds_at fn bi ii i op"
  shows "table_ok (folded bi ii i op fn)"
proof -
  have ok: "table_ok fn" using assms by (simp add: folds_at_def fold_ready_def)
  obtain q where q: "q < length (func_instrs fn)" "func_instrs fn ! q = i" "func_instrs (folded bi ii i op fn) = (func_instrs fn)[q := i\<lparr>in_op := op\<rparr>]"
    by (rule folded_instrs [OF assms])
  have "map in_id ((func_instrs fn)[q := i\<lparr>in_op := op\<rparr>]) = map in_id (func_instrs fn)"
    using q(1,2) by (simp add: map_update list_update_same_conv)
  moreover have "table_entry (folded bi ii i op fn) (in_id j) = Some j" if j: "j \<in> set ((func_instrs fn)[q := i\<lparr>in_op := op\<rparr>])" "in_id j \<noteq> 0" for j
  proof -
    obtain p where p: "p < length (func_instrs fn)" "j = (func_instrs fn)[q := i\<lparr>in_op := op\<rparr>] ! p" using j(1) by (auto simp: in_set_conv_nth)
    show ?thesis
    proof (cases "p = q")
      case True
      then show ?thesis using p q j(2) by (simp add: folded_table [OF assms])
    next
      case False
      then have "j = func_instrs fn ! p" using p by simp
      then have "in_id j \<noteq> in_id i" "table_entry fn (in_id j) = Some j"
        using ids_distinct [of "\<lambda>v. v \<noteq> 0" in_id "func_instrs fn" p q] p(1) q(1,2) ok j(2) False table_okD [OF ok] by (auto simp: table_ok_def)
      then show ?thesis by (simp add: folded_table [OF assms])
    qed
  qed
  ultimately show ?thesis using ok unfolding table_ok_def q(3) list_all_iff by simp
qed

lemma list_all_rel: "list_all2 R xs ys \<Longrightarrow> (\<And>x y. R x y \<Longrightarrow> P x \<Longrightarrow> Q y) \<Longrightarrow> list_all P xs \<Longrightarrow> list_all Q ys"
  by (induction rule: list_all2_induct) auto

lemma folded_ctrl_last:
  assumes "folds_at fn bi ii i op"
  shows "ctrl_last (folded bi ii i op fn)"
proof -
  note ends = folds_terminator [of fn]
  have block: "list_all (\<lambda>i. \<not> iron_lir_is_terminator (in_op i)) (butlast (bl_instrs b'))"
    if b: "block_folds fn b b'" "list_all (\<lambda>i. \<not> iron_lir_is_terminator (in_op i)) (butlast (bl_instrs b))" for b b'
  proof (rule list_all_rel [OF _ _ b(2)])
    show "list_all2 (folds_to fn) (butlast (bl_instrs b)) (butlast (bl_instrs b'))"
      using b(1) by (auto simp: block_folds_def list_all2_conv_all_nth nth_butlast)
  qed (use ends in simp)
  have "ctrl_last fn" using assms by (simp add: folds_at_def fold_ready_def)
  note old = this [unfolded ctrl_last_def]
  show ?thesis unfolding ctrl_last_def by (rule list_all_rel [OF folded_blocks [OF assms] block old])
qed

lemma folded_const:
  assumes "folds_at fn bi ii i op"
  shows "int_valued (folded bi ii i op fn) v = int_valued fn v" "op = CONSTANT (CONST_INT c) \<Longrightarrow> const_word (in_type i) c = c"
proof -
  obtain k l r L R lt rt where i: "in_op i = BINOP k l r" "int_def fn l = Some (L, lt)" "int_def fn r = Some (R, rt)"
    and cs: "is_arithmetic_binop k \<and> (\<exists>x. fold_arith (fold_type_is_unsigned64 (in_type i)) k L R = Some x \<and> op = CONSTANT (CONST_INT (fold_wrap_to_type x (in_type i)))) \<or>
     \<not> is_arithmetic_binop k \<and> is_comparison_binop k \<and> op = CONSTANT (CONST_BOOL (fold_compare (fold_type_is_unsigned64 lt \<or> fold_type_is_unsigned64 rt) k
              (fold_wrap_to_type L lt) (fold_wrap_to_type R rt)))"
    by (rule fold_opD) (use assms in \<open>auto simp: folds_at_def\<close>)
  have "binop_typed fn i" using assms folds_at_instr [OF assms] by (simp add: folds_at_def fold_ready_def list_all_iff)
  then have t: "is_arithmetic_binop k \<longrightarrow> int_kind (in_type i) \<noteq> None" using i int_defD [OF i(2)] int_defD [OF i(3)] by (auto simp: binop_typed_def)
  have "in_id i \<noteq> 0 \<longrightarrow> table_entry fn (in_id i) = Some i"
    using table_okD [OF _ folds_at_instr [OF assms]] assms by (simp add: folds_at_def fold_ready_def)
  then show "int_valued (folded bi ii i op fn) v = int_valued fn v"
    using cs t i(1) by (auto simp: int_valued_def folded_table [OF assms])
  show "const_word (in_type i) c = c" if "op = CONSTANT (CONST_INT c)"
    using cs t that by (auto simp: const_word_def fold_wrap split: option.split)
qed

lemma folded_consts_normal:
  assumes "folds_at fn bi ii i op"
  shows "consts_normal (folded bi ii i op fn)"
proof -
  let ?P = "\<lambda>e. case e of
      Some d \<Rightarrow> (case in_op d of CONSTANT (CONST_INT c) \<Rightarrow> const_word (in_type d) c = c | _ \<Rightarrow> True)
    | None \<Rightarrow> True"
  have "?P (Some (i\<lparr>in_op := op\<rparr>))" using folded_const(2) [OF assms] by (auto split: lir_inst.split lir_const.split)
  moreover have "consts_normal fn" using assms by (simp add: folds_at_def fold_ready_def)
  moreover have "set (fn_value_table (folded bi ii i op fn)) \<subseteq> insert (Some (i\<lparr>in_op := op\<rparr>)) (set (fn_value_table fn))"
    using set_update_subset_insert [of "fn_value_table fn"] by (simp add: folded_def set_instr_def subset_insertI)
  ultimately show ?thesis
    unfolding consts_normal_def list_all_iff by blast
qed

text \<open>Paths correspond.\<close>

lemma folded_path:
  assumes "folds_at fn bi ii i op"
  shows "block_path (folded bi ii i op fn) p' \<Longrightarrow> \<exists>p. block_path fn p \<and> list_all2 (block_folds fn) p p'"
proof (induction rule: block_path.induct)
  case (path_entry b bs)
  then obtain b0 bs0 where "fn_blocks fn = b0 # bs0" "block_folds fn b0 b" using folded_blocks [OF assms] by (auto simp: list_all2_Cons2)
  then show ?case using block_path.path_entry [of fn b0 bs0] by (intro exI [of _ "[b0]"]) simp
next
  case (path_next p b i1 c t b')
  obtain p0 b0 where p0: "block_path fn (p0 @ [b0])" "list_all2 (block_folds fn) p0 p" "block_folds fn b0 b"
    using path_next.IH by (auto simp: list_all2_append2 list_all2_Cons2)
  then obtain j where j: "j \<in> set (bl_instrs b0)" "in_op j = CTRL c"
    using path_next.hyps(2,3) folds_same by (fastforce simp: block_folds_def list_all2_conv_all_nth in_set_conv_nth)
  have "rel_option (block_folds fn) (find_block fn t) (find_block (folded bi ii i op fn) t)"
    using find_block_rel [OF folded_blocks [OF assms]] by (simp add: find_block_def)
  then obtain b1 where b1: "find_block fn t = Some b1" "block_folds fn b1 b'" using path_next.hyps(5) by (auto simp: option_rel_Some2)
  then have "block_path fn (p0 @ [b0, b1])" using block_path.path_next [OF p0(1) j path_next.hyps(4)] by simp
  then show ?case using p0(2,3) b1(2) by (intro exI [of _ "p0 @ [b0, b1]"]) (simp add: list_all2_appendI)
qed

lemma folds_ids: "list_all2 (folds_to fn) xs ys \<Longrightarrow> map in_id ys = map in_id xs"
  by (induction rule: list_all2_induct) (auto simp: folds_same)

lemma block_folds_ids: "list_all2 (block_folds fn) p p' \<Longrightarrow> map in_id (concat (map bl_instrs p')) = map in_id (concat (map bl_instrs p))"
  by (induction rule: list_all2_induct) (auto simp: block_folds_def folds_ids)

lemma folded_uses_ok:
  assumes "folds_at fn bi ii i op"
  shows "uses_ok (folded bi ii i op fn)"
  unfolding uses_ok_def
proof (intro allI impI)
  fix p' b' pre' i1' post' k l r
  assume p': "block_path (folded bi ii i op fn) (p' @ [b'])" "bl_instrs b' = pre' @ i1' # post'" "in_op i1' = BINOP k l r"
  obtain p b where p: "block_path fn (p @ [b])" "list_all2 (block_folds fn) p p'" "block_folds fn b b'"
    using folded_path [OF assms p'(1)] by (auto simp: list_all2_append2 list_all2_Cons2)
  then obtain pre i1 post where b: "bl_instrs b = pre @ i1 # post" "list_all2 (folds_to fn) pre pre'" "folds_to fn i1 i1'"
    using p'(2) by (auto simp: block_folds_def list_all2_append2 list_all2_Cons2)
  have "i1' = i1" using b(3) p'(3) by (auto simp: folds_to_def elim!: fold_opD)
  then have old: "\<forall>v\<in>{l, r}. table_entry fn v \<noteq> None \<longrightarrow> v \<in> in_id ` set (concat (map bl_instrs p) @ pre)"
    using assms p(1) b(1) p'(3) unfolding folds_at_def fold_ready_def uses_ok_def by blast
  have ids: "in_id ` set (concat (map bl_instrs p') @ pre') = in_id ` set (concat (map bl_instrs p) @ pre)"
    using block_folds_ids [OF p(2)] folds_ids [OF b(2)] by (metis list.set_map map_append)
  have tab: "table_entry fn v \<noteq> None" if "table_entry (folded bi ii i op fn) v \<noteq> None" for v
    using that table_okD [OF _ folds_at_instr [OF assms]] assms by (auto simp: folded_table [OF assms] folds_at_def fold_ready_def split: if_splits)
  show "\<forall>v\<in>{l, r}. table_entry (folded bi ii i op fn) v \<noteq> None \<longrightarrow> v \<in> in_id ` set (concat (map bl_instrs p') @ pre')"
    unfolding ids using old tab by blast
qed

lemma folded_ready:
  assumes "folds_at fn bi ii i op"
  shows "fold_ready (folded bi ii i op fn)"
proof -
  obtain q where q: "func_instrs (folded bi ii i op fn) = (func_instrs fn)[q := i\<lparr>in_op := op\<rparr>]" by (rule folded_instrs [OF assms])
  have "binop_typed (folded bi ii i op fn) j = binop_typed fn j" for j
    by (simp add: binop_typed_def folded_const(1) [OF assms] folded_value_type [OF assms] cong: lir_inst.case_cong)
  moreover have "binop_typed fn (i\<lparr>in_op := op\<rparr>)"
    using assms by (auto simp: folds_at_def binop_typed_def elim!: fold_opD)
  ultimately have "list_all (binop_typed (folded bi ii i op fn)) (func_instrs (folded bi ii i op fn))"
    using assms set_update_subset_insert unfolding q folds_at_def fold_ready_def list_all_iff by fastforce
  then show ?thesis
    unfolding fold_ready_def using assms folded_table_ok folded_ctrl_last folded_consts_normal folded_uses_ok by blast
qed

lemma folded_run:
  assumes "folds_at fn bi ii i op"
  shows "run_func n S (folded bi ii i op fn) vals w = run_func n S fn vals w"
proof (cases "fn_blocks fn")
  case (Cons b bs)
  then obtain b' bs' where b': "fn_blocks (folded bi ii i op fn) = b' # bs'" "block_folds fn b b'"
    using folded_blocks [OF assms] by (auto simp: list_all2_Cons1)
  have "run_blocks n S (folded bi ii i op fn) 0 b' vals w = run_blocks n S fn 0 b vals w"
    by (rule run_blocks_fold [where p = "[]"])
      (use assms folded_value_type [OF assms] folded_blocks [OF assms] path_entry [OF Cons] Cons b'(2) in \<open>auto simp: folds_at_def consts_hold_def\<close>)
  then show ?thesis using Cons b'(1) by (simp add: run_func_def)
qed (use assms in \<open>auto simp: folds_at_def\<close>)

section \<open>The pass\<close>

definition shape :: "IronLIR_Func \<Rightarrow> nat list" where
  "shape fn = map (\<lambda>b. length (bl_instrs b)) (fn_blocks fn)"

definition fold_inv :: "IronLIR_Func \<Rightarrow> IronLIR_Func \<Rightarrow> bool" where
  "fold_inv fn f \<longleftrightarrow> fold_ready f \<and> shape f = shape fn"

lemma positions_range: "(bi, ii) \<in> set (positions fn) \<longleftrightarrow> bi < length (shape fn) \<and> ii < shape fn ! bi"
  by (auto simp: positions_def shape_def image_iff)

lemma folded_shape: "shape (folded bi ii i op fn) = shape fn"
  by (cases "bi < length (fn_blocks fn)") (auto simp: shape_def folded_def set_instr_def map_update list_update_same_conv list_update_beyond)

lemma fold_at_inv:
  assumes step: "\<And>f bi ii i op. folds_at f bi ii i op \<Longrightarrow> Q f \<Longrightarrow> Q (folded bi ii i op f)"
    and inv: "fold_inv fn (snd cf)" "Q (snd cf)" and pos: "pos \<in> set (positions fn)"
  shows "fold_inv fn (snd (fold_at pos cf)) \<and> Q (snd (fold_at pos cf))"
proof -
  obtain bi ii ch f where c: "pos = (bi, ii)" "cf = (ch, f)" by (cases pos; cases cf) auto
  let ?i = "bl_instrs (fn_blocks f ! bi) ! ii"
  have "bi < length (shape f) \<and> ii < shape f ! bi" using inv(1) pos c positions_range [of bi ii fn] by (simp add: fold_inv_def)
  then have r: "bi < length (fn_blocks f)" "ii < length (bl_instrs (fn_blocks f ! bi))" by (auto simp: shape_def)
  show ?thesis
  proof (cases "fold_op f ?i")
    case (Some op)
    then have at: "folds_at f bi ii ?i op" using inv(1) r c by (simp add: folds_at_def fold_inv_def)
    have "snd (fold_at pos cf) = folded bi ii ?i op f" using Some c by (simp add: fold_at_def folded_def Let_def)
    then show ?thesis using folded_ready [OF at] step [OF at] folded_shape inv c by (simp add: fold_inv_def)
  qed (use inv c in \<open>simp add: fold_at_def Let_def\<close>)
qed

text \<open>What every single fold keeps, the pass keeps.\<close>

lemma fold_func_inv:
  assumes step: "\<And>f bi ii i op. folds_at f bi ii i op \<Longrightarrow> Q f \<Longrightarrow> Q (folded bi ii i op f)" and "fold_ready fn" "Q fn"
  shows "fold_ready (snd (fold_func fn)) \<and> Q (snd (fold_func fn))"
proof -
  have "set ps \<subseteq> set (positions fn) \<Longrightarrow> fold_inv fn (snd cf) \<Longrightarrow> Q (snd cf) \<Longrightarrow>
      fold_inv fn (snd (fold fold_at ps cf)) \<and> Q (snd (fold fold_at ps cf))" for ps cf
  proof (induction ps arbitrary: cf)
    case (Cons pos ps)
    then show ?case using fold_at_inv [of Q, OF step, of fn cf pos] by simp
  qed simp
  from this [of "positions fn" "(False, fn)"] show ?thesis using assms(2,3) by (auto simp: fold_func_def fold_inv_def)
qed

lemma fold_func_run: "fold_ready fn \<Longrightarrow> run_func n S (snd (fold_func fn)) vals w = run_func n S fn vals w"
  using fold_func_inv [of "\<lambda>f. run_func n S f vals w = run_func n S fn vals w" fn] by (simp add: folded_run)

lemma fold_func_ready: "fold_ready fn \<Longrightarrow> fold_ready (snd (fold_func fn))"
  using fold_func_inv [of "\<lambda>f. True" fn] by simp

text \<open>C37: Folding constants changes no run: for every function as the pass requires it (operands computed before they are read, constants within their
  types, arithmetic and comparisons of one integer type), for every meaning of memory, calls and the rest of the runtime, from
  every state and for every number of blocks, the function ends in the same way with the same effects as before the pass, and
  what the pass requires holds again afterwards.\<close>

theorem fold_preserves_runs:
  fixes S :: "'w lir_sem"
  assumes "list_all fold_ready m"
  shows "list_all fold_ready (snd (run_constant_folding m)) \<and>
    list_all2 (\<lambda>fn fn'. \<forall>n vals w. run_func n S fn' vals w = run_func n S fn vals w) m (snd (run_constant_folding m))"
  using assms by (induction m) (auto simp: run_constant_folding_def fold_func_run fold_func_ready)

text \<open>A check that suffices for operands before uses: a binary instruction finds its operands in its own block.\<close>

definition uses_block :: "IronLIR_Func \<Rightarrow> IronLIR_Block \<Rightarrow> bool" where
  "uses_block fn b \<longleftrightarrow> list_all (\<lambda>k. case in_op (bl_instrs b ! k) of
      BINOP kind l r \<Rightarrow> list_all (\<lambda>v. table_entry fn v \<noteq> None \<longrightarrow> v \<in> set (map in_id (take k (bl_instrs b)))) [l, r]
    | _ \<Rightarrow> True) [0..<length (bl_instrs b)]"

lemma uses_okI: "list_all (uses_block fn) (fn_blocks fn) \<Longrightarrow> uses_ok fn"
  unfolding uses_ok_def
proof (intro allI impI)
  fix p b pre i post k l r
  assume *: "list_all (uses_block fn) (fn_blocks fn)" "block_path fn (p @ [b])" "bl_instrs b = pre @ i # post" "in_op i = BINOP k l r"
  have "uses_block fn b" using path_blocks [OF *(2)] *(1) by (simp add: list_all_iff)
  note check = this [unfolded uses_block_def list_all_iff [of _ "[0..<length (bl_instrs b)]"]]
  have "length pre \<in> set [0..<length (bl_instrs b)]" using *(3) by simp
  from bspec [OF check this] have "list_all (\<lambda>v. table_entry fn v \<noteq> None \<longrightarrow> v \<in> set (map in_id pre)) [l, r]"
    using *(3,4) by simp
  then show "\<forall>v\<in>{l, r}. table_entry fn v \<noteq> None \<longrightarrow> v \<in> in_id ` set (concat (map bl_instrs p) @ pre)" by auto
qed

text \<open>The sum of 100 and 100 at eight bits is negative; a division by the constant zero stays in place.\<close>

definition narrow_sum :: IronLIR_Func where
  "narrow_sum =
    (let instr = (\<lambda>v op. \<lparr>in_id = v, in_type = Some (Prim IRON_TYPE_INT8), in_span = no_span, in_op = op\<rparr>) in
     example_func
      [instr 1 (CONSTANT (CONST_INT 100)), instr 2 (BINOP ADD 1 1), instr 3 (CONSTANT (CONST_INT 0)),
       \<lparr>in_id = 4, in_type = Some (Prim IRON_TYPE_BOOL), in_span = no_span, in_op = BINOP LT 2 3\<rparr>,
       instr 5 (BINOP DIV 2 3), instr 0 (CTRL (RETURN 4 False))] 6)"

theorem fold_preserves_runs_witness:
  "map in_op (func_instrs (snd (fold_func narrow_sum))) =
     [CONSTANT (CONST_INT 100), CONSTANT (CONST_INT (- 56)), CONSTANT (CONST_INT 0), CONSTANT (CONST_BOOL True), BINOP DIV 2 3, CTRL (RETURN 4 False)] \<and>
   (\<forall>n vals w. run_func n S0 (snd (fold_func narrow_sum)) vals w = run_func n S0 narrow_sum vals w)"
proof -
  have "uses_ok narrow_sum" by (rule uses_okI) code_simp
  moreover have "table_ok narrow_sum" "ctrl_last narrow_sum" "consts_normal narrow_sum" "list_all (binop_typed narrow_sum) (func_instrs narrow_sum)"
    by code_simp+
  ultimately have "list_all fold_ready [narrow_sum]" by (simp add: fold_ready_def)
  moreover have "map in_op (func_instrs (snd (fold_func narrow_sum))) =
     [CONSTANT (CONST_INT 100), CONSTANT (CONST_INT (- 56)), CONSTANT (CONST_INT 0), CONSTANT (CONST_BOOL True), BINOP DIV 2 3, CTRL (RETURN 4 False)]"
    by code_simp
  ultimately show ?thesis using fold_preserves_runs [of "[narrow_sum]" S0] by (simp add: run_constant_folding_def)
qed

end
