(* ===== verification/Lir_Passes.thy ===== *)
theory Lir_Passes
  imports Lir_Verify Lir_Fold
begin

text \<open>
  The loop of passes that the optimiser repeats until nothing changes (src/lir/lir\_optimize.c, iron\_lir\_optimize), each
  pass followed by the verifier's gate, with the passes that the environment leaves out. A contract says what a pass has to
  keep; constant folding and the removal of dead instructions fulfil it, and a loop of passes that fulfil it never stops at the gate
  and preserves every run.
\<close>

section \<open>The code\<close>

text \<open>The names in the environment variable, between commas; \<^verbatim>\<open>all\<close> stands for every pass.\<close>

function skip_scan :: "string \<Rightarrow> string \<Rightarrow> bool" where
  "skip_scan name p =
    (if p = [] then False
     else let item = takeWhile (\<lambda>c. c \<noteq> CHR '','') p; rest = dropWhile (\<lambda>c. c \<noteq> CHR '','') p in
       if item = name \<or> item = ''all'' then True
       else if rest = [] then False
       else skip_scan name (tl rest))"
  by pat_completeness auto

termination
proof (relation "measure (\<lambda>(name, p). length p)", goal_cases)
  case (2 name p item rest)
  then have "length rest \<le> length p" "0 < length p" by (simp_all add: length_dropWhile_le)
  then have "length rest - 1 < length p" by linarith
  then show ?case by simp
qed simp

declare skip_scan.simps [simp del]

definition lir_pass_skipped :: "string option \<Rightarrow> string \<Rightarrow> bool" where
  "lir_pass_skipped env name = (case env of None \<Rightarrow> False | Some e \<Rightarrow> skip_scan name e)"

type_synonym lir_pass_fun = "IronLIR_Module \<Rightarrow> bool \<times> IronLIR_Module"

text \<open>One pass and its gate; the gate stands there even for a pass that is left out. On the left, the number of errors at which the compiler gave up.\<close>

definition pass_and_gate :: "malloc_ok \<Rightarrow> nat \<Rightarrow> bool \<Rightarrow> lir_pass_fun \<Rightarrow> bool \<times> IronLIR_Module \<Rightarrow> nat + (bool \<times> IronLIR_Module)" where
  "pass_and_gate al baseline skipped pass cm =
    (case cm of (changed, m) \<Rightarrow>
      let cm' = (if skipped then (changed, m) else case pass m of (c, m') \<Rightarrow> (changed \<or> c, m')) in
      case optimize_verify_or_die al (snd cm') baseline of
        Some errors \<Rightarrow> Inl errors
      | None \<Rightarrow> Inr cm')"

fun run_passes :: "malloc_ok \<Rightarrow> nat \<Rightarrow> (bool \<times> lir_pass_fun) list \<Rightarrow> bool \<times> IronLIR_Module \<Rightarrow> nat + (bool \<times> IronLIR_Module)" where
  "run_passes al baseline [] cm = Inr cm"
| "run_passes al baseline ((skipped, pass) # passes) cm =
    (case pass_and_gate al baseline skipped pass cm of
       Inl errors \<Rightarrow> Inl errors
     | Inr cm' \<Rightarrow> run_passes al baseline passes cm')"

fun optimize_loop :: "nat \<Rightarrow> malloc_ok \<Rightarrow> nat \<Rightarrow> (bool \<times> lir_pass_fun) list \<Rightarrow> bool \<times> IronLIR_Module \<Rightarrow> nat + (bool \<times> IronLIR_Module)" where
  "optimize_loop 0 al baseline passes (any_changed, m) = Inr (any_changed, m)"
| "optimize_loop (Suc iter) al baseline passes (any_changed, m) =
    (case run_passes al baseline passes (False, m) of
       Inl errors \<Rightarrow> Inl errors
     | Inr (changed, m') \<Rightarrow> if changed then optimize_loop iter al baseline passes (True, m') else Inr (any_changed, m'))"

text \<open>The passes in their order. The three that this development does not describe are arguments.\<close>

definition fixpoint_passes :: "string option \<Rightarrow> lir_pass_fun \<Rightarrow> lir_pass_fun \<Rightarrow> lir_pass_fun \<Rightarrow> (bool \<times> lir_pass_fun) list" where
  "fixpoint_passes env run_copy_propagation run_store_load_elim run_strength_reduction =
    [(lir_pass_skipped env ''copyprop'', run_copy_propagation), (lir_pass_skipped env ''constfold'', run_constant_folding),
     (lir_pass_skipped env ''dce'', run_dce), (lir_pass_skipped env ''sle'', run_store_load_elim),
     (lir_pass_skipped env ''sr'', run_strength_reduction)]"

definition optimize_fixpoint ::
    "malloc_ok \<Rightarrow> string option \<Rightarrow> lir_pass_fun \<Rightarrow> lir_pass_fun \<Rightarrow> lir_pass_fun \<Rightarrow> IronLIR_Module \<Rightarrow> nat + (bool \<times> IronLIR_Module)" where
  "optimize_fixpoint al env copyprop sle sr m =
    optimize_loop 32 al (optimize_verify_error_count al m) (fixpoint_passes env copyprop sle sr) (False, m)"

section \<open>The contract of a pass\<close>

definition same_runs :: "'w lir_sem \<Rightarrow> IronLIR_Func \<Rightarrow> IronLIR_Func \<Rightarrow> bool" where
  "same_runs S fn fn' \<longleftrightarrow> (\<forall>n vals w. run_func n S fn' vals w = run_func n S fn vals w)"

lemma same_runs_trans: "same_runs S f g \<Longrightarrow> same_runs S g h \<Longrightarrow> same_runs S f h"
  by (simp add: same_runs_def)

lemma same_runs_refl: "list_all2 (same_runs S) m m"
  by (simp add: list_all2_same same_runs_def)

text \<open>What a pass over a module keeps: functions that are ready, their runs, and their validity.\<close>

definition keeps_module :: "'w lir_sem \<Rightarrow> (IronLIR_Func \<Rightarrow> bool) \<Rightarrow> lir_pass_fun \<Rightarrow> bool" where
  "keeps_module S ready P \<longleftrightarrow> (\<forall>m. list_all ready m \<longrightarrow>
    list_all ready (snd (P m)) \<and> list_all2 (same_runs S) m (snd (P m)) \<and>
    (\<forall>al. list_all (func_ok al m) m \<longrightarrow> list_all (func_ok al (snd (P m))) (snd (P m))))"

text \<open>
  A pass that works on functions one by one: on functions that are ready for it, it keeps them ready, keeps their runs, and keeps
  them valid in the module it leaves.
\<close>

locale lir_pass =
  fixes S :: "'w lir_sem" and ready :: "IronLIR_Func \<Rightarrow> bool" and pass :: "IronLIR_Func \<Rightarrow> IronLIR_Func"
  assumes keeps_ready: "ready fn \<Longrightarrow> ready (pass fn)"
    and keeps_runs: "ready fn \<Longrightarrow> run_func n S (pass fn) vals w = run_func n S fn vals w"
    and keeps_ok: "ready fn \<Longrightarrow> func_ok al m fn \<Longrightarrow> func_ok al (map pass m) (pass fn)"
begin

lemma module_runs: "list_all ready m \<Longrightarrow> list_all2 (same_runs S) m (map pass m)"
  using keeps_runs by (induction m) (simp_all add: same_runs_def)

lemma module_kept: "(\<And>m. snd (P m) = map pass m) \<Longrightarrow> keeps_module S ready P"
  unfolding keeps_module_def using keeps_ready keeps_ok module_runs by (simp add: list_all_iff)

end

section \<open>Both passes fulfil the contract\<close>

text \<open>What both passes need, and keep: what folding requires, operands that the collector holds, and slices that are demanded.\<close>

definition pass_ready :: "IronLIR_Func \<Rightarrow> bool" where
  "pass_ready fn \<longleftrightarrow> fold_ready fn \<and> operands_fit fn \<and> slices_held fn"

lemma pass_ready_dce: "pass_ready fn \<Longrightarrow> dce_ready fn"
  by (simp add: pass_ready_def dce_ready_def fold_ready_def const_uses)

text \<open>One fold: every other instruction is still there, and what the folded one read are constants.\<close>

lemma folded_mem:
  assumes "folds_at fn bi ii i op"
  shows "set (func_instrs (folded bi ii i op fn)) \<subseteq> insert (i\<lparr>in_op := op\<rparr>) (set (func_instrs fn))"
    "set (func_instrs fn) \<subseteq> insert i (set (func_instrs (folded bi ii i op fn)))"
proof -
  obtain q where q: "q < length (func_instrs fn)" "func_instrs fn ! q = i"
      "func_instrs (folded bi ii i op fn) = (func_instrs fn)[q := i\<lparr>in_op := op\<rparr>]"
    by (rule folded_instrs [OF assms])
  show "set (func_instrs (folded bi ii i op fn)) \<subseteq> insert (i\<lparr>in_op := op\<rparr>) (set (func_instrs fn))"
    unfolding q(3) by (rule set_update_subset_insert)
  show "set (func_instrs fn) \<subseteq> insert i (set (func_instrs (folded bi ii i op fn)))"
  proof
    fix j
    assume "j \<in> set (func_instrs fn)"
    then obtain k where k: "k < length (func_instrs fn)" "func_instrs fn ! k = j" by (auto simp: in_set_conv_nth)
    show "j \<in> insert i (set (func_instrs (folded bi ii i op fn)))"
    proof (cases "k = q")
      case False
      then have "func_instrs (folded bi ii i op fn) ! k = j" using k by (simp add: q(3))
      then show ?thesis using k(1) nth_mem [of k "func_instrs (folded bi ii i op fn)"] by (simp add: q(3))
    qed (use k q(2) in simp)
  qed
qed

lemma folded_reads:
  assumes "folds_at fn bi ii i op"
  shows "reads_only (in_op i)" "\<exists>c. op = CONSTANT c" "\<And>v. v \<in> set (operand_fields (in_op i)) \<Longrightarrow> const_of fn v \<noteq> None"
proof -
  obtain k l r L R lt rt where i: "in_op i = BINOP k l r" "int_def fn l = Some (L, lt)" "int_def fn r = Some (R, rt)" "\<exists>c. op = CONSTANT c"
    by (rule fold_opD [of fn i op]) (use assms in \<open>auto simp: folds_at_def\<close>)
  show "reads_only (in_op i)" "\<exists>c. op = CONSTANT c" using i(1,4) by simp_all
  show "const_of fn v \<noteq> None" if "v \<in> set (operand_fields (in_op i))" for v
    using that i(1) int_defD [OF i(2)] int_defD [OF i(3)] by auto
qed

text \<open>So a fold takes demand away from constants only, and slices stay demanded.\<close>

lemma folded_demanded:
  assumes at: "folds_at fn bi ii i op" and "demanded fn v"
  shows "const_of fn v \<noteq> None \<or> demanded (folded bi ii i op fn) v"
  using assms(2)
proof (induction rule: demanded.induct)
  case (demanded_effect j v)
  then have "j \<in> set (func_instrs (folded bi ii i op fn))" using folded_mem(2) [OF at] folded_reads(1) [OF at] by auto
  then show ?case using demanded_effect demanded.demanded_effect by blast
next
  case (demanded_value j v)
  show ?case
  proof (cases "j = i")
    case True
    then show ?thesis using folded_reads(3) [OF at] demanded_value by blast
  next
    case False
    then have j: "j \<in> set (func_instrs (folded bi ii i op fn))" using folded_mem(2) [OF at] demanded_value(1) by blast
    have "const_of fn (in_id j) = None"
    proof (rule ccontr)
      assume "const_of fn (in_id j) \<noteq> None"
      then obtain c d where d: "in_id j \<noteq> 0" "table_entry fn (in_id j) = Some d" "in_op d = CONSTANT (CONST_INT c)"
        using const_ofD by blast
      then have "d = j" using table_okD [OF _ demanded_value(1)] at by (simp add: folds_at_def fold_ready_def)
      then show False using d(3) demanded_value(3) by simp
    qed
    then show ?thesis using demanded_value j demanded.demanded_value by blast
  qed
qed

lemma folded_slices:
  assumes at: "folds_at fn bi ii i op" and held: "slices_held fn"
  shows "slices_held (folded bi ii i op fn)"
proof -
  have "in_id j = 0 \<or> demanded (folded bi ii i op fn) (in_id j)"
    if j: "j \<in> set (func_instrs (folded bi ii i op fn))" "is_slice (in_op j)" for j
  proof -
    have "j \<in> set (func_instrs fn)" using folded_mem(1) [OF at] j folded_reads(2) [OF at] by auto
    moreover have "const_of fn (in_id j) = None" if "in_id j \<noteq> 0"
      using table_okD [OF _ calculation that] at j(2) by (cases "in_op j" rule: is_slice.cases) (auto simp: const_of_def folds_at_def fold_ready_def)
    ultimately show ?thesis using held j(2) folded_demanded [OF at, of "in_id j"] unfolding slices_held_def list_all_iff by blast
  qed
  then show ?thesis by (simp add: slices_held_def list_all_iff)
qed

lemma folded_fit:
  assumes "folds_at fn bi ii i op" "operands_fit fn"
  shows "operands_fit (folded bi ii i op fn)"
  using folded_mem(1) [OF assms(1)] folded_reads(2) [OF assms(1)] assms(2) by (auto simp: operands_fit_def list_all_iff)

lemma fold_pass_ready: "pass_ready fn \<Longrightarrow> pass_ready (snd (fold_func fn))"
  using fold_func_inv [of "\<lambda>f. operands_fit f \<and> slices_held f" fn] folded_fit folded_slices by (simp add: pass_ready_def)

lemma dce_instrs: "func_instrs (dce_func fn) = filter (dce_keeps (dce_live fn)) (func_instrs fn)"
  by (simp add: func_instrs_def dce_blocks kept_block_def filter_concat comp_def)

lemma set_butlast_filter: "set (butlast (filter P xs)) \<subseteq> set (butlast xs)"
  by (induction xs) auto

lemma filter_ids_distinct: "distinct (filter Q (map f xs)) \<Longrightarrow> distinct (filter Q (map f (filter P xs)))"
  by (induction xs) (auto simp: image_iff)

lemma dce_table_ok: "table_ok fn \<Longrightarrow> table_ok (dce_func fn)"
proof -
  assume ok: "table_ok fn"
  have "table_entry (dce_func fn) (in_id i) = Some i" if i: "i \<in> set (func_instrs fn)" "dce_keeps (dce_live fn) i" "in_id i \<noteq> 0" for i
  proof -
    have entry: "table_entry fn (in_id i) = Some i" by (rule table_okD [OF ok i(1,3)])
    have same: "j = i" if j: "j \<in> set (func_instrs fn)" "in_id j = in_id i" for j
    proof -
      have "table_entry fn (in_id j) = Some j" using table_okD [OF ok j(1)] j(2) i(3) by metis
      then have "Some j = Some i" unfolding j(2) entry by (rule sym)
      then show ?thesis by (rule option.inject [THEN iffD1])
    qed
    have "in_id i \<notin> in_id ` {j\<in>set (func_instrs fn). \<not> dce_keeps (dce_live fn) j}"
    proof
      assume "in_id i \<in> in_id ` {j\<in>set (func_instrs fn). \<not> dce_keeps (dce_live fn) j}"
      then obtain j where "j \<in> set (func_instrs fn)" "\<not> dce_keeps (dce_live fn) j" "in_id j = in_id i" by auto
      then show False using same [of j] i(2) by simp
    qed
    then show ?thesis using entry by (simp add: dce_table)
  qed
  then show ?thesis using ok by (auto simp: table_ok_def dce_instrs list_all_iff filter_ids_distinct)
qed

lemma dce_path: "block_path (dce_func fn) p' \<Longrightarrow> \<exists>p. block_path fn p \<and> p' = map (kept_block fn) p"
proof (induction rule: block_path.induct)
  case (path_entry b bs)
  then show ?case using block_path.path_entry by (fastforce simp: dce_blocks)
next
  case (path_next p b i c t b')
  then obtain q b0 where q: "block_path fn (q @ [b0])" "p = map (kept_block fn) q" "b = kept_block fn b0"
    by (auto simp: append_eq_map_conv)
  obtain b1 where b1: "find_block fn t = Some b1" "b' = kept_block fn b1" using path_next.hyps(5) by (auto simp: dce_find_block)
  have "i \<in> set (bl_instrs b0)" using path_next.hyps(2) q(3) by (simp add: kept_block_def)
  then have "block_path fn (q @ [b0, b1])" using block_path.path_next [OF q(1) _ path_next.hyps(3,4) b1(1)] by blast
  then show ?case using q(2,3) b1(2) by (intro exI [of _ "q @ [b0, b1]"]) simp
qed

lemma filter_split: "filter P xs = ys @ z # zs \<Longrightarrow> \<exists>us vs. xs = us @ z # vs \<and> ys = filter P us"
proof (induction xs arbitrary: ys)
  case (Cons x xs)
  show ?case
  proof (cases "P x \<and> ys = []")
    case True
    then have "x # xs = [] @ z # xs" "ys = filter P []" using Cons.prems by simp_all
    then show ?thesis by blast
  next
    case False
    then obtain ys' where "filter P xs = ys' @ z # zs" "ys = (if P x then x # ys' else ys')"
      using Cons.prems by (cases ys) (auto split: if_splits)
    then obtain us vs where "xs = us @ z # vs" "ys' = filter P us" using Cons.IH by blast
    then have "x # xs = (x # us) @ z # vs" "ys = filter P (x # us)" using \<open>ys = _\<close> by simp_all
    then show ?thesis by blast
  qed
qed simp

lemma dce_uses_ok:
  assumes "fold_ready fn"
  shows "uses_ok (dce_func fn)"
  unfolding uses_ok_def
proof (intro allI impI ballI)
  fix p' b' pre' i post' k l r v
  assume p': "block_path (dce_func fn) (p' @ [b'])" "bl_instrs b' = pre' @ i # post'" "in_op i = BINOP k l r"
    and v: "v \<in> {l, r}" "table_entry (dce_func fn) v \<noteq> None"
  obtain p b where p: "block_path fn (p @ [b])" "p' = map (kept_block fn) p" "b' = kept_block fn b"
    using dce_path [OF p'(1)] by (auto simp: append_eq_map_conv)
  then have "filter (dce_keeps (dce_live fn)) (bl_instrs b) = pre' @ i # post'" using p'(2) by (simp add: kept_block_def)
  from filter_split [OF this] obtain pre post where b: "bl_instrs b = pre @ i # post" "pre' = filter (dce_keeps (dce_live fn)) pre"
    by blast
  have "table_entry fn v \<noteq> None" using v(2) by (auto simp: dce_table split: if_splits)
  then obtain j where j: "j \<in> set (concat (map bl_instrs p) @ pre)" "in_id j = v"
    using assms p(1) b(1) p'(3) v(1) unfolding fold_ready_def uses_ok_def by blast
  have "set p \<subseteq> set (fn_blocks fn)" "b \<in> set (fn_blocks fn)" using path_blocks [OF p(1)] by auto
  moreover have "\<exists>b0\<in>insert b (set p). j \<in> set (bl_instrs b0)" using j(1) b(1) by auto
  then obtain b0 where "b0 \<in> insert b (set p)" "j \<in> set (bl_instrs b0)" by blast
  ultimately have "j \<in> set (func_instrs fn)" using block_instrs [of b0] by auto
  then have "dce_keeps (dce_live fn) j" using v(2) j(2) by (auto simp: dce_table split: if_splits)
  then have "j \<in> set (concat (map bl_instrs p') @ pre')" using j(1) p(2) b(2) by (auto simp: kept_block_def)
  then show "v \<in> in_id ` set (concat (map bl_instrs p') @ pre')" using j(2) by blast
qed

lemma dce_binop_typed:
  assumes "table_ok fn" "i \<in> set (func_instrs fn)" "dce_keeps (dce_live fn) i" "binop_typed fn i"
  shows "binop_typed (dce_func fn) i"
proof (cases "\<exists>k l r. in_op i = BINOP k l r")
  case True
  then obtain k l r where i: "in_op i = BINOP k l r" by blast
  have live: "v \<in> insert 0 (set (dce_live fn))" if "v = l \<or> v = r" for v
    using kept_operands_live [OF assms(1-3)] i that by (auto simp: opt_collect_operands_def push_operand_def MAX_OPERANDS_def split: if_splits)
  note same = dce_value_type [OF live]
  have "int_valued (dce_func fn) l = int_valued fn l" "int_valued (dce_func fn) r = int_valued fn r"
    unfolding int_valued_def using same(1) by simp_all
  then show ?thesis using assms(4) i same(2) [of l] same(2) [of r] by (auto simp: binop_typed_def)
next
  case False
  then show ?thesis by (auto simp: binop_typed_def split: lir_inst.split)
qed

lemma dce_fold_ready:
  assumes "fold_ready fn"
  shows "fold_ready (dce_func fn)"
proof -
  note ok = assms [unfolded fold_ready_def]
  have "ctrl_last (dce_func fn)"
    using ok set_butlast_filter by (fastforce simp: ctrl_last_def dce_blocks kept_block_def list_all_iff)
  moreover have "consts_normal (dce_func fn)"
  proof -
    have "set (fold (\<lambda>i tab. tab[in_id i := None]) is tab) \<subseteq> insert None (set tab)" for "is" :: "IronLIR_Instr list" and tab
    proof (induction "is" arbitrary: tab)
      case (Cons i "is")
      then show ?case using set_update_subset_insert [of tab "in_id i" None] by fastforce
    qed auto
    then have "set (fn_value_table (dce_func fn)) \<subseteq> insert None (set (fn_value_table fn))" by (simp add: dce_func_def Let_def)
    then show ?thesis using ok by (auto simp: consts_normal_def list_all_iff)
  qed
  moreover have "list_all (binop_typed (dce_func fn)) (func_instrs (dce_func fn))"
    using ok dce_binop_typed by (auto simp: list_all_iff dce_instrs)
  ultimately show ?thesis using dce_table_ok dce_uses_ok [OF assms] ok by (simp add: fold_ready_def)
qed

lemma dce_demanded:
  assumes "table_ok fn" "operands_fit fn" "demanded fn v"
  shows "demanded (dce_func fn) v"
  using assms(3)
proof (induction rule: demanded.induct)
  case (demanded_effect i v)
  then have "i \<in> set (func_instrs (dce_func fn))" using effect_stays by (simp add: dce_instrs dce_keeps_def)
  then show ?case using demanded_effect demanded.demanded_effect by blast
next
  case (demanded_value i v)
  then have "i \<in> set (func_instrs (dce_func fn))"
    using demanded_live [OF assms(1,2), of "in_id i"] by (auto simp: dce_instrs dce_keeps_def must_stay_def)
  then show ?case using demanded_value demanded.demanded_value by blast
qed

lemma dce_pass_ready: "pass_ready fn \<Longrightarrow> pass_ready (dce_one fn)"
proof -
  assume ready: "pass_ready fn"
  then have "slices_held (dce_func fn)"
    using dce_demanded by (auto simp: pass_ready_def fold_ready_def slices_held_def dce_instrs list_all_iff)
  moreover have "operands_fit (dce_func fn)" using ready by (auto simp: pass_ready_def operands_fit_def dce_instrs list_all_iff)
  ultimately show ?thesis using ready dce_fold_ready by (simp add: pass_ready_def dce_one_def)
qed

text \<open>The rest of the module enters the checks through names and parameters only.\<close>

lemma func_ok_header:
  assumes "\<And>f. fn_name (g f) = fn_name f \<and> fn_params (g f) = fn_params f"
  shows "func_ok al m fn \<Longrightarrow> func_ok al (map g m) fn"
proof -
  have find: "find_func_by_name (map g m) name = map_option g (find_func_by_name m name)" for name
    using assms by (induction m) (simp_all add: find_func_by_name_def)
  have "call_ok (map g m) fn op" if ok: "call_ok m fn op" for op
    unfolding call_ok_def
  proof (intro allI impI)
    fix name p args callee
    assume c: "op = HIGH (CALL (Some name) p args)" "find_func_by_name (map g m) name = Some callee"
    then obtain callee' where c': "find_func_by_name m name = Some callee'" "fn_params callee = fn_params callee'"
      using assms by (auto simp: find)
    show "length args = length (fn_params callee) \<and> (\<forall>k d. k < length args \<longrightarrow> args ! k \<noteq> 0 \<longrightarrow> \<not> is_param fn (args ! k) \<longrightarrow>
        table_entry fn (args ! k) = Some d \<longrightarrow>
        in_type d = None \<or> fn_params callee ! k = None \<or> iron_type_equals (in_type d) (fn_params callee ! k))"
      using ok [unfolded call_ok_def, rule_format, OF c(1) c'(1)] unfolding c'(2) by simp
  qed
  then show "func_ok al m fn \<Longrightarrow> func_ok al (map g m) fn"
    unfolding func_ok_def block_ok_def instr_ok_def by blast
qed

lemma folded_header:
  "fn_name (folded bi ii i op fn) = fn_name fn" "fn_is_extern (folded bi ii i op fn) = fn_is_extern fn"
  "fn_return_type (folded bi ii i op fn) = fn_return_type fn"
  by (simp_all add: folded_def set_instr_def)

lemma folded_block_ids:
  assumes "folds_at fn bi ii i op"
  shows "bl_id ` set (fn_blocks (folded bi ii i op fn)) = bl_id ` set (fn_blocks fn)"
proof -
  have "list_all2 (block_folds fn) bs bs' \<Longrightarrow> map bl_id bs' = map bl_id bs" for bs bs'
    by (induction rule: list_all2_induct) (simp_all add: block_folds_def)
  from this [OF folded_blocks [OF assms]] show ?thesis by (metis list.set_map)
qed

lemma folded_reaches:
  assumes "folds_at fn bi ii i op"
  shows "reaches (folded bi ii i op fn) k \<Longrightarrow> k < length (fn_blocks fn) \<and> reaches fn k"
proof (induction rule: reaches.induct)
  case reaches_entry
  then show ?case using folded_blocks [OF assms] by (auto intro: reaches.reaches_entry)
next
  case (reaches_succ k cur sid j)
  have len: "length (fn_blocks (folded bi ii i op fn)) = length (fn_blocks fn)"
    "\<And>k. k < length (fn_blocks fn) \<Longrightarrow> block_folds fn (fn_blocks fn ! k) (fn_blocks (folded bi ii i op fn) ! k)"
    using folded_blocks [OF assms] by (auto simp: list_all2_conv_all_nth)
  have "rel_option (block_folds fn) (find_block fn (bl_id (fn_blocks fn ! k))) (find_block (folded bi ii i op fn) (bl_id (fn_blocks fn ! k)))"
    using find_block_rel [OF folded_blocks [OF assms]] by (simp add: find_block_def)
  then obtain cur' where "find_block fn (bl_id (fn_blocks fn ! k)) = Some cur'" "bl_succs cur' = bl_succs cur"
    using reaches_succ len by (auto simp: option_rel_Some2 block_folds_def)
  then show ?case using reaches_succ reaches.reaches_succ [of fn k cur' sid j] len by (auto simp: block_folds_def)
qed

lemma folded_entry:
  assumes "folds_at fn bi ii i op" "table_entry (folded bi ii i op fn) v = Some d"
  shows "\<exists>d'. table_entry fn v = Some d' \<and> in_type d' = in_type d"
  using assms table_okD [OF _ folds_at_instr [OF assms(1)]]
  by (auto simp: folded_table folds_at_def fold_ready_def split: if_splits)

lemma folded_defined:
  assumes "folds_at fn bi ii i op"
  shows "defined_value fn v \<Longrightarrow> defined_value (folded bi ii i op fn) v"
  using folded_table [OF assms, of v] by (auto simp: defined_value_def is_param_def)

lemma folded_instr_ok:
  assumes at: "folds_at fn bi ii i op" and j: "instr_ok m fn j" "folds_to fn j j'"
  shows "instr_ok m (folded bi ii i op fn) j'"
proof (cases "j' = j")
  case True
  note entry = folded_entry [OF at]
  have "returns_ok (folded bi ii i op fn) (in_op j)"
    using j(1) unfolding instr_ok_def returns_ok_def folded_header by (metis entry)
  moreover have "phi_ok (folded bi ii i op fn) j"
    using j(1) unfolding instr_ok_def phi_ok_def is_param_def folded_params by (metis entry)
  moreover have "call_ok m (folded bi ii i op fn) (in_op j)"
    unfolding call_ok_def
  proof (intro allI impI)
    fix name p args callee
    assume c: "in_op j = HIGH (CALL (Some name) p args)" "find_func_by_name m name = Some callee"
    have "call_ok m fn (in_op j)" using j(1) by (simp add: instr_ok_def)
    note call = this [unfolded call_ok_def, rule_format, OF c]
    show "length args = length (fn_params callee) \<and> (\<forall>k d. k < length args \<longrightarrow> args ! k \<noteq> 0 \<longrightarrow> \<not> is_param (folded bi ii i op fn) (args ! k) \<longrightarrow>
        table_entry (folded bi ii i op fn) (args ! k) = Some d \<longrightarrow>
        in_type d = None \<or> fn_params callee ! k = None \<or> iron_type_equals (in_type d) (fn_params callee ! k))"
      using call unfolding is_param_def folded_params by (metis entry)
  qed
  ultimately show ?thesis
    using j(1) True folded_defined [OF at] unfolding instr_ok_def folded_block_ids [OF at] by simp
next
  case False
  then obtain c where "in_op j' = CONSTANT c" using j(2) by (auto simp: folds_to_def elim!: fold_opD)
  then show ?thesis by (simp add: instr_ok_def collect_operands_def returns_ok_def phi_ok_def call_ok_def)
qed

lemma folded_func_ok:
  assumes at: "folds_at fn bi ii i op" and ok: "func_ok al m fn"
  shows "func_ok al m (folded bi ii i op fn)"
proof -
  have len: "length (fn_blocks (folded bi ii i op fn)) = length (fn_blocks fn)"
    "\<And>k. k < length (fn_blocks fn) \<Longrightarrow> block_folds fn (fn_blocks fn ! k) (fn_blocks (folded bi ii i op fn) ! k)"
    using folded_blocks [OF at] by (auto simp: list_all2_conv_all_nth)
  have ends: "iron_lir_is_terminator (in_op j') \<longleftrightarrow> iron_lir_is_terminator (in_op j)" if "folds_to fn j j'" for j j'
    by (rule folds_terminator [OF that])
  have "block_ok m (folded bi ii i op fn) b'" if b: "block_ok m fn b" "block_folds fn b b'" for b b'
  proof -
    obtain pre t where t: "bl_instrs b = pre @ [t]" "iron_lir_is_terminator (in_op t)" "\<forall>i\<in>set pre. \<not> iron_lir_is_terminator (in_op i)"
      using b(1) unfolding block_ok_def by blast
    obtain pre' t' where t': "bl_instrs b' = pre' @ [t']" "list_all2 (folds_to fn) pre pre'" "folds_to fn t t'"
      using b(2) t(1) by (auto simp: block_folds_def list_all2_append1 list_all2_Cons1)
    have "list_all (\<lambda>i. \<not> iron_lir_is_terminator (in_op i)) pre'"
      by (rule list_all_rel [OF t'(2)]) (use t(3) ends in \<open>auto simp: list_all_iff\<close>)
    moreover have "list_all (instr_ok m (folded bi ii i op fn)) (bl_instrs b')"
      by (rule list_all_rel [of "folds_to fn" "bl_instrs b" _ "instr_ok m fn"])
        (use b folded_instr_ok [OF at] in \<open>auto simp: block_folds_def block_ok_def list_all_iff\<close>)
    ultimately show ?thesis using t'(1,3) t(2) ends unfolding block_ok_def list_all_iff by blast
  qed
  then show ?thesis using ok folded_reaches [OF at] len unfolding func_ok_def folded_header by auto
qed

lemma fold_header: "fn_name (snd (fold_func fn)) = fn_name fn \<and> fn_params (snd (fold_func fn)) = fn_params fn"
proof -
  have "fn_name (snd (fold_at pos cf)) = fn_name (snd cf) \<and> fn_params (snd (fold_at pos cf)) = fn_params (snd cf)" for pos cf
    by (auto simp: fold_at_def set_instr_def Let_def split: prod.split option.split)
  then have "fn_name (snd (fold fold_at ps cf)) = fn_name (snd cf) \<and> fn_params (snd (fold fold_at ps cf)) = fn_params (snd cf)" for ps cf
    by (induction ps arbitrary: cf) simp_all
  from this [of "positions fn" "(False, fn)"] show ?thesis by (simp add: fold_func_def)
qed

lemma fold_func_ok: "fold_ready fn \<Longrightarrow> func_ok al m fn \<Longrightarrow> func_ok al (map (\<lambda>f. snd (fold_func f)) m) (snd (fold_func fn))"
  using fold_func_inv [of "func_ok al m" fn] folded_func_ok func_ok_header [of "\<lambda>f. snd (fold_func f)"] fold_header by blast

interpretation folding: lir_pass S pass_ready "\<lambda>fn. snd (fold_func fn)" for S :: "'w lir_sem"
proof unfold_locales
  show "run_func n S (snd (fold_func fn)) vals w = run_func n S fn vals w" if "pass_ready fn" for fn n vals w
    using fold_func_run [of fn n S vals w] that by (simp add: pass_ready_def)
  show "func_ok al (map (\<lambda>fn. snd (fold_func fn)) m) (snd (fold_func fn))" if "pass_ready fn" "func_ok al m fn" for fn al m
    using fold_func_ok that by (simp add: pass_ready_def)
qed (rule fold_pass_ready)

interpretation dead: lir_pass S pass_ready dce_one for S :: "'w lir_sem"
proof unfold_locales
  show "run_func n S (dce_one fn) vals w = run_func n S fn vals w" if "pass_ready fn" for fn n vals w
    using dce_run [OF pass_ready_dce [OF that], of n S vals w] by (simp add: dce_one_def)
  show "func_ok al (map dce_one m) (dce_one fn)" if "pass_ready fn" "func_ok al m fn" for fn al m
    using dce_func_ok that by (simp add: pass_ready_def fold_ready_def)
qed (rule dce_pass_ready)

lemma fold_kept: "keeps_module S pass_ready run_constant_folding"
  by (rule folding.module_kept) (simp add: run_constant_folding_def)

lemma dce_kept: "keeps_module S pass_ready run_dce"
  by (rule dead.module_kept) (rule run_dce_map)

section \<open>The loop\<close>

text \<open>The gate is open for a valid module, and for one that was not valid to begin with.\<close>

definition gate_open :: "malloc_ok \<Rightarrow> nat \<Rightarrow> IronLIR_Module \<Rightarrow> bool" where
  "gate_open al baseline m \<longleftrightarrow> 0 < baseline \<or> list_all (func_ok al m) m"

lemma gate_passes: "gate_open al baseline m \<Longrightarrow> optimize_verify_or_die al m baseline = None"
  using verify_clean(1) [of al m] by (auto simp: gate_open_def optimize_verify_or_die_def Let_def check_func_clean list_all_iff)

definition loop_inv :: "'w lir_sem \<Rightarrow> malloc_ok \<Rightarrow> nat \<Rightarrow> (IronLIR_Func \<Rightarrow> bool) \<Rightarrow> IronLIR_Module \<Rightarrow> IronLIR_Module \<Rightarrow> bool" where
  "loop_inv S al baseline ready m m' \<longleftrightarrow> list_all ready m' \<and> list_all2 (same_runs S) m m' \<and> gate_open al baseline m'"

lemma loop_inv_pass:
  assumes "keeps_module S ready P" "loop_inv S al baseline ready m m'"
  shows "loop_inv S al baseline ready m (snd (P m'))"
  using assms list_all2_trans [of "same_runs S" "same_runs S" "same_runs S" m m'] same_runs_trans
  unfolding loop_inv_def keeps_module_def gate_open_def by blast

lemma run_passes_inv:
  assumes "\<forall>(skipped, P)\<in>set passes. skipped \<or> keeps_module S ready P" "loop_inv S al baseline ready m m'"
  shows "\<exists>c m2. run_passes al baseline passes (changed, m') = Inr (c, m2) \<and> loop_inv S al baseline ready m m2"
  using assms
proof (induction passes arbitrary: changed m')
  case (Cons p passes)
  obtain skipped P where p: "p = (skipped, P)" by (cases p)
  define cm where "cm = (if skipped then (changed, m') else case P m' of (c, m2) \<Rightarrow> (changed \<or> c, m2))"
  have inv: "loop_inv S al baseline ready m (snd cm)"
    using Cons.prems p loop_inv_pass [of S ready P al baseline m m'] by (auto simp: cm_def split: prod.split)
  then have "pass_and_gate al baseline skipped P (changed, m') = Inr cm"
    using gate_passes [of al baseline "snd cm"] by (simp add: pass_and_gate_def cm_def [symmetric] loop_inv_def)
  then show ?case using Cons.IH [of "snd cm" "fst cm"] Cons.prems(1) inv p by simp
qed simp

lemma optimize_loop_inv:
  assumes "\<forall>(skipped, P)\<in>set passes. skipped \<or> keeps_module S ready P" "loop_inv S al baseline ready m m'"
  shows "\<exists>c m2. optimize_loop iter al baseline passes (any, m') = Inr (c, m2) \<and> loop_inv S al baseline ready m m2"
  using assms(2)
proof (induction iter arbitrary: any m')
  case (Suc iter)
  obtain c m2 where r: "run_passes al baseline passes (False, m') = Inr (c, m2)" "loop_inv S al baseline ready m m2"
    using run_passes_inv [OF assms(1) Suc.prems] by blast
  then show ?case using Suc.IH [of m2 True] by auto
qed simp

text \<open>C35: With copy propagation, store-load elimination and strength reduction left out by the environment, the optimiser's loop always ends with a
  module, never at the gate of the verifier: the functions of the module have the same runs as before, with the same effects, for every meaning of
  memory, calls and the rest, and a module that was valid is valid again. The functions are those that are ready for both passes: the table
  of values is true, terminators end blocks, integer constants lie in their types, operands of binary instructions are computed before they
  are read, arithmetic and comparisons are over one integer type, no instruction but a list literal has more than 64 operands, and
  every slice is read, directly or through other values, by an instruction with an effect. The last two are limits of the code, shown by \<open>dce_limits\<close>.\<close>

theorem optimize_fixpoint_sound:
  fixes S :: "'w lir_sem"
  assumes "lir_pass_skipped env ''copyprop''" "lir_pass_skipped env ''sle''" "lir_pass_skipped env ''sr''" "list_all pass_ready m"
  shows "\<exists>any m'. optimize_fixpoint al env copyprop sle sr m = Inr (any, m') \<and>
    list_all2 (\<lambda>fn fn'. \<forall>n vals w. run_func n S fn' vals w = run_func n S fn vals w) m m' \<and>
    (fst (iron_lir_verify al m iron_diaglist_create) \<longrightarrow> fst (iron_lir_verify al m' iron_diaglist_create))"
proof -
  let ?base = "optimize_verify_error_count al m"
  have ok: "list_all (func_ok al m') m' \<longleftrightarrow> fst (iron_lir_verify al m' iron_diaglist_create)"
    "0 < optimize_verify_error_count al m' \<longleftrightarrow> \<not> list_all (func_ok al m') m'" for m'
    using verify_clean [of al m'] by (auto simp: optimize_verify_error_count_def check_func_clean list_all_iff)
  have "loop_inv S al ?base pass_ready m m"
    using assms(4) ok(2) [of m] by (auto simp: loop_inv_def gate_open_def same_runs_refl)
  moreover have "\<forall>(skipped, P)\<in>set (fixpoint_passes env copyprop sle sr). skipped \<or> keeps_module S pass_ready P"
    using assms(1-3) fold_kept [of S] dce_kept [of S] by (simp add: fixpoint_passes_def)
  ultimately obtain c m2 where "optimize_fixpoint al env copyprop sle sr m = Inr (c, m2)" "loop_inv S al ?base pass_ready m m2"
    unfolding optimize_fixpoint_def using optimize_loop_inv by blast
  then show ?thesis using ok by (auto simp: loop_inv_def gate_open_def same_runs_def [abs_def])
qed

definition no_pass :: lir_pass_fun where
  "no_pass m = (False, m)"

theorem optimize_fixpoint_sound_witness:
  "list_all pass_ready [narrow_sum, dead_quotient, read_slice] \<and>
   (\<exists>any m'. optimize_fixpoint plenty (Some ''copyprop,sle,sr'') no_pass no_pass no_pass [narrow_sum, dead_quotient, read_slice] = Inr (any, m') \<and>
     list_all2 (\<lambda>fn fn'. \<forall>n vals w. run_func n S0 fn' vals w = run_func n S0 fn vals w) [narrow_sum, dead_quotient, read_slice] m')"
proof -
  have "uses_ok narrow_sum" "uses_ok dead_quotient" "uses_ok read_slice" by (rule uses_okI; code_simp)+
  moreover have "slices_held narrow_sum" "slices_held dead_quotient" "slices_held read_slice" by (rule slices_heldI; code_simp)+
  moreover have "table_ok narrow_sum" "ctrl_last narrow_sum" "consts_normal narrow_sum" "list_all (binop_typed narrow_sum) (func_instrs narrow_sum)"
    "operands_fit narrow_sum"
    by code_simp+
  moreover have "table_ok dead_quotient" "ctrl_last dead_quotient" "consts_normal dead_quotient"
    "list_all (binop_typed dead_quotient) (func_instrs dead_quotient)" "operands_fit dead_quotient"
    by code_simp+
  moreover have "table_ok read_slice" "ctrl_last read_slice" "consts_normal read_slice" "list_all (binop_typed read_slice) (func_instrs read_slice)"
    "operands_fit read_slice"
    by code_simp+
  ultimately have ready: "list_all pass_ready [narrow_sum, dead_quotient, read_slice]" by (simp add: pass_ready_def fold_ready_def)
  have "lir_pass_skipped (Some ''copyprop,sle,sr'') ''copyprop''" "lir_pass_skipped (Some ''copyprop,sle,sr'') ''sle''"
    "lir_pass_skipped (Some ''copyprop,sle,sr'') ''sr''"
    by code_simp+
  from optimize_fixpoint_sound [OF this ready, of plenty no_pass no_pass no_pass S0] ready show ?thesis by blast
qed

end
