(* ===== verification/Spec2Isabelle.thy ===== *)
theory Spec2Isabelle
  imports Prelude Gen_Table Pins Stack_Scope Token File_Marker Diag Lexer_Base Lexer_String Lexer_Number Lexer
    Encoding Sha256 Lsp_Position Frame Lsp_Writer Ast_Worker
    Lir Value_Range Local_Range Local_Sound Dominators Induction_Slot Induction_Sound Field_Range Iron_Types
    Lir_Instr Int_Arith Lir_Run Lir_Dce Lir_Verify Lir_Fold Lir_Passes
begin

text \<open>
  A verification of the Iron toolchain: the memory-safety runtime that every compiled program links
  (src/runtime), the front of the compiler (src/lexer, src/diagnostics), the verifier, two passes of the
  optimiser and the value-range analysis of its back end (src/lir), the encodings of the standard library (src/stdlib), and the transport, positions and
  document workers of the language server (src/lsp).

  \<^bold>\<open>How the parts fit.\<close> A compiled Iron program checks every dereference at run time. An allocation gets
  a generation from the generation table; a reference carries it; the check compares. A stack scope has a
  generation of its own, so that a reference into a finished scope is caught. List buffers and receivers
  are pinned by address while they are borrowed. The compiler reads a source (several files packed into
  one text under file markers), turns it into tokens, and reports through the diagnostic list. Further down it
  lowers the program to blocks of instructions, and the value-range analysis decides which locals and object
  fields of the generic integer type the C code may hold in a narrower type. The optimiser rewrites the blocks in rounds of passes, each followed by
  the verifier, and the C code it leads to calls the integer helpers of the runtime. The language server reads framed messages, hands
  document changes to one worker per document, translates the compiler's spans to editor ranges and
  queues its answers for the writer thread.

  \<^bold>\<open>Theories.\<close>
  \<^item> Prelude: machine integers, results of a run, character classes, decimal printing, labelled runs, and
    the locale \<open>generations\<close> that states what a scheme of generations promises.
  \<^item> Gen_Table (iron\_heap\_track.c): the process-wide table of generations, its lock-free growth, issue and
    end of generations, pins of generations. Interpretation \<open>gens\<close> of \<open>generations\<close>.
  \<^item> Pins (iron\_heap\_track.c, iron\_runtime.h): address pins of list buffers and receivers; locale \<open>pin_bag\<close>.
  \<^item> Stack_Scope (iron\_heap\_track.c, iron\_runtime.h): stack scopes, their registry, the binary search of the
    slow path and the pointer checks. Interpretation \<open>scopes\<close> of \<open>generations\<close>.
  \<^item> Token (lexer.c, lexer.h): kinds, keyword table, binary search; locale \<open>sorted_table\<close>.
  \<^item> File_Marker (diagnostics.c, stdlib\_origin.c, project\_build.c, cli/build.c): file markers, the gate that
    honours them, the writers of markers.
  \<^item> Diag (diagnostics.c): spans and the diagnostic list.
  \<^item> Lexer_Base, Lexer_String, Lexer_Number, Lexer (lexer.c): the whole lexer; locale \<open>scanner\<close> is the
    contract of a token lexer, interpreted for strings, numbers, identifiers and the dispatcher.
  \<^item> Encoding (iron\_encoding.c): hexadecimal and both base64 alphabets; locale \<open>codec\<close> is the contract of an
    encoder with its decoder, interpreted for all three.
  \<^item> Sha256 (lsp/store/sha256.c): the streaming hash, equal to a definition after FIPS 180-4.
  \<^item> Lsp_Position (line\_index.c, utf.c, span.c): the line index, columns in both encodings, ranges.
  \<^item> Frame (frame.c, reader.c): the Content-Length parser and the reader thread.
  \<^item> Lsp_Writer (writer.c): the outbound ring, its drop policy and the writer thread; locale \<open>outbound_queue\<close>
    is the abstract queue, interpreted for the ring.
  \<^item> Ast_Worker (mailbox.c, ast\_worker.c, handlers\_document.c): the coalescing mailbox, the worker loop and the
    handlers that answer pull requests.
  \<^item> Iron_Types (analyzer/types.c): types and when the compiler takes two of them for equal.
  \<^item> Lir (lir.h, lir.c): the lowered representation with what its instructions do in a run, and the
    appending of an instruction.
  \<^item> Value_Range (value\_range.c): interval arithmetic and the choice of a C type.
  \<^item> Local_Range, Local_Sound (value\_range.c): the evaluation of the ranges of locals and why its tables bound
    every run.
  \<^item> Dominators (value\_range.c): reachable blocks and the dominator table.
  \<^item> Induction_Slot, Induction_Sound (value\_range.c): loop counters, the analysis as a whole, and its soundness.
  \<^item> Field_Range (value\_range.c): the pass over object fields.
  \<^item> Lir_Instr (lir.h, lir.c, lir\_optimize.c, verify.c): every instruction with its operands, the collectors of operands, purity.
  \<^item> Int_Arith (iron\_runtime.h): checked division, shifts and bounds checks, against integers wrapped to a width.
  \<^item> Lir_Run: what a function does when it runs, and which instructions act on the world. Memory, calls and everything the representation
    leaves to the runtime are a parameter, the record \<open>lir_sem\<close>.
  \<^item> Lir_Dce (lir\_optimize.c, run\_dce): the removal of dead instructions.
  \<^item> Lir_Verify (verify.c): the verifier, the gate after a pass, and where dead code elimination and the verifier fail together.
  \<^item> Lir_Fold (lir\_optimize.c, run\_constant\_folding): constant folding.
  \<^item> Lir_Passes (lir\_optimize.c, iron\_lir\_optimize): the loop of passes; locale \<open>lir_pass\<close> is the contract of a pass, interpreted as
    \<open>folding\<close> and \<open>dead\<close>.

  \<^bold>\<open>What is proved.\<close> The dereference checks are exact: a generation is live exactly between its issue and its
  end, it is issued once, and the release and debug checks agree. The lexer is lossless, its positions
  are those of the text, it always ends with one end-of-file token, and literals denote what they should.
  The honoured file markers of a packed source are exactly the written ones. Decoding inverts encoding within
  the buffers the code allocates. What one end of the protocol enqueues the other end receives, however the
  bytes are cut, and a framing error stops the reader after the messages before it, however it is cut; a token that lies on one line reaches the editor at its own characters; every pull request of a document is
  answered once and the newest version is compiled. The dominator table is dominance by paths, and a local
  given a narrower type holds a value of that type in every state of every run. The verifier accepts exactly the modules that
  satisfy its eight invariants, control never leaves a function it accepts, and constant folding and dead code elimination, alone and in the
  optimiser's loop, change no run and never make a valid module invalid.

  \<^bold>\<open>Where the code falls short.\<close> Examples beside these theorems evaluate the model where the code goes wrong. An unsigned counter can leave
  the range the analysis infers for it (\<open>uint_counter_unsound\<close>), and a field can be given a type that is too narrow when a block has an edge besides the
  narrowed one (\<open>field_narrowing_unsound\<close>). Dead code elimination (\<open>dce_limits\<close>) removes a definition used only past the 64 operands the collectors hold, without
  the verifier noticing, and a slice nobody reads together with its bounds check.

  \<^bold>\<open>Hypotheses on functions.\<close> The soundness of local ranges is about functions that pass two checks. The first is \<open>ranges_ready\<close>: the value table
  names the defining instructions (kept by \<open>alloc_instr\<close>, which is proved), the path from an address to its slot has at most the 32 steps
  the analysis walks, operands of generic arithmetic are of generic type, the edges of a block are those of its terminator and agree in
  both directions, and a loop whose counter is inferred computes its condition and its update from the counter where they are used. The second is
  \<open>unsigned_counters_ok\<close>: the range inferred for an unsigned counter does not go below zero and its bound is not negative as a signed number. The
  code does not check the second, and \<open>uint_counter_unsound\<close> shows it wrong outside it. The analysis runs after the optimiser (emit\_split.c); neither the
  lowering nor the optimiser is proved to establish the checks. Each evaluates, and the witness passes both.

  The passes are about functions that satisfy \<open>dce_ready\<close>, \<open>fold_ready\<close> or, for the loop, \<open>pass_ready\<close>: the value table names the
  defining instructions, terminators are last, integer constants lie in their types, operands of binary instructions are computed before
  them on every path (constants only, for \<open>dce_ready\<close>), and for folding, integer arithmetic and comparisons are of one integer type; for dead code elimination
  and the loop, an instruction other than a list literal has at most the 64 operands the collectors hold, and every slice is read, directly or
  through other values, by an instruction with an effect (\<open>slices_held\<close>). Which instructions have an effect is part of the run semantics (\<open>reads_only\<close> in
  Lir_Run, read off the meaning of the opcodes); that the pass takes no other for pure is proved (\<open>effect_stays\<close>). The loop is about environments that leave
  copy propagation, store-load elimination and strength reduction out; these passes are arguments of the model. Control stays within a
  verified function when joins are gone (the optimiser removes them first) and every target of a terminator is in its block's list of
  successors, from which the verifier computes the reachable blocks.

  The reader's theorems are about every way of cutting the stream into chunks; the code pulls at most 4096 bytes at a time. The packed source of the
  marker theorem is that of tests.iron; the two comment lines that the builder of combined.iron adds are left out.

  \<^bold>\<open>Bounds.\<close> Nearly every loop of the model is a total function with a measure. The evaluators of local ranges
  carry fuel of twice the number of values plus one; each call marks a value or a slot as being visited before it
  recurses, so this is enough and they always return. The iteration of the dominator table is a
  partial function that is proved to return. A run of a lowered function counts blocks; the theorems about the passes hold for every count, so that a run that
  does not end does not end after the pass either. The optimiser's loop has the 32 rounds of the code. Sizes of sources are bounded by the
  32-bit offsets of the tokens where a theorem reads them back. Allocation is a parameter that says which
  requests are granted.

  \<^bold>\<open>Not modelled.\<close> The parser, the analyses over the syntax tree and compile-time evaluation, the lowering to the intermediate
  representations, the other passes of the optimiser (inlining, copy propagation, store-load elimination, strength reduction, the
  elision of reference counts and checks) and the generation of C text, the formatter, the
  dispatch of requests in the language server and its features over the syntax tree, the command line, and the bindings of third-party libraries; the help
  texts and the printing of diagnostics. They work on large trees of another kind, or are calls into the
  operating system and libraries.
\<close>

section \<open>From the lexer to the editor\<close>

text \<open>C18: A token that lies on one line reaches the editor at its own characters. For every token the lexer produces from user text that is not empty
  and has no line break (NL or CR) in it, when the text before it on its line and the token itself are well-formed UTF-8, the source has less than
  \<open>2 ^ 32 - 1\<close> bytes, no NUL byte and no line break after a backslash, and the lexer is not in marker test mode: the span the parser builds for the token becomes, in
  either encoding, the range that starts after the characters before the token on its line and ends after its own characters. Not
  covered are the end-of-file token (empty), newline tokens and strings over several lines: the span ends on the line it starts on, at a
  column computed from the length of the token, so the range of such a string is not that of its characters.\<close>

theorem token_range_exact:
  assumes "src = a @ utf8s ps @ utf8s qs @ b" "a = [] \<or> last a = NL" "length src + 1 < 2 ^ 32"
    and "qs \<noteq> []" "\<forall>cp\<in>set (ps @ qs). cp < 0x110000" "NL \<notin> set (utf8s (ps @ qs))" "CR \<notin> set (utf8s (ps @ qs))"
    and "no_escaped_newline src" "NUL \<notin> set src" "\<not> marker_test_mode fl"
    and t: "t \<in> set (fst (iron_lex_all al cancel (iron_lexer_create fl src filename diags sources)))"
      "unat (tok_offset t) = length (a @ utf8s ps)" "unat (tok_len t) = length (utf8s qs)"
  shows "ilsp_span_to_lsp_range (iron_token_span f t) \<lparr>doc_text = src, doc_line_idx = ilsp_line_index_rebuild src\<rparr> enc =
    \<lparr>r_start = \<lparr>lsp_line = of_nat (newlines a), lsp_character = lsp_column enc ps\<rparr>,
     r_end = \<lparr>lsp_line = of_nat (newlines a), lsp_character = lsp_column enc (ps @ qs)\<rparr>\<rparr>"
proof -
  have "tok_line t = of_nat (line_of src (unat (tok_offset t))) \<and> tok_col t = of_nat (col_of src (unat (tok_offset t)))"
    using lexed_located [OF assms(8,3,9,10)] t(1) by (auto simp: list_all_iff)
  moreover have "tok_len t = of_nat (length (utf8s qs))" by (simp flip: t(3))
  ultimately show ?thesis
    using token_range [OF assms(1-7)] t(2) by simp
qed

theorem token_range_exact_witness:
  "ilsp_span_to_lsp_range (iron_token_span None (hd (fst (iron_lex_all (\<lambda>_. True) (\<lambda>_. False)
      (iron_lexer_create \<lparr>marker_test_mode = False, marker_packed_source = False\<rparr> (utf8 0x78) None iron_diaglist_create ([], 0))))))
      \<lparr>doc_text = utf8 0x78, doc_line_idx = ilsp_line_index_rebuild (utf8 0x78)\<rparr> ILSP_ENC_UTF16 =
    \<lparr>r_start = \<lparr>lsp_line = 0, lsp_character = 0\<rparr>, r_end = \<lparr>lsp_line = 0, lsp_character = 1\<rparr>\<rparr>"
proof -
  let ?l = "iron_lexer_create \<lparr>marker_test_mode = False, marker_packed_source = False\<rparr> (utf8 0x78) None iron_diaglist_create ([], 0)"
  let ?ts = "fst (iron_lex_all (\<lambda>_. True) (\<lambda>_. False) ?l)"
  have "?ts \<noteq> [] \<and> unat (tok_offset (hd ?ts)) = 0 \<and> unat (tok_len (hd ?ts)) = 1" by code_simp
  then have "hd ?ts \<in> set ?ts" "unat (tok_offset (hd ?ts)) = 0" "unat (tok_len (hd ?ts)) = 1" by simp_all
  moreover have "utf8 0x78 = ''x''" by code_simp
  ultimately show ?thesis
    using token_range_exact [where src = "utf8 0x78" and a = "[]" and b = "[]" and ps = "[]" and qs = "[0x78]" and t = "hd ?ts"
      and fl = "\<lparr>marker_test_mode = False, marker_packed_source = False\<rparr>" and f = None and enc = ILSP_ENC_UTF16]
    by (auto simp: no_escaped_newline_def lsp_column_def utf16_units_def)
qed

section \<open>From the server to its peer\<close>



end
